(* ===== verification/SXLA_Prelude.thy ===== *)
theory SXLA_Prelude
  imports Main "HOL-Library.Word"
begin

text \<open>
  Shared vocabulary of the SXLA development: the machine integer types of the Rust sources, the
  arithmetic of \<^verbatim>\<open>core::num\<close> that the sources call (saturating, checked and wrapping
  forms, little-endian bytes), results with an error branch, and the generic list lemmas that
  several components need.

  Unsigned integers are words of their width, signed 64-bit integers are \<^typ>\<open>int\<close> values read
  through the explicit range \<open>i64_min .. i64_max\<close>, and an \<^verbatim>\<open>f64\<close> is its IEEE-754 bit pattern.
  A \<^verbatim>\<open>Vec\<close> is a list and a \<^verbatim>\<open>usize\<close> that indexes one is a \<^typ>\<open>nat\<close>.
\<close>

unbundle bit_operations_syntax

named_theorems arena_simps \<open>rewrite rules for the node and region arena\<close>
named_theorems ring_simps \<open>rewrite rules for the single-producer ring\<close>

type_synonym u8 = "8 word"
type_synonym u16 = "16 word"
type_synonym u32 = "32 word"
type_synonym u64 = "64 word"
type_synonym i64 = int
type_synonym f64 = "64 word"

section \<open>Results\<close>

text \<open>\<^verbatim>\<open>Result<T, E>\<close> is a sum with the error on the left; \<open>rbind\<close> is the \<^verbatim>\<open>?\<close> operator.\<close>

definition rbind :: "'e + 'a \<Rightarrow> ('a \<Rightarrow> 'e + 'b) \<Rightarrow> 'e + 'b" where
  "rbind r f = (case r of Inl e \<Rightarrow> Inl e | Inr x \<Rightarrow> f x)"

definition map_err :: "('e \<Rightarrow> 'f) \<Rightarrow> 'e + 'a \<Rightarrow> 'f + 'a" where
  "map_err g r = (case r of Inl e \<Rightarrow> Inl (g e) | Inr x \<Rightarrow> Inr x)"

definition is_ok :: "'e + 'a \<Rightarrow> bool" where
  "is_ok r = (case r of Inl _ \<Rightarrow> False | Inr _ \<Rightarrow> True)"

lemma rbind_simps [simp]: "rbind (Inl e) f = Inl e" "rbind (Inr x) f = f x"
  by (simp_all add: rbind_def)

lemma map_err_simps [simp]: "map_err g (Inl e) = Inl (g e)" "map_err g (Inr x) = Inr x"
  by (simp_all add: map_err_def)

lemma is_ok_simps [simp]: "\<not> is_ok (Inl e)" "is_ok (Inr x)"
  by (simp_all add: is_ok_def)

lemma is_ok_iff: "is_ok r \<longleftrightarrow> (\<exists>x. r = Inr x)"
  by (cases r) auto

lemma rbind_eq_Inr: "rbind r f = Inr y \<longleftrightarrow> (\<exists>x. r = Inr x \<and> f x = Inr y)"
  by (cases r) auto

lemma rbind_eq_Inl: "rbind r f = Inl e \<longleftrightarrow> r = Inl e \<or> (\<exists>x. r = Inr x \<and> f x = Inl e)"
  by (cases r) auto

lemma map_err_eq_Inr: "map_err g r = Inr y \<longleftrightarrow> r = Inr y"
  by (cases r) auto

section \<open>Signed 64-bit arithmetic\<close>

definition i64_min :: int where "i64_min = - (2 ^ 63)"
definition i64_max :: int where "i64_max = 2 ^ 63 - 1"

definition in_i64 :: "int \<Rightarrow> bool" where
  "in_i64 x \<longleftrightarrow> i64_min \<le> x \<and> x \<le> i64_max"

definition sat_i64 :: "int \<Rightarrow> int" where
  "sat_i64 x = max i64_min (min i64_max x)"

definition saturating_mul_i64 :: "int \<Rightarrow> int \<Rightarrow> int" where
  "saturating_mul_i64 x y = sat_i64 (x * y)"

definition checked_i64 :: "int \<Rightarrow> int option" where
  "checked_i64 x = (if in_i64 x then Some x else None)"

text \<open>Rust's integer division truncates towards zero.\<close>

definition trunc_div :: "int \<Rightarrow> int \<Rightarrow> int" where
  "trunc_div x y = sgn x * sgn y * (\<bar>x\<bar> div \<bar>y\<bar>)"

definition checked_div_i64 :: "int \<Rightarrow> int \<Rightarrow> int option" where
  "checked_div_i64 x y = (if y = 0 then None else checked_i64 (trunc_div x y))"

lemma in_i64_sat [simp]: "in_i64 (sat_i64 x)"
  by (simp add: in_i64_def sat_i64_def i64_min_def i64_max_def)

lemma sat_i64_id: "in_i64 x \<Longrightarrow> sat_i64 x = x"
  by (simp add: in_i64_def sat_i64_def)

lemma checked_i64_Some: "checked_i64 x = Some y \<longleftrightarrow> in_i64 x \<and> y = x"
  by (auto simp: checked_i64_def)

lemma sat_i64_mono: "x \<le> y \<Longrightarrow> sat_i64 x \<le> sat_i64 y"
  by (simp add: sat_i64_def)

section \<open>Unsigned arithmetic\<close>

definition saturating_add :: "'a::len word \<Rightarrow> 'a word \<Rightarrow> 'a word" where
  "saturating_add x y = (if unat x + unat y < 2 ^ LENGTH('a) then x + y else - 1)"

definition saturating_sub :: "'a::len word \<Rightarrow> 'a word \<Rightarrow> 'a word" where
  "saturating_sub x y = (if y \<le> x then x - y else 0)"

lemma unat_minus_one_eq: "unat (- 1 :: 'a::len word) = 2 ^ LENGTH('a) - 1"
  by (simp add: unsigned_minus_1_eq_mask mask_eq_exp_minus_1)

lemma unat_saturating_add:
  "unat (saturating_add (x :: 'a::len word) y) = min (unat x + unat y) (2 ^ LENGTH('a) - 1)"
  by (auto simp: saturating_add_def unat_word_ariths unat_minus_one_eq min_def)

lemma unat_saturating_sub: "unat (saturating_sub x y) = unat x - unat y"
  by (auto simp: saturating_sub_def unat_sub word_le_nat_alt)

lemma unat_of_nat_small: "n < 2 ^ LENGTH('a) \<Longrightarrow> unat (word_of_nat n :: 'a::len word) = n"
  by (simp add: unsigned_of_nat take_bit_nat_eq_self)

text \<open>\<^verbatim>\<open>to_le_bytes\<close>: byte \<open>k\<close> holds bits \<open>8 k .. 8 k + 7\<close>.\<close>

definition le_byte :: "nat \<Rightarrow> 'a::len word \<Rightarrow> u8" where
  "le_byte k v = ucast (drop_bit (8 * k) v)"

definition le_bytes :: "'a::len word \<Rightarrow> u8 list" where
  "le_bytes v = map (\<lambda>k. le_byte k v) [0 ..< LENGTH('a) div 8]"

lemma bit_le_byte: "bit (le_byte k (v :: 'a::len word)) j \<longleftrightarrow> j < 8 \<and> bit v (8 * k + j)"
  by (auto simp: le_byte_def bit_simps)

lemma length_le_bytes [simp]: "length (le_bytes (v :: 'a::len word)) = LENGTH('a) div 8"
  by (simp add: le_bytes_def)

lemma le_bytes_inj:
  fixes v w :: "'a::len word"
  assumes "8 dvd LENGTH('a)" and "le_bytes v = le_bytes w"
  shows "v = w"
proof (rule bit_word_eqI)
  fix n assume n: "n < LENGTH('a)"
  let ?k = "n div 8"
  from n assms(1) have "?k < LENGTH('a) div 8" by (auto elim: dvdE)
  with assms(2) have "le_byte ?k v = le_byte ?k w"
    by (auto simp: le_bytes_def)
  then have "bit (le_byte ?k v) (n mod 8) = bit (le_byte ?k w) (n mod 8)" by simp
  then show "bit v n = bit w n" by (simp add: bit_le_byte)
qed

section \<open>Option-valued lookup and list lemmas\<close>

text \<open>\<^verbatim>\<open>slice.get(i)\<close>.\<close>

definition nth_opt :: "'a list \<Rightarrow> nat \<Rightarrow> 'a option" where
  "nth_opt xs i = (if i < length xs then Some (xs ! i) else None)"

lemma nth_opt_Some: "nth_opt xs i = Some x \<longleftrightarrow> i < length xs \<and> xs ! i = x"
  by (auto simp: nth_opt_def)

lemma nth_opt_None [simp]: "nth_opt xs i = None \<longleftrightarrow> length xs \<le> i"
  by (auto simp: nth_opt_def)

text \<open>A write at an index that is either in range or the next free one.\<close>

definition list_put :: "'a list \<Rightarrow> nat \<Rightarrow> 'a \<Rightarrow> 'a list" where
  "list_put xs i v = (if i = length xs then xs @ [v] else xs[i := v])"

lemma length_list_put [simp]: "i \<le> length xs \<Longrightarrow> length (list_put xs i v) = max (length xs) (Suc i)"
  by (auto simp: list_put_def)

lemma nth_list_put_eq [simp]: "i \<le> length xs \<Longrightarrow> list_put xs i v ! i = v"
  by (auto simp: list_put_def)

lemma nth_list_put_neq [simp]: "i \<le> length xs \<Longrightarrow> j < length xs \<Longrightarrow> j \<noteq> i \<Longrightarrow> list_put xs i v ! j = xs ! j"
  by (auto simp: list_put_def nth_append)

lemma set_list_put: "set (list_put xs i v) \<subseteq> insert v (set xs)"
  by (auto simp: list_put_def dest!: set_update_subset_insert [THEN subsetD])

lemma not_in_butlast_last: "distinct xs \<Longrightarrow> xs \<noteq> [] \<Longrightarrow> last xs \<notin> set (butlast xs)"
  by (metis append_butlast_last_id distinct_butlast not_distinct_conv_prefix)

lemma set_butlast_last: "xs \<noteq> [] \<Longrightarrow> set xs = insert (last xs) (set (butlast xs))"
  by (metis append_butlast_last_id insert_def set_append list.set(1,2) Un_commute Un_insert_left sup_bot_left)

lemma distinct_bounded_length:
  assumes "distinct xs" and "\<forall>x \<in> set xs. f x < n" and "inj_on f (set xs)"
  shows "length xs \<le> n"
proof -
  have "card (f ` set xs) = length xs"
    using assms(1,3) by (simp add: card_image distinct_card)
  moreover have "f ` set xs \<subseteq> {..<n}" using assms(2) by auto
  then have "card (f ` set xs) \<le> n" using card_mono [of "{..<n}"] by fastforce
  ultimately show ?thesis by simp
qed

end
