(* ===== verification/Ids.thy ===== *)
theory Ids
  imports SXLA_Prelude
begin

text \<open>
  Packed IR identifiers, \<^verbatim>\<open>crates/xir-core/src/id.rs\<close>: the five IR levels, the 64-bit node,
  value and region handles with their single writer \<^verbatim>\<open>pack\<close> and their decoders. The theorems
  are the bit-level round trips and that no packed handle collides with a sentinel.
\<close>

section \<open>IR levels\<close>

datatype ir_level = Graph | Tensor_level | Fusion | Loop | Target

fun level_code :: "ir_level \<Rightarrow> u8" where
  "level_code Graph = 0"
| "level_code Tensor_level = 1"
| "level_code Fusion = 2"
| "level_code Loop = 3"
| "level_code Target = 4"

definition level_from_code :: "u8 \<Rightarrow> ir_level option" where
  "level_from_code c =
     (if c = 0 then Some Graph
      else if c = 1 then Some Tensor_level
      else if c = 2 then Some Fusion
      else if c = 3 then Some Loop
      else if c = 4 then Some Target
      else None)"

text \<open>\<^verbatim>\<open>IrLevel\<close> derives \<^verbatim>\<open>Ord\<close>: the order of the discriminants.\<close>

instantiation ir_level :: linorder
begin

definition less_eq_ir_level :: "ir_level \<Rightarrow> ir_level \<Rightarrow> bool" where
  "less_eq_ir_level a b \<longleftrightarrow> level_code a \<le> level_code b"

definition less_ir_level :: "ir_level \<Rightarrow> ir_level \<Rightarrow> bool" where
  "less_ir_level a b \<longleftrightarrow> level_code a < level_code b"

lemma level_code_inj: "level_code a = level_code b \<Longrightarrow> a = b"
  by (cases a; cases b) simp_all

instance
  by standard (auto simp: less_eq_ir_level_def less_ir_level_def intro: level_code_inj)

end

lemma level_code_bound: "unat (level_code l) < 8"
  by (cases l) simp_all

section \<open>Node handles\<close>

datatype node_id = NodeId (nid_raw: u64)

definition NodeId_NONE :: node_id where "NodeId_NONE = NodeId (- 1)"

definition nid_pack :: "u32 \<Rightarrow> u16 \<Rightarrow> ir_level \<Rightarrow> node_id" where
  "nid_pack index generation level =
     NodeId (ucast index OR push_bit 32 (ucast generation) OR push_bit 48 (ucast (level_code level)))"

definition nid_index :: "node_id \<Rightarrow> u32" where
  "nid_index n = ucast (nid_raw n AND 0xFFFFFFFF)"

definition nid_generation :: "node_id \<Rightarrow> u16" where
  "nid_generation n = ucast (drop_bit 32 (nid_raw n) AND 0xFFFF)"

definition nid_level_bits :: "node_id \<Rightarrow> u8" where
  "nid_level_bits n = ucast (drop_bit 48 (nid_raw n) AND 7)"

definition nid_is_none :: "node_id \<Rightarrow> bool" where
  "nid_is_none n \<longleftrightarrow> nid_raw n = - 1"

section \<open>Value handles\<close>

datatype value_id = ValueId (vid_raw: u64)

definition ValueId_NONE :: value_id where "ValueId_NONE = ValueId (- 1)"

definition vid_from_node :: "node_id \<Rightarrow> u8 \<Rightarrow> value_id" where
  "vid_from_node node slot = ValueId (nid_raw node OR push_bit 60 (ucast slot AND 0xF))"

definition vid_node :: "value_id \<Rightarrow> node_id" where
  "vid_node v = NodeId (vid_raw v AND NOT (push_bit 60 0xF))"

definition vid_slot :: "value_id \<Rightarrow> u8" where
  "vid_slot v = ucast (drop_bit 60 (vid_raw v) AND 0xF)"

definition vid_is_none :: "value_id \<Rightarrow> bool" where
  "vid_is_none v \<longleftrightarrow> vid_raw v = - 1"

section \<open>Region handles\<close>

datatype region_id = RegionId (rid_raw: u64)

definition RegionId_NONE :: region_id where "RegionId_NONE = RegionId (- 1)"

definition rid_pack :: "u32 \<Rightarrow> u16 \<Rightarrow> region_id" where
  "rid_pack index generation = RegionId (ucast index OR push_bit 32 (ucast generation))"

definition rid_index :: "region_id \<Rightarrow> u32" where
  "rid_index r = ucast (rid_raw r AND 0xFFFFFFFF)"

definition rid_generation :: "region_id \<Rightarrow> u16" where
  "rid_generation r = ucast (drop_bit 32 (rid_raw r) AND 0xFFFF)"

definition rid_is_none :: "region_id \<Rightarrow> bool" where
  "rid_is_none r \<longleftrightarrow> rid_raw r = - 1"

section \<open>Masks as bit predicates\<close>

lemma id_masks:
  "(0xFFFFFFFF :: u64) = mask 32" "(0xFFFF :: u64) = mask 16"
  "(0xF :: u64) = mask 4" "(7 :: u64) = mask 3"
  by (simp_all add: mask_eq_exp_minus_1)

lemma bit_level_code: "bit (level_code l) n \<Longrightarrow> n < 3"
proof -
  have "level_code l AND mask 3 = level_code l" by (cases l) (simp_all add: mask_eq_exp_minus_1)
  then show "bit (level_code l) n \<Longrightarrow> n < 3"
    by (metis bit_and_iff bit_mask_iff)
qed

lemmas id_bits = bit_simps

section \<open>Round trips\<close>

lemma nid_index_pack [simp]: "nid_index (nid_pack i g l) = i"
  unfolding nid_index_def id_masks
  by (rule bit_word_eqI) (auto simp: nid_pack_def id_bits)

lemma nid_generation_pack [simp]: "nid_generation (nid_pack i g l) = g"
  unfolding nid_generation_def id_masks
  by (rule bit_word_eqI) (auto simp: nid_pack_def id_bits dest: bit_imp_le_length)

lemma nid_level_bits_pack [simp]: "nid_level_bits (nid_pack i g l) = level_code l"
  unfolding nid_level_bits_def id_masks
  by (rule bit_word_eqI)
    (auto simp: nid_pack_def id_bits dest: bit_imp_le_length bit_level_code)

lemma rid_index_pack [simp]: "rid_index (rid_pack i g) = i"
  unfolding rid_index_def id_masks
  by (rule bit_word_eqI) (auto simp: rid_pack_def id_bits)

lemma rid_generation_pack [simp]: "rid_generation (rid_pack i g) = g"
  unfolding rid_generation_def id_masks
  by (rule bit_word_eqI) (auto simp: rid_pack_def id_bits dest: bit_imp_le_length)

text \<open>Bits 51 to 63 of a packed node handle and bits 48 to 63 of a packed region handle are zero.\<close>

lemma bit_nid_pack_high: "bit (nid_raw (nid_pack i g l)) n \<Longrightarrow> n < 51"
  by (auto simp: nid_pack_def id_bits dest: bit_imp_le_length bit_level_code)

lemma bit_rid_pack_high: "bit (rid_raw (rid_pack i g)) n \<Longrightarrow> n < 48"
  by (auto simp: rid_pack_def id_bits dest: bit_imp_le_length)

lemma bit_all_ones: "bit (- 1 :: u64) 63"
  by simp

lemma nid_pack_not_none [simp]: "\<not> nid_is_none (nid_pack i g l)" "nid_pack i g l \<noteq> NodeId_NONE"
  using bit_nid_pack_high [of i g l 63] bit_all_ones
  by (auto simp: nid_is_none_def NodeId_NONE_def)

lemma rid_pack_not_none [simp]: "\<not> rid_is_none (rid_pack i g)" "rid_pack i g \<noteq> RegionId_NONE"
  using bit_rid_pack_high [of i g 63] bit_all_ones
  by (auto simp: rid_is_none_def RegionId_NONE_def)

lemma nid_is_none_iff: "nid_is_none n \<longleftrightarrow> n = NodeId_NONE"
  by (cases n) (simp add: nid_is_none_def NodeId_NONE_def)

lemma rid_is_none_iff: "rid_is_none n \<longleftrightarrow> n = RegionId_NONE"
  by (cases n) (simp add: rid_is_none_def RegionId_NONE_def)

lemma vid_is_none_iff: "vid_is_none n \<longleftrightarrow> n = ValueId_NONE"
  by (cases n) (simp add: vid_is_none_def ValueId_NONE_def)

lemma NONE_is_none [simp]: "nid_is_none NodeId_NONE" "rid_is_none RegionId_NONE" "vid_is_none ValueId_NONE"
  by (simp_all add: nid_is_none_iff rid_is_none_iff vid_is_none_iff)

text \<open>A value handle of a node whose four top bits are clear decodes to that node and slot.\<close>

lemma vid_node_from_node:
  assumes "\<And>n. bit (nid_raw x) n \<Longrightarrow> n < 60"
  shows "vid_node (vid_from_node x s) = x"
proof -
  have "nid_raw (vid_node (vid_from_node x s)) = nid_raw x"
    unfolding vid_node_def vid_from_node_def id_masks
    by (rule bit_word_eqI) (use assms in \<open>fastforce simp: id_bits\<close>)
  then show ?thesis by (simp add: node_id.expand)
qed

lemma vid_slot_from_node:
  assumes "\<And>n. bit (nid_raw x) n \<Longrightarrow> n < 60" and "unat s < 16"
  shows "vid_slot (vid_from_node x s) = s"
proof -
  have "take_bit 4 s = s"
    using assms(2) by (simp add: word_unat_eq_iff unsigned_take_bit_eq take_bit_nat_eq_self)
  then have *: "bit s n \<Longrightarrow> n < 4" for n by (metis bit_take_bit_iff)
  show ?thesis
    unfolding vid_slot_def vid_from_node_def id_masks
    by (rule bit_word_eqI) (use assms(1) * in \<open>fastforce simp: id_bits\<close>)
qed

lemma vid_node_pack [simp]: "vid_node (vid_from_node (nid_pack i g l) s) = nid_pack i g l"
  by (rule vid_node_from_node) (auto dest: bit_nid_pack_high)

lemma vid_slot_pack: "unat s < 16 \<Longrightarrow> vid_slot (vid_from_node (nid_pack i g l) s) = s"
  by (rule vid_slot_from_node) (auto dest: bit_nid_pack_high)

end
