(* ===== verification/Ty.thy ===== *)
theory Ty
  imports Ids
begin

text \<open>
  The type system, \<^verbatim>\<open>crates/xir-core/src/ty.rs\<close>: scalar element types, bounded-rank shapes,
  layouts, address spaces and XIR types, with their saturating size arithmetic.
\<close>

definition MAX_RANK :: nat where "MAX_RANK = 4"

datatype scalar_type = F64 | I64 | F32 | I32 | Bool_ty

fun scalar_code :: "scalar_type \<Rightarrow> u8" where
  "scalar_code F64 = 0"
| "scalar_code I64 = 1"
| "scalar_code F32 = 2"
| "scalar_code I32 = 3"
| "scalar_code Bool_ty = 4"

fun scalar_byte_size :: "scalar_type \<Rightarrow> u32" where
  "scalar_byte_size F64 = 8"
| "scalar_byte_size I64 = 8"
| "scalar_byte_size F32 = 4"
| "scalar_byte_size I32 = 4"
| "scalar_byte_size Bool_ty = 1"

definition scalar_from_code :: "u8 \<Rightarrow> scalar_type option" where
  "scalar_from_code c =
     (if c = 0 then Some F64
      else if c = 1 then Some I64
      else if c = 2 then Some F32
      else if c = 3 then Some I32
      else if c = 4 then Some Bool_ty
      else None)"

fun is_float :: "scalar_type \<Rightarrow> bool" where
  "is_float F64 = True"
| "is_float F32 = True"
| "is_float _ = False"

datatype layout = RowMajor | ColMajor

fun layout_code :: "layout \<Rightarrow> u8" where
  "layout_code RowMajor = 0"
| "layout_code ColMajor = 1"

datatype type_error = RankTooLarge | DimNonPositive

section \<open>Shapes\<close>

record shape =
  sh_dims :: "i64 list"
  sh_rank :: u8

definition shape_scalar :: shape where
  "shape_scalar = \<lparr>sh_dims = replicate MAX_RANK 0, sh_rank = 0\<rparr>"

text \<open>The loop of \<^verbatim>\<open>Shape::from_dims\<close> over \<^verbatim>\<open>dims.iter().enumerate()\<close>.\<close>

fun from_dims_loop :: "nat \<Rightarrow> i64 list \<Rightarrow> shape \<Rightarrow> type_error + shape" where
  "from_dims_loop i [] out = Inr out"
| "from_dims_loop i (d # ds) out =
     (if d \<le> 0 then Inl DimNonPositive
      else from_dims_loop (Suc i) ds (out\<lparr>sh_dims := (sh_dims out)[i := d]\<rparr>))"

definition shape_from_dims :: "i64 list \<Rightarrow> type_error + shape" where
  "shape_from_dims dims =
     (if length dims > MAX_RANK then Inl RankTooLarge
      else from_dims_loop 0 dims
             \<lparr>sh_dims = replicate MAX_RANK 0, sh_rank = word_of_nat (length dims)\<rparr>)"

definition shape_dim :: "shape \<Rightarrow> u8 \<Rightarrow> i64 option" where
  "shape_dim s axis = (if axis < sh_rank s then Some (sh_dims s ! unat axis) else None)"

fun num_elements_loop :: "i64 list \<Rightarrow> i64 \<Rightarrow> i64" where
  "num_elements_loop [] n = n"
| "num_elements_loop (d # ds) n = num_elements_loop ds (saturating_mul_i64 n d)"

definition shape_as_slice :: "shape \<Rightarrow> i64 list" where
  "shape_as_slice s = take (unat (sh_rank s)) (sh_dims s)"

definition num_elements :: "shape \<Rightarrow> i64" where
  "num_elements s = num_elements_loop (take (unat (sh_rank s)) (sh_dims s)) 1"

section \<open>Tensor and value types\<close>

record tensor_type =
  tt_elem :: scalar_type
  tt_shape :: shape
  tt_layout :: layout

datatype address_space = Global | Shared | Register

fun space_code :: "address_space \<Rightarrow> u8" where
  "space_code Global = 0"
| "space_code Shared = 1"
| "space_code Register = 2"

datatype ty =
    Scalar scalar_type
  | Tensor tensor_type
  | Token
  | MemRef tensor_type address_space
  | NoneTy

fun ty_byte_size :: "ty \<Rightarrow> i64" where
  "ty_byte_size (Scalar s) = uint (scalar_byte_size s)"
| "ty_byte_size (Tensor t) =
     saturating_mul_i64 (num_elements (tt_shape t)) (uint (scalar_byte_size (tt_elem t)))"
| "ty_byte_size (MemRef t _) =
     saturating_mul_i64 (num_elements (tt_shape t)) (uint (scalar_byte_size (tt_elem t)))"
| "ty_byte_size Token = 0"
| "ty_byte_size NoneTy = 0"

fun as_tensor :: "ty \<Rightarrow> tensor_type option" where
  "as_tensor (Tensor t) = Some t"
| "as_tensor (MemRef t _) = Some t"
| "as_tensor _ = None"

section \<open>Well-formed shapes\<close>

text \<open>What every shape built by \<^const>\<open>shape_from_dims\<close> or \<^const>\<open>shape_scalar\<close> satisfies.\<close>

definition shape_wf :: "shape \<Rightarrow> bool" where
  "shape_wf s \<longleftrightarrow> length (sh_dims s) = MAX_RANK \<and> unat (sh_rank s) \<le> MAX_RANK \<and>
     list_all (\<lambda>d. 0 < d) (shape_as_slice s) \<and>
     list_all (\<lambda>d. d = 0) (drop (unat (sh_rank s)) (sh_dims s))"

lemma from_dims_loop_eq:
  assumes "i + length ds \<le> length (sh_dims out)"
  shows "from_dims_loop i ds out =
    (if list_all (\<lambda>d. 0 < d) ds
     then Inr (out\<lparr>sh_dims := take i (sh_dims out) @ ds @ drop (i + length ds) (sh_dims out)\<rparr>)
     else Inl DimNonPositive)"
  using assms
proof (induction i ds out rule: from_dims_loop.induct)
  case (1 i out)
  then show ?case by simp
next
  case (2 i d ds out)
  show ?case
  proof (cases "0 < d")
    case True
    from 2(2) have i: "i < length (sh_dims out)" by simp
    then have "take (Suc i) ((sh_dims out)[i := d]) = take i (sh_dims out) @ [d]"
      by (simp add: take_Suc_conv_app_nth)
    with 2(1) 2(2) True show ?thesis by (auto simp: drop_update_swap)
  qed auto
qed

text \<open>\<^const>\<open>shape_from_dims\<close> accepts exactly the lists of at most four positive dimensions.\<close>

lemma shape_from_dims_eq:
  "shape_from_dims ds =
    (if length ds > MAX_RANK then Inl RankTooLarge
     else if list_all (\<lambda>d. 0 < d) ds
     then Inr \<lparr>sh_dims = ds @ replicate (MAX_RANK - length ds) 0, sh_rank = word_of_nat (length ds)\<rparr>
     else Inl DimNonPositive)"
  by (auto simp: shape_from_dims_def from_dims_loop_eq)

lemma unat_rank_of_length: "length ds \<le> MAX_RANK \<Longrightarrow> unat (word_of_nat (length ds) :: u8) = length ds"
  by (rule unat_of_nat_small) (simp add: MAX_RANK_def)

lemma shape_from_dims_slice:
  assumes "shape_from_dims ds = Inr s"
  shows "shape_as_slice s = ds" "shape_wf s" "list_all (\<lambda>d. 0 < d) ds" "length ds \<le> MAX_RANK"
  using assms
  by (auto simp: shape_from_dims_eq shape_as_slice_def shape_wf_def unat_rank_of_length
      list_all_iff split: if_splits)

lemma shape_from_dims_of_slice:
  assumes "shape_wf s" shows "shape_from_dims (shape_as_slice s) = Inr s"
proof -
  let ?r = "unat (sh_rank s)"
  from assms have len: "length (shape_as_slice s) = ?r" and r: "?r \<le> MAX_RANK"
    by (auto simp: shape_wf_def shape_as_slice_def)
  have "drop ?r (sh_dims s) = replicate (MAX_RANK - ?r) 0"
    using assms by (intro replicate_eqI) (auto simp: shape_wf_def list_all_iff)
  then have "shape_as_slice s @ replicate (MAX_RANK - ?r) 0 = sh_dims s"
    by (metis append_take_drop_id shape_as_slice_def)
  with assms len r show ?thesis
    by (simp add: shape_from_dims_eq shape_wf_def)
qed

lemma shape_wf_scalar: "shape_wf shape_scalar"
  by (simp add: shape_wf_def shape_scalar_def shape_as_slice_def list_all_iff)

section \<open>Saturating element counts\<close>

lemma sat_i64_pos: "0 < x \<Longrightarrow> sat_i64 x = min i64_max x"
  by (simp add: sat_i64_def i64_min_def i64_max_def)

lemma saturating_mul_min:
  assumes "0 < x" "0 < d"
  shows "saturating_mul_i64 (min i64_max x) d = min i64_max (x * d)"
proof (cases "x \<le> i64_max")
  case True
  with assms show ?thesis by (simp add: saturating_mul_i64_def sat_i64_pos)
next
  case False
  then have "i64_max \<le> x * d" using assms by (smt (verit) mult_less_cancel_left2)
  moreover have "i64_max \<le> i64_max * d"
    using assms(2) by (simp add: i64_max_def)
  moreover have "0 < i64_max * d" using assms(2) by (simp add: i64_max_def)
  ultimately show ?thesis using False by (simp add: saturating_mul_i64_def sat_i64_pos)
qed

lemma num_elements_loop_eq:
  assumes "list_all (\<lambda>d. 0 < d) ds" "0 < n"
  shows "num_elements_loop ds (min i64_max n) = min i64_max (n * prod_list ds)"
  using assms
proof (induction ds arbitrary: n)
  case (Cons d ds)
  then have "0 < n * d" by simp
  with Cons show ?case by (simp add: saturating_mul_min mult.assoc)
qed simp

text \<open>Saturation is not compounded: the loop yields the true product clamped once.\<close>

lemma num_elements_eq:
  assumes "shape_wf s"
  shows "num_elements s = min i64_max (prod_list (shape_as_slice s))"
proof -
  have "num_elements_loop (shape_as_slice s) (min i64_max 1) = min i64_max (1 * prod_list (shape_as_slice s))"
    using assms by (intro num_elements_loop_eq) (auto simp: shape_wf_def)
  then show ?thesis by (simp add: num_elements_def shape_as_slice_def i64_max_def)
qed

lemma prod_list_pos: "list_all (\<lambda>d. 0 < d) ds \<Longrightarrow> 0 < prod_list (ds :: int list)"
  by (induction ds) auto

fun ty_wf :: "ty \<Rightarrow> bool" where
  "ty_wf (Tensor t) = shape_wf (tt_shape t)"
| "ty_wf (MemRef t _) = shape_wf (tt_shape t)"
| "ty_wf _ = True"

lemma scalar_byte_size_pos: "0 < uint (scalar_byte_size s)"
  by (cases s) simp_all

lemma tensor_byte_size_eq:
  assumes "shape_wf (tt_shape t)"
  shows "saturating_mul_i64 (num_elements (tt_shape t)) (uint (scalar_byte_size (tt_elem t))) =
    min i64_max (prod_list (shape_as_slice (tt_shape t)) * uint (scalar_byte_size (tt_elem t)))"
proof -
  have "0 < prod_list (shape_as_slice (tt_shape t))"
    using assms by (intro prod_list_pos) (simp add: shape_wf_def)
  then show ?thesis using assms by (simp add: num_elements_eq saturating_mul_min scalar_byte_size_pos)
qed

lemma tensor_byte_size_nonneg:
  assumes "shape_wf (tt_shape t)"
  shows "0 \<le> saturating_mul_i64 (num_elements (tt_shape t)) (uint (scalar_byte_size (tt_elem t)))"
proof -
  have "0 < prod_list (shape_as_slice (tt_shape t)) * uint (scalar_byte_size (tt_elem t))"
    using assms by (auto intro!: mult_pos_pos prod_list_pos scalar_byte_size_pos simp: shape_wf_def)
  then show ?thesis by (simp add: tensor_byte_size_eq [OF assms] i64_max_def)
qed

lemma ty_byte_size_nonneg: "ty_wf t \<Longrightarrow> 0 \<le> ty_byte_size t"
  by (cases t) (simp_all add: tensor_byte_size_nonneg)

end
