(* ===== verification/F64.thy ===== *)
theory F64
  imports SXLA_Prelude
begin

text \<open>
  The IEEE-754 binary64 facts the sources rely on, over bit patterns: classification and the
  comparison \<^verbatim>\<open>==\<close> of \<^verbatim>\<open>f64\<close>, which is not bit equality (a NaN differs from itself, the two
  zeros agree).
\<close>

definition f64_exp_bits :: "f64 \<Rightarrow> nat" where
  "f64_exp_bits x = unat (drop_bit 52 x AND mask 11)"

definition f64_frac_bits :: "f64 \<Rightarrow> nat" where
  "f64_frac_bits x = unat (x AND mask 52)"

definition f64_is_nan :: "f64 \<Rightarrow> bool" where
  "f64_is_nan x \<longleftrightarrow> f64_exp_bits x = 2047 \<and> f64_frac_bits x \<noteq> 0"

definition f64_is_finite :: "f64 \<Rightarrow> bool" where
  "f64_is_finite x \<longleftrightarrow> f64_exp_bits x \<noteq> 2047"

definition f64_is_zero :: "f64 \<Rightarrow> bool" where
  "f64_is_zero x \<longleftrightarrow> f64_exp_bits x = 0 \<and> f64_frac_bits x = 0"

definition f64_eq :: "f64 \<Rightarrow> f64 \<Rightarrow> bool" where
  "f64_eq x y \<longleftrightarrow> \<not> f64_is_nan x \<and> \<not> f64_is_nan y \<and> (x = y \<or> f64_is_zero x \<and> f64_is_zero y)"

lemma f64_eq_sym: "f64_eq x y \<longleftrightarrow> f64_eq y x"
  by (auto simp: f64_eq_def)

lemma f64_eq_nan [simp]: "f64_is_nan x \<Longrightarrow> \<not> f64_eq x y"
  by (simp add: f64_eq_def)

end
