(* ===== verification/Op_Node.thy ===== *)
theory Op_Node
  imports Ty Fnv F64
begin

text \<open>
  The opcode set (\<^verbatim>\<open>crates/xir-core/src/op.rs\<close>) and the node record (\<^verbatim>\<open>node.rs\<close>): levels,
  purity, stable opcode numbers, canonical hashing and fixed-capacity inputs.
\<close>

section \<open>Opcodes\<close>

datatype monoid = MAdd | MMul | MMax | MMin | MAnd | MOr

fun monoid_code :: "monoid \<Rightarrow> u8" where
  "monoid_code MAdd = 0"
| "monoid_code MMul = 1"
| "monoid_code MMax = 2"
| "monoid_code MMin = 3"
| "monoid_code MAnd = 4"
| "monoid_code MOr = 5"

datatype padding = Valid | Same

fun padding_code :: "padding \<Rightarrow> u8" where
  "padding_code Valid = 0"
| "padding_code Same = 1"

datatype rng_dist = Uniform | Normal

fun dist_code :: "rng_dist \<Rightarrow> u8" where
  "dist_code Uniform = 0"
| "dist_code Normal = 1"

datatype binary_op = BAdd | BSub | BMul | BDiv | BMax | BMin

fun binary_code :: "binary_op \<Rightarrow> u8" where
  "binary_code BAdd = 0"
| "binary_code BSub = 1"
| "binary_code BMul = 2"
| "binary_code BDiv = 3"
| "binary_code BMax = 4"
| "binary_code BMin = 5"

datatype unary_op = Relu | Neg | Exp | Log

fun unary_code :: "unary_op \<Rightarrow> u8" where
  "unary_code Relu = 0"
| "unary_code Neg = 1"
| "unary_code Exp = 2"
| "unary_code Log = 3"

datatype xop =
    ConstI64 i64
  | ConstF64 f64
  | Param u32
  | Dot
  | Reduce u8 monoid
  | Rng rng_dist u64
  | Custom u32
  | OpIf
  | Binary binary_op
  | Unary unary_op
  | Matmul bool bool
  | Conv padding u8
  | Broadcast shape
  | Transpose "u8 list" u8
  | FusionCluster
  | FusionBarrier
  | FusionMaterialize
  | LoopParallel u8
  | LoopAlloc u32 address_space
  | LoopAsyncCopy
  | LoopPipelineStage u32
  | TargetMma
  | TargetWarpShuffle
  | TargetBarrier

text \<open>The derived \<^verbatim>\<open>PartialEq\<close> of \<^verbatim>\<open>Op\<close>: structural, but \<^verbatim>\<open>f64\<close> payloads compare as numbers.\<close>

fun op_eq :: "xop \<Rightarrow> xop \<Rightarrow> bool" where
  "op_eq (ConstF64 x) (ConstF64 y) = f64_eq x y"
| "op_eq a b = (a = b)"

fun op_level :: "xop \<Rightarrow> ir_level" where
  "op_level (ConstI64 _) = Graph"
| "op_level (ConstF64 _) = Graph"
| "op_level (Param _) = Graph"
| "op_level Dot = Graph"
| "op_level (Reduce _ _) = Graph"
| "op_level (Rng _ _) = Graph"
| "op_level (Custom _) = Graph"
| "op_level OpIf = Graph"
| "op_level (Binary _) = Graph"
| "op_level (Unary _) = Graph"
| "op_level (Matmul _ _) = Tensor_level"
| "op_level (Conv _ _) = Tensor_level"
| "op_level (Broadcast _) = Tensor_level"
| "op_level (Transpose _ _) = Tensor_level"
| "op_level FusionCluster = Fusion"
| "op_level FusionBarrier = Fusion"
| "op_level FusionMaterialize = Fusion"
| "op_level (LoopParallel _) = Loop"
| "op_level (LoopAlloc _ _) = Loop"
| "op_level LoopAsyncCopy = Loop"
| "op_level (LoopPipelineStage _) = Loop"
| "op_level TargetMma = Target"
| "op_level TargetWarpShuffle = Target"
| "op_level TargetBarrier = Target"

fun is_pure :: "xop \<Rightarrow> bool" where
  "is_pure FusionBarrier = False"
| "is_pure FusionMaterialize = False"
| "is_pure (LoopAlloc _ _) = False"
| "is_pure LoopAsyncCopy = False"
| "is_pure (LoopPipelineStage _) = False"
| "is_pure TargetBarrier = False"
| "is_pure TargetWarpShuffle = False"
| "is_pure TargetMma = False"
| "is_pure (Rng _ _) = False"
| "is_pure OpIf = False"
| "is_pure (Custom _) = False"
| "is_pure _ = True"

definition has_effect :: "xop \<Rightarrow> bool" where
  "has_effect op \<longleftrightarrow> \<not> is_pure op \<or> (case op of Custom _ \<Rightarrow> True | _ \<Rightarrow> False)"

fun opcode :: "xop \<Rightarrow> u16" where
  "opcode (ConstI64 _) = 1"
| "opcode (ConstF64 _) = 2"
| "opcode (Param _) = 3"
| "opcode Dot = 4"
| "opcode (Reduce _ _) = 5"
| "opcode (Rng _ _) = 6"
| "opcode (Custom _) = 7"
| "opcode OpIf = 8"
| "opcode (Binary b) = 10 + ucast (binary_code b)"
| "opcode (Unary u) = 20 + ucast (unary_code u)"
| "opcode (Matmul _ _) = 30"
| "opcode (Conv _ _) = 31"
| "opcode (Broadcast _) = 32"
| "opcode (Transpose _ _) = 33"
| "opcode FusionCluster = 40"
| "opcode FusionBarrier = 41"
| "opcode FusionMaterialize = 42"
| "opcode (LoopParallel _) = 50"
| "opcode (LoopAlloc _ _) = 51"
| "opcode LoopAsyncCopy = 52"
| "opcode (LoopPipelineStage _) = 53"
| "opcode TargetMma = 60"
| "opcode TargetWarpShuffle = 61"
| "opcode TargetBarrier = 62"

definition bool_byte :: "bool \<Rightarrow> u8" where
  "bool_byte b = (if b then 1 else 0)"

fun op_hash_imm :: "xop \<Rightarrow> fnv64 \<Rightarrow> fnv64" where
  "op_hash_imm (ConstI64 v) h = write_i64 h v"
| "op_hash_imm (ConstF64 v) h = write_f64 h v"
| "op_hash_imm (Param index) h = write_u32 h index"
| "op_hash_imm (Reduce axis m) h = write_byte (write_byte h axis) (monoid_code m)"
| "op_hash_imm (Rng dist seed) h = write_u64 (write_byte h (dist_code dist)) seed"
| "op_hash_imm (Custom s) h = write_u32 h s"
| "op_hash_imm OpIf h = h"
| "op_hash_imm (Binary b) h = write_byte h (binary_code b)"
| "op_hash_imm (Unary u) h = write_byte h (unary_code u)"
| "op_hash_imm (Matmul ta tb) h = write_byte (write_byte h (bool_byte ta)) (bool_byte tb)"
| "op_hash_imm (Conv padding stride) h = write_byte (write_byte h (padding_code padding)) stride"
| "op_hash_imm (Broadcast to) h = foldl write_i64 h (shape_as_slice to)"
| "op_hash_imm (Transpose perm rank) h = foldl write_byte h (take (unat rank) perm)"
| "op_hash_imm FusionCluster h = h"
| "op_hash_imm FusionBarrier h = h"
| "op_hash_imm FusionMaterialize h = h"
| "op_hash_imm (LoopParallel axis) h = write_byte h axis"
| "op_hash_imm (LoopAlloc bytes space) h = write_byte (write_u32 h bytes) (space_code space)"
| "op_hash_imm LoopAsyncCopy h = h"
| "op_hash_imm (LoopPipelineStage stage) h = write_u32 h stage"
| "op_hash_imm TargetMma h = h"
| "op_hash_imm TargetWarpShuffle h = h"
| "op_hash_imm TargetBarrier h = h"
| "op_hash_imm Dot h = h"

definition op_hash_into :: "xop \<Rightarrow> fnv64 \<Rightarrow> fnv64" where
  "op_hash_into op h = op_hash_imm op (write_u16 h (opcode op))"

definition default_elem :: "xop \<Rightarrow> scalar_type" where
  "default_elem op = F64"

definition seed_layout :: "xop \<Rightarrow> layout" where
  "seed_layout op = RowMajor"

section \<open>Nodes\<close>

definition MAX_INPUTS :: nat where "MAX_INPUTS = 6"
definition MAX_OUTPUTS :: nat where "MAX_OUTPUTS = 2"

record node =
  nd_op :: xop
  nd_ty :: ty
  nd_ty1 :: ty
  nd_region :: region_id
  nd_inputs :: "value_id list"
  nd_n_inputs :: u8
  nd_effect_in :: value_id
  nd_effect_out :: value_id
  nd_next :: node_id

definition node_new :: "xop \<Rightarrow> region_id \<Rightarrow> value_id list \<Rightarrow> ty \<Rightarrow> node" where
  "node_new op region inputs ty =
     \<lparr>nd_op = op, nd_ty = ty, nd_ty1 = NoneTy, nd_region = region,
      nd_inputs = take MAX_INPUTS inputs @ replicate (MAX_INPUTS - length inputs) ValueId_NONE,
      nd_n_inputs = word_of_nat (min (length inputs) MAX_INPUTS),
      nd_effect_in = ValueId_NONE, nd_effect_out = ValueId_NONE, nd_next = NodeId_NONE\<rparr>"

definition node_input :: "node \<Rightarrow> nat \<Rightarrow> value_id option" where
  "node_input n i =
     (if i < unat (nd_n_inputs n) \<and> i < MAX_INPUTS then Some (nd_inputs n ! i) else None)"

text \<open>The inputs a loop \<^verbatim>\<open>for i in 0..n_inputs { if i < MAX_INPUTS ... }\<close> visits.\<close>

definition node_uses :: "node \<Rightarrow> value_id list" where
  "node_uses n = take (min (unat (nd_n_inputs n)) MAX_INPUTS) (nd_inputs n)"

fun hash_type :: "ty \<Rightarrow> fnv64 \<Rightarrow> fnv64" where
  "hash_type (Scalar s) h = write_tag (write_tag h 1) (scalar_code s)"
| "hash_type (Tensor t) h =
     foldl write_i64
       (write_tag (write_tag (write_tag h 2) (scalar_code (tt_elem t))) (layout_code (tt_layout t)))
       (shape_as_slice (tt_shape t))"
| "hash_type Token h = write_tag h 3"
| "hash_type (MemRef t space) h =
     foldl write_i64
       (write_tag (write_tag (write_tag h 4) (scalar_code (tt_elem t))) (space_code space))
       (shape_as_slice (tt_shape t))"
| "hash_type NoneTy h = write_tag h 0"

definition node_hash_into :: "node \<Rightarrow> fnv64 \<Rightarrow> fnv64" where
  "node_hash_into n h =
     (let h = op_hash_into (nd_op n) h;
          h = foldl write_u64 h (map vid_raw (node_uses n));
          h = write_u64 h (rid_raw (nd_region n));
          h = write_u64 h (vid_raw (nd_effect_in n))
      in hash_type (nd_ty n) h)"

section \<open>Lemmas\<close>

definition node_wf :: "node \<Rightarrow> bool" where
  "node_wf n \<longleftrightarrow> length (nd_inputs n) = MAX_INPUTS \<and> unat (nd_n_inputs n) \<le> MAX_INPUTS"

lemma node_wf_new: "node_wf (node_new op r ins t)"
proof -
  have "unat (word_of_nat (min (length ins) MAX_INPUTS) :: u8) = min (length ins) MAX_INPUTS"
    by (rule unat_of_nat_small) (simp add: MAX_INPUTS_def)
  then show ?thesis by (simp add: node_wf_def node_new_def)
qed

lemma node_uses_new:
  assumes "length ins \<le> MAX_INPUTS" shows "node_uses (node_new op r ins t) = ins"
proof -
  have "unat (word_of_nat (length ins) :: u8) = length ins"
    using assms by (intro unat_of_nat_small) (simp add: MAX_INPUTS_def)
  with assms show ?thesis by (simp add: node_uses_def node_new_def min_def)
qed

lemma node_input_uses:
  "node_wf n \<Longrightarrow> node_input n i = nth_opt (node_uses n) i"
  by (auto simp: node_input_def node_uses_def nth_opt_def node_wf_def)

lemma set_node_uses: "node_wf n \<Longrightarrow> v \<in> set (node_uses n) \<longleftrightarrow> (\<exists>i < unat (nd_n_inputs n). nd_inputs n ! i = v)"
  by (auto simp: node_uses_def node_wf_def in_set_conv_nth min_def)

lemma has_effect_iff: "has_effect op \<longleftrightarrow> \<not> is_pure op"
  by (cases op) (simp_all add: has_effect_def)

lemma op_eq_iff:
  "op_eq a b \<longleftrightarrow> (case (a, b) of (ConstF64 x, ConstF64 y) \<Rightarrow> f64_eq x y | _ \<Rightarrow> a = b)"
  by (cases a; cases b) simp_all

lemma op_eq_level: "op_eq a b \<Longrightarrow> op_level a = op_level b"
  by (cases a; cases b) simp_all

end
