(* ===== verification/Arena.thy ===== *)
theory Arena
  imports Op_Node
begin

text \<open>
  The bounded IR arena, \<^verbatim>\<open>crates/xir-core/src/arena.rs\<close>: node slots with generations and a free
  stack, regions with intrusive singly linked node lists, and the operations that insert, remove,
  look up and enumerate. A method that takes \<^verbatim>\<open>&mut self\<close> returns its result paired with the new
  arena. \<^verbatim>\<open>Vec::with_capacity(n)\<close> is modelled as a vector of capacity exactly \<open>n\<close>.
\<close>

datatype arena_error = Exhausted | InputOverflow | OutputOverflow | UnknownNode | UnknownRegion

record region =
  rg_parent :: region_id
  rg_first :: node_id
  rg_owner :: node_id
  rg_generation :: u16

record arena =
  ar_nodes :: "node list"
  ar_gen :: "u16 list"
  ar_free :: "u32 list"
  ar_node_cap :: nat
  ar_regions :: "region list"
  ar_region_free :: "u32 list"
  ar_region_gen :: "u16 list"
  ar_region_cap :: nat
  ar_root :: region_id

section \<open>Operations\<close>

definition new_region ::
  "arena \<Rightarrow> region_id \<Rightarrow> node_id \<Rightarrow> (arena_error + region_id) \<times> arena" where
  "new_region a parent owner =
     (if length (ar_regions a) \<ge> ar_region_cap a then (Inl Exhausted, a)
      else
        let (index, generation, a1) =
              (if ar_region_free a \<noteq> []
               then let idx = last (ar_region_free a);
                        gen = ar_region_gen a ! unat idx + 1
                    in (idx, gen, a\<lparr>ar_region_free := butlast (ar_region_free a),
                                    ar_region_gen := (ar_region_gen a)[unat idx := gen]\<rparr>)
               else (word_of_nat (length (ar_regions a)), 0,
                     a\<lparr>ar_region_gen := ar_region_gen a @ [0]\<rparr>));
            r = \<lparr>rg_parent = parent, rg_first = NodeId_NONE, rg_owner = owner,
                 rg_generation = generation\<rparr>
        in if (word_of_nat (length (ar_regions a)) :: u32) \<le> index
           then (if word_of_nat (length (ar_regions a)) \<noteq> index \<or>
                    length (ar_regions a) \<ge> ar_region_cap a
                 then (Inl Exhausted, a1)
                 else (Inr (rid_pack index generation),
                       a1\<lparr>ar_regions := ar_regions a1 @ [r]\<rparr>))
           else (Inr (rid_pack index generation),
                 a1\<lparr>ar_regions := (ar_regions a1)[unat index := r]\<rparr>))"

definition with_capacity :: "nat \<Rightarrow> nat \<Rightarrow> arena" where
  "with_capacity node_capacity region_capacity =
     (let a0 = \<lparr>ar_nodes = [], ar_gen = [], ar_free = [], ar_node_cap = node_capacity,
                ar_regions = [], ar_region_free = [], ar_region_gen = [],
                ar_region_cap = region_capacity, ar_root = RegionId_NONE\<rparr>
      in case new_region a0 RegionId_NONE NodeId_NONE of
           (Inr root, a1) \<Rightarrow> a1\<lparr>ar_root := root\<rparr>
         | (Inl _, a1) \<Rightarrow> a1)"

definition root_region :: "arena \<Rightarrow> region_id" where
  "root_region a = ar_root a"

text \<open>\<^verbatim>\<open>for_each_region\<close>: the pairs its callback sees, in slot order.\<close>

definition region_entries :: "arena \<Rightarrow> (region_id \<times> region) list" where
  "region_entries a =
     map (\<lambda>idx. (rid_pack (word_of_nat idx) (rg_generation (ar_regions a ! idx)), ar_regions a ! idx))
       [0 ..< length (ar_regions a)]"

definition validate_region :: "arena \<Rightarrow> region_id \<Rightarrow> arena_error + (u32 \<times> u16)" where
  "validate_region a r =
     (if rid_is_none r then Inl UnknownRegion
      else let idx = unat (rid_index r) in
        if idx \<ge> length (ar_regions a) then Inl UnknownRegion
        else if ar_region_gen a ! idx \<noteq> rid_generation r then Inl UnknownRegion
        else Inr (rid_index r, rid_generation r))"

definition arena_region :: "arena \<Rightarrow> region_id \<Rightarrow> arena_error + region" where
  "arena_region a r = rbind (validate_region a r) (\<lambda>(slot, _). Inr (ar_regions a ! unat slot))"

definition arena_node :: "arena \<Rightarrow> node_id \<Rightarrow> arena_error + node" where
  "arena_node a x =
     (let idx = unat (nid_index x) in
      if idx \<ge> length (ar_nodes a) then Inl UnknownNode
      else if ar_gen a ! idx \<noteq> nid_generation x then Inl UnknownNode
      else Inr (ar_nodes a ! idx))"

text \<open>\<^verbatim>\<open>node_mut\<close> followed by a write through the reference: the edit is the function \<open>f\<close>.\<close>

definition node_mut :: "arena \<Rightarrow> node_id \<Rightarrow> (node \<Rightarrow> node) \<Rightarrow> arena_error + arena" where
  "node_mut a x f =
     (let idx = unat (nid_index x) in
      if idx \<ge> length (ar_nodes a) then Inl UnknownNode
      else if ar_gen a ! idx \<noteq> nid_generation x then Inl UnknownNode
      else Inr (a\<lparr>ar_nodes := (ar_nodes a)[idx := f (ar_nodes a ! idx)]\<rparr>))"

definition set_first :: "arena \<Rightarrow> nat \<Rightarrow> node_id \<Rightarrow> arena" where
  "set_first a slot x =
     a\<lparr>ar_regions := (ar_regions a)[slot := (ar_regions a ! slot)\<lparr>rg_first := x\<rparr>]\<rparr>"

definition insert_node :: "arena \<Rightarrow> region_id \<Rightarrow> node \<Rightarrow> (arena_error + node_id) \<times> arena" where
  "insert_node a region n =
     (if unat (nd_n_inputs n) > MAX_INPUTS then (Inl InputOverflow, a)
      else case validate_region a region of
        Inl e \<Rightarrow> (Inl e, a)
      | Inr (region_slot, region_gen) \<Rightarrow>
          if length (ar_nodes a) \<ge> ar_node_cap a then (Inl Exhausted, a)
          else
            let r = ar_regions a ! unat region_slot in
            if rg_generation r \<noteq> region_gen then (Inl UnknownRegion, a)
            else
              let (index, generation, a1) =
                    (if ar_free a \<noteq> []
                     then let idx = last (ar_free a);
                              gen = ar_gen a ! unat idx + 1
                          in (idx, gen, a\<lparr>ar_free := butlast (ar_free a),
                                          ar_gen := (ar_gen a)[unat idx := gen]\<rparr>)
                     else (word_of_nat (length (ar_nodes a)), 0, a\<lparr>ar_gen := ar_gen a @ [0]\<rparr>));
                  n' = n\<lparr>nd_next := rg_first r, nd_region := region\<rparr>;
                  x = nid_pack index generation (op_level (nd_op n))
              in if unat index = length (ar_nodes a)
                 then (Inr x, set_first (a1\<lparr>ar_nodes := ar_nodes a1 @ [n']\<rparr>) (unat region_slot) x)
                 else if unat index < length (ar_nodes a)
                 then (Inr x, set_first (a1\<lparr>ar_nodes := (ar_nodes a1)[unat index := n']\<rparr>)
                                (unat region_slot) x)
                 else (Inl Exhausted, a1))"

text \<open>
  The unlinking walk of \<^verbatim>\<open>remove_node\<close>. Its guard \<^verbatim>\<open>steps <= self.nodes.len()\<close> bounds the number of
  iterations; the last argument counts the iterations left.
\<close>

fun unlink_walk :: "arena \<Rightarrow> node_id \<Rightarrow> node_id \<Rightarrow> nat \<Rightarrow> arena" where
  "unlink_walk a x cur 0 = a"
| "unlink_walk a x cur (Suc k) =
     (if cur = NodeId_NONE then a
      else
        let nxt = (case arena_node a cur of Inr n \<Rightarrow> nd_next n | Inl _ \<Rightarrow> NodeId_NONE) in
        if nxt = x
        then let removed_next = nd_next (ar_nodes a ! unat (nid_index x)) in
             (case node_mut a cur (\<lambda>n. n\<lparr>nd_next := removed_next\<rparr>) of Inr a' \<Rightarrow> a' | Inl _ \<Rightarrow> a)
        else unlink_walk a x nxt k)"

definition unlink_node :: "arena \<Rightarrow> node_id \<Rightarrow> arena" where
  "unlink_node a x =
     (let idx = unat (nid_index x); region = nd_region (ar_nodes a ! idx) in
      if region \<noteq> RegionId_NONE
      then case validate_region a region of
             Inr (rslot, _) \<Rightarrow>
               let head = rg_first (ar_regions a ! unat rslot) in
               if head = x
               then set_first a (unat rslot) (nd_next (ar_nodes a ! idx))
               else unlink_walk a x head (length (ar_nodes a) + 1)
           | Inl _ \<Rightarrow> a
      else a)"

definition remove_node :: "arena \<Rightarrow> node_id \<Rightarrow> (arena_error + unit) \<times> arena" where
  "remove_node a x =
     (let idx = unat (nid_index x) in
      if idx \<ge> length (ar_nodes a) \<or> ar_gen a ! idx \<noteq> nid_generation x
      then (Inl UnknownNode, a)
      else
        let a1 = unlink_node a x in
        (Inr (), a1\<lparr>ar_gen := (ar_gen a1)[idx := ar_gen a1 ! idx + 1],
                    ar_free := ar_free a1 @ [nid_index x]\<rparr>))"

definition node_count :: "arena \<Rightarrow> nat" where
  "node_count a = length (ar_nodes a) - length (ar_free a)"

definition slot_count :: "arena \<Rightarrow> nat" where
  "slot_count a = length (ar_nodes a)"

definition region_count :: "arena \<Rightarrow> nat" where
  "region_count a = length (ar_regions a) - length (ar_region_free a)"

text \<open>\<^verbatim>\<open>for_each_live_node\<close>: the pairs its callback sees, in slot order.\<close>

definition slot_live :: "arena \<Rightarrow> nat \<Rightarrow> bool" where
  "slot_live a idx \<longleftrightarrow> list_all (\<lambda>f. f \<noteq> word_of_nat idx) (ar_free a)"

definition slot_handle :: "arena \<Rightarrow> nat \<Rightarrow> node_id" where
  "slot_handle a idx =
     nid_pack (word_of_nat idx) (ar_gen a ! idx) (op_level (nd_op (ar_nodes a ! idx)))"

definition live_nodes :: "arena \<Rightarrow> (node_id \<times> node) list" where
  "live_nodes a =
     map (\<lambda>idx. (slot_handle a idx, ar_nodes a ! idx))
       (filter (slot_live a) [0 ..< length (ar_nodes a)])"

definition live_ids :: "arena \<Rightarrow> node_id list" where
  "live_ids a = map fst (live_nodes a)"

definition deep_clone :: "arena \<Rightarrow> arena" where
  "deep_clone a =
     (let cap_n = max (ar_node_cap a) (length (ar_nodes a));
          cap_r = max (ar_region_cap a) (length (ar_regions a));
          out = with_capacity cap_n cap_r
      in out\<lparr>ar_nodes := ar_nodes a, ar_gen := ar_gen a, ar_free := ar_free a,
             ar_node_cap := cap_n, ar_regions := ar_regions a,
             ar_region_free := ar_region_free a, ar_region_gen := ar_region_gen a,
             ar_region_cap := cap_r, ar_root := ar_root a\<rparr>)"

definition value_of :: "arena \<Rightarrow> node_id \<Rightarrow> u8 \<Rightarrow> arena_error + value_id" where
  "value_of a x slot =
     (if unat slot \<ge> MAX_OUTPUTS then Inl OutputOverflow
      else rbind (arena_node a x) (\<lambda>n.
        if slot = 1 \<and> nd_ty1 n = NoneTy then Inl OutputOverflow
        else Inr (vid_from_node x slot)))"

definition const_i64 :: "arena \<Rightarrow> region_id \<Rightarrow> i64 \<Rightarrow> (arena_error + node_id) \<times> arena" where
  "const_i64 a r v = insert_node a r (node_new (ConstI64 v) r [] (Scalar I64))"

definition const_f64 :: "arena \<Rightarrow> region_id \<Rightarrow> f64 \<Rightarrow> (arena_error + node_id) \<times> arena" where
  "const_f64 a r v = insert_node a r (node_new (ConstF64 v) r [] (Scalar F64))"

end
