(* ===== verification/Arena_Inv.thy ===== *)
theory Arena_Inv
  imports Arena
begin

text \<open>
  The arena invariant and the contracts of the arena operations. A live slot has an even
  generation and a freed slot an odd one, so a handle that \<^verbatim>\<open>insert_node\<close> returned is rejected as
  soon as its node is removed; the intrusive list of every region holds exactly the live nodes of
  that region, newest first.
\<close>

section \<open>Shape of the state\<close>

definition arena_wf :: "arena \<Rightarrow> bool" where
  "arena_wf a \<longleftrightarrow>
     length (ar_gen a) = length (ar_nodes a) \<and>
     length (ar_nodes a) \<le> ar_node_cap a \<and> ar_node_cap a \<le> 2 ^ 32 \<and>
     distinct (ar_free a) \<and> (\<forall>f \<in> set (ar_free a). unat f < length (ar_nodes a)) \<and>
     ar_region_gen a = replicate (length (ar_regions a)) 0 \<and>
     length (ar_regions a) \<le> ar_region_cap a \<and> ar_region_cap a \<le> 2 ^ 32 \<and>
     ar_region_free a = [] \<and>
     (\<forall>r < length (ar_regions a). rg_generation (ar_regions a ! r) = 0) \<and>
     (\<forall>i < length (ar_nodes a). even (ar_gen a ! i) \<longleftrightarrow> slot_live a i) \<and>
     (\<forall>n \<in> set (ar_nodes a). node_wf n)"

text \<open>The slots of one region's list, followed from \<open>cur\<close>.\<close>

fun schain :: "arena \<Rightarrow> node_id \<Rightarrow> nat list \<Rightarrow> bool" where
  "schain a cur [] \<longleftrightarrow> cur = NodeId_NONE"
| "schain a cur (i # is) \<longleftrightarrow> cur = slot_handle a i \<and> schain a (nd_next (ar_nodes a ! i)) is"

definition slots_of_region :: "arena \<Rightarrow> nat \<Rightarrow> nat set" where
  "slots_of_region a r =
     {i. i < length (ar_nodes a) \<and> slot_live a i \<and>
         nd_region (ar_nodes a ! i) = rid_pack (word_of_nat r) 0}"

definition region_chain :: "arena \<Rightarrow> nat \<Rightarrow> nat list \<Rightarrow> bool" where
  "region_chain a r is \<longleftrightarrow>
     schain a (rg_first (ar_regions a ! r)) is \<and> distinct is \<and> set is = slots_of_region a r"

definition arena_inv :: "arena \<Rightarrow> bool" where
  "arena_inv a \<longleftrightarrow> arena_wf a \<and>
     (\<forall>r < length (ar_regions a). \<exists>is. region_chain a r is) \<and>
     (\<forall>i < length (ar_nodes a). slot_live a i \<longrightarrow>
        (\<exists>r < length (ar_regions a). nd_region (ar_nodes a ! i) = rid_pack (word_of_nat r) 0))"

section \<open>Slots and handles\<close>

lemma slot_live_iff: "slot_live a i \<longleftrightarrow> word_of_nat i \<notin> set (ar_free a)"
  by (auto simp: slot_live_def list_all_iff)

lemma arena_node_Inr [arena_simps]:
  "arena_node a x = Inr n \<longleftrightarrow>
     unat (nid_index x) < length (ar_nodes a) \<and>
     ar_gen a ! unat (nid_index x) = nid_generation x \<and> n = ar_nodes a ! unat (nid_index x)"
  by (auto simp: arena_node_def Let_def)

lemma arena_node_Inl [arena_simps]:
  "arena_node a x = Inl e \<longleftrightarrow> e = UnknownNode \<and>
     \<not> (unat (nid_index x) < length (ar_nodes a) \<and>
        ar_gen a ! unat (nid_index x) = nid_generation x)"
  by (auto simp: arena_node_def Let_def)

lemma unat_slot: "arena_wf a \<Longrightarrow> i < length (ar_nodes a) \<Longrightarrow> unat (word_of_nat i :: u32) = i"
  by (rule unat_of_nat_small) (auto simp: arena_wf_def)

lemma unat_region_slot:
  "arena_wf a \<Longrightarrow> r < length (ar_regions a) \<Longrightarrow> unat (word_of_nat r :: u32) = r"
  by (rule unat_of_nat_small) (auto simp: arena_wf_def)

lemma slot_handle_sel [simp]:
  "nid_index (slot_handle a i) = word_of_nat i" "nid_generation (slot_handle a i) = ar_gen a ! i"
  by (simp_all add: slot_handle_def)

lemma slot_handle_not_none [simp]: "slot_handle a i \<noteq> NodeId_NONE" "\<not> nid_is_none (slot_handle a i)"
  by (simp_all add: slot_handle_def)

lemma arena_node_handle:
  "arena_wf a \<Longrightarrow> i < length (ar_nodes a) \<Longrightarrow> arena_node a (slot_handle a i) = Inr (ar_nodes a ! i)"
  by (simp add: arena_node_Inr unat_slot)

lemma slot_handle_inj:
  "arena_wf a \<Longrightarrow> i < length (ar_nodes a) \<Longrightarrow> j < length (ar_nodes a) \<Longrightarrow>
   slot_handle a i = slot_handle a j \<longleftrightarrow> i = j"
  by (metis slot_handle_sel(1) unat_slot)

lemma validate_region_Inr [arena_simps]:
  "validate_region a r = Inr p \<longleftrightarrow>
     \<not> rid_is_none r \<and> unat (rid_index r) < length (ar_regions a) \<and>
     ar_region_gen a ! unat (rid_index r) = rid_generation r \<and> p = (rid_index r, rid_generation r)"
  by (auto simp: validate_region_def Let_def)

lemma validate_region_pack:
  assumes "arena_wf a" "r < length (ar_regions a)"
  shows "validate_region a (rid_pack (word_of_nat r) 0) = Inr (word_of_nat r, 0)"
  using assms by (simp add: validate_region_Inr unat_region_slot) (simp add: arena_wf_def)

lemma arena_region_Inr [arena_simps]:
  "arena_region a r = Inr g \<longleftrightarrow>
     \<not> rid_is_none r \<and> unat (rid_index r) < length (ar_regions a) \<and>
     ar_region_gen a ! unat (rid_index r) = rid_generation r \<and>
     g = ar_regions a ! unat (rid_index r)"
  by (auto simp: arena_region_def rbind_eq_Inr validate_region_Inr)

section \<open>Slot lists\<close>

lemma schain_cong:
  assumes "\<And>i. i \<in> set is \<Longrightarrow> slot_handle a' i = slot_handle a i"
    and "\<And>i. i \<in> set is \<Longrightarrow> nd_next (ar_nodes a' ! i) = nd_next (ar_nodes a ! i)"
  shows "schain a' cur is \<longleftrightarrow> schain a cur is"
  using assms by (induction "is" arbitrary: cur) auto


section \<open>Inserting a node\<close>

text \<open>The slot \<^verbatim>\<open>insert_node\<close> takes (the top of the free stack, else a new one) and its generation.\<close>

definition next_slot :: "arena \<Rightarrow> nat" where
  "next_slot a = (if ar_free a = [] then length (ar_nodes a) else unat (last (ar_free a)))"

definition next_gen :: "arena \<Rightarrow> u16" where
  "next_gen a = (if ar_free a = [] then 0 else ar_gen a ! next_slot a + 1)"

definition put_node :: "arena \<Rightarrow> nat \<Rightarrow> node \<Rightarrow> arena" where
  "put_node a r n =
     a\<lparr>ar_nodes := list_put (ar_nodes a) (next_slot a)
                    (n\<lparr>nd_next := rg_first (ar_regions a ! r), nd_region := rid_pack (word_of_nat r) 0\<rparr>),
       ar_gen := list_put (ar_gen a) (next_slot a) (next_gen a),
       ar_free := butlast (ar_free a),
       ar_regions := (ar_regions a)[r := (ar_regions a ! r)
         \<lparr>rg_first := nid_pack (word_of_nat (next_slot a)) (next_gen a) (op_level (nd_op n))\<rparr>]\<rparr>"

lemma next_slot_le:
  assumes "arena_wf a" shows "next_slot a \<le> length (ar_nodes a)"
  using assms last_in_set [of "ar_free a"] by (fastforce simp: next_slot_def arena_wf_def)

lemma insert_node_eq:
  assumes wf: "arena_wf a" and r: "r < length (ar_regions a)"
  shows "insert_node a (rid_pack (word_of_nat r) 0) n =
    (if unat (nd_n_inputs n) > MAX_INPUTS then (Inl InputOverflow, a)
     else if length (ar_nodes a) \<ge> ar_node_cap a then (Inl Exhausted, a)
     else (Inr (nid_pack (word_of_nat (next_slot a)) (next_gen a) (op_level (nd_op n))),
           put_node a r n))"
proof (cases "ar_free a = []")
  case True
  have len: "length (ar_gen a) = length (ar_nodes a)" "rg_generation (ar_regions a ! r) = 0"
    using wf r by (auto simp: arena_wf_def)
  have "length (ar_nodes a) < ar_node_cap a \<Longrightarrow> unat (word_of_nat (length (ar_nodes a)) :: u32) = length (ar_nodes a)"
    using wf by (intro unat_of_nat_small) (auto simp: arena_wf_def)
  with True len wf r show ?thesis
    by (simp add: insert_node_def validate_region_pack unat_region_slot put_node_def next_slot_def
        next_gen_def list_put_def set_first_def Let_def)
next
  case False
  have len: "length (ar_gen a) = length (ar_nodes a)" "rg_generation (ar_regions a ! r) = 0"
    and lt: "unat (last (ar_free a)) < length (ar_nodes a)"
    using wf r last_in_set [OF False] by (auto simp: arena_wf_def)
  from False len lt wf r show ?thesis
    by (simp add: insert_node_def validate_region_pack unat_region_slot put_node_def next_slot_def
        next_gen_def list_put_def set_first_def Let_def)
qed

lemma put_node_sel [simp]:
  "ar_nodes (put_node a r n) = list_put (ar_nodes a) (next_slot a)
     (n\<lparr>nd_next := rg_first (ar_regions a ! r), nd_region := rid_pack (word_of_nat r) 0\<rparr>)"
  "ar_gen (put_node a r n) = list_put (ar_gen a) (next_slot a) (next_gen a)"
  "ar_free (put_node a r n) = butlast (ar_free a)"
  "ar_node_cap (put_node a r n) = ar_node_cap a"
  "length (ar_regions (put_node a r n)) = length (ar_regions a)"
  "ar_region_gen (put_node a r n) = ar_region_gen a"
  "ar_region_cap (put_node a r n) = ar_region_cap a"
  "ar_region_free (put_node a r n) = ar_region_free a"
  "ar_root (put_node a r n) = ar_root a"
  by (simp_all add: put_node_def)

lemma next_slot_word:
  assumes "arena_wf a" "ar_free a \<noteq> []"
  shows "last (ar_free a) = word_of_nat (next_slot a)"
  using assms by (simp add: next_slot_def)

lemma next_slot_fresh:
  assumes "arena_wf a" "j < length (ar_nodes a)" "slot_live a j"
  shows "j \<noteq> next_slot a"
proof (cases "ar_free a = []")
  case False
  with next_slot_word [OF assms(1) False] last_in_set [OF False] assms(3)
  show ?thesis by (auto simp: slot_live_iff)
qed (use assms in \<open>auto simp: next_slot_def\<close>)

lemma next_slot_bound:
  assumes "arena_wf a" "length (ar_nodes a) < ar_node_cap a"
  shows "next_slot a < 2 ^ 32" "length (ar_nodes (put_node a r n)) \<le> 2 ^ 32"
  using next_slot_le [OF assms(1)] assms by (auto simp: arena_wf_def)

lemma word_of_nat_u32_inj:
  "i < 2 ^ 32 \<Longrightarrow> j < 2 ^ 32 \<Longrightarrow> (word_of_nat i :: u32) = word_of_nat j \<longleftrightarrow> i = j"
  by (auto dest!: arg_cong [where f = unat] simp: unat_of_nat_small)

lemma slot_live_put:
  assumes wf: "arena_wf a" and cap: "length (ar_nodes a) < ar_node_cap a"
    and j: "j < length (ar_nodes (put_node a r n))"
  shows "slot_live (put_node a r n) j \<longleftrightarrow> j = next_slot a \<or> slot_live a j"
proof (cases "ar_free a = []")
  case True
  then show ?thesis by (simp add: slot_live_iff)
next
  case False
  have d: "distinct (ar_free a)" using wf by (simp add: arena_wf_def)
  have "j < 2 ^ 32" using j next_slot_bound(2) [OF wf cap, of r n] by linarith
  then have "word_of_nat j = last (ar_free a) \<longleftrightarrow> j = next_slot a"
    using next_slot_word [OF wf False] next_slot_bound(1) [OF wf cap] by (simp add: word_of_nat_u32_inj)
  then show ?thesis
    using not_in_butlast_last [OF d False] set_butlast_last [OF False] by (auto simp: slot_live_iff)
qed

lemma even_word_plus_one: "even (w + 1 :: u16) \<longleftrightarrow> odd w"
  by simp

lemma next_gen_even:
  assumes "arena_wf a" shows "even (next_gen a)"
proof (cases "ar_free a = []")
  case False
  have i: "next_slot a < length (ar_nodes a)"
    using assms False last_in_set [OF False] by (auto simp: next_slot_def arena_wf_def)
  moreover have "\<not> slot_live a (next_slot a)"
    using next_slot_fresh [OF assms i] by auto
  ultimately have "odd (ar_gen a ! next_slot a)" using assms by (auto simp: arena_wf_def)
  with False show ?thesis by (simp add: next_gen_def)
qed (simp add: next_gen_def)

lemma arena_wf_put:
  assumes wf: "arena_wf a" and cap: "length (ar_nodes a) < ar_node_cap a"
    and r: "r < length (ar_regions a)" and n: "node_wf n"
  shows "arena_wf (put_node a r n)"
proof -
  let ?b = "put_node a r n" and ?i = "next_slot a"
  have le: "?i \<le> length (ar_nodes a)" and lg: "length (ar_gen a) = length (ar_nodes a)"
    using next_slot_le [OF wf] wf by (auto simp: arena_wf_def)
  have parity: "even (ar_gen ?b ! j) \<longleftrightarrow> slot_live ?b j" if j: "j < length (ar_nodes ?b)" for j
  proof (cases "j = ?i")
    case True
    with le lg slot_live_put [OF wf cap j] next_gen_even [OF wf] show ?thesis by simp
  next
    case False
    with j le have "j < length (ar_nodes a)" by auto
    with False le lg slot_live_put [OF wf cap j] wf show ?thesis by (simp add: arena_wf_def)
  qed
  have free: "unat f < length (ar_nodes ?b)" if "f \<in> set (ar_free ?b)" for f
    using that wf le in_set_butlastD [of f "ar_free a"] by (fastforce simp: arena_wf_def)
  have nodes: "node_wf m" if "m \<in> set (ar_nodes ?b)" for m
  proof -
    have "m = n\<lparr>nd_next := rg_first (ar_regions a ! r), nd_region := rid_pack (word_of_nat r) 0\<rparr> \<or>
      m \<in> set (ar_nodes a)"
      using that set_list_put [THEN subsetD] by fastforce
    then show ?thesis using wf n by (auto simp: arena_wf_def node_wf_def)
  qed
  have regs: "rg_generation (ar_regions ?b ! s) = 0" if "s < length (ar_regions a)" for s
    using that wf r by (auto simp: put_node_def arena_wf_def nth_list_update)
  have misc: "distinct (ar_free a)" "ar_region_gen a = replicate (length (ar_regions a)) 0"
    "ar_region_free a = []" "length (ar_regions a) \<le> ar_region_cap a" "ar_region_cap a \<le> 2 ^ 32"
    "ar_node_cap a \<le> 2 ^ 32"
    using wf by (auto simp: arena_wf_def)
  have len: "length (ar_gen ?b) = length (ar_nodes ?b)" "length (ar_nodes ?b) \<le> ar_node_cap a"
    using le lg cap by simp_all
  show ?thesis
    unfolding arena_wf_def
    by (intro conjI ballI allI impI; (rule parity free nodes len)?)
      (use misc regs len in \<open>simp_all add: distinct_butlast del: put_node_sel(1,2)\<close>)
qed

text \<open>Old slots keep their handle, their next link and their region.\<close>

lemma put_node_old:
  assumes "arena_wf a" "j < length (ar_nodes a)" "slot_live a j"
  shows "ar_nodes (put_node a r n) ! j = ar_nodes a ! j"
    "slot_handle (put_node a r n) j = slot_handle a j"
proof -
  have "j \<noteq> next_slot a" "length (ar_gen a) = length (ar_nodes a)"
    using assms next_slot_fresh by (auto simp: arena_wf_def)
  with next_slot_le [OF assms(1)] assms(2)
  show "ar_nodes (put_node a r n) ! j = ar_nodes a ! j"
    "slot_handle (put_node a r n) j = slot_handle a j"
    by (simp_all add: slot_handle_def)
qed

lemma put_node_new:
  assumes "arena_wf a"
  shows "ar_nodes (put_node a r n) ! next_slot a =
      n\<lparr>nd_next := rg_first (ar_regions a ! r), nd_region := rid_pack (word_of_nat r) 0\<rparr>"
    "slot_handle (put_node a r n) (next_slot a) =
      nid_pack (word_of_nat (next_slot a)) (next_gen a) (op_level (nd_op n))"
  using next_slot_le [OF assms] assms by (simp_all add: slot_handle_def arena_wf_def)

lemma put_node_first:
  "r < length (ar_regions a) \<Longrightarrow> s < length (ar_regions a) \<Longrightarrow> rg_first (ar_regions (put_node a r n) ! s) =
    (if s = r then nid_pack (word_of_nat (next_slot a)) (next_gen a) (op_level (nd_op n))
     else rg_first (ar_regions a ! s))"
  by (simp add: put_node_def nth_list_update)

lemma slots_of_region_put:
  assumes wf: "arena_wf a" and cap: "length (ar_nodes a) < ar_node_cap a"
    and r: "r < length (ar_regions a)" and s: "s < length (ar_regions a)"
  shows "slots_of_region (put_node a r n) s =
    (if s = r then insert (next_slot a) (slots_of_region a s) else slots_of_region a s)"
proof -
  let ?b = "put_node a r n" and ?i = "next_slot a"
  have le: "?i \<le> length (ar_nodes a)" by (rule next_slot_le [OF wf])
  have rs: "rid_pack (word_of_nat r) 0 = rid_pack (word_of_nat s) 0 \<longleftrightarrow> s = r"
    using unat_region_slot [OF wf r] unat_region_slot [OF wf s] by (metis rid_index_pack)
  have "j \<in> slots_of_region ?b s \<longleftrightarrow> (j = ?i \<and> s = r) \<or> j \<in> slots_of_region a s" for j
  proof (cases "j < length (ar_nodes ?b)")
    case True
    show ?thesis
    proof (cases "j = ?i")
      case True
      have "?i \<notin> slots_of_region a s" using next_slot_fresh [OF wf, of ?i] by (auto simp: slots_of_region_def)
      with True le rs slot_live_put [OF wf cap, of ?i r n] put_node_new(1) [OF wf, of r n]
      show ?thesis by (auto simp: slots_of_region_def)
    next
      case False
      with True le have j: "j < length (ar_nodes a)" by auto
      with False True slot_live_put [OF wf cap, of j r n] put_node_old(1) [OF wf j, of r n]
      show ?thesis by (auto simp: slots_of_region_def)
    qed
  next
    case False
    then show ?thesis using le by (auto simp: slots_of_region_def)
  qed
  then show ?thesis by auto
qed

lemma region_chain_put:
  assumes wf: "arena_wf a" and cap: "length (ar_nodes a) < ar_node_cap a"
    and r: "r < length (ar_regions a)" and s: "s < length (ar_regions a)"
    and c: "region_chain a s is"
  shows "region_chain (put_node a r n) s (if s = r then next_slot a # is else is)"
proof -
  let ?b = "put_node a r n"
  from c have ch: "schain a (rg_first (ar_regions a ! s)) is" and d: "distinct is"
    and st: "set is = slots_of_region a s" by (auto simp: region_chain_def)
  have old: "i < length (ar_nodes a) \<and> slot_live a i" if "i \<in> set is" for i
    using that st by (auto simp: slots_of_region_def)
  have ch': "schain ?b cur is = schain a cur is" for cur
    by (rule schain_cong) (use old put_node_old [OF wf] in auto)
  have "next_slot a \<notin> set is" using old next_slot_fresh [OF wf] by blast
  with ch ch' d st show ?thesis
    using slots_of_region_put [OF wf cap r s, of n] put_node_first [OF r s, of n] put_node_new [OF wf, of r n]
    by (auto simp: region_chain_def)
qed

lemma arena_inv_put:
  assumes inv: "arena_inv a" and cap: "length (ar_nodes a) < ar_node_cap a"
    and r: "r < length (ar_regions a)" and n: "node_wf n"
  shows "arena_inv (put_node a r n)"
proof -
  let ?b = "put_node a r n"
  have wf: "arena_wf a" using inv by (simp add: arena_inv_def)
  have "\<exists>is. region_chain ?b s is" if "s < length (ar_regions a)" for s
    using that inv region_chain_put [OF wf cap r that] by (meson arena_inv_def)
  moreover have "\<exists>s < length (ar_regions a). nd_region (ar_nodes ?b ! j) = rid_pack (word_of_nat s) 0"
    if j: "j < length (ar_nodes ?b)" "slot_live ?b j" for j
  proof (cases "j = next_slot a")
    case True
    then show ?thesis using put_node_new(1) [OF wf, of r n] r by auto
  next
    case False
    with j next_slot_le [OF wf] have "j < length (ar_nodes a)" "slot_live a j"
      using slot_live_put [OF wf cap j(1)] by auto
    then show ?thesis using inv put_node_old(1) [OF wf] by (auto simp: arena_inv_def)
  qed
  ultimately show ?thesis using arena_wf_put [OF wf cap r n] by (simp add: arena_inv_def)
qed

section \<open>Removing a node\<close>

definition set_next :: "arena \<Rightarrow> nat \<Rightarrow> node_id \<Rightarrow> arena" where
  "set_next a p x = a\<lparr>ar_nodes := (ar_nodes a)[p := (ar_nodes a ! p)\<lparr>nd_next := x\<rparr>]\<rparr>"

text \<open>
  What \<^verbatim>\<open>remove_node\<close> does to a slot \<open>i\<close> that follows the slots \<open>js\<close> in the list of region \<open>r\<close>: its
  predecessor (or the region head) skips it, its generation is bumped and it goes on the free stack.
\<close>

definition cut_node :: "arena \<Rightarrow> nat \<Rightarrow> nat list \<Rightarrow> nat \<Rightarrow> arena" where
  "cut_node a r js i =
     (let a1 = (if js = [] then set_first a r (nd_next (ar_nodes a ! i))
                else set_next a (last js) (nd_next (ar_nodes a ! i)))
      in a1\<lparr>ar_gen := (ar_gen a1)[i := ar_gen a1 ! i + 1],
            ar_free := ar_free a1 @ [word_of_nat i]\<rparr>)"

lemma unlink_walk_eq:
  assumes "arena_wf a" "schain a cur (js @ p # i # ks)" "distinct (js @ p # i # ks)"
    "\<forall>j \<in> set (js @ p # i # ks). j < length (ar_nodes a)" "length js < k"
  shows "unlink_walk a (slot_handle a i) cur k = set_next a p (nd_next (ar_nodes a ! i))"
  using assms(2-)
proof (induction js arbitrary: cur k)
  case Nil
  then obtain k' where k: "k = Suc k'" by (cases k) auto
  from Nil assms(1) show ?case
    by (simp add: k arena_node_handle node_mut_def unat_slot set_next_def)
next
  case (Cons j js)
  then obtain k' where k: "k = Suc k'" by (cases k) auto
  obtain m ms where m: "js @ p # i # ks = m # ms" "m \<noteq> i" "m < length (ar_nodes a)"
    using Cons.prems by (cases js) auto
  with Cons.prems have nxt: "nd_next (ar_nodes a ! j) = slot_handle a m" by simp
  have i: "i < length (ar_nodes a)" using Cons.prems(3) by simp
  have "slot_handle a m \<noteq> slot_handle a i"
    using slot_handle_inj [OF assms(1)] m i by simp
  with Cons assms(1) nxt show ?case
    by (simp add: k arena_node_handle)
qed

lemma region_chain_length:
  assumes "region_chain a r is" shows "length is \<le> length (ar_nodes a)"
proof -
  from assms have "distinct is" "set is \<subseteq> {..<length (ar_nodes a)}"
    by (auto simp: region_chain_def slots_of_region_def)
  then show ?thesis by (metis card_lessThan card_mono distinct_card finite_lessThan)
qed

lemma unlink_node_eq:
  assumes wf: "arena_wf a" and r: "r < length (ar_regions a)"
    and c: "region_chain a r (js @ i # ks)"
  shows "unlink_node a (slot_handle a i) =
    (if js = [] then set_first a r (nd_next (ar_nodes a ! i))
     else set_next a (last js) (nd_next (ar_nodes a ! i)))"
proof -
  from c have all: "\<forall>j \<in> set (js @ i # ks). j < length (ar_nodes a)"
    and reg: "nd_region (ar_nodes a ! i) = rid_pack (word_of_nat r) 0"
    and ch: "schain a (rg_first (ar_regions a ! r)) (js @ i # ks)" and d: "distinct (js @ i # ks)"
    by (auto simp: region_chain_def slots_of_region_def)
  have i: "unat (word_of_nat i :: u32) = i" using all wf by (simp add: unat_slot)
  show ?thesis
  proof (cases js rule: rev_cases)
    case Nil
    with ch reg i show ?thesis
      by (simp add: unlink_node_def validate_region_pack [OF wf r] unat_region_slot [OF wf r])
  next
    case (snoc js' p)
    have "rg_first (ar_regions a ! r) \<noteq> slot_handle a i"
      using ch d all slot_handle_inj [OF wf] by (cases js') (auto simp: snoc)
    moreover have "length js' < length (ar_nodes a) + 1"
      using region_chain_length [OF c] by (simp add: snoc)
    then have "unlink_walk a (slot_handle a i) (rg_first (ar_regions a ! r)) (length (ar_nodes a) + 1)
        = set_next a p (nd_next (ar_nodes a ! i))"
      using ch d all by (intro unlink_walk_eq [OF wf, where js = js' and ks = ks]) (auto simp: snoc)
    ultimately show ?thesis using reg i
      by (simp add: unlink_node_def validate_region_pack [OF wf r] unat_region_slot [OF wf r] snoc)
  qed
qed

lemma remove_node_eq:
  assumes wf: "arena_wf a" and r: "r < length (ar_regions a)"
    and c: "region_chain a r (js @ i # ks)"
  shows "remove_node a (slot_handle a i) = (Inr (), cut_node a r js i)"
proof -
  have i: "i < length (ar_nodes a)" using c by (auto simp: region_chain_def slots_of_region_def)
  then show ?thesis
    by (simp add: remove_node_def unat_slot [OF wf i] unlink_node_eq [OF wf r c] cut_node_def Let_def)
qed

lemma cut_node_sel [simp]:
  "length (ar_nodes (cut_node a r js i)) = length (ar_nodes a)"
  "ar_gen (cut_node a r js i) = (ar_gen a)[i := ar_gen a ! i + 1]"
  "ar_free (cut_node a r js i) = ar_free a @ [word_of_nat i]"
  "ar_node_cap (cut_node a r js i) = ar_node_cap a"
  "length (ar_regions (cut_node a r js i)) = length (ar_regions a)"
  "ar_region_gen (cut_node a r js i) = ar_region_gen a"
  "ar_region_cap (cut_node a r js i) = ar_region_cap a"
  "ar_region_free (cut_node a r js i) = ar_region_free a"
  "ar_root (cut_node a r js i) = ar_root a"
  by (simp_all add: cut_node_def set_first_def set_next_def)

text \<open>Apart from one \<open>next\<close> link and one region head, records are untouched.\<close>

lemma cut_node_nodes:
  "ar_nodes (cut_node a r js i) ! j =
    (if js \<noteq> [] \<and> j = last js \<and> j < length (ar_nodes a)
     then (ar_nodes a ! j)\<lparr>nd_next := nd_next (ar_nodes a ! i)\<rparr> else ar_nodes a ! j)"
  by (cases "last js < length (ar_nodes a)")
    (auto simp: cut_node_def set_first_def set_next_def nth_list_update list_update_beyond)

lemma cut_node_regions:
  "s < length (ar_regions a) \<Longrightarrow> ar_regions (cut_node a r js i) ! s =
    (if js = [] \<and> s = r then (ar_regions a ! s)\<lparr>rg_first := nd_next (ar_nodes a ! i)\<rparr>
     else ar_regions a ! s)"
  by (simp add: cut_node_def set_first_def set_next_def nth_list_update)

lemma cut_node_fields [simp]:
  "nd_op (ar_nodes (cut_node a r js i) ! j) = nd_op (ar_nodes a ! j)"
  "nd_region (ar_nodes (cut_node a r js i) ! j) = nd_region (ar_nodes a ! j)"
  by (simp_all add: cut_node_nodes)

lemma cut_node_handle: "j \<noteq> i \<Longrightarrow> slot_handle (cut_node a r js i) j = slot_handle a j"
  by (simp add: slot_handle_def)

lemma slot_live_cut:
  assumes "arena_wf a" "j < length (ar_nodes a)" "i < length (ar_nodes a)"
  shows "slot_live (cut_node a r js i) j \<longleftrightarrow> slot_live a j \<and> j \<noteq> i"
proof -
  have "(word_of_nat j :: u32) = word_of_nat i \<longleftrightarrow> j = i"
    using assms by (metis unat_slot)
  then show ?thesis by (auto simp: slot_live_iff)
qed

lemma arena_wf_cut:
  assumes wf: "arena_wf a" and i: "i < length (ar_nodes a)" "slot_live a i"
  shows "arena_wf (cut_node a r js i)"
proof -
  let ?b = "cut_node a r js i"
  have lg: "length (ar_gen a) = length (ar_nodes a)" using wf by (simp add: arena_wf_def)
  have parity: "even (ar_gen ?b ! j) \<longleftrightarrow> slot_live ?b j" if "j < length (ar_nodes ?b)" for j
    using that wf i lg slot_live_cut [OF wf _ i(1), of j] by (auto simp: arena_wf_def nth_list_update)
  have free: "distinct (ar_free ?b)" "\<forall>f \<in> set (ar_free ?b). unat f < length (ar_nodes ?b)"
    using wf i unat_slot [OF wf i(1)] by (auto simp: arena_wf_def slot_live_iff)
  have nodes: "node_wf m" if m: "m \<in> set (ar_nodes ?b)" for m
  proof -
    obtain j where "j < length (ar_nodes a)" "m = ar_nodes ?b ! j" using m by (auto simp: in_set_conv_nth)
    then show ?thesis using wf by (auto simp: arena_wf_def cut_node_nodes node_wf_def)
  qed
  have regs: "rg_generation (ar_regions ?b ! s) = 0" if "s < length (ar_regions ?b)" for s
    using that wf by (auto simp: cut_node_regions arena_wf_def)
  have len: "length (ar_gen ?b) = length (ar_nodes ?b)" using lg by simp
  show ?thesis
    unfolding arena_wf_def
    by (intro conjI; (rule free len)?)
      (use wf parity nodes regs in \<open>simp_all add: arena_wf_def del: cut_node_sel(2,3)\<close>)
qed

lemma slots_of_region_cut:
  assumes "arena_wf a" "i < length (ar_nodes a)"
  shows "slots_of_region (cut_node a r js i) s = slots_of_region a s - {i}"
  using slot_live_cut [OF assms(1) _ assms(2)] by (auto simp: slots_of_region_def)

lemma schain_cut:
  assumes "schain a cur (js @ p # i # ks)" "distinct (js @ p # i # ks)" "p < length (ar_nodes a)"
  shows "schain (cut_node a r (js @ [p]) i) cur (js @ p # ks)"
  using assms
proof (induction js arbitrary: cur)
  case Nil
  let ?b = "cut_node a r [p] i"
  from Nil have "schain ?b (nd_next (ar_nodes a ! i)) ks = schain a (nd_next (ar_nodes a ! i)) ks"
    by (intro schain_cong cut_node_handle) (auto simp: cut_node_nodes)
  with Nil show ?case by (auto simp: cut_node_handle cut_node_nodes)
next
  case (Cons j js)
  let ?b = "cut_node a r (j # js @ [p]) i"
  have "schain ?b c l = schain (cut_node a r (js @ [p]) i) c l" for c l
    by (rule schain_cong) (simp_all add: cut_node_nodes slot_handle_def)
  moreover have "schain (cut_node a r (js @ [p]) i) (nd_next (ar_nodes a ! j)) (js @ p # ks)"
    using Cons by simp
  ultimately show ?case using Cons.prems by (auto simp: cut_node_handle cut_node_nodes)
qed

lemma region_chain_cut:
  assumes wf: "arena_wf a" and r: "r < length (ar_regions a)"
    and c: "region_chain a r (js @ i # ks)"
  shows "region_chain (cut_node a r js i) r (js @ ks)"
proof -
  let ?b = "cut_node a r js i"
  from c have all: "\<forall>j \<in> set (js @ i # ks). j < length (ar_nodes a)"
    and ch: "schain a (rg_first (ar_regions a ! r)) (js @ i # ks)" and d: "distinct (js @ i # ks)"
    and st: "set (js @ i # ks) = slots_of_region a r"
    by (auto simp: region_chain_def slots_of_region_def)
  have "schain ?b (rg_first (ar_regions ?b ! r)) (js @ ks)"
  proof (cases js rule: rev_cases)
    case Nil
    from d have "schain ?b (nd_next (ar_nodes a ! i)) ks = schain a (nd_next (ar_nodes a ! i)) ks"
      by (intro schain_cong cut_node_handle) (auto simp: cut_node_nodes Nil)
    with Nil ch r show ?thesis by (simp add: cut_node_regions)
  next
    case (snoc js' p)
    with ch d all schain_cut [of a _ js' p i ks r] r show ?thesis by (simp add: cut_node_regions)
  qed
  moreover have "set (js @ ks) = slots_of_region ?b r"
    using st d slots_of_region_cut [OF wf, of i r js r] all by auto
  ultimately show ?thesis using d by (simp add: region_chain_def)
qed

lemma region_chain_cut_other:
  assumes wf: "arena_wf a" and r: "r < length (ar_regions a)" and s: "s < length (ar_regions a)" "s \<noteq> r"
    and c: "region_chain a r (js @ i # ks)" and cs: "region_chain a s is"
  shows "region_chain (cut_node a r js i) s is"
proof -
  let ?b = "cut_node a r js i"
  have "rid_pack (word_of_nat r) 0 \<noteq> rid_pack (word_of_nat s) 0"
    using unat_region_slot [OF wf r] unat_region_slot [OF wf s(1)] s(2) by (metis rid_index_pack)
  then have disj: "slots_of_region a r \<inter> slots_of_region a s = {}" by (auto simp: slots_of_region_def)
  from c cs disj have n: "j \<noteq> i" "js = [] \<or> j \<noteq> last js" if "j \<in> set is" for j
    using that by (auto simp: region_chain_def dest: last_in_set)
  have "schain ?b c is = schain a c is" for c
    by (rule schain_cong) (use n in \<open>auto simp: cut_node_handle cut_node_nodes\<close>)
  moreover have "i \<notin> set is" using n by blast
  moreover have "i < length (ar_nodes a)" using c by (auto simp: region_chain_def slots_of_region_def)
  ultimately show ?thesis
    using cs s by (auto simp: region_chain_def cut_node_regions slots_of_region_cut [OF wf])
qed

lemma arena_inv_cut:
  assumes inv: "arena_inv a" and r: "r < length (ar_regions a)"
    and c: "region_chain a r (js @ i # ks)"
  shows "arena_inv (cut_node a r js i)"
proof -
  have wf: "arena_wf a" using inv by (simp add: arena_inv_def)
  have i: "i < length (ar_nodes a)" "slot_live a i"
    using c by (auto simp: region_chain_def slots_of_region_def)
  have "\<exists>is. region_chain (cut_node a r js i) s is" if s: "s < length (ar_regions a)" for s
    using inv s region_chain_cut [OF wf r c] region_chain_cut_other [OF wf r s _ c]
    by (metis arena_inv_def)
  moreover have "arena_wf (cut_node a r js i)" by (rule arena_wf_cut [OF wf i])
  ultimately show ?thesis
    using inv slot_live_cut [OF wf _ i(1)] by (auto simp: arena_inv_def)
qed

end
