(* ===== verification/Arena_Props.thy ===== *)
theory Arena_Props
  imports Arena_Inv
begin

text \<open>
  What the arena promises its clients: handles, the region lists as abstract sequences, the
  reachable states, and the interface \<open>node_store\<close> the graph passes are proved against.
\<close>

section \<open>Live handles\<close>

lemma arena_inv_wf: "arena_inv a \<Longrightarrow> arena_wf a"
  by (simp add: arena_inv_def)

lemma set_live_ids:
  "x \<in> set (live_ids a) \<longleftrightarrow> (\<exists>i < length (ar_nodes a). slot_live a i \<and> x = slot_handle a i)"
  by (auto simp: live_ids_def live_nodes_def)

lemma live_idsE:
  assumes "x \<in> set (live_ids a)"
  obtains i where "i < length (ar_nodes a)" "slot_live a i" "x = slot_handle a i"
  using assms by (auto simp: set_live_ids)

lemma distinct_live_ids:
  assumes "arena_wf a" shows "distinct (live_ids a)"
proof -
  have "inj_on (slot_handle a) {i \<in> {0..<length (ar_nodes a)}. slot_live a i}"
    using slot_handle_inj [OF assms] by (auto intro: inj_onI)
  then show ?thesis by (simp add: live_ids_def live_nodes_def comp_def distinct_map)
qed

lemma length_live_ids:
  assumes wf: "arena_wf a" shows "length (live_ids a) = node_count a"
proof -
  let ?S = "{i. i < length (ar_nodes a) \<and> slot_live a i}" and ?F = "unat ` set (ar_free a)"
  have "\<not> slot_live a i \<longleftrightarrow> i \<in> ?F" if "i < length (ar_nodes a)" for i
    using unat_slot [OF wf that] by (force simp: slot_live_iff image_iff)
  moreover have sub: "?F \<subseteq> {..<length (ar_nodes a)}" using wf by (auto simp: arena_wf_def)
  ultimately have "?S = {..<length (ar_nodes a)} - ?F" by auto
  moreover have "card ?F = length (ar_free a)"
    using wf by (subst card_image) (auto simp: arena_wf_def distinct_card intro: inj_onI word_unat_eq_iff [THEN iffD2])
  ultimately have "card ?S = node_count a"
    using sub by (simp add: card_Diff_subset node_count_def)
  moreover have "length (filter (slot_live a) [0..<length (ar_nodes a)]) = card ?S"
    by (subst distinct_card [symmetric]) (auto intro: arg_cong [where f = card])
  ultimately show ?thesis by (simp add: live_ids_def live_nodes_def)
qed

lemma arena_node_live:
  assumes "arena_wf a" "(x, n) \<in> set (live_nodes a)" shows "arena_node a x = Inr n"
  using assms arena_node_handle by (auto simp: live_nodes_def)

lemma live_ids_node:
  assumes "arena_wf a" "x \<in> set (live_ids a)"
  obtains n where "arena_node a x = Inr n" "(x, n) \<in> set (live_nodes a)"
  using assms arena_node_live by (fastforce simp: live_ids_def)

lemma arena_inv_region:
  assumes "arena_inv a" "i < length (ar_nodes a)" "slot_live a i"
  obtains r where "r < length (ar_regions a)" "nd_region (ar_nodes a ! i) = rid_pack (word_of_nat r) 0"
  using assms by (auto simp: arena_inv_def)

lemma region_pack_inj:
  assumes "arena_wf a" "r \<le> length (ar_regions a)" "s \<le> length (ar_regions a)"
    "r < 2 ^ 32" "s < 2 ^ 32" "rid_pack (word_of_nat r) 0 = rid_pack (word_of_nat s) 0"
  shows "r = s"
proof -
  have "(word_of_nat r :: u32) = word_of_nat s" using assms(6) by (metis rid_index_pack)
  with assms(4,5) show ?thesis by (simp add: word_of_nat_u32_inj)
qed

lemma region_of_live:
  assumes "arena_inv a" "i < length (ar_nodes a)" "slot_live a i"
  obtains r js ks where "r < length (ar_regions a)" "region_chain a r (js @ i # ks)"
proof -
  from assms obtain r where r: "r < length (ar_regions a)"
    "nd_region (ar_nodes a ! i) = rid_pack (word_of_nat r) 0" by (auto simp: arena_inv_def)
  with assms obtain "is" where c: "region_chain a r is" by (auto simp: arena_inv_def)
  have "i \<in> set is" using c r assms by (auto simp: region_chain_def slots_of_region_def)
  then obtain js ks where "is = js @ i # ks" by (auto dest: split_list)
  with c r that show thesis by blast
qed

section \<open>Insertion and removal as clients see them\<close>

text \<open>The region handles the arena hands out.\<close>

definition region_ids :: "arena \<Rightarrow> region_id list" where
  "region_ids a = map fst (region_entries a)"

lemma region_idsE:
  assumes "arena_wf a" "g \<in> set (region_ids a)"
  obtains r where "r < length (ar_regions a)" "g = rid_pack (word_of_nat r) 0"
  using assms by (auto simp: region_ids_def region_entries_def arena_wf_def)

lemma region_ids_slot:
  assumes "arena_wf a" "r < length (ar_regions a)"
  shows "rid_pack (word_of_nat r) 0 \<in> set (region_ids a)"
proof -
  have "rg_generation (ar_regions a ! r) = 0" using assms by (simp add: arena_wf_def)
  then show ?thesis using assms(2) by (force simp: region_ids_def region_entries_def)
qed

lemma insert_node_ok:
  assumes "arena_wf a" "g \<in> set (region_ids a)" "insert_node a g n = (Inr x, b)"
  obtains r where "r < length (ar_regions a)" "g = rid_pack (word_of_nat r) 0"
    "length (ar_nodes a) < ar_node_cap a" "b = put_node a r n" "x = slot_handle b (next_slot a)"
    "unat (nd_n_inputs n) \<le> MAX_INPUTS"
proof -
  from region_idsE [OF assms(1,2)] obtain r where r: "r < length (ar_regions a)" "g = rid_pack (word_of_nat r) 0" .
  with assms(3) insert_node_eq [OF assms(1) r(1), of n] put_node_new(2) [OF assms(1), of r n]
  show thesis by (intro that [of r]) (auto split: if_splits)
qed

lemma live_ids_put:
  assumes wf: "arena_wf a" and cap: "length (ar_nodes a) < ar_node_cap a"
  shows "set (live_ids (put_node a r n)) =
    insert (slot_handle (put_node a r n) (next_slot a)) (set (live_ids a))"
    and "slot_handle (put_node a r n) (next_slot a) \<notin> set (live_ids a)"
proof -
  let ?b = "put_node a r n" and ?i = "next_slot a"
  have le: "?i \<le> length (ar_nodes a)" by (rule next_slot_le [OF wf])
  have mem: "j < length (ar_nodes ?b) \<longleftrightarrow> j = ?i \<or> j < length (ar_nodes a)" for j using le by auto
  have old: "slot_live ?b j \<longleftrightarrow> j = ?i \<or> slot_live a j" if "j < length (ar_nodes ?b)" for j
    by (rule slot_live_put [OF wf cap that])
  have hd: "slot_handle ?b j = slot_handle a j" if "j < length (ar_nodes a)" "slot_live a j" for j
    by (rule put_node_old(2) [OF wf that])
  show "set (live_ids ?b) = insert (slot_handle ?b ?i) (set (live_ids a))"
    unfolding set_eq_iff insert_iff set_live_ids using mem old hd by metis
  have "slot_handle ?b ?i \<noteq> slot_handle a j" if j: "j < length (ar_nodes a)" "slot_live a j" for j
  proof
    assume "slot_handle ?b ?i = slot_handle a j"
    then have "(word_of_nat ?i :: u32) = word_of_nat j" by (metis slot_handle_sel(1))
    moreover have "j < 2 ^ 32" using j wf by (auto simp: arena_wf_def)
    ultimately show False
      using next_slot_fresh [OF wf j] next_slot_bound(1) [OF wf cap] by (simp add: word_of_nat_u32_inj)
  qed
  then show "slot_handle ?b ?i \<notin> set (live_ids a)" by (auto simp: set_live_ids)
qed

lemma remove_node_live:
  assumes "arena_inv a" "i < length (ar_nodes a)" "slot_live a i"
  obtains r js ks where "r < length (ar_regions a)" "region_chain a r (js @ i # ks)"
    "remove_node a (slot_handle a i) = (Inr (), cut_node a r js i)"
  using region_of_live [OF assms] remove_node_eq arena_inv_wf assms(1) by metis

lemma live_ids_cut:
  assumes wf: "arena_wf a" and i: "i < length (ar_nodes a)"
  shows "set (live_ids (cut_node a r js i)) = set (live_ids a) - {slot_handle a i}"
  unfolding set_eq_iff Diff_iff set_live_ids cut_node_sel(1)
  using slot_live_cut [OF wf _ i, of _ r js] cut_node_handle [of _ i a r js] slot_handle_inj [OF wf _ i]
  by (metis singleton_iff)

text \<open>A node without its intrusive list link: what an operation on another node leaves alone.\<close>

definition payload :: "node \<Rightarrow> node" where
  "payload n = n\<lparr>nd_next := NodeId_NONE\<rparr>"

lemma payload_sel [simp]:
  "nd_op (payload n) = nd_op n" "nd_ty (payload n) = nd_ty n" "nd_ty1 (payload n) = nd_ty1 n"
  "nd_region (payload n) = nd_region n" "nd_inputs (payload n) = nd_inputs n"
  "nd_n_inputs (payload n) = nd_n_inputs n" "nd_effect_in (payload n) = nd_effect_in n"
  "nd_effect_out (payload n) = nd_effect_out n"
  by (simp_all add: payload_def)

lemma payload_cut: "payload (ar_nodes (cut_node a r js i) ! j) = payload (ar_nodes a ! j)"
  by (simp add: cut_node_nodes payload_def)

lemma arena_node_cut_other:
  assumes wf: "arena_wf a" and i: "i < length (ar_nodes a)"
    and y: "y \<in> set (live_ids a)" "y \<noteq> slot_handle a i"
  shows "map_sum id payload (arena_node (cut_node a r js i) y) = map_sum id payload (arena_node a y)"
proof -
  from y obtain j where j: "j < length (ar_nodes a)" "j \<noteq> i" "y = slot_handle a j" by (auto elim: live_idsE)
  have "slot_handle (cut_node a r js i) j = y" using j by (simp add: cut_node_handle)
  with j wf show ?thesis by (simp add: arena_node_def unat_slot payload_cut Let_def)
qed

lemma arena_node_cut_self:
  assumes wf: "arena_wf a" and i: "i < length (ar_nodes a)"
  shows "arena_node (cut_node a r js i) (slot_handle a i) = Inl UnknownNode"
  using assms by (simp add: arena_node_Inl unat_slot) (simp add: arena_wf_def)

section \<open>Creating arenas and regions\<close>

lemma new_region_eq:
  assumes "arena_wf a"
  shows "new_region a p w =
    (if length (ar_regions a) \<ge> ar_region_cap a then (Inl Exhausted, a)
     else (Inr (rid_pack (word_of_nat (length (ar_regions a))) 0),
           a\<lparr>ar_region_gen := ar_region_gen a @ [0],
             ar_regions := ar_regions a @
               [\<lparr>rg_parent = p, rg_first = NodeId_NONE, rg_owner = w, rg_generation = 0\<rparr>]\<rparr>))"
  using assms by (simp add: new_region_def arena_wf_def)

lemma arena_inv_new_region:
  assumes inv: "arena_inv a" shows "arena_inv (snd (new_region a p w))"
proof (cases "length (ar_regions a) \<ge> ar_region_cap a")
  case True
  with inv show ?thesis by (simp add: new_region_eq [OF arena_inv_wf])
next
  case False
  let ?b = "snd (new_region a p w)" and ?m = "length (ar_regions a)"
  have wf: "arena_wf a" using inv by (rule arena_inv_wf)
  have b: "?b = a\<lparr>ar_region_gen := ar_region_gen a @ [0], ar_regions := ar_regions a @
      [\<lparr>rg_parent = p, rg_first = NodeId_NONE, rg_owner = w, rg_generation = 0\<rparr>]\<rparr>"
    using False by (simp add: new_region_eq [OF wf])
  have sl: "slot_live ?b = slot_live a" "slot_handle ?b = slot_handle a"
    by (auto simp: b slot_live_def slot_handle_def fun_eq_iff)
  have wf': "arena_wf ?b"
    using wf False by (auto simp: b arena_wf_def replicate_append_same nth_append less_Suc_eq slot_live_def)
  have sor: "slots_of_region ?b s = slots_of_region a s" for s
    using sl by (simp add: slots_of_region_def) (simp add: b)
  have sch: "schain ?b c l = schain a c l" for c l
    by (rule schain_cong) (simp_all add: sl, simp add: b)
  have old: "\<exists>is. region_chain ?b s is" if "s < ?m" for s
  proof -
    have "rg_first (ar_regions ?b ! s) = rg_first (ar_regions a ! s)" using that by (simp add: b nth_append)
    with inv that show ?thesis by (auto simp: region_chain_def sor sch arena_inv_def)
  qed
  have m: "?m < 2 ^ 32" using wf False by (simp add: arena_wf_def)
  have "slots_of_region a ?m = {}"
  proof (rule equals0I)
    fix i assume i: "i \<in> slots_of_region a ?m"
    then have "i < length (ar_nodes a)" "slot_live a i" by (simp_all add: slots_of_region_def)
    then obtain s where s: "s < ?m" "nd_region (ar_nodes a ! i) = rid_pack (word_of_nat s) 0"
      by (rule arena_inv_region [OF inv])
    with i have "rid_pack (word_of_nat ?m) 0 = rid_pack (word_of_nat s) 0"
      by (simp add: slots_of_region_def)
    then have "?m = s" using s(1) m wf by (intro region_pack_inj [OF wf]) simp_all
    with s(1) show False by simp
  qed
  then have "region_chain ?b ?m []" by (simp add: region_chain_def sor) (simp add: b)
  then have "\<exists>is. region_chain ?b s is" if "s < length (ar_regions ?b)" for s
    using that old by (cases "s = ?m") (auto simp: b)
  moreover have "\<exists>s < length (ar_regions ?b). nd_region (ar_nodes ?b ! i) = rid_pack (word_of_nat s) 0"
    if "i < length (ar_nodes ?b)" "slot_live ?b i" for i
  proof -
    have "i < length (ar_nodes a)" "slot_live a i" using that(1) that(2) [unfolded sl] by (simp_all add: b)
    then obtain s where "s < ?m" "nd_region (ar_nodes a ! i) = rid_pack (word_of_nat s) 0"
      by (rule arena_inv_region [OF inv])
    then show ?thesis by (intro exI [of _ s]) (simp add: b)
  qed
  ultimately show ?thesis using wf' by (simp add: arena_inv_def)
qed

lemma arena_inv_with_capacity:
  assumes "n \<le> 2 ^ 32" "m \<le> 2 ^ 32" shows "arena_inv (with_capacity n m)"
proof -
  let ?z = "\<lparr>ar_nodes = [], ar_gen = [], ar_free = [], ar_node_cap = n, ar_regions = [],
     ar_region_free = [], ar_region_gen = [], ar_region_cap = m, ar_root = RegionId_NONE\<rparr>"
  have z: "arena_inv ?z" using assms by (simp add: arena_inv_def arena_wf_def)
  have root: "arena_inv (b\<lparr>ar_root := g\<rparr>)" if "arena_inv b" for b g
  proof -
    have "schain (b\<lparr>ar_root := g\<rparr>) c l = schain b c l" for c l
      by (rule schain_cong) (simp_all add: slot_handle_def)
    with that show ?thesis
      by (simp add: arena_inv_def arena_wf_def region_chain_def slots_of_region_def slot_live_def)
  qed
  show ?thesis
    using root arena_inv_new_region [OF z, of RegionId_NONE NodeId_NONE]
    by (simp add: with_capacity_def Let_def split: prod.split sum.split) fastforce
qed

section \<open>Region lists\<close>

text \<open>
  The handles met when the list of a region is followed from its head: the walk the consumers of
  \<^verbatim>\<open>Region::first\<close> and \<^verbatim>\<open>Node::next\<close> perform, cut after as many steps as the arena has slots.
\<close>

fun region_walk :: "arena \<Rightarrow> node_id \<Rightarrow> nat \<Rightarrow> node_id list" where
  "region_walk a cur 0 = []"
| "region_walk a cur (Suc k) =
     (if cur = NodeId_NONE then []
      else case arena_node a cur of Inl _ \<Rightarrow> [] | Inr n \<Rightarrow> cur # region_walk a (nd_next n) k)"

definition region_list :: "arena \<Rightarrow> region_id \<Rightarrow> node_id list" where
  "region_list a g =
     (case arena_region a g of Inl _ \<Rightarrow> [] | Inr r \<Rightarrow> region_walk a (rg_first r) (length (ar_nodes a)))"

lemma region_walk_schain:
  assumes "arena_wf a" "schain a cur is" "\<forall>i \<in> set is. i < length (ar_nodes a)" "length is \<le> k"
  shows "region_walk a cur k = map (slot_handle a) is"
  using assms(2-)
proof (induction "is" arbitrary: cur k)
  case Nil
  then show ?case by (cases k) auto
next
  case (Cons i "is")
  then obtain k' where "k = Suc k'" by (cases k) auto
  with Cons assms(1) show ?case by (simp add: arena_node_handle)
qed

lemma region_list_chain:
  assumes wf: "arena_wf a" and r: "r < length (ar_regions a)" and c: "region_chain a r is"
  shows "region_list a (rid_pack (word_of_nat r) 0) = map (slot_handle a) is"
proof -
  have "region_walk a (rg_first (ar_regions a ! r)) (length (ar_nodes a)) = map (slot_handle a) is"
    using c region_chain_length [OF c]
    by (intro region_walk_schain [OF wf]) (auto simp: region_chain_def slots_of_region_def)
  then show ?thesis
    by (simp add: region_list_def arena_region_def validate_region_pack [OF wf r] unat_region_slot [OF wf r])
qed

lemma region_list_put:
  assumes inv: "arena_inv a" and cap: "length (ar_nodes a) < ar_node_cap a"
    and r: "r < length (ar_regions a)" and n: "node_wf n" and s: "s < length (ar_regions a)"
  shows "region_list (put_node a r n) (rid_pack (word_of_nat s) 0) =
    (if s = r then [slot_handle (put_node a r n) (next_slot a)] else []) @
    region_list a (rid_pack (word_of_nat s) 0)"
proof -
  let ?b = "put_node a r n"
  have wf: "arena_wf a" "arena_wf ?b"
    using inv arena_wf_put [OF _ cap r n] by (auto simp: arena_inv_def)
  obtain "is" where c: "region_chain a s is" using inv s by (auto simp: arena_inv_def)
  have "map (slot_handle ?b) is = map (slot_handle a) is"
    using c put_node_old(2) [OF wf(1)] by (auto simp: region_chain_def slots_of_region_def)
  with region_list_chain [OF wf(1) s c] region_list_chain [OF wf(2) _ region_chain_put [OF wf(1) cap r s c]]
  show ?thesis by (simp add: s del: put_node_sel(1,2))
qed

lemma region_list_cut:
  assumes inv: "arena_inv a" and r: "r < length (ar_regions a)"
    and c: "region_chain a r (js @ i # ks)" and s: "s < length (ar_regions a)"
  shows "region_list (cut_node a r js i) (rid_pack (word_of_nat s) 0) =
    remove1 (slot_handle a i) (region_list a (rid_pack (word_of_nat s) 0))"
proof -
  let ?b = "cut_node a r js i"
  have i: "i < length (ar_nodes a)" "slot_live a i" and d: "distinct (js @ i # ks)"
    and all: "\<forall>j \<in> set (js @ i # ks). j < length (ar_nodes a)"
    using c by (auto simp: region_chain_def slots_of_region_def)
  have wf: "arena_wf a" "arena_wf ?b" using inv arena_wf_cut [OF _ i] by (auto simp: arena_inv_def)
  have h: "map (slot_handle ?b) l = map (slot_handle a) l" if "i \<notin> set l" for l
    by (rule map_cong [OF refl]) (use that in \<open>auto intro!: cut_node_handle\<close>)
  show ?thesis
  proof (cases "s = r")
    case True
    have "slot_handle a i \<notin> slot_handle a ` set js"
      using d all slot_handle_inj [OF wf(1)] by auto
    then show ?thesis
      using region_list_chain [OF wf(1) r c] region_list_chain [OF wf(2) _ region_chain_cut [OF wf(1) r c]]
        d r h [of "js @ ks"] by (simp add: True remove1_append)
  next
    case False
    obtain "is" where cs: "region_chain a s is" using inv s by (auto simp: arena_inv_def)
    have "rid_pack (word_of_nat r) 0 \<noteq> rid_pack (word_of_nat s) 0"
      using unat_region_slot [OF wf(1) r] unat_region_slot [OF wf(1) s] False by (metis rid_index_pack)
    moreover have "nd_region (ar_nodes a ! i) = rid_pack (word_of_nat r) 0"
      using c by (auto simp: region_chain_def slots_of_region_def)
    ultimately have ni: "i \<notin> set is" using cs by (simp add: region_chain_def slots_of_region_def)
    moreover have "j < length (ar_nodes a)" if "j \<in> set is" for j
      using that cs by (simp add: region_chain_def slots_of_region_def)
    ultimately have "slot_handle a i \<notin> slot_handle a ` set is"
      using i(1) slot_handle_inj [OF wf(1)] by (metis imageE)
    with ni show ?thesis
      using region_list_chain [OF wf(1) s cs] h [OF ni] s
        region_list_chain [OF wf(2) _ region_chain_cut_other [OF wf(1) r s False c cs]]
      by (simp add: remove1_idem)
  qed
qed

section \<open>In-place edits\<close>

text \<open>The writes through \<^verbatim>\<open>node_mut\<close> that keep the handle and the list links of a node.\<close>

definition edit_ok :: "(node \<Rightarrow> node) \<Rightarrow> bool" where
  "edit_ok f \<longleftrightarrow> (\<forall>n. nd_next (f n) = nd_next n \<and> nd_region (f n) = nd_region n \<and>
     op_level (nd_op (f n)) = op_level (nd_op n) \<and> (node_wf n \<longrightarrow> node_wf (f n)))"

lemma edit_okD:
  assumes "edit_ok f"
  shows "nd_next (f n) = nd_next n" "nd_region (f n) = nd_region n"
    "op_level (nd_op (f n)) = op_level (nd_op n)" "node_wf n \<Longrightarrow> node_wf (f n)"
  using assms by (auto simp: edit_ok_def)

definition edit_slot :: "arena \<Rightarrow> nat \<Rightarrow> (node \<Rightarrow> node) \<Rightarrow> arena" where
  "edit_slot a i f = a\<lparr>ar_nodes := (ar_nodes a)[i := f (ar_nodes a ! i)]\<rparr>"

lemma node_mut_Inr [arena_simps]:
  "node_mut a x f = Inr b \<longleftrightarrow>
     unat (nid_index x) < length (ar_nodes a) \<and> ar_gen a ! unat (nid_index x) = nid_generation x \<and>
     b = edit_slot a (unat (nid_index x)) f"
  by (auto simp: node_mut_def edit_slot_def Let_def)

lemma edit_slot_nth:
  assumes "edit_ok f" "j < length (ar_nodes a)"
  shows "nd_next (ar_nodes (edit_slot a i f) ! j) = nd_next (ar_nodes a ! j)"
    "nd_region (ar_nodes (edit_slot a i f) ! j) = nd_region (ar_nodes a ! j)"
    "slot_handle (edit_slot a i f) j = slot_handle a j"
  using assms by (cases "i = j"; simp add: edit_slot_def slot_handle_def edit_okD)+

lemma edit_slot_sel [simp]:
  "length (ar_nodes (edit_slot a i f)) = length (ar_nodes a)" "ar_gen (edit_slot a i f) = ar_gen a"
  "ar_free (edit_slot a i f) = ar_free a" "ar_regions (edit_slot a i f) = ar_regions a"
  "ar_node_cap (edit_slot a i f) = ar_node_cap a" "ar_region_cap (edit_slot a i f) = ar_region_cap a"
  "ar_region_gen (edit_slot a i f) = ar_region_gen a" "ar_region_free (edit_slot a i f) = ar_region_free a"
  "slot_live (edit_slot a i f) = slot_live a"
  by (simp_all add: edit_slot_def slot_live_def fun_eq_iff)

lemma arena_wf_edit:
  assumes "arena_wf a" "edit_ok f" shows "arena_wf (edit_slot a i f)"
proof -
  have "node_wf n" if "n \<in> set (ar_nodes (edit_slot a i f))" for n
  proof -
    obtain j where j: "j < length (ar_nodes a)" "n = ar_nodes (edit_slot a i f) ! j"
      using \<open>n \<in> _\<close> by (auto simp: in_set_conv_nth)
    then have "node_wf (ar_nodes a ! j)" using assms(1) by (simp add: arena_wf_def)
    with j edit_okD(4) [OF assms(2)] show ?thesis by (cases "i = j") (simp_all add: edit_slot_def)
  qed
  with assms(1) show ?thesis by (simp add: arena_wf_def)
qed

lemma region_chain_edit:
  assumes "edit_ok f" "region_chain a r is" shows "region_chain (edit_slot a i f) r is"
proof -
  have s: "slots_of_region (edit_slot a i f) r = slots_of_region a r"
    using edit_slot_nth(2) [OF assms(1)] by (auto simp: slots_of_region_def)
  moreover have "schain (edit_slot a i f) c is = schain a c is" for c
    using assms(2) by (intro schain_cong edit_slot_nth [OF assms(1)])
      (auto simp: region_chain_def slots_of_region_def)
  ultimately show ?thesis using assms(2) by (simp add: region_chain_def)
qed

lemma arena_inv_edit:
  assumes "arena_inv a" "edit_ok f" shows "arena_inv (edit_slot a i f)"
  using assms arena_wf_edit region_chain_edit edit_slot_nth(2)
  unfolding arena_inv_def edit_slot_sel by metis

lemma live_ids_edit:
  assumes "edit_ok f" shows "live_ids (edit_slot a i f) = live_ids a"
  using edit_slot_nth(3) [OF assms, of _ a i] by (simp add: live_ids_def live_nodes_def)

section \<open>The store interface of the passes\<close>

text \<open>
  What the passes over the arena rely on: the live handles are enumerated without repetition,
  each of them reads back, and removing one leaves the content of the others alone.
\<close>

locale node_store =
  fixes inv :: "'s \<Rightarrow> bool" and ids :: "'s \<Rightarrow> 'h list" and get :: "'s \<Rightarrow> 'h \<Rightarrow> 'n option"
    and del :: "'s \<Rightarrow> 'h \<Rightarrow> 's"
  assumes ids_distinct: "inv s \<Longrightarrow> distinct (ids s)"
    and ids_get: "inv s \<Longrightarrow> x \<in> set (ids s) \<Longrightarrow> get s x \<noteq> None"
    and del_inv: "inv s \<Longrightarrow> x \<in> set (ids s) \<Longrightarrow> inv (del s x)"
    and del_ids: "inv s \<Longrightarrow> x \<in> set (ids s) \<Longrightarrow> set (ids (del s x)) = set (ids s) - {x}"
    and del_get: "inv s \<Longrightarrow> x \<in> set (ids s) \<Longrightarrow> y \<in> set (ids s) \<Longrightarrow> y \<noteq> x \<Longrightarrow> get (del s x) y = get s y"
    and del_self: "inv s \<Longrightarrow> x \<in> set (ids s) \<Longrightarrow> get (del s x) x = None"
begin

definition del_all :: "'h list \<Rightarrow> 's \<Rightarrow> 's" where
  "del_all xs s = fold (\<lambda>x s. del s x) xs s"

lemma del_all_simps [simp]:
  "del_all [] s = s" "del_all (x # xs) s = del_all xs (del s x)"
  by (simp_all add: del_all_def)

lemma del_all_inv:
  "inv s \<Longrightarrow> distinct xs \<Longrightarrow> set xs \<subseteq> set (ids s) \<Longrightarrow>
     inv (del_all xs s) \<and> set (ids (del_all xs s)) = set (ids s) - set xs"
proof (induction xs arbitrary: s)
  case (Cons x xs)
  then have "inv (del s x)" "set (ids (del s x)) = set (ids s) - {x}" by (auto simp: del_inv del_ids)
  with Cons.IH [of "del s x"] Cons.prems show ?case by auto
qed simp

lemma del_all_get:
  "inv s \<Longrightarrow> distinct xs \<Longrightarrow> set xs \<subseteq> set (ids s) \<Longrightarrow> y \<in> set (ids s) \<Longrightarrow> y \<notin> set xs \<Longrightarrow>
     get (del_all xs s) y = get s y"
proof (induction xs arbitrary: s)
  case (Cons x xs)
  then have s: "inv (del s x)" "set (ids (del s x)) = set (ids s) - {x}" by (auto simp: del_inv del_ids)
  then have "get (del_all xs (del s x)) y = get (del s x) y" using Cons by auto
  with Cons.prems show ?case by (simp add: del_get)
qed simp

lemma length_ids: "inv s \<Longrightarrow> length (ids s) = card (set (ids s))"
  by (simp add: ids_distinct distinct_card)

lemma length_del_all:
  assumes "inv s" "distinct xs" "set xs \<subseteq> set (ids s)"
  shows "length (ids (del_all xs s)) = length (ids s) - length xs"
proof -
  have "length (ids (del_all xs s)) = card (set (ids s) - set xs)"
    using del_all_inv [OF assms] length_ids by metis
  also have "\<dots> = card (set (ids s)) - length xs"
    using assms(2,3) by (simp add: card_Diff_subset distinct_card)
  finally show ?thesis using length_ids [OF assms(1)] by simp
qed

end

definition node_get :: "arena \<Rightarrow> node_id \<Rightarrow> node option" where
  "node_get a x = (case arena_node a x of Inr n \<Rightarrow> Some (payload n) | Inl _ \<Rightarrow> None)"

definition node_del :: "arena \<Rightarrow> node_id \<Rightarrow> arena" where
  "node_del a x = snd (remove_node a x)"

lemma node_get_live: "arena_wf a \<Longrightarrow> x \<in> set (live_ids a) \<Longrightarrow> node_get a x \<noteq> None"
  by (auto simp: node_get_def elim: live_ids_node)

lemma remove_node_liveE:
  assumes inv: "arena_inv a" and x: "x \<in> set (live_ids a)"
  obtains r js i ks where "i < length (ar_nodes a)" "x = slot_handle a i" "r < length (ar_regions a)"
    "region_chain a r (js @ i # ks)" "remove_node a x = (Inr (), cut_node a r js i)"
proof -
  from x obtain i where i: "i < length (ar_nodes a)" "slot_live a i" "x = slot_handle a i" by (rule live_idsE)
  from remove_node_live [OF inv i(1,2)] obtain r js ks where
    "r < length (ar_regions a)" "region_chain a r (js @ i # ks)"
    "remove_node a (slot_handle a i) = (Inr (), cut_node a r js i)" .
  with i that show thesis by blast
qed

interpretation store: node_store arena_inv live_ids node_get node_del
proof
  fix s :: arena and x y
  assume inv: "arena_inv s"
  then have wf: "arena_wf s" by (rule arena_inv_wf)
  then show "distinct (live_ids s)" by (rule distinct_live_ids)
  assume x: "x \<in> set (live_ids s)"
  show "node_get s x \<noteq> None" using wf x by (rule node_get_live)
  from inv x obtain r js i ks where i: "i < length (ar_nodes s)" "x = slot_handle s i"
    "r < length (ar_regions s)" "region_chain s r (js @ i # ks)"
    "remove_node s x = (Inr (), cut_node s r js i)" by (rule remove_node_liveE)
  show "arena_inv (node_del s x)" using arena_inv_cut [OF inv i(3,4)] i(5) by (simp add: node_del_def)
  show "set (live_ids (node_del s x)) = set (live_ids s) - {x}"
    using live_ids_cut [OF wf i(1), of r js] i by (simp add: node_del_def)
  show "node_get (node_del s x) x = None"
    using arena_node_cut_self [OF wf i(1), of r js] i by (simp add: node_del_def node_get_def)
  assume y: "y \<in> set (live_ids s)" "y \<noteq> x"
  have "map_sum id payload (arena_node (cut_node s r js i) y) = map_sum id payload (arena_node s y)"
    using arena_node_cut_other [OF wf i(1)] y i(2) by simp
  then show "node_get (node_del s x) y = node_get s y"
    using i(5) by (auto simp: node_del_def node_get_def split: sum.splits)
qed

end
