(* ===== verification/Arena_Spec.thy ===== *)
theory Arena_Spec
  imports Arena_Props
begin

text \<open>
  The arena's reachable states and its contract: what insertion, removal and enumeration guarantee
  to a holder of handles, and the region lists as sequences.
\<close>

section \<open>Reachable arenas\<close>

inductive arena_reach :: "nat \<Rightarrow> nat \<Rightarrow> arena \<Rightarrow> bool" for N M where
  init: "arena_reach N M (with_capacity N M)"
| region: "arena_reach N M a \<Longrightarrow> arena_reach N M (snd (new_region a p w))"
| insert: "arena_reach N M a \<Longrightarrow> g \<in> set (region_ids a) \<Longrightarrow> node_wf n \<Longrightarrow>
    arena_reach N M (snd (insert_node a g n))"
| remove: "arena_reach N M a \<Longrightarrow> x \<in> set (live_ids a) \<Longrightarrow> arena_reach N M (snd (remove_node a x))"
| edit: "arena_reach N M a \<Longrightarrow> edit_ok f \<Longrightarrow> node_mut a x f = Inr b \<Longrightarrow> arena_reach N M b"

lemma arena_inv_insert:
  assumes inv: "arena_inv a" and g: "g \<in> set (region_ids a)" and n: "node_wf n"
  shows "arena_inv (snd (insert_node a g n))"
proof -
  have wf: "arena_wf a" using inv by (rule arena_inv_wf)
  obtain r where r: "r < length (ar_regions a)" "g = rid_pack (word_of_nat r) 0"
    using wf g by (rule region_idsE)
  with inv arena_inv_put [OF inv _ r(1) n] show ?thesis by (simp add: insert_node_eq [OF wf r(1)])
qed

lemma arena_inv_remove: "arena_inv a \<Longrightarrow> x \<in> set (live_ids a) \<Longrightarrow> arena_inv (snd (remove_node a x))"
  using store.del_inv by (simp add: node_del_def)

lemma arena_inv_node_mut: "arena_inv a \<Longrightarrow> edit_ok f \<Longrightarrow> node_mut a x f = Inr b \<Longrightarrow> arena_inv b"
  by (auto simp: node_mut_Inr arena_inv_edit)

lemma region_list_members:
  assumes inv: "arena_inv a" and g: "g \<in> set (region_ids a)"
  shows "distinct (region_list a g)"
    and "x \<in> set (region_list a g) \<longleftrightarrow> (\<exists>n. (x, n) \<in> set (live_nodes a) \<and> nd_region n = g)"
proof -
  have wf: "arena_wf a" using inv by (rule arena_inv_wf)
  obtain r where r: "r < length (ar_regions a)" "g = rid_pack (word_of_nat r) 0"
    using wf g by (rule region_idsE)
  obtain "is" where c: "region_chain a r is" using inv r by (auto simp: arena_inv_def)
  have l: "region_list a g = map (slot_handle a) is" using region_list_chain [OF wf r(1) c] r by simp
  have "inj_on (slot_handle a) (set is)"
    using c slot_handle_inj [OF wf] by (intro inj_onI) (simp add: region_chain_def slots_of_region_def)
  with c show "distinct (region_list a g)" by (simp add: l distinct_map region_chain_def)
  have "set is = {i. i < length (ar_nodes a) \<and> slot_live a i \<and> nd_region (ar_nodes a ! i) = g}"
    using c r by (simp add: region_chain_def slots_of_region_def)
  then show "x \<in> set (region_list a g) \<longleftrightarrow> (\<exists>n. (x, n) \<in> set (live_nodes a) \<and> nd_region n = g)"
    by (simp add: l live_nodes_def image_iff) blast
qed

section \<open>Contract\<close>

text \<open>
  C1: every arena built by \<^verbatim>\<open>with_capacity\<close> and any sequence of \<^verbatim>\<open>new_region\<close>, \<^verbatim>\<open>insert_node\<close>,
  \<^verbatim>\<open>remove_node\<close> and in-place edits satisfies the arena invariant: slot and generation vectors agree,
  the free stack has no repetition and holds exactly the odd-generation slots, capacities are kept,
  and the intrusive list of each region is a cycle-free enumeration of exactly its live nodes.
\<close>

theorem arena_reachable_inv:
  assumes "N \<le> 2 ^ 32" "M \<le> 2 ^ 32" "arena_reach N M a" shows "arena_inv a"
  using assms(3) arena_inv_with_capacity [OF assms(1,2)]
  by (induction rule: arena_reach.induct)
    (auto intro: arena_inv_new_region arena_inv_insert arena_inv_remove arena_inv_node_mut)

definition demo_arena :: arena where
  "demo_arena =
     (let a = with_capacity 4 2; g = root_region a;
          a1 = snd (const_i64 a g 7);
          a2 = snd (const_i64 a1 g 9)
      in snd (remove_node a2 (hd (live_ids a2))))"

lemma demo_arena_reach: "arena_reach 4 2 demo_arena"
proof -
  let ?a = "with_capacity 4 2"
  let ?g = "root_region ?a"
  let ?a1 = "snd (const_i64 ?a ?g 7)"
  let ?a2 = "snd (const_i64 ?a1 ?g 9)"
  have m: "?g \<in> set (region_ids ?a)" "?g \<in> set (region_ids ?a1)" "hd (live_ids ?a2) \<in> set (live_ids ?a2)"
    by code_simp+
  have "arena_reach 4 2 ?a1"
    using arena_reach.insert [OF arena_reach.init m(1) node_wf_new] by (simp add: const_i64_def)
  from arena_reach.insert [OF this m(2) node_wf_new] have "arena_reach 4 2 ?a2"
    by (simp add: const_i64_def [of ?a1])
  from arena_reach.remove [OF this m(3)]
  have "arena_reach 4 2 (snd (remove_node ?a2 (hd (live_ids ?a2))))" .
  then show ?thesis by (simp add: demo_arena_def Let_def)
qed

theorem arena_reachable_inv_witness: "arena_inv demo_arena \<and> node_count demo_arena = 1"
proof
  show "arena_inv demo_arena" using demo_arena_reach by (rule arena_reachable_inv [rotated 2]) simp_all
  show "node_count demo_arena = 1" by code_simp
qed

lemma demo_arena_inv: "arena_inv demo_arena"
  unfolding demo_arena_def Let_def const_i64_def
  by (intro arena_inv_remove arena_inv_insert arena_inv_with_capacity node_wf_new) (simp, simp, code_simp+)

text \<open>
  C2: a successful \<^verbatim>\<open>insert_node\<close> returns a handle no live node has, which reads back the inserted node
  (linked to its region), keeps every older handle reading the same node, adds exactly that handle to
  the live ones and puts it at the head of its region's list, leaving the other lists alone.
\<close>

theorem insert_node_contract:
  assumes "arena_inv a" "g \<in> set (region_ids a)" "node_wf n" "insert_node a g n = (Inr x, b)"
  shows "x \<notin> set (live_ids a) \<and> set (live_ids b) = insert x (set (live_ids a)) \<and>
    (\<exists>m. arena_node b x = Inr m \<and> nd_region m = g \<and> m = n\<lparr>nd_next := nd_next m, nd_region := g\<rparr>) \<and>
    (\<forall>y \<in> set (live_ids a). arena_node b y = arena_node a y) \<and>
    (\<forall>h \<in> set (region_ids a). region_list b h = (if h = g then [x] else []) @ region_list a h)"
proof -
  have wf: "arena_wf a" using assms(1) by (rule arena_inv_wf)
  obtain r where r: "r < length (ar_regions a)" "g = rid_pack (word_of_nat r) 0"
    and cap: "length (ar_nodes a) < ar_node_cap a" and b: "b = put_node a r n"
    and x: "x = slot_handle b (next_slot a)"
    using wf assms(2,4) by (rule insert_node_ok)
  have wfb: "arena_wf b" unfolding b by (rule arena_wf_put [OF wf cap r(1) assms(3)])
  have ns: "next_slot a < length (ar_nodes b)" using next_slot_le [OF wf] by (simp add: b)
  have new: "arena_node b x = Inr (n\<lparr>nd_next := rg_first (ar_regions a ! r), nd_region := g\<rparr>)"
    using arena_node_handle [OF wfb ns] put_node_new(1) [OF wf, of r n] by (simp only: x b r(2))
  have old: "arena_node b y = arena_node a y" if "y \<in> set (live_ids a)" for y
  proof -
    from that obtain j where j: "j < length (ar_nodes a)" "slot_live a j" "y = slot_handle a j" by (rule live_idsE)
    have "j < length (ar_nodes b)" using j(1) next_slot_le [OF wf] by (simp add: b)
    from arena_node_handle [OF wfb this] put_node_old [OF wf j(1,2), of r n] arena_node_handle [OF wf j(1)]
    show ?thesis by (simp only: j(3) b)
  qed
  have lst: "region_list b h = (if h = g then [x] else []) @ region_list a h" if h: "h \<in> set (region_ids a)" for h
  proof -
    obtain s where s: "s < length (ar_regions a)" "h = rid_pack (word_of_nat s) 0"
      using wf h by (rule region_idsE)
    have "h = g \<longleftrightarrow> s = r"
      using unat_region_slot [OF wf r(1)] unat_region_slot [OF wf s(1)] r(2) s(2) by (metis rid_index_pack)
    with region_list_put [OF assms(1) cap r(1) assms(3) s(1)] show ?thesis by (simp only: s(2) x b)
  qed
  show ?thesis
    using live_ids_put [OF wf cap, of r n] new old lst by (simp add: x b)
qed

theorem insert_node_contract_witness:
  "\<exists>x b. insert_node demo_arena (root_region demo_arena) (node_new (ConstI64 5) RegionId_NONE [] (Scalar I64)) = (Inr x, b)
     \<and> x \<notin> set (live_ids demo_arena) \<and> region_list b (root_region demo_arena) = x # region_list demo_arena (root_region demo_arena)"
proof -
  let ?g = "root_region demo_arena" and ?n = "node_new (ConstI64 5) RegionId_NONE [] (Scalar I64)"
  have g: "?g \<in> set (region_ids demo_arena)" and "\<not> isl (fst (insert_node demo_arena ?g ?n))" by code_simp+
  then obtain x b where i: "insert_node demo_arena ?g ?n = (Inr x, b)"
    by (metis isl_def prod.collapse sum.exhaust)
  show ?thesis using insert_node_contract [OF demo_arena_inv g node_wf_new i] i g by auto
qed

text \<open>
  C3: \<^verbatim>\<open>remove_node\<close> on a live handle succeeds; the handle is then stale (\<^verbatim>\<open>UnknownNode\<close>), it is no
  longer live, every other live handle reads the same node up to its list link, and every region list
  loses exactly that handle.
\<close>

theorem remove_node_contract:
  assumes "arena_inv a" "x \<in> set (live_ids a)"
  shows "\<exists>b. remove_node a x = (Inr (), b) \<and> arena_node b x = Inl UnknownNode \<and>
    set (live_ids b) = set (live_ids a) - {x} \<and>
    (\<forall>y \<in> set (live_ids a) - {x}. map_sum id payload (arena_node b y) = map_sum id payload (arena_node a y)) \<and>
    (\<forall>h \<in> set (region_ids a). region_list b h = remove1 x (region_list a h))"
proof -
  have wf: "arena_wf a" using assms(1) by (rule arena_inv_wf)
  obtain r js i ks where i: "i < length (ar_nodes a)" "x = slot_handle a i"
    and r: "r < length (ar_regions a)" and c: "region_chain a r (js @ i # ks)"
    and rm: "remove_node a x = (Inr (), cut_node a r js i)"
    using assms by (rule remove_node_liveE)
  have lst: "region_list (cut_node a r js i) h = remove1 x (region_list a h)" if h: "h \<in> set (region_ids a)" for h
  proof -
    obtain s where s: "s < length (ar_regions a)" "h = rid_pack (word_of_nat s) 0"
      using wf h by (rule region_idsE)
    from region_list_cut [OF assms(1) r c s(1)] show ?thesis by (simp only: s(2) i(2))
  qed
  show ?thesis
    using rm lst arena_node_cut_self [OF wf i(1)] live_ids_cut [OF wf i(1)] arena_node_cut_other [OF wf i(1)]
    by (intro exI [of _ "cut_node a r js i"]) (simp add: i(2))
qed

theorem remove_node_contract_witness:
  "\<exists>b. remove_node demo_arena (hd (live_ids demo_arena)) = (Inr (), b) \<and>
     arena_node b (hd (live_ids demo_arena)) = Inl UnknownNode"
proof -
  have "hd (live_ids demo_arena) \<in> set (live_ids demo_arena)" by code_simp
  from remove_node_contract [OF demo_arena_inv this] show ?thesis by blast
qed

text \<open>
  \<^verbatim>\<open>for_each_live_node\<close> visits every live node once: the handles are distinct, there are
  \<^verbatim>\<open>node_count\<close> of them, each reads back the node it is visited with, and the list of a region
  holds, without repetition, exactly the live nodes that name that region.
\<close>

theorem live_enumeration:
  assumes "arena_inv a"
  shows "distinct (live_ids a) \<and> length (live_ids a) = node_count a \<and>
    (\<forall>(x, n) \<in> set (live_nodes a). arena_node a x = Inr n) \<and>
    (\<forall>g \<in> set (region_ids a). distinct (region_list a g) \<and>
       set (region_list a g) = {x. \<exists>n. (x, n) \<in> set (live_nodes a) \<and> nd_region n = g})"
proof -
  have wf: "arena_wf a" using assms by (rule arena_inv_wf)
  have "set (region_list a g) = {x. \<exists>n. (x, n) \<in> set (live_nodes a) \<and> nd_region n = g}"
    if "g \<in> set (region_ids a)" for g
    using region_list_members(2) [OF assms that] by blast
  with region_list_members(1) [OF assms] show ?thesis
    using distinct_live_ids [OF wf] length_live_ids [OF wf] arena_node_live [OF wf] by blast
qed

theorem live_enumeration_witness: "length (live_ids demo_arena) = node_count demo_arena"
  using live_enumeration [OF demo_arena_inv] by blast

text \<open>
  C5: when \<^verbatim>\<open>insert_node\<close> fails the arena is unchanged, and on a valid region it fails exactly when
  the node declares too many inputs (\<^verbatim>\<open>InputOverflow\<close>) or the slot vector has reached its capacity
  (\<^verbatim>\<open>Exhausted\<close>); the free stack is not consulted first, so freed slots do not help a full arena.
\<close>

theorem insert_node_errors:
  assumes "arena_inv a" "g \<in> set (region_ids a)"
  shows "(\<forall>e b. insert_node a g n = (Inl e, b) \<longrightarrow> b = a) \<and>
    (fst (insert_node a g n) = Inl InputOverflow \<longleftrightarrow> MAX_INPUTS < unat (nd_n_inputs n)) \<and>
    (fst (insert_node a g n) = Inl Exhausted \<longleftrightarrow>
       unat (nd_n_inputs n) \<le> MAX_INPUTS \<and> ar_node_cap a \<le> slot_count a) \<and>
    fst (insert_node a g n) \<notin> {Inl UnknownNode, Inl UnknownRegion, Inl OutputOverflow}"
proof -
  have wf: "arena_wf a" using assms(1) by (rule arena_inv_wf)
  obtain r where r: "r < length (ar_regions a)" "g = rid_pack (word_of_nat r) 0"
    using wf assms(2) by (rule region_idsE)
  show ?thesis by (auto simp: r(2) insert_node_eq [OF wf r(1)] slot_count_def)
qed

theorem insert_node_errors_witness:
  "fst (insert_node demo_arena (root_region demo_arena) (node_new (ConstI64 5) RegionId_NONE [] (Scalar I64)))
     \<noteq> Inl Exhausted"
proof -
  have g: "root_region demo_arena \<in> set (region_ids demo_arena)" by code_simp
  have "\<not> ar_node_cap demo_arena \<le> slot_count demo_arena" by code_simp
  with insert_node_errors [OF demo_arena_inv g] show ?thesis by blast
qed

end
