(* ===== verification/Dominance.thy ===== *)
theory Dominance
  imports Arena_Spec
begin

text \<open>
  The region dominator tree, \<^verbatim>\<open>crates/xir-graph/src/dominance.rs\<close>: depths and parents per region slot,
  computed by rounds over the slots, and the \<^verbatim>\<open>dominates\<close> walk. The pass error type of the graph
  passes (\<^verbatim>\<open>gvn.rs\<close>) is declared here because it wraps the dominance error.
\<close>

datatype dominance_error = DomUnknownRegion

datatype pass_error = DominanceBuildFailed dominance_error | Internal

record dominator_tree =
  dt_depths :: "u16 list"
  dt_parents :: "region_id list"

definition U16_MAX :: u16 where "U16_MAX = 65535"

text \<open>\<^verbatim>\<open>live_region_parent\<close> returns \<^verbatim>\<open>None\<close> for every slot.\<close>

definition live_region_parent :: "arena \<Rightarrow> u32 \<Rightarrow> region_id option" where
  "live_region_parent a slot = None"

fun dom_parents :: "arena \<Rightarrow> nat list \<Rightarrow> region_id list \<Rightarrow> dominance_error + region_id list" where
  "dom_parents a [] ps = Inr ps"
| "dom_parents a (slot # slots) ps =
     (case arena_region a (rid_pack (word_of_nat slot) 0) of
        Inr r \<Rightarrow> dom_parents a slots (ps[slot := rg_parent r])
      | Inl UnknownRegion \<Rightarrow> dom_parents a slots ps
      | Inl _ \<Rightarrow> Inl DomUnknownRegion)"

text \<open>One slot of a round: the new tree and whether it changed.\<close>

definition dom_visit :: "arena \<Rightarrow> nat \<Rightarrow> nat \<Rightarrow> dominator_tree \<times> bool \<Rightarrow> dominator_tree \<times> bool" where
  "dom_visit a n slot = (\<lambda>(t, changed).
     if dt_depths t ! slot \<noteq> U16_MAX then (t, changed)
     else
       case (case arena_region a (rid_pack (word_of_nat slot) 0) of
               Inr r \<Rightarrow> Some (rg_parent r)
             | Inl _ \<Rightarrow> live_region_parent a (word_of_nat slot)) of
         None \<Rightarrow> (t, changed)
       | Some parent \<Rightarrow>
           if rid_is_none parent
           then (\<lparr>dt_depths = (dt_depths t)[slot := 0],
                  dt_parents = (dt_parents t)[slot := RegionId_NONE]\<rparr>, True)
           else
             let pslot = unat (rid_index parent) in
             if pslot < n \<and> dt_depths t ! pslot \<noteq> U16_MAX
             then (\<lparr>dt_depths = (dt_depths t)[slot := saturating_add (dt_depths t ! pslot) 1],
                    dt_parents = (dt_parents t)[slot := parent]\<rparr>, True)
             else (t, changed))"

definition dom_round :: "arena \<Rightarrow> nat \<Rightarrow> dominator_tree \<Rightarrow> dominator_tree \<times> bool" where
  "dom_round a n t = fold (dom_visit a n) [0 ..< n] (t, False)"

fun dom_rounds :: "arena \<Rightarrow> nat \<Rightarrow> nat \<Rightarrow> dominator_tree \<Rightarrow> dominator_tree" where
  "dom_rounds a n 0 t = t"
| "dom_rounds a n (Suc k) t =
     (case dom_round a n t of (t', changed) \<Rightarrow> if changed then dom_rounds a n k t' else t')"

definition dom_build :: "arena \<Rightarrow> dominance_error + dominator_tree" where
  "dom_build a =
     (let n = region_count a in
      rbind (dom_parents a [0 ..< n] (replicate n RegionId_NONE)) (\<lambda>parents.
        let depths = replicate n U16_MAX;
            root = root_region a;
            t = (case arena_region a root of
                   Inr _ \<Rightarrow>
                     let rslot = unat (rid_index root) in
                     if rslot < n
                     then \<lparr>dt_depths = depths[rslot := 0], dt_parents = parents[rslot := RegionId_NONE]\<rparr>
                     else \<lparr>dt_depths = depths, dt_parents = parents\<rparr>
                 | Inl _ \<Rightarrow> \<lparr>dt_depths = depths, dt_parents = parents\<rparr>)
        in Inr (dom_rounds a n n t)))"

text \<open>
  The walk up from \<^verbatim>\<open>b\<close>: \<open>None\<close> is the early \<^verbatim>\<open>return false\<close>, otherwise the final \<^verbatim>\<open>cur\<close> and \<^verbatim>\<open>db\<close>. The
  loop guard \<^verbatim>\<open>steps <= self.depths.len()\<close> is the last argument, counting down.
\<close>

fun dom_walk :: "dominator_tree \<Rightarrow> u16 \<Rightarrow> region_id \<Rightarrow> u16 \<Rightarrow> nat \<Rightarrow> (region_id \<times> u16) option" where
  "dom_walk t da cur db 0 = Some (cur, db)"
| "dom_walk t da cur db (Suc k) =
     (if db > da
      then let cur_slot = unat (rid_index cur) in
        if cur_slot \<ge> length (dt_parents t) then None
        else let cur' = dt_parents t ! cur_slot in
          if rid_is_none cur' then None
          else dom_walk t da cur' (saturating_sub db 1) k
      else Some (cur, db))"

definition dominates :: "dominator_tree \<Rightarrow> region_id \<Rightarrow> region_id \<Rightarrow> bool" where
  "dominates t a b =
     (if a = b then True
      else let ia = unat (rid_index a); ib = unat (rid_index b) in
        if ia \<ge> length (dt_depths t) \<or> ib \<ge> length (dt_depths t) then False
        else let da = dt_depths t ! ia; db = dt_depths t ! ib in
          if da = U16_MAX \<or> db = U16_MAX \<or> db < da then False
          else case dom_walk t da b db (length (dt_depths t) + 1) of
                 None \<Rightarrow> False
               | Some (cur, db') \<Rightarrow> db' = da \<and> cur = a)"

definition dom_depth :: "dominator_tree \<Rightarrow> region_id \<Rightarrow> u16 option" where
  "dom_depth t r =
     (let idx = unat (rid_index r) in
      if idx < length (dt_depths t) \<and> dt_depths t ! idx \<noteq> U16_MAX then Some (dt_depths t ! idx) else None)"

section \<open>Correctness\<close>

text \<open>
  Regions built in order: a region's parent is absent or a region of a smaller slot, as it is when
  every \<^verbatim>\<open>new_region\<close> names a region that exists.
\<close>

definition parent_slot :: "arena \<Rightarrow> nat \<Rightarrow> nat option" where
  "parent_slot a r =
     (let p = rg_parent (ar_regions a ! r) in if rid_is_none p then None else Some (unat (rid_index p)))"

definition region_tree :: "arena \<Rightarrow> bool" where
  "region_tree a \<longleftrightarrow> arena_wf a \<and> 0 < length (ar_regions a) \<and> length (ar_regions a) \<le> 65535 \<and>
     ar_root a = rid_pack 0 0 \<and> rid_is_none (rg_parent (ar_regions a ! 0)) \<and>
     (\<forall>r < length (ar_regions a). let p = rg_parent (ar_regions a ! r) in
        rid_is_none p \<or> (unat (rid_index p) < r \<and> p = rid_pack (rid_index p) 0))"

function region_depth :: "arena \<Rightarrow> nat \<Rightarrow> nat" where
  "region_depth a r =
     (case parent_slot a r of None \<Rightarrow> 0 | Some p \<Rightarrow> if p < r then Suc (region_depth a p) else 0)"
  by auto
termination by (relation "measure snd") auto

declare region_depth.simps [simp del]

text \<open>The ancestors of a region, itself included.\<close>

inductive region_anc :: "arena \<Rightarrow> nat \<Rightarrow> nat \<Rightarrow> bool" for a where
  anc_refl: "region_anc a r r"
| anc_up: "parent_slot a r = Some p \<Longrightarrow> region_anc a q p \<Longrightarrow> region_anc a q r"

inductive_cases region_ancE: "region_anc a q r"

lemma region_tree_parent:
  assumes "region_tree a" "r < length (ar_regions a)" "parent_slot a r = Some p"
  shows "p < r" "rg_parent (ar_regions a ! r) = rid_pack (word_of_nat p) 0"
  using assms by (auto simp: region_tree_def parent_slot_def Let_def split: if_splits)

lemma region_tree_root: "region_tree a \<Longrightarrow> parent_slot a 0 = None"
  by (simp add: region_tree_def parent_slot_def Let_def)

lemma region_depth_parent:
  assumes "region_tree a" "r < length (ar_regions a)" "parent_slot a r = Some p"
  shows "region_depth a r = Suc (region_depth a p)"
  using region_tree_parent(1) [OF assms] assms(3) by (simp add: region_depth.simps [of a r])

lemma region_depth_le: "region_depth a r \<le> r"
proof (induction r rule: less_induct)
  case (less r)
  show ?case
  proof (cases "parent_slot a r")
    case (Some p)
    with less [of p] show ?thesis by (auto simp: region_depth.simps [of a r])
  qed (simp add: region_depth.simps [of a r])
qed

lemma region_anc_le:
  assumes "region_tree a" "region_anc a q r" "r < length (ar_regions a)"
  shows "q \<le> r \<and> region_depth a q \<le> region_depth a r \<and> (region_depth a q = region_depth a r \<longrightarrow> q = r)"
  using assms(2,3)
proof induction
  case (anc_up r p q)
  with region_tree_parent(1) [OF assms(1) anc_up.prems anc_up.hyps(1)]
    region_depth_parent [OF assms(1) anc_up.prems anc_up.hyps(1)] show ?case by auto
qed simp

lemma region_anc_unique:
  assumes tree: "region_tree a"
  shows "region_anc a q r \<Longrightarrow> region_anc a q' r \<Longrightarrow> r < length (ar_regions a) \<Longrightarrow>
    region_depth a q = region_depth a q' \<Longrightarrow> q = q'"
proof (induction rule: region_anc.induct)
  case (anc_refl r)
  then show ?case using region_anc_le [OF tree, of q' r] by auto
next
  case (anc_up r p q)
  have p: "p < length (ar_regions a)" using region_tree_parent(1) [OF tree anc_up.prems(2) anc_up.hyps(1)] anc_up.prems by simp
  have "q' \<noteq> r"
    using region_anc_le [OF tree anc_up.hyps(2) p] region_depth_parent [OF tree anc_up.prems(2) anc_up.hyps(1)] anc_up.prems(3)
    by auto
  with anc_up.prems(1) anc_up.hyps(1) have "region_anc a q' p" by (auto elim: region_ancE)
  with anc_up.IH p anc_up.prems show ?case by blast
qed

subsection \<open>The computed tree\<close>

definition depth_word :: "arena \<Rightarrow> nat \<Rightarrow> u16" where
  "depth_word a r = word_of_nat (region_depth a r)"

lemma unat_depth_word:
  assumes "region_tree a" "r < length (ar_regions a)"
  shows "unat (depth_word a r) = region_depth a r" "depth_word a r \<noteq> U16_MAX"
proof -
  have lt: "region_depth a r < 65535" using region_depth_le [of a r] assms by (simp add: region_tree_def)
  then show u: "unat (depth_word a r) = region_depth a r"
    unfolding depth_word_def by (intro unat_of_nat_small) simp
  have "unat U16_MAX = 65535" by (simp add: U16_MAX_def)
  with u lt show "depth_word a r \<noteq> U16_MAX" by force
qed

text \<open>The tree once the slots below \<open>k\<close> have been visited; with all slots visited it is final.\<close>

definition tree_upto :: "arena \<Rightarrow> nat \<Rightarrow> dominator_tree" where
  "tree_upto a k =
     \<lparr>dt_depths = map (\<lambda>r. if r < k \<or> r = 0 then depth_word a r else U16_MAX) [0 ..< length (ar_regions a)],
      dt_parents = map (\<lambda>r. rg_parent (ar_regions a ! r)) [0 ..< length (ar_regions a)]\<rparr>"

lemma tree_upto_sel [simp]:
  "length (dt_depths (tree_upto a k)) = length (ar_regions a)"
  "length (dt_parents (tree_upto a k)) = length (ar_regions a)"
  "r < length (ar_regions a) \<Longrightarrow> dt_parents (tree_upto a k) ! r = rg_parent (ar_regions a ! r)"
  "r < length (ar_regions a) \<Longrightarrow>
     dt_depths (tree_upto a k) ! r = (if r < k \<or> r = 0 then depth_word a r else U16_MAX)"
  by (simp_all add: tree_upto_def)

lemma upt_map_update: "k < n \<Longrightarrow> (map f [0 ..< n])[k := v] = map (\<lambda>r. if r = k then v else f r) [0 ..< n]"
  by (rule nth_equalityI) (simp_all add: nth_list_update)

lemma tree_upto_Suc:
  assumes "k < length (ar_regions a)"
  shows "\<lparr>dt_depths = (dt_depths (tree_upto a k))[k := depth_word a k],
          dt_parents = (dt_parents (tree_upto a k))[k := rg_parent (ar_regions a ! k)]\<rparr> = tree_upto a (Suc k)"
  using assms by (simp add: tree_upto_def upt_map_update)

lemma arena_region_slot:
  assumes "arena_wf a" "r < length (ar_regions a)"
  shows "arena_region a (rid_pack (word_of_nat r) 0) = Inr (ar_regions a ! r)"
  using assms by (simp add: arena_region_def validate_region_pack unat_region_slot)

lemma dom_parents_eq:
  assumes wf: "arena_wf a" and "length ps = length (ar_regions a)"
  shows "k \<le> length (ar_regions a) \<Longrightarrow> dom_parents a [0 ..< k] ps =
    Inr (map (\<lambda>r. if r < k then rg_parent (ar_regions a ! r) else ps ! r) [0 ..< length (ar_regions a)])"
proof -
  have "set slots \<subseteq> {..<length (ar_regions a)} \<Longrightarrow> length qs = length (ar_regions a) \<Longrightarrow>
    dom_parents a slots qs =
    Inr (map (\<lambda>r. if r \<in> set slots then rg_parent (ar_regions a ! r) else qs ! r) [0 ..< length (ar_regions a)])"
    for slots qs
  proof (induction slots arbitrary: qs)
    case Nil
    then show ?case using map_nth [of qs] by simp
  next
    case (Cons s slots)
    then have s: "s < length (ar_regions a)" by simp
    show ?case using Cons by (auto simp: arena_region_slot [OF wf s] nth_list_update)
  qed
  note all = this
  assume "k \<le> length (ar_regions a)"
  then show ?thesis using all [of "[0 ..< k]" ps] assms(2) by (simp add: subset_eq)
qed

lemma dom_visit_upto:
  assumes tree: "region_tree a" and k: "k < length (ar_regions a)"
  shows "\<exists>c'. dom_visit a (length (ar_regions a)) k (tree_upto a k, c) = (tree_upto a (Suc k), c')"
proof (cases "k = 0")
  case True
  have "tree_upto a (Suc 0) = tree_upto a 0" by (simp add: tree_upto_def)
  with True k unat_depth_word(2) [OF tree k] show ?thesis by (simp add: dom_visit_def)
next
  case False
  have wf: "arena_wf a" using tree by (simp add: region_tree_def)
  show ?thesis
  proof (cases "parent_slot a k")
    case None
    then have "rg_parent (ar_regions a ! k) = RegionId_NONE"
      by (simp add: parent_slot_def Let_def rid_is_none_iff split: if_splits)
    moreover have "depth_word a k = 0" using None by (simp add: depth_word_def region_depth.simps [of a k])
    ultimately have "dom_visit a (length (ar_regions a)) k (tree_upto a k, c) = (tree_upto a (Suc k), True)"
      using False k tree_upto_Suc [OF k] by (simp add: dom_visit_def arena_region_slot [OF wf k])
    then show ?thesis by blast
  next
    case (Some p)
    note par = region_tree_parent [OF tree k Some]
    have p: "p < length (ar_regions a)" "unat (word_of_nat p :: u32) = p"
      using par(1) k unat_region_slot [OF wf] by auto
    have "saturating_add (depth_word a p) 1 = depth_word a k"
    proof -
      have "unat (saturating_add (depth_word a p) 1) = unat (depth_word a k)"
        using unat_depth_word [OF tree p(1)] unat_depth_word [OF tree k] region_depth_parent [OF tree k Some]
          region_depth_le [of a k] k tree by (simp add: unat_saturating_add region_tree_def)
      then show ?thesis by (simp only: word_unat_eq_iff)
    qed
    then have "dom_visit a (length (ar_regions a)) k (tree_upto a k, c) = (tree_upto a (Suc k), True)"
      using False k p par tree_upto_Suc [OF k] unat_depth_word(2) [OF tree p(1)]
      by (simp add: dom_visit_def arena_region_slot [OF wf k] Let_def)
    then show ?thesis by blast
  qed
qed

lemma dom_round_first:
  assumes tree: "region_tree a"
  shows "k \<le> length (ar_regions a) \<Longrightarrow>
    \<exists>c'. fold (dom_visit a (length (ar_regions a))) [0 ..< k] (tree_upto a 0, c) = (tree_upto a k, c')"
proof (induction k)
  case (Suc k)
  then obtain c' where
    "fold (dom_visit a (length (ar_regions a))) [0 ..< k] (tree_upto a 0, c) = (tree_upto a k, c')" by auto
  with dom_visit_upto [OF tree, of k c'] Suc.prems show ?case by simp
qed simp

lemma dom_rounds_final:
  assumes tree: "region_tree a"
  shows "dom_rounds a (length (ar_regions a)) k (tree_upto a (length (ar_regions a))) =
    tree_upto a (length (ar_regions a))"
proof -
  let ?n = "length (ar_regions a)" and ?t = "tree_upto a (length (ar_regions a))"
  have "set ss \<subseteq> {..<?n} \<Longrightarrow> fold (dom_visit a ?n) ss (?t, c) = (?t, c)" for ss c
    by (induction ss) (auto simp: dom_visit_def unat_depth_word(2) [OF tree])
  from this [of "[0 ..< ?n]" False] have "dom_round a ?n ?t = (?t, False)"
    by (simp add: dom_round_def atLeast0LessThan)
  then show ?thesis by (cases k) auto
qed

lemma dom_build_eq:
  assumes tree: "region_tree a" shows "dom_build a = Inr (tree_upto a (length (ar_regions a)))"
proof -
  let ?n = "length (ar_regions a)"
  have wf: "arena_wf a" and n: "0 < ?n" and root: "ar_root a = rid_pack (word_of_nat 0) 0"
    using tree by (auto simp: region_tree_def)
  have cnt: "region_count a = ?n" using wf by (simp add: region_count_def arena_wf_def)
  have "rg_parent (ar_regions a ! 0) = RegionId_NONE"
    using tree by (simp add: region_tree_def rid_is_none_iff)
  then have init: "\<lparr>dt_depths = (replicate ?n U16_MAX)[0 := 0],
      dt_parents = (map (\<lambda>r. rg_parent (ar_regions a ! r)) [0..<?n])[0 := RegionId_NONE]\<rparr> = tree_upto a 0"
    using n region_tree_root [OF tree]
    by (simp add: tree_upto_def depth_word_def region_depth.simps [of a 0] upt_map_update
        map_replicate_const [of _ "[0..<?n]", simplified, symmetric])
  have par: "dom_parents a [0..<?n] (replicate ?n RegionId_NONE) = Inr (map (\<lambda>r. rg_parent (ar_regions a ! r)) [0..<?n])"
    using dom_parents_eq [OF wf, of "replicate ?n RegionId_NONE" ?n] by simp
  obtain c where r1: "dom_round a ?n (tree_upto a 0) = (tree_upto a ?n, c)"
    using dom_round_first [OF tree, of ?n False] by (auto simp: dom_round_def)
  then have "dom_rounds a ?n ?n (tree_upto a 0) = tree_upto a ?n"
    using n dom_rounds_final [OF tree] by (cases ?n) auto
  then show ?thesis
    using init n par arena_region_slot [OF wf n]
    by (simp add: dom_build_def cnt root_region_def root)
qed

subsection \<open>The ancestor walk\<close>

lemma dom_walk_eq:
  assumes tree: "region_tree a" and t: "t = tree_upto a (length (ar_regions a))"
  shows "j < length (ar_regions a) \<Longrightarrow> unat da \<le> region_depth a j \<Longrightarrow> region_depth a j - unat da < k \<Longrightarrow>
    \<exists>i < length (ar_regions a). region_anc a i j \<and> region_depth a i = unat da \<and>
      dom_walk t da (rid_pack (word_of_nat j) 0) (depth_word a j) k = Some (rid_pack (word_of_nat i) 0, da)"
proof (induction k arbitrary: j)
  case (Suc k)
  have wf: "arena_wf a" using tree by (simp add: region_tree_def)
  note ud = unat_depth_word(1) [OF tree Suc.prems(1)]
  show ?case
  proof (cases "depth_word a j > da")
    case False
    then have "depth_word a j = da" using Suc.prems(2) ud by (simp add: word_less_nat_alt word_unat_eq_iff)
    with Suc.prems(1) ud show ?thesis by (auto intro: region_anc.anc_refl exI [of _ j])
  next
    case True
    then have "unat da < region_depth a j" using ud by (simp add: word_less_nat_alt)
    then obtain p where p: "parent_slot a j = Some p"
      by (cases "parent_slot a j") (auto simp: region_depth.simps [of a j])
    note par = region_tree_parent [OF tree Suc.prems(1) p]
    note dj = region_depth_parent [OF tree Suc.prems(1) p]
    have pl: "p < length (ar_regions a)" using par(1) Suc.prems(1) by simp
    have "saturating_sub (depth_word a j) 1 = depth_word a p"
      using ud unat_depth_word(1) [OF tree pl] dj by (simp add: word_unat_eq_iff unat_saturating_sub)
    moreover obtain i where "i < length (ar_regions a)" "region_anc a i p" "region_depth a i = unat da"
      "dom_walk t da (rid_pack (word_of_nat p) 0) (depth_word a p) k = Some (rid_pack (word_of_nat i) 0, da)"
    proof -
      have "unat da \<le> region_depth a p" "region_depth a p - unat da < k"
        using Suc.prems(3) \<open>unat da < region_depth a j\<close> dj by linarith+
      with Suc.IH [OF pl] that show thesis by blast
    qed
    ultimately show ?thesis
      using True par(2) Suc.prems(1) unat_region_slot [OF wf Suc.prems(1)]
      by (intro exI [of _ i]) (auto simp: t intro: region_anc.anc_up [OF p])
  qed
qed simp

lemma dominates_eq:
  assumes tree: "region_tree a" and t: "t = tree_upto a (length (ar_regions a))"
    and i: "i < length (ar_regions a)" and j: "j < length (ar_regions a)"
  shows "dominates t (rid_pack (word_of_nat i) 0) (rid_pack (word_of_nat j) 0) \<longleftrightarrow> region_anc a i j"
proof -
  have wf: "arena_wf a" and n: "length (ar_regions a) \<le> 2 ^ 32" using tree by (auto simp: region_tree_def)
  have inj: "rid_pack (word_of_nat p) 0 = rid_pack (word_of_nat q) 0 \<longleftrightarrow> p = q"
    if "p < length (ar_regions a)" "q < length (ar_regions a)" for p q
    using that unat_region_slot [OF wf] by (metis rid_index_pack)
  note u = unat_region_slot [OF wf i] unat_region_slot [OF wf j]
  note d = unat_depth_word [OF tree i] unat_depth_word [OF tree j]
  have dep: "dt_depths t ! i = depth_word a i" "dt_depths t ! j = depth_word a j"
    "length (dt_depths t) = length (ar_regions a)" using i j by (simp_all add: t)
  show ?thesis
  proof (cases "i = j")
    case True
    then show ?thesis by (simp add: dominates_def region_anc.anc_refl)
  next
    case ne: False
    show ?thesis
    proof (cases "depth_word a j < depth_word a i")
      case True
      then have "\<not> region_anc a i j" using region_anc_le [OF tree _ j, of i] d by (auto simp: word_less_nat_alt)
      with True ne i j dep u inj [OF i j] show ?thesis by (simp add: dominates_def Let_def)
    next
      case False
      then have "unat (depth_word a i) \<le> region_depth a j" using d by (simp add: word_less_nat_alt)
      moreover have "region_depth a j - unat (depth_word a i) < length (ar_regions a) + 1"
        using region_depth_le [of a j] j by simp
      ultimately obtain m where m: "m < length (ar_regions a)" "region_anc a m j"
        "region_depth a m = unat (depth_word a i)"
        "dom_walk t (depth_word a i) (rid_pack (word_of_nat j) 0) (depth_word a j) (length (ar_regions a) + 1)
          = Some (rid_pack (word_of_nat m) 0, depth_word a i)"
        using dom_walk_eq [OF tree t j] by blast
      have "m = i \<longleftrightarrow> region_anc a i j"
      proof
        assume "region_anc a i j"
        with region_anc_unique [OF tree m(2) _ j] m(3) d(1) show "m = i" by simp
      qed (use m(2) in simp)
      moreover have "dominates t (rid_pack (word_of_nat i) 0) (rid_pack (word_of_nat j) 0) \<longleftrightarrow>
          rid_pack (word_of_nat m) 0 = rid_pack (word_of_nat i) 0"
        unfolding dominates_def Let_def rid_index_pack u dep m(4)
        using ne False i j inj [OF i j] d(2,4) by simp
      ultimately show ?thesis using inj [OF m(1) i] by simp
    qed
  qed
qed

text \<open>
  C10: on an arena whose regions were created parents first (at most 65535 of them, so that no depth
  reaches the sentinel), building the dominator tree succeeds and \<^verbatim>\<open>dominates\<close> decides exactly the
  ancestor relation of the region tree, \<^verbatim>\<open>depth\<close> the number of proper ancestors.
\<close>

theorem dominates_is_ancestor:
  assumes "region_tree a"
  shows "\<exists>t. dom_build a = Inr t \<and>
    (\<forall>i < length (ar_regions a). \<forall>j < length (ar_regions a).
       dominates t (rid_pack (word_of_nat i) 0) (rid_pack (word_of_nat j) 0) \<longleftrightarrow> region_anc a i j) \<and>
    (\<forall>i < length (ar_regions a).
       map_option unat (dom_depth t (rid_pack (word_of_nat i) 0)) = Some (region_depth a i))"
proof -
  have wf: "arena_wf a" using assms by (simp add: region_tree_def)
  have "map_option unat (dom_depth (tree_upto a (length (ar_regions a))) (rid_pack (word_of_nat i) 0))
      = Some (region_depth a i)" if "i < length (ar_regions a)" for i
    using that unat_depth_word [OF assms that] by (simp add: dom_depth_def unat_region_slot [OF wf that])
  with dom_build_eq [OF assms] dominates_eq [OF assms refl] show ?thesis by auto
qed

definition demo_regions :: arena where
  "demo_regions =
     (let a = with_capacity 4 4; a1 = snd (new_region a (root_region a) NodeId_NONE)
      in snd (new_region a1 (root_region a) NodeId_NONE))"

lemma demo_regions_tree: "region_tree demo_regions"
proof -
  have "arena_inv demo_regions"
    unfolding demo_regions_def Let_def by (intro arena_inv_new_region arena_inv_with_capacity) simp_all
  moreover have n: "length (ar_regions demo_regions) = 3" and root: "ar_root demo_regions = rid_pack 0 0" by code_simp+
  moreover have p: "rg_parent (ar_regions demo_regions ! 0) = RegionId_NONE"
    "rg_parent (ar_regions demo_regions ! 1) = rid_pack 0 0"
    "rg_parent (ar_regions demo_regions ! 2) = rid_pack 0 0" by code_simp+
  have "let p = rg_parent (ar_regions demo_regions ! r) in
      rid_is_none p \<or> (unat (rid_index p) < r \<and> p = rid_pack (rid_index p) 0)" if "r < 3" for r
  proof -
    from that consider "r = 0" | "r = 1" | "r = 2" by linarith
    then show ?thesis by cases (simp_all only: p, simp_all add: Let_def)
  qed
  ultimately show ?thesis using p(1) by (simp add: region_tree_def arena_inv_wf)
qed

theorem dominates_is_ancestor_witness:
  "\<exists>t. dom_build demo_regions = Inr t \<and>
     dominates t (rid_pack (word_of_nat 0) 0) (rid_pack (word_of_nat 2) 0) = region_anc demo_regions 0 2 \<and>
     \<not> dominates t (rid_pack (word_of_nat 1) 0) (rid_pack (word_of_nat 2) 0)"
proof -
  have n: "length (ar_regions demo_regions) = 3" by code_simp
  have p: "parent_slot demo_regions 2 = Some 0" "parent_slot demo_regions 0 = None" by code_simp+
  have "\<not> region_anc demo_regions 1 0" by (auto elim: region_ancE simp: p(2))
  then have "\<not> region_anc demo_regions 1 2" by (auto elim: region_ancE simp: p(1))
  with dominates_is_ancestor [OF demo_regions_tree] show ?thesis
    unfolding n by (metis less_numeral_extra(3) numeral_less_iff one_less_numeral_iff semiring_norm(77,79) zero_less_numeral lessI eval_nat_numeral(3))
qed

end
