(* ===== verification/Dce.thy ===== *)
theory Dce
  imports Dominance
begin

text \<open>
  Dead code elimination, \<^verbatim>\<open>crates/xir-graph/src/dce.rs\<close>. Each round marks the slots that the roots, the
  inputs and the effect inputs of live nodes name, and removes the pure live nodes whose slot is
  unmarked, until a round finds none.
\<close>

section \<open>Model\<close>

definition mark :: "bool list \<Rightarrow> nat \<Rightarrow> bool list" where
  "mark used slot = (if slot < length used then used[slot := True] else used)"

definition value_slot :: "value_id \<Rightarrow> nat" where
  "value_slot v = unat (nid_index (vid_node v))"

text \<open>The slots the body of the first \<^verbatim>\<open>for_each_live_node\<close> marks for one node.\<close>

definition node_marks :: "node \<Rightarrow> nat list" where
  "node_marks n =
     map value_slot (node_uses n) @
     (if \<not> vid_is_none (nd_effect_in n) then [value_slot (nd_effect_in n)] else [])"

definition dce_used :: "arena \<Rightarrow> node_id list \<Rightarrow> bool list" where
  "dce_used a roots =
     (let used = replicate (slot_count a) False;
          used = foldl mark used (map (\<lambda>r. unat (nid_index r)) roots)
      in foldl (\<lambda>used (_, n). foldl mark used (node_marks n)) used (live_nodes a))"

definition dce_dead :: "arena \<Rightarrow> bool list \<Rightarrow> node_id list" where
  "dce_dead a used =
     map fst (filter (\<lambda>(x, n). is_pure (nd_op n) \<and>
       (let slot = unat (nid_index x) in slot < length used \<and> \<not> used ! slot)) (live_nodes a))"

fun dce_remove :: "arena \<Rightarrow> node_id list \<Rightarrow> u32 \<Rightarrow> (pass_error + u32) \<times> arena" where
  "dce_remove a [] k = (Inr k, a)"
| "dce_remove a (x # xs) k =
     (case remove_node a x of
        (Inl _, a') \<Rightarrow> (Inl Internal, a')
      | (Inr _, a') \<Rightarrow> dce_remove a' xs (k + 1))"

text \<open>The outer \<^verbatim>\<open>loop\<close>: \<open>None\<close> stands for not returning.\<close>

partial_function (option) dce_loop ::
  "arena \<Rightarrow> node_id list \<Rightarrow> u32 \<Rightarrow> ((pass_error + u32) \<times> arena) option" where
  "dce_loop a roots k =
     (let dead = dce_dead a (dce_used a roots) in
      if dead = [] then Some (Inr k, a)
      else case dce_remove a dead k of
        (Inl e, a') \<Rightarrow> Some (Inl e, a')
      | (Inr k', a') \<Rightarrow> dce_loop a' roots k')"

declare dce_loop.simps [code]

definition dce_run :: "arena \<Rightarrow> node_id list \<Rightarrow> ((pass_error + u32) \<times> arena) option" where
  "dce_run a roots = dce_loop a roots 0"

section \<open>Marking\<close>

lemma length_mark [simp]: "length (mark used s) = length used"
  by (simp add: mark_def)

lemma mark_nth: "i < length used \<Longrightarrow> mark used s ! i \<longleftrightarrow> used ! i \<or> i = s"
  by (auto simp: mark_def nth_list_update)

lemma length_marks [simp]: "length (foldl mark used ss) = length used"
  by (induction ss arbitrary: used) simp_all

lemma marks_nth: "i < length used \<Longrightarrow> foldl mark used ss ! i \<longleftrightarrow> used ! i \<or> i \<in> set ss"
  by (induction ss arbitrary: used) (auto simp: mark_nth)

lemma length_node_marks [simp]:
  "length (foldl (\<lambda>used (_, n). foldl mark used (node_marks n)) used xs) = length used"
  by (induction xs arbitrary: used) auto

lemma node_marks_nth:
  "i < length used \<Longrightarrow> foldl (\<lambda>used (_, n). foldl mark used (node_marks n)) used xs ! i \<longleftrightarrow>
     used ! i \<or> (\<exists>(x, n) \<in> set xs. i \<in> set (node_marks n))"
  by (induction xs arbitrary: used) (simp_all add: marks_nth split_beta disj_assoc)

text \<open>A slot is needed when a root or a live node names it.\<close>

definition slot_needed :: "arena \<Rightarrow> node_id list \<Rightarrow> nat \<Rightarrow> bool" where
  "slot_needed a roots s \<longleftrightarrow>
     s \<in> (\<lambda>r. unat (nid_index r)) ` set roots \<or> (\<exists>(x, n) \<in> set (live_nodes a). s \<in> set (node_marks n))"

lemma dce_used_nth:
  "length (dce_used a roots) = slot_count a"
  "s < slot_count a \<Longrightarrow> dce_used a roots ! s \<longleftrightarrow> slot_needed a roots s"
  by (simp_all add: dce_used_def slot_needed_def node_marks_nth marks_nth)

lemma live_nodes_index:
  assumes "arena_wf a" "(x, n) \<in> set (live_nodes a)" shows "unat (nid_index x) < slot_count a"
  using assms by (auto simp: live_nodes_def slot_count_def unat_slot)

lemma set_dce_dead:
  assumes "arena_wf a"
  shows "x \<in> set (dce_dead a (dce_used a roots)) \<longleftrightarrow>
    (\<exists>n. (x, n) \<in> set (live_nodes a) \<and> is_pure (nd_op n) \<and> \<not> slot_needed a roots (unat (nid_index x)))"
  using live_nodes_index [OF assms] by (force simp: dce_dead_def dce_used_nth Let_def)

lemma dce_dead_live: "set (dce_dead a u) \<subseteq> set (live_ids a)"
  by (auto simp: dce_dead_def live_ids_def)

lemma distinct_dce_dead: "arena_wf a \<Longrightarrow> distinct (dce_dead a u)"
  using distinct_live_ids [of a] by (simp add: dce_dead_def live_ids_def distinct_map_filter)

section \<open>One round\<close>

lemma dce_remove_eq:
  "arena_inv a \<Longrightarrow> distinct xs \<Longrightarrow> set xs \<subseteq> set (live_ids a) \<Longrightarrow>
     dce_remove a xs k = (Inr (k + word_of_nat (length xs)), store.del_all xs a)"
proof (induction xs arbitrary: a k)
  case (Cons x xs)
  then have x: "x \<in> set (live_ids a)" by simp
  obtain b where b: "remove_node a x = (Inr (), b)"
    by (rule remove_node_liveE [OF Cons.prems(1) x])
  then have d: "node_del a x = b" by (simp add: node_del_def)
  have "arena_inv b" "set (live_ids b) = set (live_ids a) - {x}"
    using store.del_inv [OF Cons.prems(1) x] store.del_ids [OF Cons.prems(1) x] by (simp_all add: d)
  with Cons.IH [of b "k + 1"] Cons.prems b d show ?case by (simp add: subset_Diff_insert algebra_simps)
qed simp

text \<open>What the loop keeps of the arena it started from.\<close>

definition dce_sound :: "arena \<Rightarrow> node_id list \<Rightarrow> arena \<Rightarrow> bool" where
  "dce_sound a roots b \<longleftrightarrow> arena_inv b \<and> set (live_ids b) \<subseteq> set (live_ids a) \<and>
     (\<forall>x \<in> set (live_ids b). node_get b x = node_get a x) \<and>
     (\<forall>x n. node_get a x = Some n \<longrightarrow> x \<in> set (live_ids a) - set (live_ids b) \<longrightarrow>
        is_pure (nd_op n) \<and> unat (nid_index x) \<notin> (\<lambda>r. unat (nid_index r)) ` set roots \<and>
        (\<forall>(y, m) \<in> set (live_nodes b). unat (nid_index x) \<notin> set (node_marks m)))"

lemma node_marks_payload [simp]: "node_marks (payload n) = node_marks n"
  by (simp add: node_marks_def node_uses_def)

lemma live_nodes_get:
  assumes "arena_wf a" "(x, n) \<in> set (live_nodes a)" shows "node_get a x = Some (payload n)" "x \<in> set (live_ids a)"
proof -
  show "node_get a x = Some (payload n)" using arena_node_live [OF assms] by (simp add: node_get_def)
  show "x \<in> set (live_ids a)" unfolding live_ids_def using assms(2) by force
qed

lemma get_live_nodes:
  assumes "arena_wf a" "x \<in> set (live_ids a)" "node_get a x = Some m"
  obtains n where "(x, n) \<in> set (live_nodes a)" "m = payload n"
proof -
  from assms(1,2) obtain n where "(x, n) \<in> set (live_nodes a)" by (rule live_ids_node)
  with live_nodes_get(1) [OF assms(1) this] assms(3) that show thesis by auto
qed

lemma survivors_sub:
  assumes a: "arena_inv a" and b: "arena_inv b" "set (live_ids b) \<subseteq> set (live_ids a)"
    "\<forall>x \<in> set (live_ids b). node_get b x = node_get a x" and y: "(y, m) \<in> set (live_nodes b)"
  obtains m' where "(y, m') \<in> set (live_nodes a)" "payload m' = payload m"
proof -
  note g = live_nodes_get [OF arena_inv_wf [OF b(1)] y]
  with b have "y \<in> set (live_ids a)" "node_get a y = Some (payload m)" by auto
  with arena_inv_wf [OF a] obtain m' where "(y, m') \<in> set (live_nodes a)" "payload m = payload m'"
    by (rule get_live_nodes)
  with that show thesis by simp
qed

lemma dce_round_sound:
  assumes inv: "arena_inv a"
  shows "dce_sound a roots (store.del_all (dce_dead a (dce_used a roots)) a)"
proof -
  let ?d = "dce_dead a (dce_used a roots)"
  let ?b = "store.del_all ?d a"
  have wf: "arena_wf a" using inv by (rule arena_inv_wf)
  note del = store.del_all_inv [OF inv distinct_dce_dead [OF wf] dce_dead_live, of "dce_used a roots"]
  note get = store.del_all_get [OF inv distinct_dce_dead [OF wf] dce_dead_live, of _ "dce_used a roots"]
  have surv: "\<forall>x \<in> set (live_ids ?b). node_get ?b x = node_get a x" using del get by blast
  have gone: "is_pure (nd_op n) \<and> unat (nid_index x) \<notin> (\<lambda>r. unat (nid_index r)) ` set roots \<and>
      (\<forall>(y, m) \<in> set (live_nodes ?b). unat (nid_index x) \<notin> set (node_marks m))"
    if x: "node_get a x = Some n" "x \<in> set (live_ids a) - set (live_ids ?b)" for x n
  proof -
    from x(2) del have "x \<in> set ?d" by blast
    then obtain n' where n': "(x, n') \<in> set (live_nodes a)" "is_pure (nd_op n')"
      "\<not> slot_needed a roots (unat (nid_index x))" by (auto simp: set_dce_dead [OF wf])
    have "n = payload n'" using live_nodes_get(1) [OF wf n'(1)] x(1) by simp
    moreover have "unat (nid_index x) \<notin> set (node_marks m)" if m: "(y, m) \<in> set (live_nodes ?b)" for y m
    proof -
      obtain m' where "(y, m') \<in> set (live_nodes a)" "payload m' = payload m"
        using survivors_sub [OF inv _ _ surv m] del by blast
      with n'(3) have "unat (nid_index x) \<notin> set (node_marks m')" by (auto simp: slot_needed_def)
      with \<open>payload m' = payload m\<close> show ?thesis by (metis node_marks_payload)
    qed
    ultimately show ?thesis using n' by (auto simp: slot_needed_def)
  qed
  show ?thesis unfolding dce_sound_def using del surv gone by blast
qed

lemma dce_sound_trans:
  assumes a: "arena_inv a" and ab: "dce_sound a roots b" and bc: "dce_sound b roots c"
  shows "dce_sound a roots c"
proof -
  have gone: "is_pure (nd_op n) \<and> unat (nid_index x) \<notin> (\<lambda>r. unat (nid_index r)) ` set roots \<and>
      (\<forall>(y, m) \<in> set (live_nodes c). unat (nid_index x) \<notin> set (node_marks m))"
    if x: "node_get a x = Some n" "x \<in> set (live_ids a) - set (live_ids c)" for x n
  proof (cases "x \<in> set (live_ids b)")
    case True
    with ab x have "node_get b x = Some n" by (simp add: dce_sound_def)
    with bc True x show ?thesis unfolding dce_sound_def by blast
  next
    case False
    then have u: "is_pure (nd_op n)" "unat (nid_index x) \<notin> (\<lambda>r. unat (nid_index r)) ` set roots"
      "\<forall>(y, m) \<in> set (live_nodes b). unat (nid_index x) \<notin> set (node_marks m)"
      using ab x unfolding dce_sound_def by blast+
    have "unat (nid_index x) \<notin> set (node_marks m)" if m: "(y, m) \<in> set (live_nodes c)" for y m
    proof -
      have b: "arena_inv b" using ab by (simp add: dce_sound_def)
      obtain m' where m': "(y, m') \<in> set (live_nodes b)" "payload m' = payload m"
        using survivors_sub [OF b _ _ _ m] bc unfolding dce_sound_def by blast
      with u(3) have "unat (nid_index x) \<notin> set (node_marks m')" by blast
      with m'(2) show ?thesis by (metis node_marks_payload)
    qed
    with u show ?thesis by blast
  qed
  have "\<forall>x \<in> set (live_ids c). node_get c x = node_get a x" "arena_inv c" "set (live_ids c) \<subseteq> set (live_ids a)"
    using ab bc unfolding dce_sound_def by auto
  with gone show ?thesis unfolding dce_sound_def by blast
qed

section \<open>The loop\<close>

lemma dce_sound_refl: "arena_inv a \<Longrightarrow> dce_sound a roots a"
  by (simp add: dce_sound_def)

lemma dce_loop_run:
  "arena_inv a \<Longrightarrow> \<exists>b. dce_loop a roots k = Some (Inr (k + word_of_nat (length (live_ids a) - length (live_ids b))), b) \<and>
     dce_sound a roots b \<and> dce_dead b (dce_used b roots) = []"
proof (induction "length (live_ids a)" arbitrary: a k rule: less_induct)
  case less
  let ?d = "dce_dead a (dce_used a roots)"
  have wf: "arena_wf a" using less.prems by (rule arena_inv_wf)
  show ?case
  proof (cases "?d = []")
    case True
    then show ?thesis using dce_sound_refl [OF less.prems] by (subst dce_loop.simps) simp
  next
    case False
    let ?a = "store.del_all ?d a"
    note live = distinct_dce_dead [OF wf, of "dce_used a roots"] dce_dead_live [of a "dce_used a roots"]
    have len: "length (live_ids ?a) = length (live_ids a) - length ?d" by (rule store.length_del_all [OF less.prems live])
    have le: "length ?d \<le> length (live_ids a)"
      using live distinct_live_ids [OF wf] by (metis card_mono distinct_card finite_set)
    have sound: "dce_sound a roots ?a" by (rule dce_round_sound [OF less.prems])
    then have inv: "arena_inv ?a" by (simp add: dce_sound_def)
    have shrink: "length (live_ids ?a) < length (live_ids a)" using len le False by (cases ?d) auto
    from less.hyps [OF shrink inv, of "k + word_of_nat (length ?d)"] obtain b where
      b: "dce_loop ?a roots (k + word_of_nat (length ?d)) =
        Some (Inr (k + word_of_nat (length ?d) + word_of_nat (length (live_ids ?a) - length (live_ids b))), b)"
      "dce_sound ?a roots b" "dce_dead b (dce_used b roots) = []" by blast
    have "length (live_ids b) \<le> length (live_ids ?a)"
      using b(2) distinct_live_ids [OF arena_inv_wf] inv
      by (metis (no_types, lifting) card_mono dce_sound_def distinct_card finite_set)
    then have "length ?d + (length (live_ids ?a) - length (live_ids b)) = length (live_ids a) - length (live_ids b)"
      using len le by linarith
    then have "word_of_nat (length ?d) + word_of_nat (length (live_ids ?a) - length (live_ids b)) =
        (word_of_nat (length (live_ids a) - length (live_ids b)) :: u32)" by (metis of_nat_add)
    then have "dce_loop a roots k =
        Some (Inr (k + word_of_nat (length (live_ids a) - length (live_ids b))), b)"
      using False b(1) by (subst dce_loop.simps) (simp add: dce_remove_eq [OF less.prems live] add.assoc)
    with b(3) dce_sound_trans [OF less.prems sound b(2)] show ?thesis by blast
  qed
qed

text \<open>
  C11: dead code elimination always returns, without error. It keeps the arena invariant and the
  content of every surviving node; each node it removed was pure, not a root, and is named by no
  survivor; no further pure unneeded node is left; the count it returns is the number of nodes removed
  (modulo \<open>2\<^sup>32\<close>).
\<close>

theorem dce_run_correct:
  assumes "arena_inv a"
  shows "\<exists>b. dce_run a roots = Some (Inr (word_of_nat (node_count a - node_count b)), b) \<and> arena_inv b \<and>
    set (live_ids b) \<subseteq> set (live_ids a) \<and> (\<forall>x \<in> set (live_ids b). node_get b x = node_get a x) \<and>
    (\<forall>(x, n) \<in> set (live_nodes a). x \<notin> set (live_ids b) \<longrightarrow>
       is_pure (nd_op n) \<and> unat (nid_index x) \<notin> (\<lambda>r. unat (nid_index r)) ` set roots \<and>
       (\<forall>(y, m) \<in> set (live_nodes b). unat (nid_index x) \<notin> set (node_marks m))) \<and>
    (\<forall>(x, n) \<in> set (live_nodes b). is_pure (nd_op n) \<longrightarrow> slot_needed b roots (unat (nid_index x)))"
proof -
  from dce_loop_run [OF assms, of roots 0] obtain b where
    b: "dce_loop a roots 0 = Some (Inr (word_of_nat (length (live_ids a) - length (live_ids b))), b)"
    "dce_sound a roots b" "dce_dead b (dce_used b roots) = []" by auto
  then have inv: "arena_inv b" by (simp add: dce_sound_def)
  note wf = arena_inv_wf [OF assms] arena_inv_wf [OF inv]
  have run: "dce_run a roots = Some (Inr (word_of_nat (node_count a - node_count b)), b)"
    using b(1) length_live_ids [OF wf(1)] length_live_ids [OF wf(2)] by (simp add: dce_run_def)
  have left: "slot_needed b roots (unat (nid_index x))"
    if "(x, n) \<in> set (live_nodes b)" "is_pure (nd_op n)" for x n
    using that b(3) set_dce_dead [OF wf(2), of x roots] by auto
  have gone: "is_pure (nd_op n) \<and> unat (nid_index x) \<notin> (\<lambda>r. unat (nid_index r)) ` set roots \<and>
       (\<forall>(y, m) \<in> set (live_nodes b). unat (nid_index x) \<notin> set (node_marks m))"
    if x: "(x, n) \<in> set (live_nodes a)" "x \<notin> set (live_ids b)" for x n
    using b(2) live_nodes_get [OF wf(1) x(1)] x(2) unfolding dce_sound_def
    by (metis DiffI payload_sel(1))
  show ?thesis
    using run inv left gone b(2) unfolding dce_sound_def by blast
qed

theorem dce_run_correct_witness:
  "\<exists>b. dce_run demo_arena [] = Some (Inr (word_of_nat (1 - node_count b)), b) \<and> arena_inv b"
proof -
  have "node_count demo_arena = 1" by code_simp
  with dce_run_correct [OF demo_arena_inv, of "[]"] show ?thesis by auto
qed

end
