(* ===== verification/Schedule.thy ===== *)
theory Schedule
  imports Dce
begin

text \<open>
  Topological scheduling, \<^verbatim>\<open>crates/xir-graph/src/schedule.rs\<close>: \<^verbatim>\<open>schedule\<close> emits ready nodes in slot order,
  pass after pass; \<^verbatim>\<open>schedule_fused\<close> emits one node at a time and prefers the cluster of the last one.
  Both start from the same tables (live handles, in-degrees, consumers), \<open>sched_prepare\<close>.
\<close>

section \<open>Model\<close>

datatype schedule_error = Cycle | ScheduleUnknownNode

fun sched_indegree :: "arena \<Rightarrow> node_id list \<Rightarrow> schedule_error + u32 list" where
  "sched_indegree a [] = Inr []"
| "sched_indegree a (x # xs) =
     rbind (map_err (\<lambda>_. ScheduleUnknownNode) (arena_node a x)) (\<lambda>n.
     rbind (sched_indegree a xs) (\<lambda>ds. Inr (word_of_nat (length (node_uses n)) # ds)))"

definition sched_pos_of :: "arena \<Rightarrow> node_id list \<Rightarrow> nat option list" where
  "sched_pos_of a ids =
     foldl (\<lambda>pos_of pos. let slot = unat (nid_index (ids ! pos)) in
              if slot < length pos_of then pos_of[slot := Some pos] else pos_of)
       (replicate (slot_count a) None) [0 ..< length ids]"

text \<open>\<^verbatim>\<open>pos_of.get(slot).copied().flatten()\<close>\<close>

definition pos_get :: "nat option list \<Rightarrow> nat \<Rightarrow> nat option" where
  "pos_get pos_of slot = (if slot < length pos_of then pos_of ! slot else None)"

fun sched_edges :: "nat option list \<Rightarrow> nat \<Rightarrow> value_id list \<Rightarrow> nat list list \<Rightarrow> schedule_error + nat list list" where
  "sched_edges pos_of pos [] cons = Inr cons"
| "sched_edges pos_of pos (v # vs) cons =
     (case pos_get pos_of (value_slot v) of
        Some ppos \<Rightarrow> sched_edges pos_of pos vs (cons[ppos := cons ! ppos @ [pos]])
      | None \<Rightarrow> Inl ScheduleUnknownNode)"

fun sched_consumers ::
  "arena \<Rightarrow> nat option list \<Rightarrow> node_id list \<Rightarrow> nat list \<Rightarrow> nat list list \<Rightarrow> schedule_error + nat list list" where
  "sched_consumers a pos_of ids [] cons = Inr cons"
| "sched_consumers a pos_of ids (pos # ps) cons =
     rbind (map_err (\<lambda>_. ScheduleUnknownNode) (arena_node a (ids ! pos))) (\<lambda>n.
     rbind (sched_edges pos_of pos (node_uses n) cons) (\<lambda>cons'.
       sched_consumers a pos_of ids ps cons'))"

definition sched_prepare :: "arena \<Rightarrow> schedule_error + (node_id list \<times> u32 list \<times> nat list list)" where
  "sched_prepare a =
     (let ids = live_ids a in
      rbind (sched_indegree a ids) (\<lambda>indegree.
      rbind (sched_consumers a (sched_pos_of a ids) ids [0 ..< length ids] (replicate (length ids) []))
        (\<lambda>consumers. Inr (ids, indegree, consumers))))"

record sched =
  sc_order :: "node_id list"
  sc_indeg :: "u32 list"
  sc_emitted :: "bool list"
  sc_remaining :: nat

definition sched_init :: "node_id list \<Rightarrow> u32 list \<Rightarrow> sched" where
  "sched_init ids indegree =
     \<lparr>sc_order = [], sc_indeg = indegree, sc_emitted = replicate (length ids) False,
      sc_remaining = length ids\<rparr>"

definition sched_decr :: "bool list \<Rightarrow> u32 list \<Rightarrow> nat list \<Rightarrow> u32 list" where
  "sched_decr emitted =
     foldl (\<lambda>indeg c. if \<not> emitted ! c then indeg[c := saturating_sub (indeg ! c) 1] else indeg)"

definition sched_emit :: "node_id list \<Rightarrow> nat list list \<Rightarrow> nat \<Rightarrow> sched \<Rightarrow> sched" where
  "sched_emit ids consumers pos st =
     (let emitted = (sc_emitted st)[pos := True] in
      \<lparr>sc_order = sc_order st @ [ids ! pos],
       sc_indeg = sched_decr emitted (sc_indeg st) (consumers ! pos),
       sc_emitted = emitted,
       sc_remaining = sc_remaining st - 1\<rparr>)"

definition sched_ready :: "sched \<Rightarrow> nat \<Rightarrow> bool" where
  "sched_ready st pos \<longleftrightarrow> \<not> (sc_emitted st ! pos \<or> sc_indeg st ! pos \<noteq> 0)"

definition sched_pass :: "node_id list \<Rightarrow> nat list list \<Rightarrow> nat list \<Rightarrow> sched \<times> bool \<Rightarrow> sched \<times> bool" where
  "sched_pass ids consumers =
     fold (\<lambda>pos (st, progressed).
       if \<not> sched_ready st pos then (st, progressed) else (sched_emit ids consumers pos st, True))"

lemma sched_pass_remaining:
  "sched_pass ids consumers ps (st, c) = (st', c') \<Longrightarrow>
     sc_remaining st' \<le> sc_remaining st \<and> (c' \<longrightarrow> c \<or> 0 < sc_remaining st \<longrightarrow> c \<or> sc_remaining st' < sc_remaining st)"
proof (induction ps arbitrary: st c)
  case (Cons p ps)
  show ?case
  proof (cases "sched_ready st p")
    case True
    with Cons.prems have "sched_pass ids consumers ps (sched_emit ids consumers p st, True) = (st', c')"
      by (simp add: sched_pass_def)
    from Cons.IH [OF this] show ?thesis by (auto simp: sched_emit_def Let_def)
  next
    case False
    with Cons.prems have "sched_pass ids consumers ps (st, c) = (st', c')" by (simp add: sched_pass_def)
    from Cons.IH [OF this] show ?thesis .
  qed
qed (simp add: sched_pass_def)

function sched_loop :: "node_id list \<Rightarrow> nat list list \<Rightarrow> sched \<Rightarrow> schedule_error + node_id list" where
  "sched_loop ids consumers st =
     (if sc_remaining st > 0
      then case sched_pass ids consumers [0 ..< length ids] (st, False) of
             (st', progressed) \<Rightarrow> if \<not> progressed then Inl Cycle else sched_loop ids consumers st'
      else Inr (sc_order st))"
  by auto
termination
  by (relation "measure (\<lambda>(_, _, st). sc_remaining st)") (auto dest!: sched_pass_remaining [OF sym])

declare sched_loop.simps [simp del]

definition schedule :: "arena \<Rightarrow> schedule_error + node_id list" where
  "schedule a =
     rbind (sched_prepare a) (\<lambda>(ids, indegree, consumers).
       sched_loop ids consumers (sched_init ids indegree))"

text \<open>
  \<^verbatim>\<open>schedule_fused\<close>: the ready position of least key (not in the active cluster, slot index), the
  earlier one winning ties.
\<close>

definition fused_key :: "node_id list \<Rightarrow> u32 option list \<Rightarrow> u32 option \<Rightarrow> nat \<Rightarrow> bool \<times> u32" where
  "fused_key ids clusters active pos = (clusters ! pos \<noteq> active, nid_index (ids ! pos))"

definition key_less :: "bool \<times> u32 \<Rightarrow> bool \<times> u32 \<Rightarrow> bool" where
  "key_less p q \<longleftrightarrow> (\<not> fst p \<and> fst q) \<or> (fst p = fst q \<and> snd p < snd q)"

definition fused_best ::
  "node_id list \<Rightarrow> u32 option list \<Rightarrow> u32 option \<Rightarrow> sched \<Rightarrow> nat option" where
  "fused_best ids clusters active st =
     fold (\<lambda>pos best.
       if \<not> sched_ready st pos then best
       else if (case best of None \<Rightarrow> True
                | Some b \<Rightarrow> key_less (fused_key ids clusters active pos) (fused_key ids clusters active b))
            then Some pos else best) [0 ..< length ids] None"

function fused_loop ::
  "node_id list \<Rightarrow> nat list list \<Rightarrow> u32 option list \<Rightarrow> u32 option \<Rightarrow> sched \<Rightarrow> schedule_error + node_id list" where
  "fused_loop ids consumers clusters active st =
     (if sc_remaining st > 0
      then case fused_best ids clusters active st of
             None \<Rightarrow> Inl Cycle
           | Some pos \<Rightarrow> fused_loop ids consumers clusters (clusters ! pos) (sched_emit ids consumers pos st)
      else Inr (sc_order st))"
  by auto
termination
  by (relation "measure (\<lambda>(_, _, _, _, st). sc_remaining st)") (auto simp: sched_emit_def Let_def)

declare fused_loop.simps [simp del]

definition schedule_fused :: "arena \<Rightarrow> (node_id \<Rightarrow> u32 option) \<Rightarrow> schedule_error + node_id list" where
  "schedule_fused a cluster_of =
     rbind (sched_prepare a) (\<lambda>(ids, indegree, consumers).
       fused_loop ids consumers (map cluster_of ids) None (sched_init ids indegree))"

end
