(* ===== verification/Schedule_Correct.thy ===== *)
theory Schedule_Correct
  imports Schedule
begin

text \<open>
  Correctness of the schedulers. The tables describe a finite graph on the positions of the live
  handles; emitting a ready position keeps the order topological, and when no position is ready the
  positions left contain a cycle.
\<close>

section \<open>The emission step\<close>

text \<open>\<open>prods c\<close> lists the producers of position \<open>c\<close>, with repetitions.\<close>

definition sched_graph :: "node_id list \<Rightarrow> nat list list \<Rightarrow> (nat \<Rightarrow> nat list) \<Rightarrow> bool" where
  "sched_graph ids cons prods \<longleftrightarrow> length cons = length ids \<and>
     (\<forall>c < length ids. set (prods c) \<subseteq> {..<length ids}) \<and>
     (\<forall>p < length ids. set (cons ! p) \<subseteq> {..<length ids} \<and>
        (\<forall>c < length ids. count_list (cons ! p) c = count_list (prods c) p))"

definition sched_inv ::
  "node_id list \<Rightarrow> (nat \<Rightarrow> nat list) \<Rightarrow> nat list \<Rightarrow> sched \<Rightarrow> bool" where
  "sched_inv ids prods ps st \<longleftrightarrow>
     length (sc_emitted st) = length ids \<and> length (sc_indeg st) = length ids \<and>
     sc_order st = map ((!) ids) ps \<and> distinct ps \<and>
     set ps = {p. p < length ids \<and> sc_emitted st ! p} \<and>
     sc_remaining st = length ids - length ps \<and>
     (\<forall>c < length ids. \<not> sc_emitted st ! c \<longrightarrow>
        unat (sc_indeg st ! c) = length (filter (\<lambda>p. p \<notin> set ps) (prods c))) \<and>
     (\<forall>k < length ps. set (prods (ps ! k)) \<subseteq> set (take k ps))"

lemma length_sched_decr [simp]: "length (sched_decr em ind cs) = length ind"
  unfolding sched_decr_def by (induction cs arbitrary: ind) simp_all

lemma sched_decr_nth:
  "c < length ind \<Longrightarrow> set cs \<subseteq> {..<length ind} \<Longrightarrow>
     unat (sched_decr em ind cs ! c) = (if em ! c then unat (ind ! c) else unat (ind ! c) - count_list cs c)"
proof (induction cs arbitrary: ind)
  case (Cons d cs)
  let ?ind = "if \<not> em ! d then ind[d := saturating_sub (ind ! d) 1] else ind"
  have "unat (sched_decr em ?ind cs ! c) = (if em ! c then unat (?ind ! c) else unat (?ind ! c) - count_list cs c)"
    using Cons by (intro Cons.IH) auto
  moreover have "sched_decr em ind (d # cs) = sched_decr em ?ind cs" by (simp add: sched_decr_def)
  moreover have "unat (?ind ! c) = (if c = d \<and> \<not> em ! c then unat (ind ! c) - 1 else unat (ind ! c))"
    using Cons.prems by (auto simp: nth_list_update unat_saturating_sub)
  ultimately show ?case by auto
qed (simp add: sched_decr_def)

lemma length_filter_snoc:
  "q \<notin> A \<Longrightarrow> length (filter (\<lambda>p. p \<notin> insert q A) xs) = length (filter (\<lambda>p. p \<notin> A) xs) - count_list xs q"
proof (induction xs)
  case (Cons x xs)
  have "count_list xs q \<le> length (filter (\<lambda>p. p \<notin> A) xs)"
    using Cons.prems by (induction xs) auto
  with Cons show ?case by auto
qed simp

lemma sched_emit_inv:
  assumes g: "sched_graph ids cons prods" and inv: "sched_inv ids prods ps st"
    and q: "q < length ids" "sched_ready st q"
  shows "sched_inv ids prods (ps @ [q]) (sched_emit ids cons q st)"
proof -
  let ?st = "sched_emit ids cons q st"
  have q': "\<not> sc_emitted st ! q" "sc_indeg st ! q = 0" using q(2) by (auto simp: sched_ready_def)
  have len: "length (sc_emitted st) = length ids" "length (sc_indeg st) = length ids"
    and ord: "sc_order st = map ((!) ids) ps" and d: "distinct ps"
    and ps: "set ps = {p. p < length ids \<and> sc_emitted st ! p}"
    and rem: "sc_remaining st = length ids - length ps"
    and deg: "\<And>c. c < length ids \<Longrightarrow> \<not> sc_emitted st ! c \<Longrightarrow>
        unat (sc_indeg st ! c) = length (filter (\<lambda>p. p \<notin> set ps) (prods c))"
    and top: "\<forall>k < length ps. set (prods (ps ! k)) \<subseteq> set (take k ps)"
    using inv by (auto simp: sched_inv_def)
  have qps: "q \<notin> set ps" using ps q' by simp
  have em: "sc_emitted ?st = (sc_emitted st)[q := True]" by (simp add: sched_emit_def Let_def)
  have deg': "unat (sc_indeg ?st ! c) = length (filter (\<lambda>p. p \<notin> set (ps @ [q])) (prods c))"
    if c: "c < length ids" "\<not> sc_emitted ?st ! c" for c
  proof -
    have nc: "\<not> sc_emitted st ! c" "c \<noteq> q" using c len q(1) by (auto simp: em nth_list_update split: if_splits)
    have "unat (sc_indeg ?st ! c) = unat (sc_indeg st ! c) - count_list (cons ! q) c"
      using c q(1) g len by (simp add: sched_emit_def Let_def sched_decr_nth sched_graph_def nth_list_update)
    also have "count_list (cons ! q) c = count_list (prods c) q" using g q(1) c(1) by (simp add: sched_graph_def)
    finally show ?thesis using deg [OF c(1) nc(1)] length_filter_snoc [OF qps, of "prods c"] by simp
  qed
  have "set (prods q) \<subseteq> set ps"
    using deg [OF q(1) q'(1)] q'(2) by (auto simp: filter_empty_conv)
  then have top': "set (prods ((ps @ [q]) ! k)) \<subseteq> set (take k (ps @ [q]))" if "k < length (ps @ [q])" for k
    using that top by (cases "k = length ps") (auto simp: nth_append)
  have set': "set (ps @ [q]) = {p. p < length ids \<and> sc_emitted ?st ! p}"
    using ps q len by (auto simp: em nth_list_update)
  have "length (sc_emitted ?st) = length ids" "length (sc_indeg ?st) = length ids"
    "sc_order ?st = map ((!) ids) (ps @ [q])" "distinct (ps @ [q])"
    "sc_remaining ?st = length ids - length (ps @ [q])"
    using len ord d rem qps by (simp_all add: sched_emit_def Let_def)
  with deg' top' set' show ?thesis unfolding sched_inv_def by blast
qed

lemma sched_init_inv:
  assumes "\<forall>c < length ids. unat (ind ! c) = length (prods c)" "length ind = length ids"
  shows "sched_inv ids prods [] (sched_init ids ind)"
  using assms by (auto simp: sched_inv_def sched_init_def)

lemma sched_inv_length:
  assumes "sched_inv ids prods ps st" shows "length ps \<le> length ids"
proof -
  have "distinct ps" "set ps \<subseteq> {..<length ids}" using assms by (auto simp: sched_inv_def)
  then show ?thesis by (metis card_lessThan card_mono distinct_card finite_lessThan)
qed

text \<open>The schedules both loops produce.\<close>

definition sched_result :: "node_id list \<Rightarrow> (nat \<Rightarrow> nat list) \<Rightarrow> node_id list \<Rightarrow> bool" where
  "sched_result ids prods order \<longleftrightarrow>
     (\<exists>ps. order = map ((!) ids) ps \<and> distinct ps \<and> set ps = {..<length ids} \<and>
        (\<forall>k < length ps. set (prods (ps ! k)) \<subseteq> set (take k ps)))"

lemma sched_inv_done:
  assumes inv: "sched_inv ids prods ps st" and "\<not> sc_remaining st > 0"
  shows "sched_result ids prods (sc_order st)"
proof -
  have d: "distinct ps" "set ps \<subseteq> {..<length ids}" "length ps = length ids"
    using assms sched_inv_length [OF inv] by (auto simp: sched_inv_def)
  then have "set ps = {..<length ids}"
    by (metis card_lessThan card_subset_eq distinct_card finite_lessThan)
  with inv show ?thesis by (auto simp: sched_inv_def sched_result_def)
qed

definition pos_rel :: "node_id list \<Rightarrow> (nat \<Rightarrow> nat list) \<Rightarrow> (nat \<times> nat) set" where
  "pos_rel ids prods = {(p, c). c < length ids \<and> p \<in> set (prods c)}"

lemma stuck_cyclic:
  assumes g: "sched_graph ids cons prods" and inv: "sched_inv ids prods ps st"
    and rem: "sc_remaining st > 0" and stuck: "\<forall>p < length ids. \<not> sched_ready st p"
  shows "\<not> acyclic (pos_rel ids prods)"
proof
  assume "acyclic (pos_rel ids prods)"
  moreover have "pos_rel ids prods \<subseteq> {..<length ids} \<times> {..<length ids}"
    using g unfolding pos_rel_def sched_graph_def by blast
  then have "finite (pos_rel ids prods)" by (rule finite_subset) simp
  ultimately have wf: "wf (pos_rel ids prods)" by (auto intro: finite_acyclic_wf)
  let ?Q = "{..<length ids} - set ps"
  have "?Q \<noteq> {}"
  proof
    assume "?Q = {}"
    then have "card {..<length ids} \<le> card (set ps)" by (intro card_mono) auto
    moreover have "card (set ps) = length ps" using inv by (intro distinct_card) (simp add: sched_inv_def)
    ultimately show False using inv rem unfolding sched_inv_def card_lessThan by linarith
  qed
  then obtain z where z: "z \<in> ?Q" "\<And>y. (y, z) \<in> pos_rel ids prods \<Longrightarrow> y \<notin> ?Q"
    using wf by (metis all_not_in_conv wf_eq_minimal)
  then have "set (prods z) \<subseteq> set ps" using g unfolding pos_rel_def sched_graph_def by blast
  moreover have ne: "\<not> sc_emitted st ! z" using z(1) inv by (auto simp: sched_inv_def)
  ultimately have "unat (sc_indeg st ! z) = 0" using inv z(1) by (auto simp: sched_inv_def filter_empty_conv)
  with ne stuck z(1) show False by (auto simp: sched_ready_def unat_eq_0)
qed

lemma result_acyclic:
  assumes "sched_result ids prods order" shows "acyclic (pos_rel ids prods)"
proof -
  obtain ps where ps: "set ps = {..<length ids}" "distinct ps"
    "\<forall>k < length ps. set (prods (ps ! k)) \<subseteq> set (take k ps)" using assms by (auto simp: sched_result_def)
  define f where "f p = (THE k. k < length ps \<and> ps ! k = p)" for p
  have f: "f (ps ! k) = k" if "k < length ps" for k
    unfolding f_def using that ps(2) by (intro the_equality) (auto simp: nth_eq_iff_index_eq)
  have "pos_rel ids prods \<subseteq> inv_image less_than f"
  proof
    fix e assume "e \<in> pos_rel ids prods"
    then obtain p c where e: "e = (p, c)" "c < length ids" "p \<in> set (prods c)" by (auto simp: pos_rel_def)
    then obtain k where k: "k < length ps" "c = ps ! k" using ps(1) by (metis in_set_conv_nth lessThan_iff)
    with e ps(3) obtain j where "j < k" "p = ps ! j" by (fastforce simp: in_set_conv_nth)
    with k e f show "e \<in> inv_image less_than f" by simp
  qed
  then have "wf (pos_rel ids prods)" by (rule wf_subset [OF wf_inv_image [OF wf_less_than]])
  then show ?thesis by (rule wf_acyclic)
qed

section \<open>The two loops\<close>

lemma sched_pass_inv:
  assumes g: "sched_graph ids cons prods"
  shows "sched_inv ids prods ps st \<Longrightarrow> set qs \<subseteq> {..<length ids} \<Longrightarrow>
    sched_pass ids cons qs (st, c) = (st', c') \<Longrightarrow>
    (\<exists>ps'. sched_inv ids prods ps' st') \<and> (c \<longrightarrow> c') \<and> (\<not> c' \<longrightarrow> st' = st \<and> (\<forall>q \<in> set qs. \<not> sched_ready st q))"
proof (induction qs arbitrary: ps st c)
  case Nil
  then show ?case by (auto simp: sched_pass_def)
next
  case (Cons q qs)
  show ?case
  proof (cases "sched_ready st q")
    case True
    with Cons.prems(3) have "sched_pass ids cons qs (sched_emit ids cons q st, True) = (st', c')"
      by (simp add: sched_pass_def)
    moreover have "sched_inv ids prods (ps @ [q]) (sched_emit ids cons q st)"
      using sched_emit_inv [OF g Cons.prems(1) _ True] Cons.prems(2) by simp
    moreover have "set qs \<subseteq> {..<length ids}" using Cons.prems(2) by simp
    ultimately show ?thesis using Cons.IH by blast
  next
    case False
    with Cons.prems(3) have "sched_pass ids cons qs (st, c) = (st', c')" by (simp add: sched_pass_def)
    moreover have "set qs \<subseteq> {..<length ids}" using Cons.prems(2) by simp
    ultimately show ?thesis using Cons.IH [OF Cons.prems(1)] False by auto
  qed
qed

text \<open>Either a topological order of all positions, or a cycle.\<close>

definition sched_outcome :: "node_id list \<Rightarrow> (nat \<Rightarrow> nat list) \<Rightarrow> schedule_error + node_id list \<Rightarrow> bool" where
  "sched_outcome ids prods r \<longleftrightarrow>
     (case r of Inr order \<Rightarrow> sched_result ids prods order
      | Inl e \<Rightarrow> e = Cycle \<and> \<not> acyclic (pos_rel ids prods))"

lemma sched_loop_outcome:
  assumes g: "sched_graph ids cons prods"
  shows "sched_inv ids prods ps st \<Longrightarrow> sched_outcome ids prods (sched_loop ids cons st)"
proof (induction "sc_remaining st" arbitrary: ps st rule: less_induct)
  case less
  show ?case
  proof (cases "sc_remaining st > 0")
    case False
    then show ?thesis using sched_inv_done [OF less.prems]
      by (simp add: sched_loop.simps [of ids cons st] sched_outcome_def)
  next
    case True
    obtain st' c' where p: "sched_pass ids cons [0 ..< length ids] (st, False) = (st', c')" by fastforce
    have sub: "set [0 ..< length ids] \<subseteq> {..<length ids}" by auto
    note pass = sched_pass_inv [OF g less.prems sub p]
    show ?thesis
    proof (cases c')
      case c: True
      obtain ps' where "sched_inv ids prods ps' st'" using pass by blast
      moreover have "sc_remaining st' < sc_remaining st" using sched_pass_remaining [OF p] c True by simp
      ultimately show ?thesis using less.hyps True p c by (simp add: sched_loop.simps [of ids cons st])
    next
      case False
      then have "\<not> acyclic (pos_rel ids prods)"
        using pass stuck_cyclic [OF g less.prems True] by auto
      with False p True show ?thesis by (simp add: sched_loop.simps [of ids cons st] sched_outcome_def)
    qed
  qed
qed

lemma fused_best_ready:
  "(case fused_best ids clusters active st of
      Some p \<Rightarrow> p < length ids \<and> sched_ready st p
    | None \<Rightarrow> \<forall>p < length ids. \<not> sched_ready st p)"
proof -
  let ?f = "\<lambda>pos best. if \<not> sched_ready st pos then best
       else if (case best of None \<Rightarrow> True
                | Some b \<Rightarrow> key_less (fused_key ids clusters active pos) (fused_key ids clusters active b))
            then Some pos else best"
  have "k \<le> length ids \<Longrightarrow> (case fold ?f [0 ..< k] None of
      Some p \<Rightarrow> p < k \<and> sched_ready st p | None \<Rightarrow> \<forall>p < k. \<not> sched_ready st p)" for k
    by (induction k) (auto simp: less_Suc_eq split: option.splits)
  then show ?thesis unfolding fused_best_def by blast
qed

lemma fused_loop_outcome:
  assumes g: "sched_graph ids cons prods"
  shows "sched_inv ids prods ps st \<Longrightarrow> sched_outcome ids prods (fused_loop ids cons clusters active st)"
proof (induction "sc_remaining st" arbitrary: ps st active rule: less_induct)
  case less
  show ?case
  proof (cases "sc_remaining st > 0")
    case False
    then show ?thesis using sched_inv_done [OF less.prems]
      by (simp add: fused_loop.simps [of ids cons clusters active st] sched_outcome_def)
  next
    case True
    show ?thesis
    proof (cases "fused_best ids clusters active st")
      case None
      then have "\<not> acyclic (pos_rel ids prods)"
        using fused_best_ready [where ids = ids and clusters = clusters and active = active and st = st] stuck_cyclic [OF g less.prems True] by simp
      with None True show ?thesis
        by (simp add: fused_loop.simps [of ids cons clusters active st] sched_outcome_def)
    next
      case (Some p)
      then have "p < length ids" "sched_ready st p" using fused_best_ready [where ids = ids and clusters = clusters and active = active and st = st] by auto
      then have "sched_inv ids prods (ps @ [p]) (sched_emit ids cons p st)"
        by (rule sched_emit_inv [OF g less.prems])
      moreover have "sc_remaining (sched_emit ids cons p st) < sc_remaining st"
        using True by (simp add: sched_emit_def Let_def)
      ultimately show ?thesis
        using less.hyps Some True by (simp add: fused_loop.simps [of ids cons clusters active st])
    qed
  qed
qed

end
