(* ===== verification/Schedule_Spec.thy ===== *)
theory Schedule_Spec
  imports Schedule_Correct
begin

text \<open>
  The tables of \<open>sched_prepare\<close> describe the use graph of the arena, and with them the complete
  input-output behaviour of both schedulers.
\<close>

section \<open>The use graph\<close>

definition uses_rel :: "arena \<Rightarrow> (node_id \<times> node_id) set" where
  "uses_rel a = {(y, x). \<exists>n v. (x, n) \<in> set (live_nodes a) \<and> v \<in> set (node_uses n) \<and>
     y \<in> set (live_ids a) \<and> unat (nid_index y) = value_slot v}"

definition uses_resolved :: "arena \<Rightarrow> bool" where
  "uses_resolved a \<longleftrightarrow> (\<forall>(x, n) \<in> set (live_nodes a). \<forall>v \<in> set (node_uses n).
     \<exists>y \<in> set (live_ids a). unat (nid_index y) = value_slot v)"

definition topo_order :: "arena \<Rightarrow> node_id list \<Rightarrow> bool" where
  "topo_order a order \<longleftrightarrow> distinct order \<and> set order = set (live_ids a) \<and>
     (\<forall>k < length order. \<forall>y. (y, order ! k) \<in> uses_rel a \<longrightarrow> y \<in> set (take k order))"

definition live_slots :: "arena \<Rightarrow> nat list" where
  "live_slots a = filter (slot_live a) [0 ..< length (ar_nodes a)]"

lemma live_slots_index:
  assumes "arena_wf a" shows "map (\<lambda>x. unat (nid_index x)) (live_ids a) = live_slots a"
  using assms by (auto simp: live_ids_def live_nodes_def live_slots_def comp_def unat_slot intro!: map_idI)

lemma live_slots_props:
  "distinct (live_slots a)" "set (live_slots a) \<subseteq> {..<slot_count a}" "length (live_slots a) = length (live_ids a)"
  by (auto simp: live_slots_def slot_count_def live_ids_def live_nodes_def)

lemma live_ids_nth_index:
  assumes "arena_wf a" "p < length (live_ids a)"
  shows "unat (nid_index (live_ids a ! p)) = live_slots a ! p"
  using arg_cong [OF live_slots_index [OF assms(1)], of "\<lambda>l. l ! p"] assms(2) by simp

definition node_at :: "arena \<Rightarrow> nat \<Rightarrow> node" where
  "node_at a p = snd (live_nodes a ! p)"

lemma node_at_live:
  assumes "p < length (live_ids a)" shows "(live_ids a ! p, node_at a p) \<in> set (live_nodes a)"
  using assms by (metis live_ids_def length_map node_at_def nth_map nth_mem prod.collapse)

lemma live_node_position:
  assumes "(x, n) \<in> set (live_nodes a)"
  obtains p where "p < length (live_ids a)" "x = live_ids a ! p" "n = node_at a p"
  using assms by (metis fst_conv in_set_conv_nth length_map live_ids_def node_at_def nth_map snd_conv)

lemma all_live_nodes: "(\<forall>(x, n) \<in> set (live_nodes a). P n) \<longleftrightarrow> (\<forall>p < length (live_ids a). P (node_at a p))"
proof
  assume "\<forall>(x, n) \<in> set (live_nodes a). P n"
  then show "\<forall>p < length (live_ids a). P (node_at a p)" using node_at_live [of _ a] by blast
next
  assume p: "\<forall>p < length (live_ids a). P (node_at a p)"
  have "P n" if "(x, n) \<in> set (live_nodes a)" for x n using that p by (auto elim: live_node_position)
  then show "\<forall>(x, n) \<in> set (live_nodes a). P n" by blast
qed

section \<open>The tables\<close>

lemma pos_of_foldl:
  assumes "distinct L" "set L \<subseteq> {..<n}"
  shows "k \<le> length L \<Longrightarrow>
    foldl (\<lambda>pos_of pos. let slot = L ! pos in if slot < length pos_of then pos_of[slot := Some pos] else pos_of)
      (replicate n None) [0 ..< k] = map (\<lambda>s. if s \<in> set (take k L) then Some (THE p. p < length L \<and> L ! p = s) else None) [0 ..< n]"
proof (induction k)
  case 0
  then show ?case by (simp add: map_replicate_const)
next
  case (Suc k)
  have k: "L ! k < n" using assms(2) Suc.prems by (auto simp: subset_eq)
  have the: "(THE p. p < length L \<and> L ! p = L ! k) = k"
    using assms(1) Suc.prems by (intro the_equality) (auto simp: nth_eq_iff_index_eq)
  have "set (take (Suc k) L) = insert (L ! k) (set (take k L))" using Suc.prems by (simp add: take_Suc_conv_app_nth)
  with Suc k the show ?case by (auto simp: upt_map_update intro!: map_cong)
qed

lemma pos_get_iff:
  assumes wf: "arena_wf a"
  shows "pos_get (sched_pos_of a (live_ids a)) s = Some p \<longleftrightarrow> p < length (live_ids a) \<and> live_slots a ! p = s"
proof -
  let ?L = "live_slots a"
  note L = live_slots_props [of a]
  have "sched_pos_of a (live_ids a) =
    foldl (\<lambda>pos_of pos. let slot = ?L ! pos in if slot < length pos_of then pos_of[slot := Some pos] else pos_of)
      (replicate (slot_count a) None) [0 ..< length ?L]"
    unfolding sched_pos_of_def L(3) by (rule foldl_cong) (auto simp: live_ids_nth_index [OF wf])
  then have eq: "sched_pos_of a (live_ids a) =
      map (\<lambda>s. if s \<in> set ?L then Some (THE p. p < length ?L \<and> ?L ! p = s) else None) [0 ..< slot_count a]"
    using pos_of_foldl [OF L(1,2), of "length ?L"] by simp
  have the: "(THE p. p < length ?L \<and> ?L ! p = ?L ! q) = q" if "q < length ?L" for q
    using L(1) that by (intro the_equality) (auto simp: nth_eq_iff_index_eq)
  show ?thesis
  proof (cases "s \<in> set ?L")
    case True
    then obtain q where q: "q < length ?L" "s = ?L ! q" by (metis in_set_conv_nth)
    have "s < slot_count a" using True L(2) by auto
    then have "pos_get (sched_pos_of a (live_ids a)) s = Some q"
      using True the [OF q(1)] q(2) by (simp add: pos_get_def eq)
    with q L show ?thesis by (auto simp: nth_eq_iff_index_eq)
  next
    case False
    then show ?thesis using L(3) by (auto simp: pos_get_def eq)
  qed
qed

definition prods_of :: "arena \<Rightarrow> nat \<Rightarrow> nat list" where
  "prods_of a c = map (\<lambda>v. the (pos_get (sched_pos_of a (live_ids a)) (value_slot v))) (node_uses (node_at a c))"

lemma uses_resolved_iff:
  assumes wf: "arena_wf a"
  shows "uses_resolved a \<longleftrightarrow> (\<forall>c < length (live_ids a). \<forall>v \<in> set (node_uses (node_at a c)).
    pos_get (sched_pos_of a (live_ids a)) (value_slot v) \<noteq> None)"
proof -
  have "pos_get (sched_pos_of a (live_ids a)) s \<noteq> None \<longleftrightarrow> (\<exists>y \<in> set (live_ids a). unat (nid_index y) = s)" for s
    using pos_get_iff [OF wf, of s] live_ids_nth_index [OF wf] by (metis in_set_conv_nth not_None_eq)
  then show ?thesis unfolding uses_resolved_def by (simp only: all_live_nodes)
qed

lemma sched_indegree_eq:
  assumes wf: "arena_wf a"
  shows "set xs \<subseteq> set (live_nodes a) \<Longrightarrow>
    sched_indegree a (map fst xs) = Inr (map (\<lambda>(x, n). word_of_nat (length (node_uses n))) xs)"
proof (induction xs)
  case (Cons x xs)
  then have "arena_node a (fst x) = Inr (snd x)" using arena_node_live [OF wf] by auto
  with Cons show ?case by (simp add: split_beta)
qed simp

lemma sched_indegree_live:
  assumes "arena_wf a"
  obtains ind where "sched_indegree a (live_ids a) = Inr ind" "length ind = length (live_ids a)"
    "\<forall>c < length (live_ids a). unat (ind ! c) = length (prods_of a c)"
proof
  let ?ind = "map (\<lambda>(x, n). word_of_nat (length (node_uses n))) (live_nodes a) :: u32 list"
  show "sched_indegree a (live_ids a) = Inr ?ind"
    unfolding live_ids_def by (rule sched_indegree_eq [OF assms subset_refl])
  show len: "length ?ind = length (live_ids a)" by (simp add: live_ids_def)
  show "\<forall>c < length (live_ids a). unat (?ind ! c) = length (prods_of a c)"
  proof (intro allI impI)
    fix c assume c: "c < length (live_ids a)"
    have "length (node_uses (node_at a c)) < 2 ^ LENGTH(32)" by (simp add: node_uses_def MAX_INPUTS_def)
    with c len show "unat (?ind ! c) = length (prods_of a c)"
      by (simp add: prods_of_def node_at_def split_beta unat_of_nat_small)
  qed
qed

lemma sched_edges_ok:
  assumes "\<forall>v \<in> set vs. \<exists>p < N. pos_get pos_of (value_slot v) = Some p" "length cons = N"
  shows "\<exists>cons'. sched_edges pos_of pos vs cons = Inr cons' \<and> length cons' = N \<and>
    (\<forall>p < N. set (cons' ! p) \<subseteq> insert pos (set (cons ! p)) \<and>
       (\<forall>c. count_list (cons' ! p) c = count_list (cons ! p) c +
          (if c = pos then count_list (map (\<lambda>v. the (pos_get pos_of (value_slot v))) vs) p else 0)))"
  using assms
proof (induction vs arbitrary: cons)
  case (Cons v vs)
  then obtain q where q: "q < N" "pos_get pos_of (value_slot v) = Some q" by auto
  let ?cons = "cons[q := cons ! q @ [pos]]"
  have len: "length ?cons = N" using Cons.prems(2) by simp
  from Cons.IH [OF _ len] Cons.prems obtain cons' where c': "sched_edges pos_of pos vs ?cons = Inr cons'" "length cons' = N"
    "\<forall>p < N. set (cons' ! p) \<subseteq> insert pos (set (?cons ! p)) \<and>
       (\<forall>c. count_list (cons' ! p) c = count_list (?cons ! p) c +
          (if c = pos then count_list (map (\<lambda>v. the (pos_get pos_of (value_slot v))) vs) p else 0))" by auto
  have "set (?cons ! p) \<subseteq> insert pos (set (cons ! p))" "count_list (?cons ! p) c = count_list (cons ! p) c + (if c = pos \<and> p = q then 1 else 0)"
    if "p < N" for p c
    using that Cons.prems(2) by (cases "p = q"; simp add: subset_insertI)+
  note step = this
  have "set (cons' ! p) \<subseteq> insert pos (set (cons ! p))" if "p < N" for p
    using step(1) [OF that] c'(3) that by blast
  moreover have "count_list (cons' ! p) c = count_list (cons ! p) c +
      (if c = pos then count_list (map (\<lambda>v. the (pos_get pos_of (value_slot v))) (v # vs)) p else 0)" if "p < N" for p c
    using step(2) [OF that, of c] c'(3) that q(2) by auto
  ultimately show ?case using c'(1,2) q(2) by (intro exI [of _ cons']) simp
qed (simp add: subset_insertI)

lemma sched_edges_err:
  "\<exists>v \<in> set vs. pos_get pos_of (value_slot v) = None \<Longrightarrow> sched_edges pos_of pos vs cons = Inl ScheduleUnknownNode"
  by (induction vs arbitrary: cons) (auto split: option.splits)

lemma sched_edges_Inl: "sched_edges pos_of pos vs cons = Inl e \<Longrightarrow> e = ScheduleUnknownNode"
  by (induction vs arbitrary: cons) (auto split: option.splits)

lemma arena_node_at: "arena_wf a \<Longrightarrow> p < length (live_ids a) \<Longrightarrow> arena_node a (live_ids a ! p) = Inr (node_at a p)"
  using arena_node_live node_at_live by blast

lemma sched_consumers_ok:
  assumes wf: "arena_wf a" and res: "uses_resolved a" and N: "N = length (live_ids a)"
  shows "set qs \<subseteq> {..<N} \<Longrightarrow> distinct qs \<Longrightarrow> length cons = N \<Longrightarrow>
    \<exists>cons'. sched_consumers a (sched_pos_of a (live_ids a)) (live_ids a) qs cons = Inr cons' \<and> length cons' = N \<and>
    (\<forall>p < N. set (cons' ! p) \<subseteq> set qs \<union> set (cons ! p) \<and>
       (\<forall>c. count_list (cons' ! p) c = count_list (cons ! p) c + (if c \<in> set qs then count_list (prods_of a c) p else 0)))"
proof (induction qs arbitrary: cons)
  case (Cons q qs)
  let ?pos = "sched_pos_of a (live_ids a)"
  have q: "q < length (live_ids a)" using Cons.prems N by simp
  have "\<forall>v \<in> set (node_uses (node_at a q)). \<exists>p < N. pos_get ?pos (value_slot v) = Some p"
  proof
    fix v assume "v \<in> set (node_uses (node_at a q))"
    with res q obtain p where "pos_get ?pos (value_slot v) = Some p" unfolding uses_resolved_iff [OF wf] by blast
    then show "\<exists>p < N. pos_get ?pos (value_slot v) = Some p" using pos_get_iff [OF wf] N by blast
  qed
  from sched_edges_ok [OF this Cons.prems(3), of q] obtain cons1 where
    c1: "sched_edges ?pos q (node_uses (node_at a q)) cons = Inr cons1" "length cons1 = N"
    "\<forall>p < N. set (cons1 ! p) \<subseteq> insert q (set (cons ! p)) \<and> (\<forall>c. count_list (cons1 ! p) c =
       count_list (cons ! p) c + (if c = q then count_list (prods_of a q) p else 0))"
    unfolding prods_of_def by blast
  from Cons.IH [OF _ _ c1(2)] Cons.prems obtain cons' where
    c': "sched_consumers a ?pos (live_ids a) qs cons1 = Inr cons'" "length cons' = N"
    "\<forall>p < N. set (cons' ! p) \<subseteq> set qs \<union> set (cons1 ! p) \<and> (\<forall>c. count_list (cons' ! p) c =
       count_list (cons1 ! p) c + (if c \<in> set qs then count_list (prods_of a c) p else 0))" by auto
  have "sched_consumers a ?pos (live_ids a) (q # qs) cons = Inr cons'"
    using c1(1) c'(1) by (simp add: arena_node_at [OF wf q])
  moreover have "set (cons' ! p) \<subseteq> set (q # qs) \<union> set (cons ! p)" if "p < N" for p
    using c1(3) c'(3) that by fastforce
  moreover have "count_list (cons' ! p) c = count_list (cons ! p) c + (if c \<in> set (q # qs) then count_list (prods_of a c) p else 0)"
    if "p < N" for p c
    using c1(3) c'(3) that Cons.prems(2) by auto
  ultimately show ?case using c'(2) by blast
qed simp

lemma sched_consumers_err:
  assumes wf: "arena_wf a" and N: "N = length (live_ids a)"
  shows "set qs \<subseteq> {..<N} \<Longrightarrow>
    \<exists>q \<in> set qs. \<exists>v \<in> set (node_uses (node_at a q)). pos_get (sched_pos_of a (live_ids a)) (value_slot v) = None \<Longrightarrow>
    sched_consumers a (sched_pos_of a (live_ids a)) (live_ids a) qs cons = Inl ScheduleUnknownNode"
proof (induction qs arbitrary: cons)
  case (Cons q qs)
  let ?pos = "sched_pos_of a (live_ids a)"
  have q: "q < length (live_ids a)" using Cons.prems N by simp
  show ?case
  proof (cases "sched_edges ?pos q (node_uses (node_at a q)) cons")
    case (Inl e)
    with sched_edges_Inl [OF Inl] show ?thesis by (simp add: arena_node_at [OF wf q])
  next
    case (Inr cons1)
    then have "\<not> (\<exists>v \<in> set (node_uses (node_at a q)). pos_get ?pos (value_slot v) = None)"
      using sched_edges_err by fastforce
    with Cons Inr show ?thesis by (auto simp: arena_node_at [OF wf q])
  qed
qed simp

section \<open>Complete behaviour\<close>

lemma pos_rel_uses:
  assumes wf: "arena_wf a" and res: "uses_resolved a"
  shows "(y, x) \<in> uses_rel a \<longleftrightarrow>
    (\<exists>p c. y = live_ids a ! p \<and> x = live_ids a ! c \<and> p < length (live_ids a) \<and> (p, c) \<in> pos_rel (live_ids a) (prods_of a))"
proof
  assume "(y, x) \<in> uses_rel a"
  then obtain n v where n: "(x, n) \<in> set (live_nodes a)" "v \<in> set (node_uses n)"
    "y \<in> set (live_ids a)" "unat (nid_index y) = value_slot v" by (auto simp: uses_rel_def)
  from n(1) obtain c where c: "c < length (live_ids a)" "x = live_ids a ! c" "n = node_at a c"
    by (rule live_node_position)
  obtain p where p: "p < length (live_ids a)" "y = live_ids a ! p" using n(3) by (metis in_set_conv_nth)
  have "pos_get (sched_pos_of a (live_ids a)) (value_slot v) = Some p"
    using p n(4) live_ids_nth_index [OF wf] by (simp add: pos_get_iff [OF wf])
  then have "p \<in> set (prods_of a c)" unfolding prods_of_def set_map
    using n(2) c(3) by (intro image_eqI [of _ _ v]) auto
  with p c show "\<exists>p c. y = live_ids a ! p \<and> x = live_ids a ! c \<and> p < length (live_ids a) \<and>
      (p, c) \<in> pos_rel (live_ids a) (prods_of a)" by (auto simp: pos_rel_def)
next
  assume "\<exists>p c. y = live_ids a ! p \<and> x = live_ids a ! c \<and> p < length (live_ids a) \<and>
      (p, c) \<in> pos_rel (live_ids a) (prods_of a)"
  then obtain p c where pc: "y = live_ids a ! p" "x = live_ids a ! c" "p < length (live_ids a)"
    "c < length (live_ids a)" "p \<in> set (prods_of a c)" by (auto simp: pos_rel_def)
  then obtain v where v: "v \<in> set (node_uses (node_at a c))" "p = the (pos_get (sched_pos_of a (live_ids a)) (value_slot v))"
    by (auto simp: prods_of_def)
  with res pc(4) have "pos_get (sched_pos_of a (live_ids a)) (value_slot v) = Some p"
    unfolding uses_resolved_iff [OF wf] by fastforce
  then have "unat (nid_index y) = value_slot v"
    using pc(1,3) by (simp add: pos_get_iff [OF wf] live_ids_nth_index [OF wf])
  with v(1) pc node_at_live [OF pc(4)] show "(y, x) \<in> uses_rel a" by (auto simp: uses_rel_def)
qed

lemma sched_prepare_ok:
  assumes wf: "arena_wf a" and res: "uses_resolved a"
  obtains ind cons where "sched_prepare a = Inr (live_ids a, ind, cons)"
    "sched_graph (live_ids a) cons (prods_of a)" "sched_inv (live_ids a) (prods_of a) [] (sched_init (live_ids a) ind)"
proof -
  let ?N = "length (live_ids a)"
  obtain ind where ind: "sched_indegree a (live_ids a) = Inr ind" "length ind = ?N"
    "\<forall>c < ?N. unat (ind ! c) = length (prods_of a c)" by (rule sched_indegree_live [OF wf])
  have "set [0 ..< ?N] \<subseteq> {..<?N}" by auto
  from sched_consumers_ok [OF wf res refl this, of "replicate ?N []"] obtain cons where
    c: "sched_consumers a (sched_pos_of a (live_ids a)) (live_ids a) [0 ..< ?N] (replicate ?N []) = Inr cons"
    "length cons = ?N" "\<forall>p < ?N. set (cons ! p) \<subseteq> set [0 ..< ?N] \<union> set (replicate ?N [] ! p) \<and>
     (\<forall>c. count_list (cons ! p) c = count_list (replicate ?N [] ! p) c +
        (if c \<in> set [0 ..< ?N] then count_list (prods_of a c) p else 0))" by auto
  have "set (prods_of a d) \<subseteq> {..<?N}" if "d < ?N" for d
  proof
    fix p assume "p \<in> set (prods_of a d)"
    then obtain v where v: "v \<in> set (node_uses (node_at a d))"
      "p = the (pos_get (sched_pos_of a (live_ids a)) (value_slot v))" by (auto simp: prods_of_def)
    with res that have "pos_get (sched_pos_of a (live_ids a)) (value_slot v) = Some p"
      unfolding uses_resolved_iff [OF wf] by fastforce
    then show "p \<in> {..<?N}" by (simp add: pos_get_iff [OF wf])
  qed
  with c have g: "sched_graph (live_ids a) cons (prods_of a)"
    by (simp add: sched_graph_def atLeast0LessThan)
  have i: "sched_inv (live_ids a) (prods_of a) [] (sched_init (live_ids a) ind)"
    using ind by (intro sched_init_inv) simp_all
  have "sched_prepare a = Inr (live_ids a, ind, cons)"
    using ind(1) c(1) by (simp add: sched_prepare_def)
  with g i that show thesis by blast
qed

lemma sched_prepare_err:
  assumes wf: "arena_wf a" and res: "\<not> uses_resolved a"
  shows "sched_prepare a = Inl ScheduleUnknownNode"
proof -
  let ?N = "length (live_ids a)"
  obtain ind where ind: "sched_indegree a (live_ids a) = Inr ind" by (rule sched_indegree_live [OF wf])
  have "sched_consumers a (sched_pos_of a (live_ids a)) (live_ids a) [0 ..< ?N] cs = Inl ScheduleUnknownNode" for cs
    using res unfolding uses_resolved_iff [OF wf] by (intro sched_consumers_err [OF wf refl]) auto
  with ind show ?thesis by (simp add: sched_prepare_def)
qed

text \<open>The specification both schedulers meet.\<close>

definition schedule_spec :: "arena \<Rightarrow> schedule_error + node_id list \<Rightarrow> bool" where
  "schedule_spec a r \<longleftrightarrow>
     (case r of
        Inr order \<Rightarrow> uses_resolved a \<and> acyclic (uses_rel a) \<and> topo_order a order
      | Inl Cycle \<Rightarrow> uses_resolved a \<and> \<not> acyclic (uses_rel a)
      | Inl ScheduleUnknownNode \<Rightarrow> \<not> uses_resolved a)"

lemma finite_uses_rel: "finite (uses_rel a)"
proof (rule finite_subset)
  show "uses_rel a \<subseteq> set (live_ids a) \<times> set (live_ids a)" by (force simp: uses_rel_def live_ids_def)
qed simp

lemma sched_outcome_spec:
  assumes wf: "arena_wf a" and res: "uses_resolved a" and out: "sched_outcome (live_ids a) (prods_of a) r"
  shows "schedule_spec a r"
proof (cases r)
  case (Inl e)
  have "\<not> acyclic (uses_rel a)"
  proof
    assume "acyclic (uses_rel a)"
    then have "wf (inv_image (uses_rel a) ((!) (live_ids a)))"
      by (intro wf_inv_image finite_acyclic_wf finite_uses_rel)
    moreover have "pos_rel (live_ids a) (prods_of a) \<inter> {..<length (live_ids a)} \<times> UNIV \<subseteq> inv_image (uses_rel a) ((!) (live_ids a))"
    proof
      fix e assume "e \<in> pos_rel (live_ids a) (prods_of a) \<inter> {..<length (live_ids a)} \<times> UNIV"
      then obtain p c where "e = (p, c)" "p < length (live_ids a)" "(p, c) \<in> pos_rel (live_ids a) (prods_of a)"
        by (cases e) simp
      then show "e \<in> inv_image (uses_rel a) ((!) (live_ids a))"
        unfolding in_inv_image \<open>e = (p, c)\<close> pos_rel_uses [OF wf res] by blast
    qed
    moreover have "pos_rel (live_ids a) (prods_of a) \<subseteq> {..<length (live_ids a)} \<times> UNIV"
      using sched_prepare_ok [OF wf res] unfolding sched_graph_def pos_rel_def by blast
    ultimately have "acyclic (pos_rel (live_ids a) (prods_of a))"
      by (metis inf.absorb_iff1 wf_acyclic wf_subset)
    with out Inl show False by (simp add: sched_outcome_def)
  qed
  with out Inl res show ?thesis by (simp add: schedule_spec_def sched_outcome_def)
next
  case (Inr order)
  let ?ids = "live_ids a"
  have d: "distinct ?ids" by (rule distinct_live_ids [OF wf])
  from out Inr obtain ps where ps: "order = map ((!) ?ids) ps" "distinct ps" "set ps = {..<length ?ids}"
    "\<forall>k < length ps. set (prods_of a (ps ! k)) \<subseteq> set (take k ps)"
    by (auto simp: sched_outcome_def sched_result_def)
  have "set order = set ?ids"
    using ps(1,3) nth_image [of "length ?ids" ?ids] by (simp add: atLeast0LessThan)
  moreover have "distinct order" using ps(1-3) d by (auto simp: distinct_map inj_on_def nth_eq_iff_index_eq)
  moreover have "y \<in> set (take k order)" if k: "k < length order" "(y, order ! k) \<in> uses_rel a" for k y
  proof -
    from k(2) pos_rel_uses [OF wf res] obtain p c where pc: "y = ?ids ! p" "order ! k = ?ids ! c"
      "p < length ?ids" "c < length ?ids" "p \<in> set (prods_of a c)" by (auto simp: pos_rel_def)
    have "ps ! k < length ?ids" using ps(1,3) k(1) by (metis length_map lessThan_iff nth_mem)
    then have "c = ps ! k" using pc(2,4) ps(1) k(1) d by (simp add: nth_eq_iff_index_eq)
    with ps(1,4) k(1) pc(5) have "p \<in> set (take k ps)" by auto
    with ps(1) pc(1) show ?thesis by (simp add: take_map)
  qed
  ultimately have topo: "topo_order a order" by (simp add: topo_order_def)
  have "acyclic (pos_rel ?ids (prods_of a))" using out Inr result_acyclic by (auto simp: sched_outcome_def)
  moreover have "finite (pos_rel ?ids (prods_of a))"
  proof (rule finite_subset)
    show "pos_rel ?ids (prods_of a) \<subseteq> {..<length ?ids} \<times> {..<length ?ids}"
      using sched_prepare_ok [OF wf res] unfolding sched_graph_def pos_rel_def by blast
  qed simp
  ultimately have "wf (pos_rel ?ids (prods_of a))" by (auto intro: finite_acyclic_wf)
  then have "wf (inv_image (pos_rel ?ids (prods_of a)) (\<lambda>x. THE p. p < length ?ids \<and> ?ids ! p = x))" (is "wf ?R")
    by (rule wf_inv_image)
  moreover have "uses_rel a \<subseteq> ?R"
  proof
    have the: "(THE q. q < length ?ids \<and> ?ids ! q = ?ids ! p) = p" if "p < length ?ids" for p
      using that d by (intro the_equality) (auto simp: nth_eq_iff_index_eq)
    fix e assume "e \<in> uses_rel a"
    then obtain p c where "e = (?ids ! p, ?ids ! c)" "p < length ?ids" "(p, c) \<in> pos_rel ?ids (prods_of a)"
      using pos_rel_uses [OF wf res] by (cases e) auto
    then show "e \<in> ?R" using the by (auto simp: pos_rel_def)
  qed
  ultimately have "acyclic (uses_rel a)" by (metis wf_acyclic wf_subset)
  with topo res Inr show ?thesis by (simp add: schedule_spec_def)
qed

lemma schedule_ok:
  assumes "arena_inv a" shows "schedule_spec a (schedule a)"
proof (cases "uses_resolved a")
  case True
  note wf = arena_inv_wf [OF assms]
  obtain ind cons where p: "sched_prepare a = Inr (live_ids a, ind, cons)"
    "sched_graph (live_ids a) cons (prods_of a)" "sched_inv (live_ids a) (prods_of a) [] (sched_init (live_ids a) ind)"
    by (rule sched_prepare_ok [OF wf True])
  show ?thesis using sched_outcome_spec [OF wf True sched_loop_outcome [OF p(2,3)]] p(1)
    by (simp add: schedule_def)
next
  case False
  then show ?thesis by (simp add: schedule_def sched_prepare_err [OF arena_inv_wf [OF assms]] schedule_spec_def)
qed

lemma schedule_fused_ok:
  assumes "arena_inv a" shows "schedule_spec a (schedule_fused a cluster_of)"
proof (cases "uses_resolved a")
  case True
  note wf = arena_inv_wf [OF assms]
  obtain ind cons where p: "sched_prepare a = Inr (live_ids a, ind, cons)"
    "sched_graph (live_ids a) cons (prods_of a)" "sched_inv (live_ids a) (prods_of a) [] (sched_init (live_ids a) ind)"
    by (rule sched_prepare_ok [OF wf True])
  show ?thesis
    using sched_outcome_spec [OF wf True fused_loop_outcome [OF p(2,3), of "map cluster_of (live_ids a)" None]] p(1)
    by (simp add: schedule_fused_def)
next
  case False
  then show ?thesis by (simp add: schedule_fused_def sched_prepare_err [OF arena_inv_wf [OF assms]] schedule_spec_def)
qed

text \<open>
  C12: \<^verbatim>\<open>schedule\<close> decides schedulability exactly. It returns \<^verbatim>\<open>UnknownNode\<close> exactly when some live node
  uses a slot that holds no live node, \<^verbatim>\<open>Cycle\<close> exactly when all uses resolve and the use graph has a
  cycle, and otherwise an order in which every live node occurs once, after all the nodes it uses.
\<close>

theorem schedule_correct:
  assumes "arena_inv a" shows "schedule_spec a (schedule a)"
  using assms by (rule schedule_ok)

theorem schedule_correct_witness: "schedule_spec demo_arena (Inr (live_ids demo_arena))"
proof -
  have "schedule demo_arena = Inr (live_ids demo_arena)" by code_simp
  then show ?thesis using schedule_correct [OF demo_arena_inv] by simp
qed

text \<open>
  C13: \<^verbatim>\<open>schedule_fused\<close> meets the same specification for every assignment of clusters: grouping nodes
  by cluster never costs correctness or completeness.
\<close>

theorem schedule_fused_correct:
  assumes "arena_inv a" shows "schedule_spec a (schedule_fused a cluster_of)"
  using assms by (rule schedule_fused_ok)

theorem schedule_fused_correct_witness: "schedule_spec demo_arena (schedule_fused demo_arena (\<lambda>_. Some 1))"
  using schedule_fused_correct [OF demo_arena_inv] .

end
