(* ===== verification/Spsc.thy ===== *)
theory Spsc
  imports SXLA_Prelude
begin

text \<open>
  The bounded single-producer single-consumer ring, \<^verbatim>\<open>crates/anvil/src/spsc.rs\<close>. Head and tail are
  free-running 64-bit counters that wrap; a slot is a counter masked by the capacity minus one. A
  slot of the buffer is \<^verbatim>\<open>MaybeUninit\<close>: \<open>None\<close> until it is first written. Reading leaves the memory as
  it is.
\<close>

unbundle bit_operations_syntax

section \<open>Model\<close>

datatype queue_error = Full | Empty

record 'a ring =
  sq_head :: u64
  sq_tail :: u64
  sq_buffer :: "'a option list"
  sq_mask :: u64

definition ring_new :: "nat \<Rightarrow> 'a ring" where
  "ring_new capacity =
     \<lparr>sq_head = 0, sq_tail = 0, sq_buffer = replicate capacity None, sq_mask = word_of_nat capacity - 1\<rparr>"

definition ring_slot :: "'a ring \<Rightarrow> u64 \<Rightarrow> nat" where
  "ring_slot r c = unat (c AND sq_mask r)"

definition ring_push :: "'a ring \<Rightarrow> 'a \<Rightarrow> (queue_error + unit) \<times> 'a ring" where
  "ring_push r v =
     (let t = sq_tail r; h = sq_head r in
      if t - h > sq_mask r then (Inl Full, r)
      else (Inr (), r\<lparr>sq_buffer := (sq_buffer r)[ring_slot r t := Some v], sq_tail := t + 1\<rparr>))"

definition ring_pop :: "'a ring \<Rightarrow> (queue_error + 'a) \<times> 'a ring" where
  "ring_pop r =
     (let t = sq_tail r; h = sq_head r in
      if h = t then (Inl Empty, r)
      else (Inr (the (sq_buffer r ! ring_slot r h)), r\<lparr>sq_head := h + 1\<rparr>))"

text \<open>\<^verbatim>\<open>pop_batch\<close>: the number of values, the destination slice after the copy, the ring.\<close>

definition ring_pop_batch :: "'a ring \<Rightarrow> 'a list \<Rightarrow> nat \<times> 'a list \<times> 'a ring" where
  "ring_pop_batch r dst =
     (let t = sq_tail r; h = sq_head r; available = t - h in
      if available = 0 \<or> dst = [] then (0, dst, r)
      else
        let n = min (unat available) (length dst);
            vals = map (\<lambda>i. the (sq_buffer r ! ring_slot r (h + word_of_nat i))) [0 ..< n]
        in (n, vals @ drop n dst, r\<lparr>sq_head := h + word_of_nat n\<rparr>))"

definition ring_len :: "'a ring \<Rightarrow> u64" where
  "ring_len r = sq_tail r - sq_head r"

definition ring_is_empty :: "'a ring \<Rightarrow> bool" where
  "ring_is_empty r \<longleftrightarrow> ring_len r = 0"

text \<open>The values \<^verbatim>\<open>drop\<close> reads out, from head to tail: the loop runs while its counter differs from the tail.\<close>

function ring_drop_loop :: "'a ring \<Rightarrow> u64 \<Rightarrow> 'a option list" where
  "ring_drop_loop r i =
     (if i \<noteq> sq_tail r then sq_buffer r ! ring_slot r i # ring_drop_loop r (i + 1) else [])"
  by auto
termination
proof (relation "measure (\<lambda>(r, i). unat (sq_tail r - i))")
  fix r :: "'a ring" and i :: u64 assume "i \<noteq> sq_tail r"
  then have "0 < unat (sq_tail r - i)" by (metis eq_iff_diff_eq_0 unat_gt_0)
  then have "unat (sq_tail r - i - 1) < unat (sq_tail r - i)" by (simp add: unat_gt_0 unat_minus_one)
  then show "((r, i + 1), r, i) \<in> measure (\<lambda>(r, i). unat (sq_tail r - i))" by (simp add: algebra_simps)
qed simp

declare ring_drop_loop.simps [simp del]

definition ring_drop :: "'a ring \<Rightarrow> 'a option list" where
  "ring_drop r = ring_drop_loop r (sq_head r)"

section \<open>Masked counters\<close>

lemma unat_and_mask:
  fixes x :: u64 assumes "k < 64" shows "unat (x AND (2 ^ k - 1)) = unat x mod 2 ^ k"
proof -
  have "x AND (2 ^ k - 1) = take_bit k x" by (simp add: take_bit_eq_mask mask_eq_exp_minus_1)
  moreover have "unat (take_bit k x) = take_bit k (unat x)" by (rule unsigned_take_bit_eq)
  ultimately show ?thesis by (simp only: take_bit_eq_mod [of k "unat x"])
qed

lemma unat_add_mod:
  fixes x :: u64 assumes "k \<le> 64" shows "unat (x + word_of_nat i) mod 2 ^ k = (unat x + i) mod 2 ^ k"
proof -
  have "(2 :: nat) ^ k dvd 2 ^ 64" using assms by (rule le_imp_power_dvd)
  then show ?thesis by (simp add: unat_word_ariths unat_of_nat mod_mod_cancel mod_add_right_eq)
qed

text \<open>A ring of capacity \<open>2 ^ k\<close> whose occupied slots are initialised.\<close>

definition ring_shape :: "'a ring \<Rightarrow> nat \<Rightarrow> bool" where
  "ring_shape r k \<longleftrightarrow> k < 64 \<and> length (sq_buffer r) = 2 ^ k \<and> sq_mask r = 2 ^ k - 1"

definition ring_wf :: "'a ring \<Rightarrow> bool" where
  "ring_wf r \<longleftrightarrow> (\<exists>k. ring_shape r k \<and> unat (ring_len r) \<le> 2 ^ k \<and>
     (\<forall>i < unat (ring_len r). sq_buffer r ! ring_slot r (sq_head r + word_of_nat i) \<noteq> None))"

definition ring_items :: "'a ring \<Rightarrow> 'a list" where
  "ring_items r = map (\<lambda>i. the (sq_buffer r ! ring_slot r (sq_head r + word_of_nat i))) [0 ..< unat (ring_len r)]"

definition ring_cap :: "'a ring \<Rightarrow> nat" where
  "ring_cap r = length (sq_buffer r)"

lemma length_ring_items [simp]: "length (ring_items r) = unat (ring_len r)"
  by (simp add: ring_items_def)

lemma ring_slot_eq:
  assumes "ring_shape r k" shows "ring_slot r (x + word_of_nat i) = (unat x + i) mod 2 ^ k"
  using assms unat_and_mask [of k] unat_add_mod [of k x i] by (simp add: ring_slot_def ring_shape_def)

lemma ring_slot_lt: "ring_shape r k \<Longrightarrow> ring_slot r x < length (sq_buffer r)"
  using ring_slot_eq [of r k x 0] by (simp add: ring_shape_def)

lemma ring_slot_inj:
  assumes "ring_shape r k" "ring_slot r (x + word_of_nat i) = ring_slot r (x + word_of_nat j)"
    "i < j + 2 ^ k" "j < i + 2 ^ k"
  shows "i = j"
proof -
  have "(unat x + i) mod 2 ^ k = (unat x + j) mod 2 ^ k" using assms(1,2) by (simp add: ring_slot_eq)
  then have "int ((unat x + i) mod 2 ^ k) = int ((unat x + j) mod 2 ^ k)" by simp
  then have "(int (unat x) + int i) mod 2 ^ k = (int (unat x) + int j) mod 2 ^ k" by (simp add: zmod_int)
  then have "(2 :: int) ^ k dvd int i - int j" by (simp add: mod_eq_dvd_iff)
  moreover have "\<bar>int i - int j\<bar> < 2 ^ k"
  proof -
    have "int i < int (j + 2 ^ k)" "int j < int (i + 2 ^ k)" using assms(3,4) by (simp_all only: of_nat_less_iff)
    then show ?thesis by simp
  qed
  ultimately have "int i - int j = 0" using dvd_imp_le_int [of "int i - int j" "2 ^ k"] by fastforce
  then show ?thesis by simp
qed

section \<open>Refinement to a bounded queue\<close>

lemma unat_ring_mask:
  assumes "ring_shape r k" shows "unat (sq_mask r) = 2 ^ k - 1"
proof -
  have "(2 :: nat) ^ k \<le> 2 ^ 63" using assms by (intro power_increasing) (auto simp: ring_shape_def)
  then have "unat (word_of_nat (2 ^ k - 1) :: u64) = 2 ^ k - 1" by (intro unat_of_nat_small) simp
  moreover have "(word_of_nat (2 ^ k - 1) :: u64) = 2 ^ k - 1" by (simp add: of_nat_diff)
  ultimately show ?thesis using assms by (simp add: ring_shape_def)
qed

lemma ring_len_push:
  assumes "ring_shape r k" "\<not> ring_len r > sq_mask r"
  shows "unat (sq_tail r + 1 - sq_head r) = Suc (unat (ring_len r))"
proof -
  have "(2 :: nat) ^ k \<le> 2 ^ 63" using assms by (intro power_increasing) (auto simp: ring_shape_def)
  then have "unat (ring_len r) + 1 < 2 ^ 64"
    using assms(2) unat_ring_mask [OF assms(1)] by (simp add: word_less_nat_alt)
  then have "unat (ring_len r + 1) = unat (ring_len r) + 1" by (simp add: unat_word_ariths)
  then show ?thesis by (simp add: ring_len_def algebra_simps)
qed

lemma ring_push_items:
  assumes wf: "ring_wf r" and room: "\<not> sq_tail r - sq_head r > sq_mask r"
  shows "ring_wf (snd (ring_push r v))" "ring_items (snd (ring_push r v)) = ring_items r @ [v]"
proof -
  from wf obtain k where k: "ring_shape r k" "unat (ring_len r) \<le> 2 ^ k"
    "\<forall>i < unat (ring_len r). sq_buffer r ! ring_slot r (sq_head r + word_of_nat i) \<noteq> None"
    by (auto simp: ring_wf_def)
  let ?r = "snd (ring_push r v)" and ?n = "unat (ring_len r)"
  have b: "sq_buffer ?r = (sq_buffer r)[ring_slot r (sq_tail r) := Some v]" "sq_head ?r = sq_head r"
    "sq_tail ?r = sq_tail r + 1" "sq_mask ?r = sq_mask r" "ring_slot ?r = ring_slot r"
    using room by (auto simp: ring_push_def Let_def ring_slot_def fun_eq_iff)
  have shape: "ring_shape ?r k" using k(1) b by (simp add: ring_shape_def)
  have len: "unat (ring_len ?r) = Suc ?n"
    using ring_len_push [OF k(1)] room b by (simp add: ring_len_def)
  have lt: "?n < 2 ^ k"
  proof -
    have "?n \<le> 2 ^ k - 1" using room unat_ring_mask [OF k(1)] by (simp add: ring_len_def word_less_nat_alt not_less)
    moreover have "0 < (2 :: nat) ^ k" by simp
    ultimately show ?thesis by linarith
  qed
  have tail: "sq_head r + ring_len r = sq_tail r" by (simp add: ring_len_def)
  have rd: "sq_buffer ?r ! ring_slot r (sq_head r + word_of_nat i) =
      (if i = ?n then Some v else sq_buffer r ! ring_slot r (sq_head r + word_of_nat i))" if "i \<le> ?n" for i
  proof (cases "i = ?n")
    case True
    then show ?thesis using ring_slot_lt [OF k(1)] by (simp add: b tail)
  next
    case False
    then have "ring_slot r (sq_head r + word_of_nat i) \<noteq> ring_slot r (sq_head r + word_of_nat ?n)"
      using ring_slot_inj [OF k(1), of "sq_head r" i ?n] that lt by auto
    with False show ?thesis by (simp add: b tail)
  qed
  show "ring_wf ?r" unfolding ring_wf_def
  proof (intro exI conjI allI impI)
    show "ring_shape ?r k" by (rule shape)
    show "unat (ring_len ?r) \<le> 2 ^ k" using len lt by simp
    fix i assume "i < unat (ring_len ?r)"
    then have "i \<le> ?n" using len by simp
    with rd [of i] k(3) show "sq_buffer ?r ! ring_slot ?r (sq_head ?r + word_of_nat i) \<noteq> None" by (simp add: b(2,5))
  qed
  show "ring_items ?r = ring_items r @ [v]"
    unfolding ring_items_def len b(2,5) using rd rd [of ?n] by simp
qed

lemma ring_advance:
  assumes wf: "ring_wf r" and n: "n \<le> unat (ring_len r)"
  shows "ring_wf (r\<lparr>sq_head := sq_head r + word_of_nat n\<rparr>)"
    "ring_items (r\<lparr>sq_head := sq_head r + word_of_nat n\<rparr>) = drop n (ring_items r)"
proof -
  from wf obtain k where k: "ring_shape r k" "unat (ring_len r) \<le> 2 ^ k"
    "\<forall>i < unat (ring_len r). sq_buffer r ! ring_slot r (sq_head r + word_of_nat i) \<noteq> None"
    by (auto simp: ring_wf_def)
  let ?r = "r\<lparr>sq_head := sq_head r + word_of_nat n\<rparr>"
  have un: "unat (word_of_nat n :: u64) = n" using n by (metis le_unat_uoi)
  have len: "unat (ring_len ?r) = unat (ring_len r) - n"
  proof -
    have "ring_len ?r = ring_len r - word_of_nat n" by (simp add: ring_len_def algebra_simps)
    then show ?thesis using n un by (simp add: unat_sub word_le_nat_alt)
  qed
  have sl: "ring_slot ?r = ring_slot r" by (simp add: ring_slot_def fun_eq_iff)
  have sh: "sq_head r + word_of_nat n + word_of_nat i = sq_head r + word_of_nat (n + i)" for i by simp
  show "ring_wf ?r" unfolding ring_wf_def
  proof (intro exI conjI allI impI)
    show "ring_shape ?r k" using k(1) by (simp add: ring_shape_def)
    show "unat (ring_len ?r) \<le> 2 ^ k" using len k(2) by simp
    fix i assume "i < unat (ring_len ?r)"
    then have "n + i < unat (ring_len r)" using len by simp
    with k(3) show "sq_buffer ?r ! ring_slot ?r (sq_head ?r + word_of_nat i) \<noteq> None" by (simp add: sl sh del: of_nat_add)
  qed
  show "ring_items ?r = drop n (ring_items r)"
  proof (rule nth_equalityI)
    fix i assume "i < length (ring_items ?r)"
    then have "i < unat (ring_len r) - n" using len by simp
    then have "n + i < unat (ring_len r)" by linarith
    then have "ring_items r ! (n + i) = the (sq_buffer r ! ring_slot r (sq_head r + word_of_nat (n + i)))"
      by (simp add: ring_items_def del: of_nat_add)
    with \<open>i < unat (ring_len r) - n\<close> show "ring_items ?r ! i = drop n (ring_items r) ! i"
      using len n by (simp add: ring_items_def [of ?r] sl sh del: of_nat_add)
  qed (simp add: len)
qed

section \<open>The queue interface\<close>

text \<open>
  A bounded queue as its clients (telemetry bus, compile boundary) rely on it: accepted values come
  out once, in order, and nothing else does; a push is refused exactly when the queue is full.
\<close>

locale bounded_fifo =
  fixes inv :: "'q \<Rightarrow> bool" and items :: "'q \<Rightarrow> 'a list" and cap :: "'q \<Rightarrow> nat"
    and push :: "'q \<Rightarrow> 'a \<Rightarrow> (queue_error + unit) \<times> 'q" and pop :: "'q \<Rightarrow> (queue_error + 'a) \<times> 'q"
    and batch :: "'q \<Rightarrow> 'a list \<Rightarrow> nat \<times> 'a list \<times> 'q"
  assumes push_full: "inv q \<Longrightarrow> length (items q) \<ge> cap q \<Longrightarrow> push q v = (Inl Full, q)"
    and push_room: "inv q \<Longrightarrow> length (items q) < cap q \<Longrightarrow>
      \<exists>q'. push q v = (Inr (), q') \<and> inv q' \<and> items q' = items q @ [v] \<and> cap q' = cap q"
    and pop_none: "inv q \<Longrightarrow> items q = [] \<Longrightarrow> pop q = (Inl Empty, q)"
    and pop_some: "inv q \<Longrightarrow> items q = v # vs \<Longrightarrow>
      \<exists>q'. pop q = (Inr v, q') \<and> inv q' \<and> items q' = vs \<and> cap q' = cap q"
    and batch_some: "inv q \<Longrightarrow> \<exists>q' n. n = min (length (items q)) (length dst) \<and>
      batch q dst = (n, take n (items q) @ drop n dst, q') \<and> inv q' \<and> items q' = drop n (items q) \<and> cap q' = cap q"
begin

text \<open>A history of pushes (with the value) and pops; what was accepted and what came out.\<close>

fun run :: "'q \<Rightarrow> 'a option list \<Rightarrow> 'a list \<times> 'a list \<times> 'q" where
  "run q [] = ([], [], q)"
| "run q (Some v # ops) =
     (case push q v of
        (Inr _, q') \<Rightarrow> (case run q' ops of (acc, out, q'') \<Rightarrow> (v # acc, out, q''))
      | (Inl _, q') \<Rightarrow> run q' ops)"
| "run q (None # ops) =
     (case pop q of
        (Inr v, q') \<Rightarrow> (case run q' ops of (acc, out, q'') \<Rightarrow> (acc, v # out, q''))
      | (Inl _, q') \<Rightarrow> run q' ops)"

lemma run_fifo:
  "inv q \<Longrightarrow> run q ops = (acc, out, q') \<Longrightarrow> inv q' \<and> items q @ acc = out @ items q'"
proof (induction ops arbitrary: q acc out)
  case (Cons p ops)
  show ?case
  proof (cases p)
    case (Some v)
    show ?thesis
    proof (cases "length (items q) < cap q")
      case True
      then obtain q1 where q1: "push q v = (Inr (), q1)" "inv q1" "items q1 = items q @ [v]"
        using push_room [OF Cons.prems(1)] by blast
      then obtain acc' where "run q1 ops = (acc', out, q')" "acc = v # acc'"
        using Cons.prems(2) Some by (auto split: prod.splits)
      with Cons.IH [OF q1(2)] q1(3) show ?thesis by auto
    next
      case False
      with Cons Some show ?thesis by (simp add: push_full)
    qed
  next
    case None
    show ?thesis
    proof (cases "items q")
      case Nil
      with Cons.IH [OF Cons.prems(1), of acc out] Cons.prems None show ?thesis by (simp add: pop_none)
    next
      case (Cons v vs)
      then obtain q1 where q1: "pop q = (Inr v, q1)" "inv q1" "items q1 = vs"
        using pop_some [OF \<open>inv q\<close>] by blast
      then obtain out' where "run q1 ops = (acc, out', q')" "out = v # out'"
        using \<open>run q (p # ops) = (acc, out, q')\<close> None by (auto split: prod.splits)
      with Cons.IH [OF q1(2)] q1(3) Cons show ?thesis by auto
    qed
  qed
qed simp

end

lemma ring_full_iff:
  assumes "ring_wf r"
  shows "sq_tail r - sq_head r > sq_mask r \<longleftrightarrow> length (ring_items r) \<ge> ring_cap r"
proof -
  from assms obtain k where k: "ring_shape r k" by (auto simp: ring_wf_def)
  then have "ring_cap r = 2 ^ k" "unat (sq_mask r) = 2 ^ k - 1"
    using unat_ring_mask [OF k] by (simp_all add: ring_cap_def ring_shape_def)
  moreover have "0 < (2 :: nat) ^ k" by simp
  ultimately show ?thesis unfolding word_less_nat_alt length_ring_items ring_len_def by linarith
qed

lemma ring_cap_push [simp]: "ring_cap (snd (ring_push r v)) = ring_cap r"
  by (simp add: ring_push_def ring_cap_def Let_def)

interpretation spsc: bounded_fifo ring_wf ring_items ring_cap ring_push ring_pop ring_pop_batch
proof
  fix q :: "'a ring" and v and vs dst :: "'a list"
  assume wf: "ring_wf q"
  show "ring_cap q \<le> length (ring_items q) \<Longrightarrow> ring_push q v = (Inl Full, q)"
    using ring_full_iff [OF wf] by (simp add: ring_push_def Let_def)
  show "\<exists>q'. ring_push q v = (Inr (), q') \<and> ring_wf q' \<and> ring_items q' = ring_items q @ [v] \<and> ring_cap q' = ring_cap q"
    if "length (ring_items q) < ring_cap q"
  proof -
    have room: "\<not> sq_tail q - sq_head q > sq_mask q" using that ring_full_iff [OF wf] by simp
    then have "fst (ring_push q v) = Inr ()" by (simp add: ring_push_def Let_def)
    with ring_push_items [OF wf room, of v] ring_cap_push [of q v] show ?thesis by (metis prod.collapse)
  qed
  have empty: "sq_head q = sq_tail q \<longleftrightarrow> ring_items q = []"
    by (auto simp: ring_items_def ring_len_def unat_eq_0)
  show "ring_items q = [] \<Longrightarrow> ring_pop q = (Inl Empty, q)" using empty by (simp add: ring_pop_def Let_def)
  show "\<exists>q'. ring_pop q = (Inr v, q') \<and> ring_wf q' \<and> ring_items q' = vs \<and> ring_cap q' = ring_cap q"
    if items: "ring_items q = v # vs"
  proof -
    have n: "1 \<le> unat (ring_len q)" using arg_cong [OF items, of length] by simp
    have "the (sq_buffer q ! ring_slot q (sq_head q)) = ring_items q ! 0" using n by (simp add: ring_items_def)
    then have "ring_pop q = (Inr v, q\<lparr>sq_head := sq_head q + word_of_nat 1\<rparr>)"
      using empty items by (simp add: ring_pop_def Let_def)
    with ring_advance [OF wf n] items show ?thesis by (simp add: ring_cap_def)
  qed
  show "\<exists>q' n. n = min (length (ring_items q)) (length dst) \<and>
      ring_pop_batch q dst = (n, take n (ring_items q) @ drop n dst, q') \<and> ring_wf q' \<and>
      ring_items q' = drop n (ring_items q) \<and> ring_cap q' = ring_cap q"
  proof (cases "ring_len q = 0 \<or> dst = []")
    case True
    then have "min (length (ring_items q)) (length dst) = 0" by auto
    with True wf show ?thesis by (auto simp: ring_pop_batch_def Let_def ring_len_def)
  next
    case False
    let ?n = "min (length (ring_items q)) (length dst)"
    have n: "?n \<le> unat (ring_len q)" by simp
    have "map (\<lambda>i. the (sq_buffer q ! ring_slot q (sq_head q + word_of_nat i))) [0 ..< ?n] = take ?n (ring_items q)"
      by (simp add: ring_items_def take_map)
    then have "ring_pop_batch q dst =
        (?n, take ?n (ring_items q) @ drop ?n dst, q\<lparr>sq_head := sq_head q + word_of_nat ?n\<rparr>)"
      using False by (simp add: ring_pop_batch_def Let_def ring_len_def)
    with ring_advance [OF wf n] show ?thesis by (auto simp: ring_cap_def)
  qed
qed

lemma ring_new_wf: "k < 64 \<Longrightarrow> ring_wf (ring_new (2 ^ k))"
  unfolding ring_wf_def by (rule exI [of _ k]) (simp add: ring_shape_def ring_new_def ring_len_def)

lemma ring_new_items [simp]: "ring_items (ring_new n) = []" "ring_cap (ring_new n) = n"
  by (simp_all add: ring_items_def ring_new_def ring_len_def ring_cap_def)

lemma ring_drop_loop_items:
  "unat (sq_tail r - i) = n \<Longrightarrow>
     ring_drop_loop r i = map (\<lambda>j. sq_buffer r ! ring_slot r (i + word_of_nat j)) [0 ..< n]"
proof (induction n arbitrary: i)
  case 0
  then have "i = sq_tail r" by (metis eq_iff_diff_eq_0 unat_eq_0)
  then show ?case by (subst ring_drop_loop.simps) simp
next
  case (Suc n)
  then have ne: "i \<noteq> sq_tail r" by auto
  have "sq_tail r - i \<noteq> 0" using Suc.prems by (metis nat.distinct(1) unat_0)
  then have "unat (sq_tail r - i - 1) = n" using Suc.prems by (simp add: unat_minus_one)
  then have "unat (sq_tail r - (i + 1)) = n" by (simp add: algebra_simps)
  from Suc.IH [OF this] ne show ?case
    by (simp add: ring_drop_loop.simps [of r i] upt_conv_Cons map_Suc_upt [symmetric] algebra_simps del: upt_Suc)
qed

lemma ring_drop_items:
  assumes "ring_wf r" shows "ring_drop r = map Some (ring_items r)"
  using assms ring_drop_loop_items [of r "sq_head r" "unat (ring_len r)"]
  by (auto simp: ring_drop_def ring_wf_def ring_items_def ring_len_def)



end
