(* ===== verification/Spsc_Conc.thy ===== *)
theory Spsc_Conc
  imports Spsc
begin

text \<open>
  The ring under concurrency: one producer in \<^verbatim>\<open>SpscRing::push\<close> and one consumer in \<^verbatim>\<open>SpscRing::pop\<close>,
  interleaved at their atomic loads and stores and at the buffer accesses between them. The histories
  record the values whose tail store has happened and the values whose head store has happened.
  Accesses are sequentially consistent; the release stores and acquire loads of the source order the
  buffer accesses of the two sides.
\<close>

datatype 'a producer =
    P_idle
  | P_tail u64 'a        \<comment> \<open>tail loaded (line 123)\<close>
  | P_room u64 'a        \<comment> \<open>head loaded, room found (line 126)\<close>
  | P_written u64 'a     \<comment> \<open>slot written (line 138)\<close>

datatype 'a consumer =
    C_idle
  | C_tail u64           \<comment> \<open>tail loaded (line 154)\<close>
  | C_item u64           \<comment> \<open>head loaded, not empty (line 156)\<close>
  | C_read u64 "'a option"  \<comment> \<open>slot read (line 166)\<close>

record 'a conc =
  cc_ring :: "'a ring"
  cc_prod :: "'a producer"
  cc_cons :: "'a consumer"
  cc_pushed :: "'a list"
  cc_popped :: "'a option list"

inductive spsc_step :: "'a conc \<Rightarrow> 'a conc \<Rightarrow> bool" where
  push_load: "cc_prod s = P_idle \<Longrightarrow> spsc_step s (s\<lparr>cc_prod := P_tail (sq_tail (cc_ring s)) v\<rparr>)"
| push_full: "cc_prod s = P_tail t v \<Longrightarrow> t - sq_head (cc_ring s) > sq_mask (cc_ring s) \<Longrightarrow>
    spsc_step s (s\<lparr>cc_prod := P_idle\<rparr>)"
| push_room: "cc_prod s = P_tail t v \<Longrightarrow> \<not> t - sq_head (cc_ring s) > sq_mask (cc_ring s) \<Longrightarrow>
    spsc_step s (s\<lparr>cc_prod := P_room t v\<rparr>)"
| push_write: "cc_prod s = P_room t v \<Longrightarrow>
    spsc_step s (s\<lparr>cc_prod := P_written t v,
      cc_ring := (cc_ring s)\<lparr>sq_buffer := (sq_buffer (cc_ring s))[ring_slot (cc_ring s) t := Some v]\<rparr>\<rparr>)"
| push_store: "cc_prod s = P_written t v \<Longrightarrow>
    spsc_step s (s\<lparr>cc_prod := P_idle, cc_ring := (cc_ring s)\<lparr>sq_tail := t + 1\<rparr>, cc_pushed := cc_pushed s @ [v]\<rparr>)"
| pop_load: "cc_cons s = C_idle \<Longrightarrow> spsc_step s (s\<lparr>cc_cons := C_tail (sq_tail (cc_ring s))\<rparr>)"
| pop_empty: "cc_cons s = C_tail t \<Longrightarrow> sq_head (cc_ring s) = t \<Longrightarrow> spsc_step s (s\<lparr>cc_cons := C_idle\<rparr>)"
| pop_item: "cc_cons s = C_tail t \<Longrightarrow> sq_head (cc_ring s) \<noteq> t \<Longrightarrow>
    spsc_step s (s\<lparr>cc_cons := C_item (sq_head (cc_ring s))\<rparr>)"
| pop_read: "cc_cons s = C_item h \<Longrightarrow>
    spsc_step s (s\<lparr>cc_cons := C_read h (sq_buffer (cc_ring s) ! ring_slot (cc_ring s) h)\<rparr>)"
| pop_store: "cc_cons s = C_read h x \<Longrightarrow>
    spsc_step s (s\<lparr>cc_cons := C_idle, cc_ring := (cc_ring s)\<lparr>sq_head := h + 1\<rparr>, cc_popped := cc_popped s @ [x]\<rparr>)"

definition conc_init :: "nat \<Rightarrow> 'a conc" where
  "conc_init k = \<lparr>cc_ring = ring_new (2 ^ k), cc_prod = P_idle, cc_cons = C_idle, cc_pushed = [], cc_popped = []\<rparr>"

inductive conc_reach :: "nat \<Rightarrow> 'a conc \<Rightarrow> bool" for k where
  start: "conc_reach k (conc_init k)"
| step: "conc_reach k s \<Longrightarrow> spsc_step s s' \<Longrightarrow> conc_reach k s'"

section \<open>Invariant\<close>

definition prod_inv :: "nat \<Rightarrow> 'a conc \<Rightarrow> bool" where
  "prod_inv k s \<longleftrightarrow>
     (case cc_prod s of
        P_idle \<Rightarrow> True
      | P_tail t v \<Rightarrow> t = word_of_nat (length (cc_pushed s))
      | P_room t v \<Rightarrow> t = word_of_nat (length (cc_pushed s)) \<and>
          length (cc_pushed s) < length (cc_popped s) + 2 ^ k
      | P_written t v \<Rightarrow> t = word_of_nat (length (cc_pushed s)) \<and>
          length (cc_pushed s) < length (cc_popped s) + 2 ^ k \<and>
          sq_buffer (cc_ring s) ! (length (cc_pushed s) mod 2 ^ k) = Some v)"

definition cons_inv :: "'a conc \<Rightarrow> bool" where
  "cons_inv s \<longleftrightarrow>
     (case cc_cons s of
        C_idle \<Rightarrow> True
      | C_tail t \<Rightarrow> \<exists>m. t = word_of_nat m \<and> length (cc_popped s) \<le> m \<and> m \<le> length (cc_pushed s)
      | C_item h \<Rightarrow> h = word_of_nat (length (cc_popped s)) \<and> length (cc_popped s) < length (cc_pushed s)
      | C_read h x \<Rightarrow> h = word_of_nat (length (cc_popped s)) \<and> length (cc_popped s) < length (cc_pushed s) \<and>
          x = Some (cc_pushed s ! length (cc_popped s)))"

definition conc_inv :: "nat \<Rightarrow> 'a conc \<Rightarrow> bool" where
  "conc_inv k s \<longleftrightarrow>
     ring_shape (cc_ring s) k \<and>
     sq_head (cc_ring s) = word_of_nat (length (cc_popped s)) \<and>
     sq_tail (cc_ring s) = word_of_nat (length (cc_pushed s)) \<and>
     length (cc_popped s) \<le> length (cc_pushed s) \<and> length (cc_pushed s) \<le> length (cc_popped s) + 2 ^ k \<and>
     (\<forall>i. length (cc_popped s) \<le> i \<and> i < length (cc_pushed s) \<longrightarrow>
        sq_buffer (cc_ring s) ! (i mod 2 ^ k) = Some (cc_pushed s ! i)) \<and>
     cc_popped s = map Some (take (length (cc_popped s)) (cc_pushed s)) \<and>
     prod_inv k s \<and> cons_inv s"

lemma slot_of_nat: "ring_shape r k \<Longrightarrow> ring_slot r (word_of_nat i) = i mod 2 ^ k"
  using ring_slot_eq [of r k 0 i] by simp

lemma mod_window_inj:
  assumes "i mod 2 ^ k = j mod (2 :: nat) ^ k" "i < j + 2 ^ k" "j < i + 2 ^ k" shows "i = j"
proof -
  have "int i mod 2 ^ k = int j mod 2 ^ k" using assms(1) by (metis of_nat_mod of_nat_numeral of_nat_power)
  then have "(2 :: int) ^ k dvd int i - int j" by (simp add: mod_eq_dvd_iff)
  moreover have "\<bar>int i - int j\<bar> < 2 ^ k"
  proof -
    have "int i < int (j + 2 ^ k)" "int j < int (i + 2 ^ k)" using assms(2,3) by (simp_all only: of_nat_less_iff)
    then show ?thesis by simp
  qed
  ultimately have "int i - int j = 0" using dvd_imp_le_int [of "int i - int j" "2 ^ k"] by fastforce
  then show ?thesis by simp
qed

lemma word_diff_nat:
  assumes "h \<le> t" "t - h < 2 ^ 64" shows "unat (word_of_nat t - word_of_nat h :: u64) = t - h"
proof -
  have "word_of_nat t - word_of_nat h = (word_of_nat (t - h) :: u64)" using assms(1) by (simp add: of_nat_diff)
  moreover have "unat (word_of_nat (t - h) :: u64) = t - h" using assms(2) by (intro unat_of_nat_small) simp
  ultimately show ?thesis by simp
qed

lemma conc_inv_init: "k < 64 \<Longrightarrow> conc_inv k (conc_init k)"
  by (simp add: conc_inv_def conc_init_def ring_shape_def ring_new_def prod_inv_def cons_inv_def)

lemma inv_frame [simp]:
  "prod_inv k (s\<lparr>cc_cons := c\<rparr>) = prod_inv k s" "cons_inv (s\<lparr>cc_prod := p\<rparr>) = cons_inv s"
  "cons_inv (s\<lparr>cc_ring := r\<rparr>) = cons_inv s"
  by (cases "cc_prod s"; simp add: prod_inv_def)+
    (cases "cc_cons s"; simp add: cons_inv_def)+

lemma prod_inv_simps:
  "prod_inv k (s\<lparr>cc_prod := P_idle\<rparr>)"
  "prod_inv k (s\<lparr>cc_prod := P_tail t v\<rparr>) \<longleftrightarrow> t = word_of_nat (length (cc_pushed s))"
  "prod_inv k (s\<lparr>cc_prod := P_room t v\<rparr>) \<longleftrightarrow> t = word_of_nat (length (cc_pushed s)) \<and>
     length (cc_pushed s) < length (cc_popped s) + 2 ^ k"
  "prod_inv k (s\<lparr>cc_prod := P_written t v\<rparr>) \<longleftrightarrow> t = word_of_nat (length (cc_pushed s)) \<and>
     length (cc_pushed s) < length (cc_popped s) + 2 ^ k \<and>
     sq_buffer (cc_ring s) ! (length (cc_pushed s) mod 2 ^ k) = Some v"
  by (simp_all add: prod_inv_def)

lemma cons_inv_simps:
  "cons_inv (s\<lparr>cc_cons := C_idle\<rparr>)"
  "cons_inv (s\<lparr>cc_cons := C_tail t\<rparr>) \<longleftrightarrow>
     (\<exists>m. t = word_of_nat m \<and> length (cc_popped s) \<le> m \<and> m \<le> length (cc_pushed s))"
  "cons_inv (s\<lparr>cc_cons := C_item h\<rparr>) \<longleftrightarrow>
     h = word_of_nat (length (cc_popped s)) \<and> length (cc_popped s) < length (cc_pushed s)"
  "cons_inv (s\<lparr>cc_cons := C_read h x\<rparr>) \<longleftrightarrow> h = word_of_nat (length (cc_popped s)) \<and>
     length (cc_popped s) < length (cc_pushed s) \<and> x = Some (cc_pushed s ! length (cc_popped s))"
  by (simp_all add: cons_inv_def)

lemma conc_inv_room:
  assumes inv: "conc_inv k s" and room: "\<not> word_of_nat (length (cc_pushed s)) - sq_head (cc_ring s) > sq_mask (cc_ring s)"
  shows "length (cc_pushed s) < length (cc_popped s) + 2 ^ k"
proof -
  have sh: "ring_shape (cc_ring s) k" and le: "length (cc_popped s) \<le> length (cc_pushed s)"
    and cap: "length (cc_pushed s) - length (cc_popped s) \<le> 2 ^ k"
    and h: "sq_head (cc_ring s) = word_of_nat (length (cc_popped s))" using inv by (auto simp: conc_inv_def)
  have "(2 :: nat) ^ k \<le> 2 ^ 63" using sh by (intro power_increasing) (auto simp: ring_shape_def)
  then have "length (cc_pushed s) - length (cc_popped s) < 2 ^ 64" using cap by simp
  from word_diff_nat [OF le this] room h have "length (cc_pushed s) - length (cc_popped s) \<le> 2 ^ k - 1"
    by (simp add: word_less_nat_alt not_less unat_ring_mask [OF sh])
  moreover have "0 < (2 :: nat) ^ k" by simp
  ultimately show ?thesis using le by linarith
qed

lemma conc_inv_write:
  assumes inv: "conc_inv k s" and p: "cc_prod s = P_room t v"
  shows "conc_inv k (s\<lparr>cc_prod := P_written t v,
      cc_ring := (cc_ring s)\<lparr>sq_buffer := (sq_buffer (cc_ring s))[ring_slot (cc_ring s) t := Some v]\<rparr>\<rparr>)"
proof -
  let ?T = "length (cc_pushed s)" and ?H = "length (cc_popped s)"
  have sh: "ring_shape (cc_ring s) k" using inv by (simp add: conc_inv_def)
  have t: "t = word_of_nat ?T" "?T < ?H + 2 ^ k" using inv p by (simp_all add: conc_inv_def prod_inv_def)
  have slot: "ring_slot (cc_ring s) t = ?T mod 2 ^ k" using t(1) slot_of_nat [OF sh] by simp
  have len: "length (sq_buffer (cc_ring s)) = 2 ^ k" using sh by (simp add: ring_shape_def)
  have "(sq_buffer (cc_ring s))[?T mod 2 ^ k := Some v] ! (i mod 2 ^ k) = Some (cc_pushed s ! i)"
    if i: "?H \<le> i" "i < ?T" for i
  proof -
    have "i mod 2 ^ k \<noteq> ?T mod 2 ^ k" using mod_window_inj [of i k ?T] i t(2) by auto
    with inv i show ?thesis by (simp add: conc_inv_def)
  qed
  moreover have "ring_shape ((cc_ring s)\<lparr>sq_buffer := (sq_buffer (cc_ring s))[?T mod 2 ^ k := Some v]\<rparr>) k"
    using sh by (simp add: ring_shape_def)
  ultimately show ?thesis
    using inv t len unfolding slot by (simp add: conc_inv_def prod_inv_def)
qed

lemma conc_inv_push_store:
  assumes inv: "conc_inv k s" and p: "cc_prod s = P_written t v"
  shows "conc_inv k (s\<lparr>cc_prod := P_idle, cc_ring := (cc_ring s)\<lparr>sq_tail := t + 1\<rparr>, cc_pushed := cc_pushed s @ [v]\<rparr>)"
proof -
  let ?T = "length (cc_pushed s)" and ?H = "length (cc_popped s)"
  have t: "t = word_of_nat ?T" "?T < ?H + 2 ^ k" "sq_buffer (cc_ring s) ! (?T mod 2 ^ k) = Some v"
    using inv p by (simp_all add: conc_inv_def prod_inv_def)
  have le: "?H \<le> ?T" using inv by (simp add: conc_inv_def)
  have "sq_buffer (cc_ring s) ! (i mod 2 ^ k) = Some ((cc_pushed s @ [v]) ! i)" if "?H \<le> i" "i < Suc ?T" for i
    using that inv t(3) by (cases "i = ?T") (auto simp: conc_inv_def nth_append)
  moreover have "cons_inv (s\<lparr>cc_prod := P_idle, cc_ring := (cc_ring s)\<lparr>sq_tail := t + 1\<rparr>, cc_pushed := cc_pushed s @ [v]\<rparr>)"
    using inv by (auto simp: conc_inv_def cons_inv_def nth_append split: consumer.splits)
  moreover have "word_of_nat (Suc ?T) = t + 1" by (simp add: t(1))
  ultimately show ?thesis using inv t(2) le
    by (simp add: conc_inv_def prod_inv_def ring_shape_def)
qed

lemma conc_inv_item:
  assumes inv: "conc_inv k s" and c: "cc_cons s = C_tail t" and ne: "sq_head (cc_ring s) \<noteq> t"
  shows "conc_inv k (s\<lparr>cc_cons := C_item (sq_head (cc_ring s))\<rparr>)"
proof -
  obtain m where "t = word_of_nat m" "length (cc_popped s) \<le> m" "m \<le> length (cc_pushed s)"
    using inv c by (auto simp: conc_inv_def cons_inv_def)
  moreover have "sq_head (cc_ring s) = word_of_nat (length (cc_popped s))" using inv by (simp add: conc_inv_def)
  ultimately have "length (cc_popped s) < length (cc_pushed s)" using ne by (cases "length (cc_popped s) = m") auto
  then show ?thesis using inv by (simp add: conc_inv_def prod_inv_simps cons_inv_simps)
qed

lemma conc_inv_pop_store:
  assumes inv: "conc_inv k s" and c: "cc_cons s = C_read h x"
  shows "conc_inv k (s\<lparr>cc_cons := C_idle, cc_ring := (cc_ring s)\<lparr>sq_head := h + 1\<rparr>, cc_popped := cc_popped s @ [x]\<rparr>)"
proof -
  let ?H = "length (cc_popped s)"
  have h: "h = word_of_nat ?H" "?H < length (cc_pushed s)" "x = Some (cc_pushed s ! ?H)"
    using inv c by (simp_all add: conc_inv_def cons_inv_def)
  have "cc_popped s = map Some (take ?H (cc_pushed s))" using inv by (simp add: conc_inv_def)
  then have pop: "cc_popped s @ [x] = map Some (take (Suc ?H) (cc_pushed s))"
    using h(2,3) by (simp add: take_Suc_conv_app_nth)
  have "prod_inv k (s\<lparr>cc_cons := C_idle, cc_ring := (cc_ring s)\<lparr>sq_head := h + 1\<rparr>, cc_popped := cc_popped s @ [x]\<rparr>)"
    using inv by (auto simp: conc_inv_def prod_inv_def split: producer.splits)
  moreover have "word_of_nat (Suc ?H) = h + 1" by (simp add: h(1))
  ultimately show ?thesis using inv h(2) pop
    by (simp add: conc_inv_def cons_inv_def ring_shape_def)
qed

lemma conc_inv_step:
  assumes inv: "conc_inv k s" and "spsc_step s s'" shows "conc_inv k s'"
  using assms(2)
proof cases
  case (push_load v)
  then show ?thesis using inv by (simp add: conc_inv_def prod_inv_simps cons_inv_simps)
next
  case (push_full t v)
  then show ?thesis using inv by (simp add: conc_inv_def prod_inv_simps cons_inv_simps)
next
  case (push_room t v)
  have "t = word_of_nat (length (cc_pushed s))" using inv push_room by (simp add: conc_inv_def prod_inv_def)
  with conc_inv_room [OF inv] push_room show ?thesis
    using inv by (simp add: conc_inv_def prod_inv_simps cons_inv_simps)
next
  case (push_write t v)
  then show ?thesis using conc_inv_write [OF inv] by simp
next
  case (push_store t v)
  then show ?thesis using conc_inv_push_store [OF inv] by simp
next
  case pop_load
  then show ?thesis using inv by (auto simp: conc_inv_def prod_inv_simps cons_inv_simps)
next
  case (pop_empty t)
  then show ?thesis using inv by (simp add: conc_inv_def prod_inv_simps cons_inv_simps)
next
  case (pop_item t)
  then show ?thesis using conc_inv_item [OF inv] by simp
next
  case (pop_read h)
  have sh: "ring_shape (cc_ring s) k" using inv by (simp add: conc_inv_def)
  have h: "h = word_of_nat (length (cc_popped s))" "length (cc_popped s) < length (cc_pushed s)"
    using inv pop_read by (simp_all add: conc_inv_def cons_inv_def)
  moreover have "ring_slot (cc_ring s) h = length (cc_popped s) mod 2 ^ k" using h(1) slot_of_nat [OF sh] by simp
  ultimately show ?thesis using inv pop_read by (simp add: conc_inv_def cons_inv_simps)
next
  case (pop_store h x)
  then show ?thesis using conc_inv_pop_store [OF inv] by simp
qed

lemma conc_inv_reach: "conc_reach k s \<Longrightarrow> k < 64 \<Longrightarrow> conc_inv k s"
  by (induction rule: conc_reach.induct) (auto intro: conc_inv_init conc_inv_step)

text \<open>
  C15: in every interleaving of one producer and one consumer, with the counters wrapping, the values
  the consumer has taken are exactly a prefix of the values the producer has published: none is lost,
  duplicated, reordered or read uninitialised; at most \<open>2 ^ k\<close> are in flight; and whenever the producer
  is about to write a slot while the consumer is about to read one, the slots are different.
\<close>

theorem spsc_concurrent_fifo:
  assumes "k < 64" "conc_reach k s"
  shows "cc_popped s = map Some (take (length (cc_popped s)) (cc_pushed s)) \<and>
    length (cc_popped s) \<le> length (cc_pushed s) \<and> length (cc_pushed s) \<le> length (cc_popped s) + 2 ^ k \<and>
    (\<forall>t v h. cc_prod s = P_room t v \<and> cc_cons s = C_item h \<longrightarrow>
       ring_slot (cc_ring s) t \<noteq> ring_slot (cc_ring s) h)"
proof -
  have inv: "conc_inv k s" by (rule conc_inv_reach [OF assms(2,1)])
  have sh: "ring_shape (cc_ring s) k" using inv by (simp add: conc_inv_def)
  have "ring_slot (cc_ring s) t \<noteq> ring_slot (cc_ring s) h" if p: "cc_prod s = P_room t v" "cc_cons s = C_item h" for t v h
  proof -
    let ?T = "length (cc_pushed s)" and ?H = "length (cc_popped s)"
    have th: "t = word_of_nat ?T" "?T < ?H + 2 ^ k" "h = word_of_nat ?H" "?H < ?T"
      using inv p by (simp_all add: conc_inv_def prod_inv_def cons_inv_def)
    then show ?thesis using mod_window_inj [of ?T k ?H] slot_of_nat [OF sh] by auto
  qed
  then show ?thesis using inv unfolding conc_inv_def by blast
qed

theorem spsc_concurrent_fifo_witness:
  "\<exists>s. conc_reach 1 s \<and> cc_pushed s = [7 :: nat] \<and> cc_popped s = map Some (take (length (cc_popped s)) (cc_pushed s))"
proof -
  let ?s0 = "conc_init 1 :: nat conc"
  have r0: "conc_reach 1 ?s0" by (rule conc_reach.start)
  have r1: "conc_reach 1 (?s0\<lparr>cc_prod := P_tail 0 7\<rparr>)" (is "conc_reach 1 ?s1")
    using conc_reach.step [OF r0 spsc_step.push_load [of ?s0 7]] by (simp add: conc_init_def ring_new_def)
  have r2: "conc_reach 1 (?s1\<lparr>cc_prod := P_room 0 7\<rparr>)" (is "conc_reach 1 ?s2")
    by (rule conc_reach.step [OF r1 spsc_step.push_room [of ?s1 0 7]]) (simp_all add: conc_init_def ring_new_def)
  have r3: "conc_reach 1 (?s2\<lparr>cc_prod := P_written 0 7, cc_ring := (cc_ring ?s2)\<lparr>sq_buffer :=
      (sq_buffer (cc_ring ?s2))[ring_slot (cc_ring ?s2) 0 := Some 7]\<rparr>\<rparr>)" (is "conc_reach 1 ?s3")
    by (rule conc_reach.step [OF r2 spsc_step.push_write [of ?s2 0 7]]) simp
  have r4: "conc_reach 1 (?s3\<lparr>cc_prod := P_idle, cc_ring := (cc_ring ?s3)\<lparr>sq_tail := 0 + 1\<rparr>,
      cc_pushed := cc_pushed ?s3 @ [7]\<rparr>)" (is "conc_reach 1 ?s4")
    by (rule conc_reach.step [OF r3 spsc_step.push_store [of ?s3 0 7]]) simp
  have "cc_pushed ?s4 = [7]" by (simp add: conc_init_def)
  with r4 spsc_concurrent_fifo [OF _ r4] show ?thesis by (intro exI [of _ ?s4]) simp
qed

end
