(* ===== verification/Telemetry.thy ===== *)
theory Telemetry
  imports Spsc
begin

text \<open>
  The clients of the ring: the telemetry bus \<^verbatim>\<open>crates/anvil/src/telemetry.rs\<close> (one ring per worker, a
  counter of dropped events) and the compile boundary \<^verbatim>\<open>crates/jit/src/boundary.rs\<close> (a request and a
  response ring); and the task fuel meter \<^verbatim>\<open>crates/anvil/src/fuel.rs\<close>. Their lemmas use the ring only
  through the queue interface.
\<close>

section \<open>Telemetry bus\<close>

datatype telemetry_kind =
  PassStart | PassEnd | FusionDecision | EgraphRewrite | JitCompile | JitHit | SearchPruned

fun telemetry_code :: "telemetry_kind \<Rightarrow> u8" where
  "telemetry_code PassStart = 0"
| "telemetry_code PassEnd = 1"
| "telemetry_code FusionDecision = 2"
| "telemetry_code EgraphRewrite = 3"
| "telemetry_code JitCompile = 4"
| "telemetry_code JitHit = 5"
| "telemetry_code SearchPruned = 6"

definition telemetry_from_code :: "u8 \<Rightarrow> telemetry_kind option" where
  "telemetry_from_code c =
     (if c = 0 then Some PassStart else if c = 1 then Some PassEnd else if c = 2 then Some FusionDecision
      else if c = 3 then Some EgraphRewrite else if c = 4 then Some JitCompile
      else if c = 5 then Some JitHit else if c = 6 then Some SearchPruned else None)"

record telemetry_event =
  te_kind :: u8
  te_pad :: u8
  te_pass_id :: u16
  te_payload :: u64

record telemetry_bus =
  tb_rings :: "telemetry_event ring list"
  tb_dropped :: u64

definition TELEMETRY_CAPACITY :: nat where "TELEMETRY_CAPACITY = 8192"

definition bus_new :: "nat \<Rightarrow> telemetry_bus" where
  "bus_new num_workers =
     \<lparr>tb_rings = replicate num_workers (ring_new TELEMETRY_CAPACITY), tb_dropped = 0\<rparr>"

definition bus_emit :: "telemetry_bus \<Rightarrow> nat \<Rightarrow> telemetry_event \<Rightarrow> bool \<times> telemetry_bus" where
  "bus_emit b worker ev =
     (if worker \<ge> length (tb_rings b) then (False, b\<lparr>tb_dropped := tb_dropped b + 1\<rparr>)
      else case ring_push (tb_rings b ! worker) ev of
             (Inr _, r) \<Rightarrow> (True, b\<lparr>tb_rings := (tb_rings b)[worker := r]\<rparr>)
           | (Inl _, r) \<Rightarrow> (False, b\<lparr>tb_rings := (tb_rings b)[worker := r], tb_dropped := tb_dropped b + 1\<rparr>))"

definition event_zero :: telemetry_event where
  "event_zero = \<lparr>te_kind = 0, te_pad = 0, te_pass_id = 0, te_payload = 0\<rparr>"

lemma pop_batch_shrinks:
  assumes "ring_pop_batch r dst = (n, dst', r')" "n \<noteq> 0"
  shows "unat (ring_len r') < unat (ring_len r)"
proof -
  from assms have n: "n = min (unat (ring_len r)) (length dst)" and r': "r' = r\<lparr>sq_head := sq_head r + word_of_nat n\<rparr>"
    by (auto simp: ring_pop_batch_def Let_def ring_len_def split: if_splits)
  have le: "n \<le> unat (ring_len r)" using n by simp
  then have "unat (word_of_nat n :: u64) = n" by (metis le_unat_uoi)
  moreover have "ring_len r' = ring_len r - word_of_nat n" by (simp add: r' ring_len_def algebra_simps)
  ultimately have "unat (ring_len r') = unat (ring_len r) - n" using le by (simp add: unat_sub word_le_nat_alt)
  then show ?thesis using le assms(2) by linarith
qed

function drain_loop ::
  "telemetry_event ring \<Rightarrow> telemetry_event list \<Rightarrow> telemetry_event list \<Rightarrow> nat \<Rightarrow>
     nat \<times> telemetry_event list \<times> telemetry_event ring" where
  "drain_loop r buf out tot =
     (case ring_pop_batch r buf of
        (n, buf', r') \<Rightarrow>
          if n = 0 then (tot, out, r')
          else
            let out' = out @ take n buf'; tot' = tot + n in
            if n < length buf' then (tot', out', r') else drain_loop r' buf' out' tot')"
  by auto
termination
  by (relation "measure (\<lambda>(r, _, _, _). unat (ring_len r))") (auto dest!: pop_batch_shrinks [OF sym])

declare drain_loop.simps [simp del]

definition bus_drain ::
  "telemetry_bus \<Rightarrow> nat \<Rightarrow> telemetry_event list \<Rightarrow> nat \<times> telemetry_event list \<times> telemetry_bus" where
  "bus_drain b worker out =
     (if worker \<ge> length (tb_rings b) then (0, out, b)
      else case drain_loop (tb_rings b ! worker) (replicate 64 event_zero) out 0 of
             (tot, out', r) \<Rightarrow> (tot, out', b\<lparr>tb_rings := (tb_rings b)[worker := r]\<rparr>))"

definition dropped_count :: "telemetry_bus \<Rightarrow> u64" where
  "dropped_count b = tb_dropped b"

definition worker_count :: "telemetry_bus \<Rightarrow> nat" where
  "worker_count b = length (tb_rings b)"

lemma telemetry_code_roundtrip [simp]: "telemetry_from_code (telemetry_code x) = Some x"
  by (cases x) (simp_all add: telemetry_from_code_def)

definition bus_wf :: "telemetry_bus \<Rightarrow> bool" where
  "bus_wf b \<longleftrightarrow> (\<forall>r \<in> set (tb_rings b). ring_wf r \<and> ring_cap r = TELEMETRY_CAPACITY)"

definition bus_items :: "telemetry_bus \<Rightarrow> telemetry_event list list" where
  "bus_items b = map ring_items (tb_rings b)"

lemma bus_wf_new: "bus_wf (bus_new n)"
  using ring_new_wf [of 13, where 'a = telemetry_event] by (simp add: bus_wf_def bus_new_def TELEMETRY_CAPACITY_def)

lemma bus_wf_update: "bus_wf b \<Longrightarrow> ring_wf r \<Longrightarrow> ring_cap r = TELEMETRY_CAPACITY \<Longrightarrow> bus_wf (b\<lparr>tb_rings := (tb_rings b)[w := r]\<rparr>)"
  by (auto simp: bus_wf_def dest!: set_update_subset_insert [THEN subsetD])

lemma drain_loop_items:
  assumes "ring_wf r" "buf \<noteq> []"
  shows "\<exists>r'. drain_loop r buf out tot = (tot + length (ring_items r), out @ ring_items r, r') \<and>
    ring_wf r' \<and> ring_items r' = [] \<and> ring_cap r' = ring_cap r"
  using assms
proof (induction r buf out tot rule: drain_loop.induct)
  case (1 r buf out tot)
  obtain q n where q: "n = min (length (ring_items r)) (length buf)"
    "ring_pop_batch r buf = (n, take n (ring_items r) @ drop n buf, q)" "ring_wf q"
    "ring_items q = drop n (ring_items r)" "ring_cap q = ring_cap r"
    using spsc.batch_some [OF "1.prems"(1), of buf] by blast
  let ?buf = "take n (ring_items r) @ drop n buf"
  have len: "length ?buf = length buf" "take n ?buf = take n (ring_items r)" using q(1) by auto
  show ?case
  proof (cases "n < length buf")
    case True
    then have n: "n = length (ring_items r)" using q(1) by simp
    then have all: "take n (ring_items r) = ring_items r" "drop n (ring_items r) = []" by simp_all
    show ?thesis
    proof (cases "n = 0")
      case True
      with n have "ring_items r = []" by (simp del: length_ring_items)
      with True q show ?thesis by (subst drain_loop.simps) simp
    next
      case False
      have "drain_loop r buf out tot = (tot + n, out @ ring_items r, q)"
        using False \<open>n < length buf\<close> q(2) len all by (subst drain_loop.simps) (simp add: Let_def)
      with n q all show ?thesis by simp
    qed
  next
    case False
    then have n: "n = length buf" "n \<noteq> 0" using q(1) "1.prems"(2) by auto
    have "?buf \<noteq> []" using len(1) "1.prems"(2) by (metis length_0_conv)
    with "1.IH" [OF q(2) [symmetric] refl n(2) refl refl] q(3) False len obtain r' where
      "drain_loop q ?buf (out @ take n (ring_items r)) (tot + n) =
        (tot + n + length (ring_items q), (out @ take n (ring_items r)) @ ring_items q, r')"
      "ring_wf r'" "ring_items r' = []" "ring_cap r' = ring_cap q" by auto
    moreover have "length (ring_items q) = length (ring_items r) - n" "n \<le> length (ring_items r)"
      "take n (ring_items r) @ ring_items q = ring_items r" using q(1,4) by simp_all
    ultimately show ?thesis using q(2,5) n False len by (subst drain_loop.simps) (simp add: Let_def)
  qed
qed

text \<open>
  C16: the bus accounts for every event. An \<^verbatim>\<open>emit\<close> that returns true has appended the event to its
  worker's queue; otherwise the worker does not exist or its queue holds 8192 events, and exactly the
  drop counter moved. A \<^verbatim>\<open>drain\<close> always returns; it appends all queued events of the worker to the output in
  the order they were emitted, returns their number and leaves that queue empty and the others alone.
\<close>

theorem telemetry_accounting:
  assumes "bus_wf b"
  shows "(case bus_emit b w ev of (ok, b') \<Rightarrow> bus_wf b' \<and>
       (ok \<longleftrightarrow> w < worker_count b \<and> length (bus_items b ! w) < TELEMETRY_CAPACITY) \<and>
       bus_items b' = (if ok then (bus_items b)[w := bus_items b ! w @ [ev]] else bus_items b) \<and>
       dropped_count b' = (if ok then dropped_count b else dropped_count b + 1)) \<and>
    (case bus_drain b w out of (n, out', b') \<Rightarrow> bus_wf b' \<and> dropped_count b' = dropped_count b \<and>
       (if w < worker_count b
        then n = length (bus_items b ! w) \<and> out' = out @ bus_items b ! w \<and> bus_items b' = (bus_items b)[w := []]
        else n = 0 \<and> out' = out \<and> b' = b))"
proof (cases "w < length (tb_rings b)")
  case True
  let ?r = "tb_rings b ! w"
  have r: "ring_wf ?r" "ring_cap ?r = TELEMETRY_CAPACITY" using assms True by (auto simp: bus_wf_def)
  have items: "bus_items b ! w = ring_items ?r" using True by (simp add: bus_items_def)
  have emit: "case bus_emit b w ev of (ok, b') \<Rightarrow> bus_wf b' \<and>
       (ok \<longleftrightarrow> w < worker_count b \<and> length (bus_items b ! w) < TELEMETRY_CAPACITY) \<and>
       bus_items b' = (if ok then (bus_items b)[w := bus_items b ! w @ [ev]] else bus_items b) \<and>
       dropped_count b' = (if ok then dropped_count b else dropped_count b + 1)"
  proof (cases "length (ring_items ?r) < ring_cap ?r")
    case lt: True
    then obtain q where "ring_push ?r ev = (Inr (), q)" "ring_wf q" "ring_items q = ring_items ?r @ [ev]" "ring_cap q = ring_cap ?r"
      using spsc.push_room [OF r(1)] by blast
    with lt r True assms show ?thesis
      by (simp add: bus_emit_def items worker_count_def dropped_count_def bus_wf_update)
        (simp add: bus_items_def map_update)
  next
    case False
    then have "ring_push ?r ev = (Inl Full, ?r)" using spsc.push_full [OF r(1)] by simp
    with False r True assms show ?thesis
      by (simp add: bus_emit_def items worker_count_def dropped_count_def) (simp add: bus_wf_def bus_items_def)
  qed
  obtain q where "drain_loop ?r (replicate 64 event_zero) out 0 = (length (ring_items ?r), out @ ring_items ?r, q)"
    "ring_wf q" "ring_items q = []" "ring_cap q = ring_cap ?r"
    using drain_loop_items [OF r(1), of "replicate 64 event_zero" out 0] by auto
  with r True assms emit show ?thesis
    by (simp add: bus_drain_def items worker_count_def dropped_count_def bus_wf_update)
      (simp add: bus_items_def map_update)
next
  case False
  with assms show ?thesis by (simp add: bus_emit_def bus_drain_def worker_count_def dropped_count_def bus_wf_def bus_items_def)
qed

theorem telemetry_accounting_witness:
  "\<exists>b'. bus_emit (bus_new 2) 1 event_zero = (True, b') \<and> bus_items b' = [[], [event_zero]]"
proof -
  have i: "bus_items (bus_new 2) = [[], []]" "worker_count (bus_new 2) = 2"
    by (simp_all add: bus_items_def bus_new_def worker_count_def numeral_2_eq_2)
  obtain ok b' where e: "bus_emit (bus_new 2) 1 event_zero = (ok, b')" by fastforce
  with telemetry_accounting [OF bus_wf_new [of 2], where w = 1 and ev = event_zero and out = "[]"] show ?thesis
    by (auto simp: i TELEMETRY_CAPACITY_def)
qed

section \<open>Compile boundary\<close>

datatype tier = Tier0 | Tier1 | Tier2 | Tier3

fun tier_code :: "tier \<Rightarrow> u64" where
  "tier_code Tier0 = 0"
| "tier_code Tier1 = 1"
| "tier_code Tier2 = 2"
| "tier_code Tier3 = 3"

record compile_request =
  cr_fingerprint :: u64
  cr_shape_layout :: u64
  cr_tier :: tier
  cr_pad :: u32

record compile_response =
  cp_kernel_key :: u64
  cp_tier :: tier
  cp_failed :: bool
  cp_pad :: u32

record jit_boundary =
  jb_requests :: "compile_request ring"
  jb_responses :: "compile_response ring"

definition boundary_new :: "nat \<Rightarrow> jit_boundary" where
  "boundary_new capacity = \<lparr>jb_requests = ring_new capacity, jb_responses = ring_new capacity\<rparr>"

definition push_request :: "jit_boundary \<Rightarrow> compile_request \<Rightarrow> (queue_error + unit) \<times> jit_boundary" where
  "push_request b req = (case ring_push (jb_requests b) req of (r, q) \<Rightarrow> (r, b\<lparr>jb_requests := q\<rparr>))"

definition pop_request :: "jit_boundary \<Rightarrow> (queue_error + compile_request) \<times> jit_boundary" where
  "pop_request b = (case ring_pop (jb_requests b) of (r, q) \<Rightarrow> (r, b\<lparr>jb_requests := q\<rparr>))"

definition push_response :: "jit_boundary \<Rightarrow> compile_response \<Rightarrow> (queue_error + unit) \<times> jit_boundary" where
  "push_response b resp = (case ring_push (jb_responses b) resp of (r, q) \<Rightarrow> (r, b\<lparr>jb_responses := q\<rparr>))"

definition pop_response :: "jit_boundary \<Rightarrow> (queue_error + compile_response) \<times> jit_boundary" where
  "pop_response b = (case ring_pop (jb_responses b) of (r, q) \<Rightarrow> (r, b\<lparr>jb_responses := q\<rparr>))"

definition pending_requests :: "jit_boundary \<Rightarrow> u64" where
  "pending_requests b = ring_len (jb_requests b)"

section \<open>Fuel\<close>

record fuel_meter =
  fm_spent :: u32
  fm_budget :: u32

definition TASK_FUEL_UNITS :: u32 where "TASK_FUEL_UNITS = 64"

definition fuel_new :: fuel_meter where
  "fuel_new = \<lparr>fm_spent = 0, fm_budget = TASK_FUEL_UNITS\<rparr>"

definition burn :: "fuel_meter \<Rightarrow> u32 \<Rightarrow> bool \<times> fuel_meter" where
  "burn m units = (let m' = m\<lparr>fm_spent := saturating_add (fm_spent m) units\<rparr> in (fm_spent m' \<ge> fm_budget m', m'))"

definition should_defer :: "fuel_meter \<Rightarrow> bool" where
  "should_defer m \<longleftrightarrow> fm_spent m \<ge> fm_budget m"

definition refill :: "fuel_meter \<Rightarrow> fuel_meter" where
  "refill m = m\<lparr>fm_spent := 0\<rparr>"

definition burn_all :: "fuel_meter \<Rightarrow> u32 list \<Rightarrow> fuel_meter" where
  "burn_all m us = foldl (\<lambda>m u. snd (burn m u)) m us"

lemma burn_all_spent:
  "fm_budget (burn_all m us) = fm_budget m \<and>
   unat (fm_spent (burn_all m us)) = min (unat (fm_spent m) + sum_list (map unat us)) (2 ^ 32 - 1)"
proof (induction us arbitrary: m)
  case Nil
  have "unat (fm_spent m) \<le> 2 ^ 32 - 1" using unsigned_less [of "fm_spent m", where 'a = nat] by simp
  then show ?case by (simp add: burn_all_def)
next
  case (Cons u us)
  have "burn_all m (u # us) = burn_all (snd (burn m u)) us" by (simp add: burn_all_def)
  with Cons.IH [of "snd (burn m u)"] show ?case
    by (simp add: burn_def Let_def unat_saturating_add)
qed

text \<open>
  C17: the fuel meter never forgets spent units. After any burns from a refilled meter the spent
  amount is their exact sum, capped at \<open>2\<^sup>32 - 1\<close> instead of wrapping, and the task is asked to defer
  exactly when the exact sum has reached the 64-unit budget.
\<close>

theorem fuel_meter_exact:
  "unat (fm_spent (burn_all fuel_new us)) = min (sum_list (map unat us)) (2 ^ 32 - 1) \<and>
   (should_defer (burn_all fuel_new us) \<longleftrightarrow> 64 \<le> sum_list (map unat us)) \<and>
   (fst (burn (burn_all fuel_new us) u) \<longleftrightarrow> 64 \<le> sum_list (map unat us) + unat u) \<and>
   should_defer (refill (burn_all fuel_new us)) = False"
proof -
  note b = burn_all_spent [of fuel_new us] burn_all_spent [of fuel_new "us @ [u]"]
  have "fst (burn (burn_all fuel_new us) u) = should_defer (burn_all fuel_new (us @ [u]))"
    by (simp add: burn_def should_defer_def burn_all_def Let_def)
  then show ?thesis using b
    by (auto simp: should_defer_def fuel_new_def TASK_FUEL_UNITS_def word_le_nat_alt refill_def)
qed

end
