(* ===== verification/Union_Find.thy ===== *)
theory Union_Find
  imports SXLA_Prelude
begin

text \<open>
  Union-find with path compression and union by minimal root, \<^verbatim>\<open>crates/egraph/src/union_find.rs\<close>. The
  two \<^verbatim>\<open>while\<close> loops of \<^verbatim>\<open>find\<close> are partial functions: \<open>None\<close> stands for not returning. That every
  parent pointer is at most its own index is the invariant that makes them return.
\<close>

section \<open>Model\<close>

datatype uf_error = OutOfBounds

text \<open>The outcome of an operation with loops: a value, an error, or no return.\<close>

datatype ('e, 'a) outcome = Ok 'a | Err 'e | Diverges

fun obind :: "('e, 'a) outcome \<Rightarrow> ('a \<Rightarrow> ('e, 'b) outcome) \<Rightarrow> ('e, 'b) outcome" where
  "obind (Ok x) f = f x"
| "obind (Err e) f = Err e"
| "obind Diverges f = Diverges"

lemma obind_eq_Ok: "obind r f = Ok y \<longleftrightarrow> (\<exists>x. r = Ok x \<and> f x = Ok y)"
  by (cases r) auto

definition returned :: "'a option \<Rightarrow> ('a \<Rightarrow> ('e, 'b) outcome) \<Rightarrow> ('e, 'b) outcome" where
  "returned r f = (case r of None \<Rightarrow> Diverges | Some x \<Rightarrow> f x)"

record union_find =
  uf_parent :: "u32 list"

definition uf_new :: "nat \<Rightarrow> union_find" where
  "uf_new capacity = \<lparr>uf_parent = map word_of_nat [0 ..< capacity]\<rparr>"

partial_function (option) uf_root :: "u32 list \<Rightarrow> u32 \<Rightarrow> u32 option" where
  "uf_root ps root = (let p = ps ! unat root in if p = root then Some root else uf_root ps p)"

partial_function (option) uf_compress :: "u32 list \<Rightarrow> u32 \<Rightarrow> u32 \<Rightarrow> u32 list option" where
  "uf_compress ps root cur =
     (if cur \<noteq> root
      then let next = ps ! unat cur in uf_compress (ps[unat cur := root]) root next
      else Some ps)"

declare uf_root.simps [code] uf_compress.simps [code]

definition uf_find :: "union_find \<Rightarrow> u32 \<Rightarrow> (uf_error, u32 \<times> union_find) outcome" where
  "uf_find u x =
     (if unat x \<ge> length (uf_parent u) then Err OutOfBounds
      else returned (uf_root (uf_parent u) x) (\<lambda>root.
           returned (uf_compress (uf_parent u) root x) (\<lambda>ps. Ok (root, u\<lparr>uf_parent := ps\<rparr>))))"

definition uf_find_ro :: "union_find \<Rightarrow> u32 \<Rightarrow> (uf_error, u32) outcome" where
  "uf_find_ro u x =
     (if unat x \<ge> length (uf_parent u) then Err OutOfBounds
      else returned (uf_root (uf_parent u) x) Ok)"

definition uf_union :: "union_find \<Rightarrow> u32 \<Rightarrow> u32 \<Rightarrow> (uf_error, u32 \<times> union_find) outcome" where
  "uf_union u a b =
     obind (uf_find u a) (\<lambda>(ra, u1).
     obind (uf_find u1 b) (\<lambda>(rb, u2).
       if ra = rb then Ok (ra, u2)
       else let winner = min ra rb; loser = max ra rb in
         Ok (winner, u2\<lparr>uf_parent := (uf_parent u2)[unat loser := winner]\<rparr>)))"

definition uf_len :: "union_find \<Rightarrow> nat" where
  "uf_len u = length (uf_parent u)"

definition uf_is_empty :: "union_find \<Rightarrow> bool" where
  "uf_is_empty u \<longleftrightarrow> uf_parent u = []"

section \<open>Representatives\<close>

definition parents_ok :: "u32 list \<Rightarrow> bool" where
  "parents_ok ps \<longleftrightarrow> length ps \<le> 2 ^ 32 \<and> (\<forall>i < length ps. unat (ps ! i) \<le> i)"

function rep :: "u32 list \<Rightarrow> nat \<Rightarrow> nat" where
  "rep ps i = (if unat (ps ! i) < i then rep ps (unat (ps ! i)) else i)"
  by auto
termination by (relation "measure snd") auto

declare rep.simps [simp del]

lemma rep_le: "rep ps i \<le> i"
proof (induction i rule: less_induct)
  case (less i)
  show ?case
  proof (cases "unat (ps ! i) < i")
    case True
    with less [OF True] show ?thesis by (simp add: rep.simps [of ps i])
  qed (simp add: rep.simps [of ps i])
qed

lemma rep_root: "\<not> unat (ps ! rep ps i) < rep ps i"
proof (induction i rule: less_induct)
  case (less i)
  show ?case
  proof (cases "unat (ps ! i) < i")
    case True
    with less [OF True] show ?thesis by (simp add: rep.simps [of ps i])
  qed (simp add: rep.simps [of ps i])
qed

lemma rep_idem [simp]: "rep ps (rep ps i) = rep ps i"
  using rep_root [of ps i] by (simp add: rep.simps [of ps "rep ps i"])

lemma rep_root_self:
  assumes "parents_ok ps" "i < length ps" shows "unat (ps ! rep ps i) = rep ps i"
  using rep_root [of ps i] rep_le [of ps i] assms by (simp add: parents_ok_def le_antisym)

lemma rep_cong:
  assumes "\<And>j. j \<le> i \<Longrightarrow> ps ! j = qs ! j" shows "rep ps i = rep qs i"
  using assms
proof (induction i rule: less_induct)
  case (less i)
  have "unat (ps ! i) < i \<Longrightarrow> rep ps (unat (ps ! i)) = rep qs (unat (ps ! i))"
    using less by auto
  then show ?case using less.prems [of i] by (simp add: rep.simps [of ps i] rep.simps [of qs i])
qed

text \<open>Redirecting a parent to another member of the same set that is no larger changes no representative.\<close>

lemma rep_redirect:
  assumes ok: "parents_ok ps" and i: "i < length ps" and r: "unat r \<le> i" "rep ps (unat r) = rep ps i"
    and acyc: "unat r = i \<longrightarrow> rep ps i = i"
  shows "j < length ps \<Longrightarrow> rep (ps[i := r]) j = rep ps j"
proof (induction j rule: less_induct)
  case (less j)
  show ?case
  proof (cases "j = i")
    case True
    show ?thesis
    proof (cases "unat r < i")
      case lt: True
      then have "rep (ps[i := r]) (unat r) = rep ps (unat r)" using less True i by simp
      with lt True i r(2) show ?thesis by (simp add: rep.simps [of "ps[i := r]" i])
    next
      case False
      with r(1) acyc True i show ?thesis by (simp add: rep.simps [of "ps[i := r]" i])
    qed
  next
    case False
    then have e: "ps[i := r] ! j = ps ! j" by simp
    show ?thesis
    proof (cases "unat (ps ! j) < j")
      case True
      then have "rep (ps[i := r]) (unat (ps ! j)) = rep ps (unat (ps ! j))" using less by simp
      with True e show ?thesis by (simp add: rep.simps [of "ps[i := r]" j] rep.simps [of ps j])
    next
      case False
      with e show ?thesis by (simp add: rep.simps [of "ps[i := r]" j] rep.simps [of ps j])
    qed
  qed
qed

section \<open>Find\<close>

lemma uf_root_eq:
  assumes ok: "parents_ok ps"
  shows "unat x < length ps \<Longrightarrow> uf_root ps x = Some (word_of_nat (rep ps (unat x)))"
proof (induction "unat x" arbitrary: x rule: less_induct)
  case less
  have le: "unat (ps ! unat x) \<le> unat x" using ok less.prems by (simp add: parents_ok_def)
  show ?case
  proof (cases "unat (ps ! unat x) < unat x")
    case True
    then have "uf_root ps (ps ! unat x) = Some (word_of_nat (rep ps (unat (ps ! unat x))))"
      using less by simp
    moreover have "ps ! unat x \<noteq> x" using True by auto
    ultimately show ?thesis using True
      by (subst uf_root.simps) (simp add: rep.simps [of ps "unat x"] Let_def)
  next
    case False
    then have "ps ! unat x = x" using le by (simp add: word_unat_eq_iff)
    with False show ?thesis by (subst uf_root.simps) (simp add: rep.simps [of ps "unat x"])
  qed
qed

definition same_reps :: "u32 list \<Rightarrow> u32 list \<Rightarrow> bool" where
  "same_reps ps qs \<longleftrightarrow> length qs = length ps \<and> (\<forall>j < length ps. rep qs j = rep ps j)"

lemma uf_compress_eq:
  "parents_ok ps \<Longrightarrow> unat x < length ps \<Longrightarrow> unat root = rep ps (unat x) \<Longrightarrow>
     \<exists>qs. uf_compress ps root x = Some qs \<and> parents_ok qs \<and> same_reps ps qs"
proof (induction "unat x" arbitrary: x ps rule: less_induct)
  case less
  show ?case
  proof (cases "x = root")
    case True
    then have "uf_compress ps root x = Some ps" by (subst uf_compress.simps) simp
    with less.prems(1) show ?thesis by (simp add: same_reps_def)
  next
    case False
    let ?i = "unat x" and ?next = "ps ! unat x"
    let ?ps = "ps[?i := root]"
    have r: "unat root \<le> ?i" using less.prems(3) rep_le by simp
    have ne: "unat root \<noteq> ?i" using False by (simp add: word_unat_eq_iff)
    then have lt: "unat ?next < ?i" using less.prems(3) by (simp add: rep.simps [of ps ?i] split: if_splits)
    have reps: "rep ?ps j = rep ps j" if "j < length ps" for j
      using rep_redirect [OF less.prems(1,2) r _ _ that] less.prems(3) ne rep_idem by metis
    have ok: "parents_ok ?ps"
      using less.prems(1,2) r by (auto simp: parents_ok_def nth_list_update)
    have next_rep: "unat root = rep ?ps (unat ?next)"
      using lt less.prems(2,3) reps [of "unat ?next"] by (simp add: rep.simps [of ps ?i])
    from less.hyps [OF lt ok] lt less.prems(2) next_rep obtain qs where
      "uf_compress ?ps root ?next = Some qs" "parents_ok qs" "same_reps ?ps qs" by auto
    with False reps show ?thesis by (subst uf_compress.simps) (simp add: Let_def same_reps_def)
  qed
qed

text \<open>
  The interface of a partition store: the canonical element of every index, a lookup that returns it
  and a union that merges two sets under the smaller canonical element.
\<close>

locale partition_store =
  fixes inv :: "'u \<Rightarrow> bool" and size :: "'u \<Rightarrow> nat" and canon :: "'u \<Rightarrow> nat \<Rightarrow> nat"
    and find :: "'u \<Rightarrow> u32 \<Rightarrow> ('e, u32 \<times> 'u) outcome" and find_ro :: "'u \<Rightarrow> u32 \<Rightarrow> ('e, u32) outcome"
    and union :: "'u \<Rightarrow> u32 \<Rightarrow> u32 \<Rightarrow> ('e, u32 \<times> 'u) outcome" and oob :: 'e
  assumes canon_le: "inv u \<Longrightarrow> canon u i \<le> i"
    and canon_idem: "inv u \<Longrightarrow> canon u (canon u i) = canon u i"
    and size_bound: "inv u \<Longrightarrow> size u \<le> 2 ^ 32"
    and find_ok: "inv u \<Longrightarrow> unat x < size u \<Longrightarrow>
      \<exists>u'. find u x = Ok (word_of_nat (canon u (unat x)), u') \<and> inv u' \<and> size u' = size u \<and>
        (\<forall>i < size u. canon u' i = canon u i)"
    and find_oob: "\<not> unat x < size u \<Longrightarrow> find u x = Err oob"
    and find_ro_ok: "inv u \<Longrightarrow> unat x < size u \<Longrightarrow> find_ro u x = Ok (word_of_nat (canon u (unat x)))"
    and union_ok: "inv u \<Longrightarrow> unat x < size u \<Longrightarrow> unat y < size u \<Longrightarrow>
      \<exists>u'. union u x y = Ok (word_of_nat (min (canon u (unat x)) (canon u (unat y))), u') \<and> inv u' \<and> size u' = size u \<and>
        (\<forall>i < size u. canon u' i = (if canon u i = canon u (unat x) \<or> canon u i = canon u (unat y)
           then min (canon u (unat x)) (canon u (unat y)) else canon u i))"
begin

definition same :: "'u \<Rightarrow> nat \<Rightarrow> nat \<Rightarrow> bool" where
  "same u i j \<longleftrightarrow> canon u i = canon u j"

lemma canon_word: "inv u \<Longrightarrow> i < size u \<Longrightarrow> unat (word_of_nat (canon u i) :: u32) = canon u i"
  using canon_le [of u i] size_bound [of u] by (intro unat_of_nat_small) simp

text \<open>A sequence of unions, all in range, computes the equivalence the pairs generate.\<close>

fun unions :: "'u \<Rightarrow> (u32 \<times> u32) list \<Rightarrow> ('e, 'u) outcome" where
  "unions u [] = Ok u"
| "unions u ((x, y) # ps) = obind (union u x y) (\<lambda>(_, u'). unions u' ps)"

definition pair_rel :: "(u32 \<times> u32) list \<Rightarrow> (nat \<times> nat) set" where
  "pair_rel ps = (\<lambda>(x, y). (unat x, unat y)) ` set ps"

lemma unions_ok:
  assumes "inv u" "\<forall>(x, y) \<in> set ps. unat x < size u \<and> unat y < size u"
  shows "\<exists>u'. unions u ps = Ok u' \<and> inv u' \<and> size u' = size u \<and>
    (\<forall>i < size u. \<forall>j < size u. same u' i j \<longleftrightarrow>
       (i, j) \<in> ({(i, j). i < size u \<and> j < size u \<and> same u i j} \<union> pair_rel ps \<union> (pair_rel ps)\<inverse>)\<^sup>*)"
  using assms
proof (induction ps arbitrary: u)
  case Nil
  have "trans {(i, j). i < size u \<and> j < size u \<and> same u i j}" by (auto simp: trans_def same_def)
  then have "{(i, j). i < size u \<and> j < size u \<and> same u i j}\<^sup>* = {(i, j). i < size u \<and> j < size u \<and> same u i j}\<^sup>="
    by (simp only: rtrancl_trancl_reflcl trancl_id)
  with Nil show ?case by (auto simp: pair_rel_def same_def)
next
  case (Cons p ps)
  obtain x y where p: "p = (x, y)" by fastforce
  have xy: "unat x < size u" "unat y < size u" using Cons.prems p by auto
  obtain w u1 where u1: "union u x y = Ok (w, u1)" "inv u1" "size u1 = size u"
    "\<forall>i < size u. canon u1 i = (if canon u i = canon u (unat x) \<or> canon u i = canon u (unat y)
           then min (canon u (unat x)) (canon u (unat y)) else canon u i)"
    using union_ok [OF Cons.prems(1) xy] by blast
  let ?E = "\<lambda>u. {(i, j). i < size u \<and> j < size u \<and> same u i j}"
  obtain u' where u': "unions u1 ps = Ok u'" "inv u'" "size u' = size u1"
    "\<forall>i < size u1. \<forall>j < size u1. same u' i j \<longleftrightarrow> (i, j) \<in> (?E u1 \<union> pair_rel ps \<union> (pair_rel ps)\<inverse>)\<^sup>*"
    using Cons.IH [OF u1(2)] Cons.prems(2) u1(3) by auto
  let ?x = "unat x" and ?y = "unat y"
  let ?S = "?E u \<union> {(?x, ?y), (?y, ?x)}"
  have step: "(i, j) \<in> ?S\<^sup>*" if ij: "(i, j) \<in> ?E u1" for i j
  proof -
    have lt: "i < size u" "j < size u" and s: "canon u1 i = canon u1 j" using ij u1(3) by (auto simp: same_def)
    have to: "canon u k = canon u ?x \<Longrightarrow> k < size u \<Longrightarrow> (k, ?x) \<in> ?S\<^sup>* \<and> (?x, k) \<in> ?S\<^sup>*"
      "canon u k = canon u ?y \<Longrightarrow> k < size u \<Longrightarrow> (k, ?x) \<in> ?S\<^sup>* \<and> (?x, k) \<in> ?S\<^sup>*" for k
    proof -
      assume "canon u k = canon u ?x" "k < size u"
      then show "(k, ?x) \<in> ?S\<^sup>* \<and> (?x, k) \<in> ?S\<^sup>*" using xy by (auto simp: same_def)
    next
      assume "canon u k = canon u ?y" "k < size u"
      then have "(k, ?y) \<in> ?S" "(?y, k) \<in> ?S" using xy by (auto simp: same_def)
      then show "(k, ?x) \<in> ?S\<^sup>* \<and> (?x, k) \<in> ?S\<^sup>*"
        by (meson UnI2 converse_rtrancl_into_rtrancl insertI1 insertI2 r_into_rtrancl)
    qed
    have fix_xy: "canon u k = canon u ?x \<or> canon u k = canon u ?y" if "canon u k = min (canon u ?x) (canon u ?y)" for k
      using that by (auto simp: min_def split: if_splits)
    show ?thesis
    proof (cases "canon u i = canon u ?x \<or> canon u i = canon u ?y")
      case True
      then have "canon u1 i = min (canon u ?x) (canon u ?y)" using u1(4) lt by simp
      then have "canon u j = canon u ?x \<or> canon u j = canon u ?y"
        using s u1(4) lt fix_xy [of j] by (metis (no_types, lifting))
      with True to lt show ?thesis by (meson rtrancl_trans)
    next
      case False
      then have i: "canon u1 i = canon u i" using u1(4) lt by simp
      show ?thesis
      proof (cases "canon u j = canon u ?x \<or> canon u j = canon u ?y")
        case True
        then have "canon u i = min (canon u ?x) (canon u ?y)" using s i u1(4) lt by simp
        with False fix_xy show ?thesis by blast
      next
        case False
        then have "canon u i = canon u j" using s i u1(4) lt by simp
        with lt show ?thesis by (auto simp: same_def)
      qed
    qed
  qed
  have conv: "(i, j) \<in> ?E u1" if "(i, j) \<in> ?S" for i j
    using that u1(3,4) xy by (auto simp: same_def)
  let ?A = "?E u1 \<union> pair_rel ps \<union> (pair_rel ps)\<inverse>" and ?B = "?E u \<union> pair_rel (p # ps) \<union> (pair_rel (p # ps))\<inverse>"
  have B: "?B = ?S \<union> (pair_rel ps \<union> (pair_rel ps)\<inverse>)" by (auto simp: p pair_rel_def)
  have "?A\<^sup>* = ?B\<^sup>*"
  proof
    have S: "?S\<^sup>* \<subseteq> ?B\<^sup>*" unfolding B by (rule rtrancl_mono [OF Un_upper1])
    have "?E u1 \<subseteq> ?S\<^sup>*" using step by (rule subrelI)
    with S have "?E u1 \<subseteq> ?B\<^sup>*" by (rule subset_trans [rotated])
    moreover have "pair_rel ps \<union> (pair_rel ps)\<inverse> \<subseteq> ?B\<^sup>*"
    proof (rule subrelI)
      fix i j assume "(i, j) \<in> pair_rel ps \<union> (pair_rel ps)\<inverse>"
      then have "(i, j) \<in> ?B" unfolding B by (rule UnI2)
      then show "(i, j) \<in> ?B\<^sup>*" by (rule r_into_rtrancl)
    qed
    ultimately have "?A \<subseteq> ?B\<^sup>*" by (simp only: Un_subset_iff)
    then show "?A\<^sup>* \<subseteq> ?B\<^sup>*" by (rule rtrancl_subset_rtrancl)
    have "?B \<subseteq> ?A" unfolding B using conv by blast
    then show "?B\<^sup>* \<subseteq> ?A\<^sup>*" by (rule rtrancl_mono)
  qed
  with u' u1(1,3) show ?case by (auto simp: p)
qed

end

section \<open>Union-find implements it\<close>

definition uf_inv :: "union_find \<Rightarrow> bool" where
  "uf_inv u \<longleftrightarrow> parents_ok (uf_parent u)"

definition uf_canon :: "union_find \<Rightarrow> nat \<Rightarrow> nat" where
  "uf_canon u = rep (uf_parent u)"

lemma uf_rep_word:
  assumes "parents_ok ps" "i < length ps" shows "unat (word_of_nat (rep ps i) :: u32) = rep ps i"
  using assms rep_le [of ps i] by (intro unat_of_nat_small) (simp add: parents_ok_def)

lemma uf_find_ok:
  assumes "uf_inv u" "unat x < uf_len u"
  shows "\<exists>u'. uf_find u x = Ok (word_of_nat (uf_canon u (unat x)), u') \<and> uf_inv u' \<and> uf_len u' = uf_len u \<and>
    (\<forall>i < uf_len u. uf_canon u' i = uf_canon u i)"
proof -
  let ?ps = "uf_parent u"
  have ok: "parents_ok ?ps" "unat x < length ?ps" using assms by (simp_all add: uf_inv_def uf_len_def)
  obtain qs where "uf_compress ?ps (word_of_nat (rep ?ps (unat x))) x = Some qs" "parents_ok qs" "same_reps ?ps qs"
    using uf_compress_eq [OF ok, of "word_of_nat (rep ?ps (unat x))"] uf_rep_word [OF ok] by auto
  then show ?thesis using ok
    by (simp add: uf_find_def uf_root_eq returned_def uf_canon_def uf_inv_def uf_len_def same_reps_def)
qed

lemma link_reps:
  assumes ok: "parents_ok ps" and w: "w < l" "l < length ps" and roots: "rep ps w = w" "rep ps l = l"
  shows "j < length ps \<Longrightarrow> rep (ps[l := word_of_nat w]) j = (if rep ps j = l then w else rep ps j)"
proof (induction j rule: less_induct)
  case (less j)
  have uw: "unat (word_of_nat w :: u32) = w" using w ok by (intro unat_of_nat_small) (simp add: parents_ok_def)
  show ?case
  proof (cases "j = l")
    case True
    have "rep (ps[l := word_of_nat w]) w = w"
      using less.IH [of w] True w roots by simp
    with True w uw roots show ?thesis by (simp add: rep.simps [of "ps[l := word_of_nat w]" l])
  next
    case False
    then have e: "ps[l := word_of_nat w] ! j = ps ! j" by simp
    show ?thesis
    proof (cases "unat (ps ! j) < j")
      case True
      then have "rep (ps[l := word_of_nat w]) (unat (ps ! j)) = (if rep ps (unat (ps ! j)) = l then w else rep ps (unat (ps ! j)))"
        using less by simp
      with True e show ?thesis
        by (simp add: rep.simps [of "ps[l := word_of_nat w]" j] rep.simps [of ps j])
    next
      case nlt: False
      then have "rep ps j = j" by (simp add: rep.simps [of ps j])
      with nlt e False show ?thesis by (simp add: rep.simps [of "ps[l := word_of_nat w]" j])
    qed
  qed
qed

lemma uf_union_ok:
  assumes inv: "uf_inv u" and x: "unat x < uf_len u" and y: "unat y < uf_len u"
  shows "\<exists>u'. uf_union u x y = Ok (word_of_nat (min (uf_canon u (unat x)) (uf_canon u (unat y))), u') \<and> uf_inv u' \<and>
    uf_len u' = uf_len u \<and>
    (\<forall>i < uf_len u. uf_canon u' i = (if uf_canon u i = uf_canon u (unat x) \<or> uf_canon u i = uf_canon u (unat y)
       then min (uf_canon u (unat x)) (uf_canon u (unat y)) else uf_canon u i))"
proof -
  let ?a = "uf_canon u (unat x)" and ?b = "uf_canon u (unat y)"
  obtain u1 where u1: "uf_find u x = Ok (word_of_nat ?a, u1)" "uf_inv u1" "uf_len u1 = uf_len u"
    "\<forall>i < uf_len u. uf_canon u1 i = uf_canon u i" using uf_find_ok [OF inv x] by blast
  then obtain u2 where u2: "uf_find u1 y = Ok (word_of_nat ?b, u2)" "uf_inv u2" "uf_len u2 = uf_len u"
    "\<forall>i < uf_len u. uf_canon u2 i = uf_canon u i" using uf_find_ok [OF u1(2), of y] y by auto
  have ab: "?a < uf_len u" "?b < uf_len u" using x y rep_le by (auto simp: uf_canon_def intro: le_less_trans)
  have len: "uf_len u \<le> 2 ^ 32" using inv by (simp add: uf_inv_def uf_len_def parents_ok_def)
  have un: "unat (word_of_nat ?a :: u32) = ?a" "unat (word_of_nat ?b :: u32) = ?b"
    using ab len by (auto intro!: unat_of_nat_small)
  show ?thesis
  proof (cases "?a = ?b")
    case True
    with u1 u2 show ?thesis by (auto simp: uf_union_def)
  next
    case False
    let ?w = "min ?a ?b" and ?l = "max ?a ?b"
    have ne: "(word_of_nat ?a :: u32) \<noteq> word_of_nat ?b" using False un by metis
    have mm: "min (word_of_nat ?a) (word_of_nat ?b) = (word_of_nat ?w :: u32)"
      "max (word_of_nat ?a) (word_of_nat ?b) = (word_of_nat ?l :: u32)"
      using un by (auto simp: min_def max_def word_le_nat_alt)
    have ul: "unat (word_of_nat ?l :: u32) = ?l" using un by (simp add: max_def)
    let ?qs = "(uf_parent u2)[?l := word_of_nat ?w]"
    have eq: "uf_union u x y = Ok (word_of_nat ?w, u2\<lparr>uf_parent := ?qs\<rparr>)"
      using u1(1) u2(1) ne by (simp add: uf_union_def Let_def mm ul)
    have wl: "?w < ?l" "?l < length (uf_parent u2)" using False ab u2(3) by (auto simp: uf_len_def)
    have ok2: "parents_ok (uf_parent u2)" using u2(2) by (simp add: uf_inv_def)
    have idem: "uf_canon u ?a = ?a" "uf_canon u ?b = ?b" by (simp_all add: uf_canon_def)
    then have roots: "rep (uf_parent u2) ?w = ?w" "rep (uf_parent u2) ?l = ?l"
      using u2(4) ab by (auto simp: uf_canon_def min_def max_def)
    have uw: "unat (word_of_nat ?w :: u32) = ?w" using un by (simp add: min_def)
    have "parents_ok ?qs"
      using ok2 wl uw by (auto simp: parents_ok_def nth_list_update)
    moreover have "rep ?qs i = (if uf_canon u i = ?a \<or> uf_canon u i = ?b then ?w else uf_canon u i)"
      if "i < uf_len u" for i
    proof -
      have i: "i < length (uf_parent u2)" "rep (uf_parent u2) i = uf_canon u i"
        using that u2(3,4) by (simp_all add: uf_len_def uf_canon_def)
      show ?thesis using link_reps [OF ok2 wl roots i(1)] i(2) by (auto simp: min_def max_def)
    qed
    ultimately show ?thesis
      using eq u2(3) by (intro exI [of _ "u2\<lparr>uf_parent := ?qs\<rparr>"]) (simp add: uf_inv_def uf_len_def uf_canon_def)
  qed
qed

interpretation uf: partition_store uf_inv uf_len uf_canon uf_find uf_find_ro uf_union OutOfBounds
proof
  fix u x y i
  show "uf_inv u \<Longrightarrow> uf_canon u i \<le> i" by (simp add: uf_canon_def rep_le)
  show "uf_inv u \<Longrightarrow> uf_canon u (uf_canon u i) = uf_canon u i" by (simp add: uf_canon_def)
  show "uf_inv u \<Longrightarrow> uf_len u \<le> 2 ^ 32" by (simp add: uf_inv_def uf_len_def parents_ok_def)
  show "\<not> unat x < uf_len u \<Longrightarrow> uf_find u x = Err OutOfBounds" by (simp add: uf_find_def uf_len_def)
  show "uf_inv u \<Longrightarrow> unat x < uf_len u \<Longrightarrow> uf_find_ro u x = Ok (word_of_nat (uf_canon u (unat x)))"
    by (simp add: uf_find_ro_def uf_root_eq returned_def uf_inv_def uf_len_def uf_canon_def)
qed (use uf_find_ok uf_union_ok in blast)+

lemma uf_new_inv:
  assumes "n \<le> 2 ^ 32"
  shows "uf_inv (uf_new n)" "uf_len (uf_new n) = n" "i < n \<Longrightarrow> uf_canon (uf_new n) i = i"
proof -
  have nth: "j < n \<Longrightarrow> unat ((map word_of_nat [0 ..< n] :: u32 list) ! j) = j" for j
    using assms unat_of_nat_small [of j, where 'a = 32] by simp
  then show "uf_inv (uf_new n)" using assms by (simp add: uf_inv_def uf_new_def parents_ok_def)
  show "uf_len (uf_new n) = n" by (simp add: uf_len_def uf_new_def)
  show "i < n \<Longrightarrow> uf_canon (uf_new n) i = i"
    using nth [of i] by (simp add: uf_canon_def uf_new_def rep.simps [of _ i])
qed

lemma unions_fresh:
  assumes "n \<le> 2 ^ 32" "\<forall>(x, y) \<in> set ps. unat x < n \<and> unat y < n"
  shows "\<exists>u. uf.unions (uf_new n) ps = Ok u \<and> uf_inv u \<and>
    (\<forall>i < n. \<forall>j < n. uf_canon u i = uf_canon u j \<longleftrightarrow> (i, j) \<in> (uf.pair_rel ps \<union> (uf.pair_rel ps)\<inverse>)\<^sup>*)"
proof -
  note new = uf_new_inv [OF assms(1)]
  obtain u where u: "uf.unions (uf_new n) ps = Ok u" "uf_inv u"
    "\<forall>i < n. \<forall>j < n. uf.same u i j \<longleftrightarrow>
       (i, j) \<in> ({(i, j). i < n \<and> j < n \<and> uf.same (uf_new n) i j} \<union> uf.pair_rel ps \<union> (uf.pair_rel ps)\<inverse>)\<^sup>*"
    using uf.unions_ok [OF new(1), of ps] assms(2) unfolding new(2) by blast
  have "{(i, j). i < n \<and> j < n \<and> uf.same (uf_new n) i j} \<subseteq> Id" using new(3) by (auto simp: uf.same_def)
  then have "({(i, j). i < n \<and> j < n \<and> uf.same (uf_new n) i j} \<union> (uf.pair_rel ps \<union> (uf.pair_rel ps)\<inverse>))\<^sup>*
      = (uf.pair_rel ps \<union> (uf.pair_rel ps)\<inverse>)\<^sup>*"
    by (metis (no_types, lifting) Un_commute rtrancl_Un_subset rtrancl_reflcl rtrancl_subset sup.absorb_iff2 sup.mono sup_ge1 sup_assoc)
  with u show ?thesis by (auto simp: uf.same_def Un_assoc)
qed

text \<open>
  C18: union-find computes exactly the generated equivalence. From a fresh structure, any sequence of
  in-range unions returns normally (the pointer-chasing loops terminate), and afterwards two indices
  have the same representative exactly when they are related by the equivalence closure of the united
  pairs.
\<close>

theorem union_find_closure:
  assumes "n \<le> 2 ^ 32" "\<forall>(x, y) \<in> set ps. unat x < n \<and> unat y < n"
  shows "\<exists>u. uf.unions (uf_new n) ps = Ok u \<and> uf_inv u \<and>
    (\<forall>i < n. \<forall>j < n. uf_canon u i = uf_canon u j \<longleftrightarrow> (i, j) \<in> (uf.pair_rel ps \<union> (uf.pair_rel ps)\<inverse>)\<^sup>*)"
  using unions_fresh [OF assms] .

theorem union_find_closure_witness:
  "\<exists>u. uf.unions (uf_new 4) [(3, 1), (0, 1)] = Ok u \<and> uf_inv u \<and> uf_canon u 3 = uf_canon u 0"
proof -
  have "(3, 0) \<in> (uf.pair_rel [(3, 1), (0, 1)] \<union> (uf.pair_rel [(3, 1), (0, 1)])\<inverse>)\<^sup>*"
    by (rule rtrancl_trans [of 3 1, OF r_into_rtrancl r_into_rtrancl]) (simp_all add: uf.pair_rel_def)
  with union_find_closure [of 4 "[(3, 1), (0, 1)]"] show ?thesis by auto
qed



end
