(* ===== verification/BTree_Map.thy ===== *)
theory BTree_Map
  imports SXLA_Prelude
begin

text \<open>
  \<^verbatim>\<open>std::collections::BTreeMap\<close> as the sources use it: an association list with strictly increasing
  keys. Iteration is in key order.
\<close>

type_synonym ('k, 'v) btree_map = "('k \<times> 'v) list"

definition bt_get :: "('k, 'v) btree_map \<Rightarrow> 'k \<Rightarrow> 'v option" where
  "bt_get m k = map_of m k"

fun bt_insert :: "('k::linorder, 'v) btree_map \<Rightarrow> 'k \<Rightarrow> 'v \<Rightarrow> ('k, 'v) btree_map" where
  "bt_insert [] k v = [(k, v)]"
| "bt_insert ((k', v') # m) k v =
     (if k < k' then (k, v) # (k', v') # m
      else if k = k' then (k, v) # m
      else (k', v') # bt_insert m k v)"

definition bt_remove :: "('k, 'v) btree_map \<Rightarrow> 'k \<Rightarrow> ('k, 'v) btree_map" where
  "bt_remove m k = filter (\<lambda>(k', _). k' \<noteq> k) m"

definition bt_keys :: "('k, 'v) btree_map \<Rightarrow> 'k list" where
  "bt_keys m = map fst m"

definition bt_wf :: "('k::linorder, 'v) btree_map \<Rightarrow> bool" where
  "bt_wf m \<longleftrightarrow> sorted_wrt (<) (map fst m)"

lemma set_bt_insert: "fst ` set (bt_insert m k v) = insert k (fst ` set m)"
  by (induction m k v rule: bt_insert.induct) auto

lemma bt_wf_empty [simp]: "bt_wf []"
  by (simp add: bt_wf_def)

lemma bt_wf_insert [simp]: "bt_wf m \<Longrightarrow> bt_wf (bt_insert m k v)"
proof (induction m k v rule: bt_insert.induct)
  case (2 k' v' m k v)
  then have m: "bt_wf m" "\<forall>x \<in> fst ` set m. k' < x" by (auto simp: bt_wf_def)
  show ?case
  proof (cases k k' rule: linorder_cases)
    case less
    with 2 show ?thesis by (auto simp: bt_wf_def)
  next
    case equal
    with 2 show ?thesis by (auto simp: bt_wf_def)
  next
    case greater
    have "\<forall>x \<in> fst ` set (bt_insert m k v). k' < x" using m(2) greater by (auto simp: set_bt_insert)
    with greater m "2.IH" show ?thesis by (auto simp: bt_wf_def)
  qed
qed (simp add: bt_wf_def)

lemma bt_wf_remove [simp]: "bt_wf m \<Longrightarrow> bt_wf (bt_remove m k)"
  by (induction m) (auto simp: bt_wf_def bt_remove_def)

lemma bt_get_empty [simp]: "bt_get [] k = None"
  by (simp add: bt_get_def)

lemma bt_get_insert: "bt_wf m \<Longrightarrow> bt_get (bt_insert m k v) j = (if j = k then Some v else bt_get m j)"
proof (induction m k v rule: bt_insert.induct)
  case (2 k' v' m k v)
  then have m: "bt_wf m" "\<forall>x \<in> fst ` set m. k' < x" by (auto simp: bt_wf_def)
  show ?case
  proof (cases k k' rule: linorder_cases)
    case greater
    with 2 m show ?thesis by (auto simp: bt_get_def)
  qed (auto simp: bt_get_def)
qed (simp add: bt_get_def)

lemma bt_get_remove: "bt_get (bt_remove m k) j = (if j = k then None else bt_get m j)"
  by (induction m) (auto simp: bt_get_def bt_remove_def)

lemma set_bt_keys: "k \<in> set (bt_keys m) \<longleftrightarrow> bt_get m k \<noteq> None"
  by (auto simp: bt_keys_def bt_get_def map_of_eq_None_iff)

lemma bt_wf_keys: "bt_wf m \<Longrightarrow> sorted (bt_keys m) \<and> distinct (bt_keys m)"
  using strict_sorted_iff [of "map fst m"] by (simp add: bt_wf_def bt_keys_def)

end
