(* ===== verification/EGraph.thy ===== *)
theory EGraph
  imports Union_Find BTree_Map Op_Node
begin

text \<open>
  The e-graph, \<^verbatim>\<open>crates/egraph/src/egraph.rs\<close>: hash-consed e-nodes, their classes over a union-find, and
  the congruence rebuild. An operation returns its result and the new e-graph, an error, or does not
  return; after an error the callers propagate and drop the e-graph, so errors carry none.
\<close>

section \<open>Model\<close>

datatype egraph_error = EgFull | BadClass | EgUnion uf_error | EgDce | TooManyChildren

record enode =
  en_op :: xop
  en_children :: "u32 list"
  en_n_children :: u8
  en_seq :: u32

record egraph =
  eg_nodes :: "enode list"
  eg_node_class :: "u32 list"
  eg_classes :: "(u32, u32 list) btree_map"
  eg_uf :: union_find
  eg_lookup :: "(u64, u32) btree_map"
  eg_next_class :: u32
  eg_capacity :: nat

definition op_congruent :: "xop \<Rightarrow> xop \<Rightarrow> bool" where
  "op_congruent a b = (case (a, b) of (ConstF64 x, ConstF64 y) \<Rightarrow> x = y | _ \<Rightarrow> op_eq a b)"

definition egraph_new :: "nat \<Rightarrow> egraph" where
  "egraph_new node_budget =
     \<lparr>eg_nodes = [], eg_node_class = [], eg_classes = [], eg_uf = uf_new (node_budget * 2),
      eg_lookup = [], eg_next_class = 0, eg_capacity = node_budget\<rparr>"

text \<open>\<^verbatim>\<open>.map_err(EgraphError::Union)\<close>\<close>

fun map_union_err :: "(uf_error, 'a) outcome \<Rightarrow> (egraph_error, 'a) outcome" where
  "map_union_err (Ok x) = Ok x"
| "map_union_err (Err e) = Err (EgUnion e)"
| "map_union_err Diverges = Diverges"

definition node_key :: "xop \<Rightarrow> u32 list \<Rightarrow> u64" where
  "node_key op cs = fnv_finish (foldl write_u32 (op_hash_into op fnv_new) cs)"

definition ok_or :: "'a option \<Rightarrow> 'e \<Rightarrow> ('e, 'a) outcome" where
  "ok_or x e = (case x of Some v \<Rightarrow> Ok v | None \<Rightarrow> Err e)"

definition node_congruent :: "enode \<Rightarrow> xop \<Rightarrow> u32 list \<Rightarrow> nat \<Rightarrow> bool" where
  "node_congruent ex op children live \<longleftrightarrow>
     op_congruent (en_op ex) op \<and> unat (en_n_children ex) = live \<and>
     list_all (\<lambda>k. children ! k = en_children ex ! k) [0 ..< live]"

definition eg_append :: "egraph \<Rightarrow> xop \<Rightarrow> u32 list \<Rightarrow> u64 \<Rightarrow> u32 \<times> egraph" where
  "eg_append g op children key =
     (let seq = word_of_nat (length (eg_nodes g));
          padded = take 4 children @ replicate (4 - length children) 0;
          cls = eg_next_class g;
          node = \<lparr>en_op = op, en_children = padded, en_n_children = word_of_nat (min (length children) 4),
                  en_seq = seq\<rparr>;
          members = (case bt_get (eg_classes g) cls of None \<Rightarrow> [] | Some ms \<Rightarrow> ms)
      in (cls, g\<lparr>eg_next_class := eg_next_class g + 1,
                 eg_nodes := eg_nodes g @ [node],
                 eg_node_class := eg_node_class g @ [cls],
                 eg_lookup := bt_insert (eg_lookup g) key seq,
                 eg_classes := bt_insert (eg_classes g) cls (members @ [seq])\<rparr>))"

definition eg_add :: "egraph \<Rightarrow> xop \<Rightarrow> u32 list \<Rightarrow> (egraph_error, u32 \<times> egraph) outcome" where
  "eg_add g op children =
     (if length (eg_nodes g) \<ge> eg_capacity g then Err EgFull
      else if length children > 4 then Err TooManyChildren
      else
        let key = node_key op (take 4 children) in
        case bt_get (eg_lookup g) key of
          None \<Rightarrow> Ok (eg_append g op children key)
        | Some existing \<Rightarrow>
            obind (ok_or (nth_opt (eg_nodes g) (unat existing)) BadClass) (\<lambda>ex.
              if node_congruent ex op children (length children)
              then obind (ok_or (nth_opt (eg_node_class g) (unat existing)) BadClass) (\<lambda>cls.
                   obind (map_union_err (uf_find_ro (eg_uf g) cls)) (\<lambda>c. Ok (c, g)))
              else Ok (eg_append g op children key)))"

definition eg_merge :: "egraph \<Rightarrow> u32 \<Rightarrow> u32 \<Rightarrow> (egraph_error, u32 \<times> egraph) outcome" where
  "eg_merge g a b =
     obind (map_union_err (uf_find (eg_uf g) a)) (\<lambda>(ca, uf1).
     obind (map_union_err (uf_find uf1 b)) (\<lambda>(cb, uf2).
     obind (map_union_err (uf_union uf2 ca cb)) (\<lambda>(winner, uf3).
       let loser = (if winner = ca then cb else ca);
           classes =
             (case bt_get (eg_classes g) loser of
                None \<Rightarrow> eg_classes g
              | Some members \<Rightarrow>
                  let cl = bt_remove (eg_classes g) loser;
                      entry = (case bt_get cl winner of None \<Rightarrow> [] | Some ms \<Rightarrow> ms)
                  in bt_insert cl winner (sort (entry @ members)))
       in Ok (winner, g\<lparr>eg_uf := uf3, eg_classes := classes\<rparr>))))"

text \<open>The first loop of \<^verbatim>\<open>rebuild\<close>: the children of node \<open>i\<close> at the positions \<open>js\<close> become canonical.\<close>

fun eg_canon_children :: "egraph \<Rightarrow> nat \<Rightarrow> nat list \<Rightarrow> (egraph_error, egraph) outcome" where
  "eg_canon_children g i [] = Ok g"
| "eg_canon_children g i (j # js) =
     (let n = eg_nodes g ! i in
      obind (map_union_err (uf_find (eg_uf g) (en_children n ! j))) (\<lambda>(r, uf').
        eg_canon_children
          (g\<lparr>eg_uf := uf',
             eg_nodes := (eg_nodes g)[i := n\<lparr>en_children := (en_children n)[j := r]\<rparr>]\<rparr>) i js))"

fun eg_canon_nodes :: "egraph \<Rightarrow> nat list \<Rightarrow> (egraph_error, egraph) outcome" where
  "eg_canon_nodes g [] = Ok g"
| "eg_canon_nodes g (i # is) =
     obind (eg_canon_children g i [0 ..< min (unat (en_n_children (eg_nodes g ! i))) 4]) (\<lambda>g'.
       eg_canon_nodes g' is)"

text \<open>The second loop: the new lookup table, the merge count and the e-graph.\<close>

definition eg_rebuild_node ::
  "egraph \<Rightarrow> (u64, u32) btree_map \<Rightarrow> u32 \<Rightarrow> nat \<Rightarrow> (egraph_error, egraph \<times> (u64, u32) btree_map \<times> u32) outcome" where
  "eg_rebuild_node g lk merged i =
     obind (ok_or (nth_opt (eg_nodes g) i) BadClass) (\<lambda>node.
       let live = min (unat (en_n_children node)) 4;
           key = node_key (en_op node) (take live (en_children node))
       in case bt_get lk key of
            None \<Rightarrow> Ok (g, bt_insert lk key (word_of_nat i), merged)
          | Some existing \<Rightarrow>
              obind (ok_or (nth_opt (eg_nodes g) (unat existing)) BadClass) (\<lambda>ex.
                if node_congruent ex (en_op node) (en_children node) live
                then
                  obind (ok_or (nth_opt (eg_node_class g) (unat existing)) BadClass) (\<lambda>a.
                  obind (ok_or (nth_opt (eg_node_class g) i) BadClass) (\<lambda>b.
                  obind (map_union_err (uf_find_ro (eg_uf g) a)) (\<lambda>ca.
                  obind (map_union_err (uf_find_ro (eg_uf g) b)) (\<lambda>cb.
                    if ca \<noteq> cb
                    then obind (eg_merge g ca cb) (\<lambda>(_, g'). Ok (g', lk, merged + 1))
                    else Ok (g, lk, merged)))))
                else Ok (g, lk, merged)))"

fun eg_rebuild_loop ::
  "egraph \<Rightarrow> (u64, u32) btree_map \<Rightarrow> u32 \<Rightarrow> nat list \<Rightarrow>
     (egraph_error, egraph \<times> (u64, u32) btree_map \<times> u32) outcome" where
  "eg_rebuild_loop g lk merged [] = Ok (g, lk, merged)"
| "eg_rebuild_loop g lk merged (i # is) =
     obind (eg_rebuild_node g lk merged i) (\<lambda>(g', lk', merged'). eg_rebuild_loop g' lk' merged' is)"

definition eg_rebuild :: "egraph \<Rightarrow> (egraph_error, u32 \<times> egraph) outcome" where
  "eg_rebuild g =
     (let n = length (eg_nodes g) in
      obind (eg_canon_nodes g [0 ..< n]) (\<lambda>g1.
      obind (eg_rebuild_loop g1 [] 0 [0 ..< n]) (\<lambda>(g2, lk, merged).
        Ok (merged, g2\<lparr>eg_lookup := lk\<rparr>))))"

definition eg_canon :: "egraph \<Rightarrow> u32 \<Rightarrow> (egraph_error, u32 \<times> egraph) outcome" where
  "eg_canon g c = obind (map_union_err (uf_find (eg_uf g) c)) (\<lambda>(r, uf'). Ok (r, g\<lparr>eg_uf := uf'\<rparr>))"

definition eg_members :: "egraph \<Rightarrow> u32 \<Rightarrow> egraph_error + u32 list" where
  "eg_members g c = (case bt_get (eg_classes g) c of Some v \<Rightarrow> Inr v | None \<Rightarrow> Inl BadClass)"

definition eg_node :: "egraph \<Rightarrow> u32 \<Rightarrow> egraph_error + enode" where
  "eg_node g x = (case nth_opt (eg_nodes g) (unat x) of Some n \<Rightarrow> Inr n | None \<Rightarrow> Inl BadClass)"

definition eg_node_count :: "egraph \<Rightarrow> nat" where
  "eg_node_count g = length (eg_nodes g)"

definition eg_class_ids :: "egraph \<Rightarrow> u32 list" where
  "eg_class_ids g = bt_keys (eg_classes g)"

section \<open>Invariant\<close>

definition enode_wf :: "nat \<Rightarrow> enode \<Rightarrow> bool" where
  "enode_wf n x \<longleftrightarrow> length (en_children x) = 4 \<and> unat (en_n_children x) \<le> 4 \<and>
     (\<forall>j < unat (en_n_children x). unat (en_children x ! j) < n)"

definition class_members :: "union_find \<Rightarrow> nat \<Rightarrow> nat \<Rightarrow> u32 list" where
  "class_members u n c = map word_of_nat (filter (\<lambda>i. uf_canon u i = c) [0 ..< n])"

text \<open>
  Class ids and node ids run in step, so node \<open>i\<close> was created with class \<open>i\<close>; the table holds exactly
  the canonical classes, each with the ascending list of its nodes.
\<close>

definition classes_ok :: "egraph \<Rightarrow> bool" where
  "classes_ok g \<longleftrightarrow> bt_wf (eg_classes g) \<and>
     (\<forall>c. bt_get (eg_classes g) c =
        (if unat c < length (eg_nodes g) \<and> uf_canon (eg_uf g) (unat c) = unat c
         then Some (class_members (eg_uf g) (length (eg_nodes g)) (unat c)) else None))"

definition eg_inv :: "egraph \<Rightarrow> bool" where
  "eg_inv g \<longleftrightarrow>
     uf_inv (eg_uf g) \<and> uf_len (eg_uf g) = 2 * eg_capacity g \<and> length (eg_nodes g) \<le> eg_capacity g \<and>
     eg_node_class g = map word_of_nat [0 ..< length (eg_nodes g)] \<and>
     eg_next_class g = word_of_nat (length (eg_nodes g)) \<and>
     (\<forall>i. length (eg_nodes g) \<le> i \<and> i < 2 * eg_capacity g \<longrightarrow> uf_canon (eg_uf g) i = i) \<and>
     (\<forall>x \<in> set (eg_nodes g). enode_wf (length (eg_nodes g)) x) \<and>
     bt_wf (eg_lookup g) \<and> (\<forall>k x. bt_get (eg_lookup g) k = Some x \<longrightarrow> unat x < length (eg_nodes g)) \<and>
     classes_ok g"

section \<open>Classes\<close>

lemma word_nat_less:
  "i < 2 ^ 32 \<Longrightarrow> j < 2 ^ 32 \<Longrightarrow> (word_of_nat i :: u32) \<le> word_of_nat j \<longleftrightarrow> i \<le> j"
  by (simp add: word_le_nat_alt unat_of_nat_small)

lemma word_nat_eq:
  "i < 2 ^ 32 \<Longrightarrow> j < 2 ^ 32 \<Longrightarrow> (word_of_nat i :: u32) = word_of_nat j \<longleftrightarrow> i = j"
  by (auto dest!: arg_cong [where f = unat] simp: unat_of_nat_small)

lemma class_members_props:
  assumes "n \<le> 2 ^ 32"
  shows "sorted (class_members u n c)" "distinct (class_members u n c)"
    "set (class_members u n c) = word_of_nat ` {i. i < n \<and> uf_canon u i = c}"
proof -
  have b: "i < 2 ^ 32" if "i \<in> set (filter (\<lambda>i. uf_canon u i = c) [0 ..< n])" for i using that assms by auto
  have "sorted_wrt (\<le>) (filter (\<lambda>i. uf_canon u i = c) [0 ..< n])" by (rule sorted_wrt_filter) simp
  then have "sorted_wrt (\<lambda>i j. (word_of_nat i :: u32) \<le> word_of_nat j) (filter (\<lambda>i. uf_canon u i = c) [0 ..< n])"
    by (rule sorted_wrt_mono_rel [rotated]) (use b in \<open>simp add: word_nat_less\<close>)
  then show "sorted (class_members u n c)" by (simp add: class_members_def sorted_wrt_map)
  have "inj_on (word_of_nat :: nat \<Rightarrow> u32) (set (filter (\<lambda>i. uf_canon u i = c) [0 ..< n]))"
    by (rule inj_onI) (use b word_nat_eq in blast)
  then show "distinct (class_members u n c)" by (simp add: class_members_def distinct_map)
  show "set (class_members u n c) = word_of_nat ` {i. i < n \<and> uf_canon u i = c}" by (auto simp: class_members_def)
qed

lemma class_members_sort:
  assumes n: "n \<le> 2 ^ 32" and xs: "distinct xs" "set xs = word_of_nat ` {i. i < n \<and> uf_canon u i = c}"
  shows "sort xs = class_members u n c"
  by (rule sorted_distinct_set_unique) (use xs class_members_props [OF n] in simp_all)

lemma class_members_cong: "(\<And>i. i < n \<Longrightarrow> uf_canon u i = uf_canon v i) \<Longrightarrow> class_members u n c = class_members v n c"
  unfolding class_members_def by (intro arg_cong [where f = "map _"] filter_cong) auto

text \<open>Replacing the union-find by one with the same representatives changes nothing.\<close>

lemma eg_inv_uf:
  assumes inv: "eg_inv g" and u: "uf_inv u" "uf_len u = uf_len (eg_uf g)" "\<forall>i < uf_len (eg_uf g). uf_canon u i = uf_canon (eg_uf g) i"
  shows "eg_inv (g\<lparr>eg_uf := u\<rparr>)"
proof -
  have n: "length (eg_nodes g) \<le> uf_len (eg_uf g)" using inv by (simp add: eg_inv_def)
  have "class_members u (length (eg_nodes g)) c = class_members (eg_uf g) (length (eg_nodes g)) c" for c
    using u(3) n by (intro class_members_cong) simp
  with u n have "classes_ok (g\<lparr>eg_uf := u\<rparr>)" using inv by (simp add: classes_ok_def eg_inv_def)
  with inv u show ?thesis by (simp add: eg_inv_def)
qed

lemma eg_inv_bound: "eg_inv g \<Longrightarrow> length (eg_nodes g) \<le> 2 ^ 31"
  using uf.size_bound [of "eg_uf g"] by (simp add: eg_inv_def)

section \<open>Merging classes\<close>

definition merge_canon :: "(nat \<Rightarrow> nat) \<Rightarrow> nat \<Rightarrow> nat \<Rightarrow> nat \<Rightarrow> nat" where
  "merge_canon f x y i = (if f i = f x \<or> f i = f y then min (f x) (f y) else f i)"

lemma merged_classes:
  assumes inv: "eg_inv g" and x: "x < length (eg_nodes g)" and y: "y < length (eg_nodes g)"
    and u: "\<forall>i < uf_len (eg_uf g). uf_canon u i = merge_canon (uf_canon (eg_uf g)) x y i"
    and w: "w = word_of_nat (min (uf_canon (eg_uf g) x) (uf_canon (eg_uf g) y))"
    and l: "l = word_of_nat (max (uf_canon (eg_uf g) x) (uf_canon (eg_uf g) y))"
  defines "cl \<equiv> bt_remove (eg_classes g) l"
  shows "\<exists>ms. bt_get (eg_classes g) l = Some ms \<and>
    classes_ok (g\<lparr>eg_uf := u, eg_classes :=
      bt_insert cl w (sort ((case bt_get cl w of None \<Rightarrow> [] | Some es \<Rightarrow> es) @ ms))\<rparr>)"
proof -
  let ?f = "uf_canon (eg_uf g)" and ?n = "length (eg_nodes g)"
  let ?a = "?f x" and ?b = "?f y"
  let ?w = "min ?a ?b" and ?l = "max ?a ?b"
  have uf: "uf_inv (eg_uf g)" "?n \<le> uf_len (eg_uf g)" and cls: "classes_ok g" using inv by (simp_all add: eg_inv_def)
  have n: "?n \<le> 2 ^ 32" using eg_inv_bound [OF inv] by simp
  have idem: "?f ?a = ?a" "?f ?b = ?b" using uf.canon_idem [OF uf(1)] by simp_all
  have lt: "?a < ?n" "?b < ?n" using uf.canon_le [OF uf(1)] x y by (auto intro: le_less_trans)
  then have un: "unat (word_of_nat ?w :: u32) = ?w" "unat (word_of_nat ?l :: u32) = ?l"
    using n by (auto intro!: unat_of_nat_small simp: min_def max_def)
  have wl: "?w < ?n" "?l < ?n" "?f ?w = ?w" "?f ?l = ?l" using lt idem by (simp_all add: min_def max_def)
  have get: "bt_get (eg_classes g) c = (if unat c < ?n \<and> ?f (unat c) = unat c
      then Some (class_members (eg_uf g) ?n (unat c)) else None)" for c
    using cls by (simp add: classes_ok_def)
  have gl: "bt_get (eg_classes g) l = Some (class_members (eg_uf g) ?n ?l)" using wl un get [of l] by (simp add: l)
  let ?es = "case bt_get cl w of None \<Rightarrow> [] | Some es \<Rightarrow> es"
  have es: "?es = (if ?a = ?b then [] else class_members (eg_uf g) ?n ?w)"
    using get [of w] wl un by (auto simp: cl_def bt_get_remove w l word_unat_eq_iff)
  have canon_w: "uf_canon u i = ?w \<longleftrightarrow> ?f i = ?a \<or> ?f i = ?b" if "i < ?n" for i
    using that u uf(2) by (auto simp: merge_canon_def min_def split: if_splits)
  have sorted: "sort (?es @ class_members (eg_uf g) ?n ?l) = class_members u ?n ?w"
  proof (rule class_members_sort [OF n])
    show "distinct (?es @ class_members (eg_uf g) ?n ?l)"
      using class_members_props(2,3) [OF n] n by (auto simp: es min_def max_def word_nat_eq)
    show "set (?es @ class_members (eg_uf g) ?n ?l) = word_of_nat ` {i. i < ?n \<and> uf_canon u i = ?w}"
      using canon_w class_members_props(3) [OF n] by (auto simp: es min_def max_def)
  qed
  have other: "bt_get (bt_insert cl w (class_members u ?n ?w)) c =
      (if unat c < ?n \<and> uf_canon u (unat c) = unat c then Some (class_members u ?n (unat c)) else None)" for c
  proof (cases "unat c = ?w")
    case True
    then have "c = w" by (simp add: w un word_unat_eq_iff)
    have "uf_canon u ?w = ?w" using canon_w [OF wl(1)] wl(3) by (auto simp: min_def)
    with True \<open>c = w\<close> wl(1) cls show ?thesis by (simp add: bt_get_insert cl_def classes_ok_def)
  next
    case False
    then have cw: "c \<noteq> w" using un by (auto simp: w)
    have cl: "c = l \<longleftrightarrow> unat c = ?l" using un by (simp add: l word_unat_eq_iff)
    have u': "uf_canon u i = (if ?f i = ?a \<or> ?f i = ?b then ?w else ?f i)" if "i < ?n" for i
      using that u uf(2) by (simp add: merge_canon_def)
    show ?thesis
    proof (cases "c = l")
      case True
      then have "unat c = ?l" using cl by simp
      then have "uf_canon u (unat c) \<noteq> unat c"
        using u' [of "unat c"] wl False by (auto simp: min_def max_def split: if_splits)
      with True cls cw show ?thesis by (simp add: bt_get_insert cl_def bt_get_remove classes_ok_def)
    next
      case nl: False
      then have ne: "unat c \<noteq> ?l" using cl by simp
      have "class_members u ?n (unat c) = class_members (eg_uf g) ?n (unat c)"
        unfolding class_members_def using u' False ne
        by (intro arg_cong [where f = "map _"] filter_cong) (auto simp: min_def max_def split: if_splits)
      moreover have "uf_canon u (unat c) = unat c \<longleftrightarrow> ?f (unat c) = unat c" if "unat c < ?n"
        using u' [OF that] False ne by (auto simp: min_def max_def split: if_splits)
      ultimately show ?thesis using cls cw nl get [of c] by (auto simp: bt_get_insert cl_def bt_get_remove classes_ok_def)
    qed
  qed
  have "bt_wf (eg_classes g)" using cls by (simp add: classes_ok_def)
  then have "classes_ok (g\<lparr>eg_uf := u, eg_classes := bt_insert cl w (class_members u ?n ?w)\<rparr>)"
    using other by (simp add: classes_ok_def cl_def)
  with gl sorted show ?thesis by simp
qed

lemma eg_merge_ok:
  assumes inv: "eg_inv g" and x: "unat x < length (eg_nodes g)" and y: "unat y < length (eg_nodes g)"
  shows "\<exists>g'. eg_merge g x y = Ok (word_of_nat (min (uf_canon (eg_uf g) (unat x)) (uf_canon (eg_uf g) (unat y))), g') \<and>
    eg_inv g' \<and> eg_nodes g' = eg_nodes g \<and> eg_node_class g' = eg_node_class g \<and> eg_capacity g' = eg_capacity g \<and>
    (\<forall>i < 2 * eg_capacity g. uf_canon (eg_uf g') i = merge_canon (uf_canon (eg_uf g)) (unat x) (unat y) i)"
proof -
  let ?f = "uf_canon (eg_uf g)" and ?x = "unat x" and ?y = "unat y" and ?n = "length (eg_nodes g)"
  let ?w = "word_of_nat (min (?f ?x) (?f ?y)) :: u32" and ?l = "word_of_nat (max (?f ?x) (?f ?y)) :: u32"
  have uf: "uf_inv (eg_uf g)" "uf_len (eg_uf g) = 2 * eg_capacity g" "?n \<le> eg_capacity g"
    using inv by (simp_all add: eg_inv_def)
  have n: "?n \<le> 2 ^ 32" using eg_inv_bound [OF inv] by simp
  have lt: "?f ?x < ?n" "?f ?y < ?n" using uf.canon_le [OF uf(1)] x y by (auto intro: le_less_trans)
  have un: "unat (word_of_nat (?f ?x) :: u32) = ?f ?x" "unat (word_of_nat (?f ?y) :: u32) = ?f ?y"
    using lt n by (auto intro!: unat_of_nat_small)
  obtain u1 where u1: "uf_find (eg_uf g) x = Ok (word_of_nat (?f ?x), u1)" "uf_inv u1" "uf_len u1 = uf_len (eg_uf g)"
    "\<forall>i < uf_len (eg_uf g). uf_canon u1 i = ?f i" using uf.find_ok [OF uf(1), of x] x uf by auto
  obtain u2 where u2: "uf_find u1 y = Ok (word_of_nat (?f ?y), u2)" "uf_inv u2" "uf_len u2 = uf_len (eg_uf g)"
    "\<forall>i < uf_len (eg_uf g). uf_canon u2 i = ?f i" using uf.find_ok [OF u1(2), of y] y uf u1(3,4) by auto
  have c2: "uf_canon u2 (?f ?x) = ?f ?x" "uf_canon u2 (?f ?y) = ?f ?y"
    using u2(4) lt uf uf.canon_idem [OF uf(1)] by simp_all
  have "\<exists>u3. uf_union u2 (word_of_nat (?f ?x)) (word_of_nat (?f ?y)) = Ok (?w, u3) \<and> uf_inv u3 \<and> uf_len u3 = uf_len u2 \<and>
    (\<forall>i < uf_len u2. uf_canon u3 i = merge_canon ?f ?x ?y i)"
    using uf.union_ok [OF u2(2), of "word_of_nat (?f ?x)" "word_of_nat (?f ?y)"] lt uf u2(3,4) un c2
    by (auto simp: merge_canon_def)
  then obtain u3 where u3: "uf_union u2 (word_of_nat (?f ?x)) (word_of_nat (?f ?y)) = Ok (?w, u3)" "uf_inv u3"
    "uf_len u3 = uf_len (eg_uf g)" "\<forall>i < uf_len (eg_uf g). uf_canon u3 i = merge_canon ?f ?x ?y i"
    using u2(3) by auto
  have loser: "(if ?w = word_of_nat (?f ?x) then word_of_nat (?f ?y) else word_of_nat (?f ?x)) = ?l"
    using un by (auto simp: min_def max_def word_unat_eq_iff)
  obtain ms where ms: "bt_get (eg_classes g) ?l = Some ms"
    "classes_ok (g\<lparr>eg_uf := u3, eg_classes := bt_insert (bt_remove (eg_classes g) ?l) ?w
      (sort ((case bt_get (bt_remove (eg_classes g) ?l) ?w of None \<Rightarrow> [] | Some es \<Rightarrow> es) @ ms))\<rparr>)" (is "classes_ok ?g")
    using merged_classes [OF inv x y u3(4) refl refl] by blast
  have eq: "eg_merge g x y = Ok (?w, ?g)"
    using u1(1) u2(1) u3(1) ms(1) by (simp add: eg_merge_def loser Let_def)
  have "uf_canon u3 i = i" if "?n \<le> i" "i < 2 * eg_capacity g" for i
  proof -
    have "?f i = i" using inv that by (simp add: eg_inv_def)
    with that lt u3(4) uf(2) show ?thesis by (simp add: merge_canon_def)
  qed
  with inv u3(2,3) ms(2) have "eg_inv ?g" by (simp add: eg_inv_def)
  with eq u3(4) uf(2) show ?thesis by (intro exI [of _ ?g]) simp
qed

section \<open>Adding nodes\<close>

lemma eg_new_inv: "n \<le> 2 ^ 31 \<Longrightarrow> eg_inv (egraph_new n)"
  using uf_new_inv [of "n * 2"] by (simp add: eg_inv_def egraph_new_def classes_ok_def)

lemma eg_append_inv:
  assumes inv: "eg_inv g" and cap: "length (eg_nodes g) < eg_capacity g"
    and ch: "length children \<le> 4" "\<forall>c \<in> set children. unat c < length (eg_nodes g)"
  shows "eg_inv (snd (eg_append g op children key))"
    "fst (eg_append g op children key) = word_of_nat (length (eg_nodes g))"
proof -
  let ?n = "length (eg_nodes g)" and ?g = "snd (eg_append g op children key)" and ?f = "uf_canon (eg_uf g)"
  have n: "Suc ?n \<le> 2 ^ 31" using cap inv uf.size_bound [of "eg_uf g"] by (simp add: eg_inv_def)
  have un: "unat (word_of_nat ?n :: u32) = ?n" using n by (intro unat_of_nat_small) simp
  have cls: "eg_next_class g = word_of_nat ?n" using inv by (simp add: eg_inv_def)
  have ok: "classes_ok g" "bt_wf (eg_classes g)" using inv by (simp_all add: eg_inv_def classes_ok_def)
  have fresh: "bt_get (eg_classes g) (word_of_nat ?n) = None" using ok(1) un by (simp add: classes_ok_def)
  have fn: "?f ?n = ?n" using inv cap by (simp add: eg_inv_def)
  have flt: "?f i \<noteq> ?n" if "i < ?n" for i using uf.canon_le [of "eg_uf g" i] inv that by (auto simp: eg_inv_def)
  let ?node = "\<lparr>en_op = op, en_children = take 4 children @ replicate (4 - length children) 0,
      en_n_children = word_of_nat (min (length children) 4), en_seq = word_of_nat ?n\<rparr>"
  have g': "?g = g\<lparr>eg_next_class := word_of_nat (Suc ?n), eg_nodes := eg_nodes g @ [?node],
      eg_node_class := eg_node_class g @ [word_of_nat ?n], eg_lookup := bt_insert (eg_lookup g) key (word_of_nat ?n),
      eg_classes := bt_insert (eg_classes g) (word_of_nat ?n) [word_of_nat ?n]\<rparr>"
    using fresh by (simp add: eg_append_def Let_def cls)
  show "fst (eg_append g op children key) = word_of_nat ?n" by (simp add: eg_append_def Let_def cls)
  have live: "unat (en_n_children ?node) = length children" using ch(1) unat_of_nat_small [of "length children", where 'a = 8] by simp
  have node: "enode_wf (Suc ?n) ?node"
    using ch live by (auto simp: enode_wf_def nth_append dest!: nth_mem [of _ children] intro: less_SucI)
  have old: "enode_wf (Suc ?n) z" if "z \<in> set (eg_nodes g)" for z
    using that inv by (auto simp: eg_inv_def enode_wf_def intro: less_SucI)
  have mem: "class_members (eg_uf g) (Suc ?n) c = (if c = ?n then [word_of_nat ?n] else class_members (eg_uf g) ?n c)" for c
    using fn flt by (auto simp: class_members_def filter_empty_conv)
  have "bt_get (eg_classes ?g) c = (if unat c < Suc ?n \<and> ?f (unat c) = unat c
      then Some (class_members (eg_uf g) (Suc ?n) (unat c)) else None)" for c
  proof (cases "unat c = ?n")
    case True
    then have "c = word_of_nat ?n" using un by (simp add: word_unat_eq_iff)
    then show ?thesis using True fn mem [of ?n] ok by (simp add: g' bt_get_insert)
  next
    case False
    then have "c \<noteq> word_of_nat ?n" using un by auto
    with False show ?thesis using ok mem [of "unat c"] by (simp add: g' bt_get_insert classes_ok_def less_Suc_eq)
  qed
  then have "classes_ok ?g" using ok(2) by (simp add: classes_ok_def) (simp add: g')
  moreover have "bt_get (eg_lookup ?g) k = Some z \<Longrightarrow> unat z < Suc ?n" for k z
    using inv un by (auto simp: g' bt_get_insert eg_inv_def split: if_splits intro: less_SucI)
  ultimately show "eg_inv ?g"
    using inv cap node old unfolding eg_inv_def by (auto simp: g')
qed

lemma eg_inv_class:
  assumes inv: "eg_inv g" and i: "i < length (eg_nodes g)"
  shows "nth_opt (eg_node_class g) i = Some (word_of_nat i)" "unat (word_of_nat i :: u32) = i"
    "uf_find_ro (eg_uf g) (word_of_nat i) = Ok (word_of_nat (uf_canon (eg_uf g) i))"
proof -
  have n: "length (eg_nodes g) \<le> 2 ^ 31" by (rule eg_inv_bound [OF inv])
  show un: "unat (word_of_nat i :: u32) = i" using i n by (intro unat_of_nat_small) simp
  show "nth_opt (eg_node_class g) i = Some (word_of_nat i)" using inv i by (simp add: eg_inv_def nth_opt_def)
  show "uf_find_ro (eg_uf g) (word_of_nat i) = Ok (word_of_nat (uf_canon (eg_uf g) i))"
    using uf.find_ro_ok [of "eg_uf g" "word_of_nat i"] un inv i by (simp add: eg_inv_def)
qed

lemma eg_add_cases:
  assumes inv: "eg_inv g" and cap: "length (eg_nodes g) < eg_capacity g"
    and ch: "length children \<le> 4" "\<forall>c \<in> set children. unat c < length (eg_nodes g)"
  shows "(\<exists>i < length (eg_nodes g). node_congruent (eg_nodes g ! i) op children (length children) \<and>
       eg_add g op children = Ok (word_of_nat (uf_canon (eg_uf g) i), g)) \<or>
    eg_add g op children = Ok (eg_append g op children (node_key op children))"
proof (cases "bt_get (eg_lookup g) (node_key op children)")
  case None
  then show ?thesis using cap ch(1) by (simp add: eg_add_def Let_def)
next
  case (Some z)
  then have z: "unat z < length (eg_nodes g)" using inv by (simp add: eg_inv_def)
  then have nz: "nth_opt (eg_nodes g) (unat z) = Some (eg_nodes g ! unat z)" by (simp add: nth_opt_def)
  show ?thesis
  proof (cases "node_congruent (eg_nodes g ! unat z) op children (length children)")
    case True
    then have "eg_add g op children = Ok (word_of_nat (uf_canon (eg_uf g) (unat z)), g)"
      using Some cap ch(1) nz eg_inv_class [OF inv z] by (simp add: eg_add_def Let_def ok_or_def)
    with True z show ?thesis by blast
  next
    case False
    then show ?thesis using Some cap ch(1) nz by (simp add: eg_add_def Let_def ok_or_def)
  qed
qed

end
