(* ===== verification/EGraph_Rebuild.thy ===== *)
theory EGraph_Rebuild
  imports EGraph
begin

text \<open>
  Contracts of the e-graph operations: hash-consing insertion, class merging, and the congruence
  rebuild, which returns normally, keeps the e-graph invariant and only merges classes that the
  congruence closure already identifies.
\<close>

section \<open>Canonicalising children\<close>

text \<open>\<open>g'\<close> has the partition of \<open>g\<close> and the same nodes up to equivalent children.\<close>

definition same_terms :: "egraph \<Rightarrow> egraph \<Rightarrow> bool" where
  "same_terms g g' \<longleftrightarrow> eg_inv g' \<and> eg_capacity g' = eg_capacity g \<and> length (eg_nodes g') = length (eg_nodes g) \<and>
     (\<forall>i < 2 * eg_capacity g. uf_canon (eg_uf g') i = uf_canon (eg_uf g) i) \<and>
     (\<forall>i < length (eg_nodes g). let x = eg_nodes g ! i; y = eg_nodes g' ! i in
        en_op y = en_op x \<and> en_n_children y = en_n_children x \<and> en_seq y = en_seq x \<and>
        (\<forall>j < unat (en_n_children x). uf_canon (eg_uf g) (unat (en_children y ! j)) = uf_canon (eg_uf g) (unat (en_children x ! j))))"

lemma same_terms_refl: "eg_inv g \<Longrightarrow> same_terms g g"
  by (simp add: same_terms_def Let_def)

lemma same_termsD:
  assumes "same_terms g h"
  shows "eg_inv h" "eg_capacity h = eg_capacity g" "length (eg_nodes h) = length (eg_nodes g)"
    "i < 2 * eg_capacity g \<Longrightarrow> uf_canon (eg_uf h) i = uf_canon (eg_uf g) i"
    "i < length (eg_nodes g) \<Longrightarrow> en_op (eg_nodes h ! i) = en_op (eg_nodes g ! i)"
    "i < length (eg_nodes g) \<Longrightarrow> en_n_children (eg_nodes h ! i) = en_n_children (eg_nodes g ! i)"
    "i < length (eg_nodes g) \<Longrightarrow> j < unat (en_n_children (eg_nodes g ! i)) \<Longrightarrow>
       uf_canon (eg_uf g) (unat (en_children (eg_nodes h ! i) ! j)) = uf_canon (eg_uf g) (unat (en_children (eg_nodes g ! i) ! j))"
    "i < length (eg_nodes g) \<Longrightarrow> en_seq (eg_nodes h ! i) = en_seq (eg_nodes g ! i)"
  using assms unfolding same_terms_def Let_def by blast+

lemma eg_inv_node:
  assumes "eg_inv g" "i < length (eg_nodes g)"
  shows "enode_wf (length (eg_nodes g)) (eg_nodes g ! i)"
  using assms by (simp add: eg_inv_def)

lemma same_terms_trans:
  assumes g: "eg_inv g" and gh: "same_terms g h" and hk: "same_terms h k"
  shows "same_terms g k"
proof -
  note a = same_termsD [OF gh] and b = same_termsD [OF hk]
  have cap: "length (eg_nodes g) \<le> eg_capacity g" using g by (simp add: eg_inv_def)
  have ch: "uf_canon (eg_uf g) (unat (en_children (eg_nodes k ! i) ! j)) = uf_canon (eg_uf g) (unat (en_children (eg_nodes g ! i) ! j))"
    if i: "i < length (eg_nodes g)" and j: "j < unat (en_n_children (eg_nodes g ! i))" for i j
  proof -
    have ih: "i < length (eg_nodes h)" "j < unat (en_n_children (eg_nodes h ! i))" using i j a(3) a(6) [OF i] by simp_all
    have ik: "i < length (eg_nodes k)" "j < unat (en_n_children (eg_nodes k ! i))" using ih b(3) b(6) [OF ih(1)] by simp_all
    have lt: "unat (en_children (eg_nodes k ! i) ! j) < 2 * eg_capacity g" "unat (en_children (eg_nodes h ! i) ! j) < 2 * eg_capacity g"
      using eg_inv_node [OF b(1) ik(1)] eg_inv_node [OF a(1) ih(1)] ik ih cap a(3) b(3) by (fastforce simp: enode_wf_def)+
    show ?thesis
      using b(7) [OF ih] a(4) [OF lt(1)] a(4) [OF lt(2)] a(7) [OF i j] by simp
  qed
  show ?thesis unfolding same_terms_def Let_def
    using a b ch by simp
qed

lemma eg_canon_children_ok:
  assumes "eg_inv g" "i < length (eg_nodes g)" "set js \<subseteq> {..<unat (en_n_children (eg_nodes g ! i))}"
  shows "\<exists>g'. eg_canon_children g i js = Ok g' \<and> same_terms g g'"
  using assms
proof (induction js arbitrary: g)
  case Nil
  then show ?case by (simp add: same_terms_refl)
next
  case (Cons j js)
  let ?x = "eg_nodes g ! i" and ?f = "uf_canon (eg_uf g)" and ?n = "length (eg_nodes g)"
  have wf: "enode_wf ?n ?x" by (rule eg_inv_node [OF Cons.prems(1,2)])
  have j: "j < unat (en_n_children ?x)" using Cons.prems(3) by simp
  then have c: "unat (en_children ?x ! j) < ?n" "j < 4" using wf by (auto simp: enode_wf_def)
  have uf: "uf_inv (eg_uf g)" "uf_len (eg_uf g) = 2 * eg_capacity g" "?n \<le> eg_capacity g"
    using Cons.prems(1) by (simp_all add: eg_inv_def)
  obtain u where u: "uf_find (eg_uf g) (en_children ?x ! j) = Ok (word_of_nat (?f (unat (en_children ?x ! j))), u)"
    "uf_inv u" "uf_len u = uf_len (eg_uf g)" "\<forall>i < uf_len (eg_uf g). uf_canon u i = ?f i"
    using uf.find_ok [OF uf(1), of "en_children ?x ! j"] c uf by auto
  let ?r = "word_of_nat (?f (unat (en_children ?x ! j))) :: u32"
  have rlt: "?f (unat (en_children ?x ! j)) < ?n" using uf.canon_le [OF uf(1)] c by (auto intro: le_less_trans)
  then have r: "unat ?r = ?f (unat (en_children ?x ! j))"
    using eg_inv_bound [OF Cons.prems(1)] by (intro unat_of_nat_small) simp
  let ?y = "?x\<lparr>en_children := (en_children ?x)[j := ?r]\<rparr>"
  let ?g = "g\<lparr>eg_uf := u, eg_nodes := (eg_nodes g)[i := ?y]\<rparr>"
  have y: "enode_wf ?n ?y" using wf r rlt c(2) by (auto simp: enode_wf_def nth_list_update)
  have "eg_inv (g\<lparr>eg_uf := u\<rparr>)" by (rule eg_inv_uf [OF Cons.prems(1) u(2,3,4)])
  then have inv: "eg_inv ?g"
    using y by (auto simp: eg_inv_def classes_ok_def dest!: set_update_subset_insert [THEN subsetD])
  have st: "same_terms g ?g" unfolding same_terms_def Let_def
  proof (intro conjI allI impI)
    fix p q assume p: "p < ?n" and q: "q < unat (en_n_children (eg_nodes g ! p))"
    show "?f (unat (en_children (eg_nodes ?g ! p) ! q)) = ?f (unat (en_children (eg_nodes g ! p) ! q))"
      using Cons.prems(2) r uf.canon_idem [OF uf(1)] wf c(2)
      by (cases "p = i"; cases "q = j") (simp_all add: enode_wf_def)
  qed (use inv u(4) uf(2) Cons.prems(2) in \<open>auto simp: nth_list_update\<close>)
  have "set js \<subseteq> {..<unat (en_n_children (eg_nodes ?g ! i))}" using Cons.prems by simp
  with Cons.IH [OF inv] Cons.prems(2) obtain g' where g': "eg_canon_children ?g i js = Ok g'" "same_terms ?g g'" by auto
  have "eg_canon_children g i (j # js) = Ok g'" using u(1) g'(1) by (simp add: Let_def)
  with same_terms_trans [OF Cons.prems(1) st g'(2)] show ?case by blast
qed

lemma eg_canon_nodes_ok:
  assumes "eg_inv g" "set is \<subseteq> {..<length (eg_nodes g)}"
  shows "\<exists>g'. eg_canon_nodes g is = Ok g' \<and> same_terms g g'"
  using assms
proof (induction "is" arbitrary: g)
  case Nil
  then show ?case by (simp add: same_terms_refl)
next
  case (Cons i "is")
  have i: "i < length (eg_nodes g)" using Cons.prems by simp
  have "set [0 ..< min (unat (en_n_children (eg_nodes g ! i))) 4] \<subseteq> {..<unat (en_n_children (eg_nodes g ! i))}" by auto
  from eg_canon_children_ok [OF Cons.prems(1) i this] obtain h where
    h: "eg_canon_children g i [0 ..< min (unat (en_n_children (eg_nodes g ! i))) 4] = Ok h" "same_terms g h" by blast
  have "set is \<subseteq> {..<length (eg_nodes h)}" using Cons.prems(2) same_termsD(3) [OF h(2)] by simp
  with Cons.IH [OF same_termsD(1) [OF h(2)]] obtain g' where g': "eg_canon_nodes h is = Ok g'" "same_terms h g'" by blast
  with h(1) same_terms_trans [OF Cons.prems(1) h(2) g'(2)] show ?case by auto
qed

section \<open>Merging congruent nodes\<close>

text \<open>An equivalence on node ids that the terms of \<open>g\<close> force: it contains the partition of \<open>g\<close> and is closed under congruence.\<close>

definition congruence_on :: "egraph \<Rightarrow> (nat \<Rightarrow> nat \<Rightarrow> bool) \<Rightarrow> bool" where
  "congruence_on g R \<longleftrightarrow> equivp R \<and>
     (\<forall>i < length (eg_nodes g). \<forall>j < length (eg_nodes g). uf_canon (eg_uf g) i = uf_canon (eg_uf g) j \<longrightarrow> R i j) \<and>
     (\<forall>i < length (eg_nodes g). \<forall>j < length (eg_nodes g). let x = eg_nodes g ! i; y = eg_nodes g ! j in
        op_congruent (en_op x) (en_op y) \<and> en_n_children x = en_n_children y \<and>
        (\<forall>k < unat (en_n_children x). R (unat (en_children x ! k)) (unat (en_children y ! k))) \<longrightarrow> R i j)"

definition partition_within :: "egraph \<Rightarrow> (nat \<Rightarrow> nat \<Rightarrow> bool) \<Rightarrow> bool" where
  "partition_within g R \<longleftrightarrow>
     (\<forall>i < length (eg_nodes g). \<forall>j < length (eg_nodes g). uf_canon (eg_uf g) i = uf_canon (eg_uf g) j \<longrightarrow> R i j)"

lemma congruence_on_same_terms:
  assumes g: "eg_inv g" and R: "congruence_on g R" and gh: "same_terms g h"
  shows "congruence_on h R"
proof -
  note a = same_termsD [OF gh]
  have eqv: "equivp R" and part: "partition_within g R" using R by (simp_all add: congruence_on_def partition_within_def)
  have cap: "length (eg_nodes g) \<le> eg_capacity g" using g by (simp add: eg_inv_def)
  have child: "R (unat (en_children (eg_nodes g ! i) ! k)) (unat (en_children (eg_nodes h ! i) ! k))"
    if i: "i < length (eg_nodes g)" and k: "k < unat (en_n_children (eg_nodes g ! i))" for i k
  proof -
    have ih: "i < length (eg_nodes h)" "k < unat (en_n_children (eg_nodes h ! i))" using i k a(3) a(6) [OF i] by simp_all
    have "unat (en_children (eg_nodes h ! i) ! k) < length (eg_nodes g)" "unat (en_children (eg_nodes g ! i) ! k) < length (eg_nodes g)"
      using eg_inv_node [OF a(1) ih(1)] eg_inv_node [OF g i] ih k a(3) by (auto simp: enode_wf_def)
    with a(7) [OF i k] part show ?thesis by (simp add: partition_within_def)
  qed
  have "R i j" if i: "i < length (eg_nodes g)" and j: "j < length (eg_nodes g)"
    and c: "op_congruent (en_op (eg_nodes h ! i)) (en_op (eg_nodes h ! j))"
      "en_n_children (eg_nodes h ! i) = en_n_children (eg_nodes h ! j)"
      "\<forall>k < unat (en_n_children (eg_nodes h ! i)). R (unat (en_children (eg_nodes h ! i) ! k)) (unat (en_children (eg_nodes h ! j) ! k))" for i j
  proof -
    have "R (unat (en_children (eg_nodes g ! i) ! k)) (unat (en_children (eg_nodes g ! j) ! k))"
      if k: "k < unat (en_n_children (eg_nodes g ! i))" for k
    proof -
      have kj: "k < unat (en_n_children (eg_nodes g ! j))" using k c(2) a(6) [OF i] a(6) [OF j] by simp
      have "R (unat (en_children (eg_nodes h ! i) ! k)) (unat (en_children (eg_nodes h ! j) ! k))"
        using c(3) k a(6) [OF i] by simp
      then show ?thesis
        by (rule equivp_transp [OF eqv equivp_transp [OF eqv child [OF i k]] equivp_symp [OF eqv child [OF j kj]]])
    qed
    with R i j c a(5,6) show ?thesis unfolding congruence_on_def Let_def by simp
  qed
  note cong = this
  have "R i j" if ij: "i < length (eg_nodes g)" "j < length (eg_nodes g)" and c: "uf_canon (eg_uf h) i = uf_canon (eg_uf h) j" for i j
  proof -
    have "i < 2 * eg_capacity g" "j < 2 * eg_capacity g" using ij cap by simp_all
    then show ?thesis using c a(4) part ij by (simp add: partition_within_def)
  qed
  with eqv cong show ?thesis unfolding congruence_on_def Let_def a(3) by blast
qed

lemma merge_within:
  assumes R: "equivp R" and part: "partition_within g R" and xy: "x < length (eg_nodes g)" "y < length (eg_nodes g)" "R x y"
    and h: "length (eg_nodes h) = length (eg_nodes g)"
      "\<forall>i < length (eg_nodes g). uf_canon (eg_uf h) i = merge_canon (uf_canon (eg_uf g)) x y i"
  shows "partition_within h R"
  unfolding partition_within_def h(1)
proof (intro allI impI)
  fix i j assume ij: "i < length (eg_nodes g)" "j < length (eg_nodes g)" "uf_canon (eg_uf h) i = uf_canon (eg_uf h) j"
  let ?f = "uf_canon (eg_uf g)"
  have near: "R k x" if "k < length (eg_nodes g)" "?f k = ?f x \<or> ?f k = ?f y" for k
    using that part xy R unfolding partition_within_def by (metis equivp_symp equivp_transp)
  consider "?f i = ?f j" | "?f i = ?f x \<or> ?f i = ?f y" "?f j = ?f x \<or> ?f j = ?f y"
    using ij h(2) by (auto simp: merge_canon_def min_def split: if_splits)
  then show "R i j"
  proof cases
    case 1
    then show ?thesis using part ij by (simp add: partition_within_def)
  next
    case 2
    then show ?thesis using near ij R by (metis equivp_symp equivp_transp)
  qed
qed

text \<open>The state of the second loop: the terms stay as \<open>h\<close> left them, the partition only gets coarser.\<close>

definition coarsens :: "egraph \<Rightarrow> egraph \<Rightarrow> bool" where
  "coarsens g h \<longleftrightarrow> eg_inv h \<and> eg_nodes h = eg_nodes g \<and> eg_capacity h = eg_capacity g \<and>
     (\<forall>i < 2 * eg_capacity g. \<forall>j < 2 * eg_capacity g.
        uf_canon (eg_uf g) i = uf_canon (eg_uf g) j \<longrightarrow> uf_canon (eg_uf h) i = uf_canon (eg_uf h) j)"

lemma coarsens_trans:
  assumes "coarsens g h" "coarsens h k" shows "coarsens g k"
proof -
  have c: "eg_capacity h = eg_capacity g" "eg_nodes h = eg_nodes g" using assms(1) by (simp_all add: coarsens_def)
  show ?thesis using assms unfolding coarsens_def c by blast
qed

lemma rebuild_node_ok:
  assumes inv: "eg_inv g" and i: "i < length (eg_nodes g)"
    and lk: "bt_wf lk" "\<forall>k z. bt_get lk k = Some z \<longrightarrow> unat z < length (eg_nodes g)"
  shows "\<exists>g' lk' m'. eg_rebuild_node g lk m i = Ok (g', lk', m') \<and> coarsens g g' \<and> bt_wf lk' \<and>
    (\<forall>k z. bt_get lk' k = Some z \<longrightarrow> unat z < length (eg_nodes g)) \<and>
    (\<forall>R. congruence_on g R \<longrightarrow> partition_within g R \<longrightarrow> partition_within g' R)"
proof -
  let ?x = "eg_nodes g ! i"
  let ?live = "min (unat (en_n_children ?x)) 4"
  let ?key = "node_key (en_op ?x) (take ?live (en_children ?x))"
  have refl: "coarsens g g" using inv by (simp add: coarsens_def)
  have nx: "nth_opt (eg_nodes g) i = Some ?x" using i by (simp add: nth_opt_def)
  show ?thesis
  proof (cases "bt_get lk ?key")
    case None
    then have eq: "eg_rebuild_node g lk m i = Ok (g, bt_insert lk ?key (word_of_nat i), m)"
      using nx by (simp add: eg_rebuild_node_def ok_or_def Let_def)
    have "\<forall>k z. bt_get (bt_insert lk ?key (word_of_nat i)) k = Some z \<longrightarrow> unat z < length (eg_nodes g)"
      using lk eg_inv_class(2) [OF inv i] i by (simp add: bt_get_insert)
    with eq refl lk(1) show ?thesis by (intro exI conjI) (assumption | simp)+
  next
    case (Some z)
    then have z: "unat z < length (eg_nodes g)" using lk(2) by blast
    let ?e = "eg_nodes g ! unat z"
    have ne: "nth_opt (eg_nodes g) (unat z) = Some ?e" using z by (simp add: nth_opt_def)
    have zw: "word_of_nat (unat z) = z" by simp
    let ?f = "uf_canon (eg_uf g)"
    show ?thesis
    proof (cases "node_congruent ?e (en_op ?x) (en_children ?x) ?live \<and> (word_of_nat (?f (unat z)) :: u32) \<noteq> word_of_nat (?f i)")
      case False
      then have eq: "eg_rebuild_node g lk m i = Ok (g, lk, m)"
        using nx Some ne eg_inv_class [OF inv z] eg_inv_class [OF inv i]
        by (auto simp: eg_rebuild_node_def ok_or_def Let_def)
      with refl lk show ?thesis by blast
    next
      case True
      have cz: "?f (unat z) < length (eg_nodes g)" "?f i < length (eg_nodes g)"
        using uf.canon_le [of "eg_uf g"] inv z i by (auto simp: eg_inv_def intro: le_less_trans)
      note un = eg_inv_class(2) [OF inv cz(1)] eg_inv_class(2) [OF inv cz(2)]
      obtain w g' where g': "eg_merge g (word_of_nat (?f (unat z))) (word_of_nat (?f i)) = Ok (w, g')" "eg_inv g'"
        "eg_nodes g' = eg_nodes g" "eg_capacity g' = eg_capacity g"
        "\<forall>p < 2 * eg_capacity g. uf_canon (eg_uf g') p = merge_canon ?f (?f (unat z)) (?f i) p"
        using eg_merge_ok [OF inv, of "word_of_nat (?f (unat z))" "word_of_nat (?f i)"] cz un by auto
      have eq: "eg_rebuild_node g lk m i = Ok (g', lk, m + 1)"
        using True nx Some ne eg_inv_class [OF inv z] eg_inv_class [OF inv i] g'(1)
        by (simp add: eg_rebuild_node_def ok_or_def Let_def)
      have idem: "?f (?f p) = ?f p" for p using uf.canon_idem [of "eg_uf g"] inv by (simp add: eg_inv_def)
      have mc: "merge_canon ?f (?f (unat z)) (?f i) = merge_canon ?f (unat z) i"
        by (simp add: merge_canon_def fun_eq_iff idem)
      have coarse: "coarsens g g'" using g' by (simp add: coarsens_def merge_canon_def)
      have within: "partition_within g' R" if R: "congruence_on g R" "partition_within g R" for R
      proof -
        have wf: "enode_wf (length (eg_nodes g)) ?x" by (rule eg_inv_node [OF inv i])
        have live: "?live = unat (en_n_children ?x)" using wf by (simp add: enode_wf_def)
        have n: "en_n_children ?e = en_n_children ?x"
          using True live by (simp add: node_congruent_def word_unat_eq_iff)
        have "en_children ?e ! k = en_children ?x ! k" if "k < unat (en_n_children ?x)" for k
          using True live that by (auto simp: node_congruent_def list_all_iff)
        moreover have eqv: "equivp R" using R by (simp add: congruence_on_def)
        ultimately have ch: "\<forall>k < unat (en_n_children ?e). R (unat (en_children ?e ! k)) (unat (en_children ?x ! k))"
          using n by (simp add: equivp_reflp)
        moreover have "op_congruent (en_op ?e) (en_op ?x)" using True by (simp add: node_congruent_def)
        ultimately have "R (unat z) i"
          using R(1) z i n unfolding congruence_on_def Let_def by blast
        moreover have "length (eg_nodes g) \<le> eg_capacity g" using inv by (simp add: eg_inv_def)
        then have "\<forall>p < length (eg_nodes g). uf_canon (eg_uf g') p = merge_canon ?f (unat z) i p"
          using g'(5) unfolding mc by simp
        ultimately show ?thesis using merge_within [OF eqv R(2) z i] g'(3) by simp
      qed
      show ?thesis using eq coarse within lk by blast
    qed
  qed
qed

lemma congruence_on_coarsens:
  assumes g: "congruence_on g R" and h: "coarsens g h" and w: "partition_within h R"
  shows "congruence_on h R"
  using g h w unfolding congruence_on_def coarsens_def partition_within_def by simp

lemma rebuild_loop_ok:
  assumes "eg_inv g" "set is \<subseteq> {..<length (eg_nodes g)}" "bt_wf lk"
    "\<forall>k z. bt_get lk k = Some z \<longrightarrow> unat z < length (eg_nodes g)"
  shows "\<exists>g' lk' m'. eg_rebuild_loop g lk m is = Ok (g', lk', m') \<and> coarsens g g' \<and> bt_wf lk' \<and>
    (\<forall>k z. bt_get lk' k = Some z \<longrightarrow> unat z < length (eg_nodes g)) \<and>
    (\<forall>R. congruence_on g R \<longrightarrow> partition_within g' R)"
  using assms
proof (induction "is" arbitrary: g lk m)
  case Nil
  then show ?case by (auto simp: coarsens_def congruence_on_def partition_within_def)
next
  case (Cons i "is")
  have i: "i < length (eg_nodes g)" using Cons.prems by simp
  obtain h lk1 m1 where h: "eg_rebuild_node g lk m i = Ok (h, lk1, m1)" "coarsens g h" "bt_wf lk1"
    "\<forall>k z. bt_get lk1 k = Some z \<longrightarrow> unat z < length (eg_nodes g)"
    "\<forall>R. congruence_on g R \<longrightarrow> partition_within g R \<longrightarrow> partition_within h R"
    using rebuild_node_ok [OF Cons.prems(1) i Cons.prems(3,4)] by blast
  have hn: "eg_inv h" "eg_nodes h = eg_nodes g" using h(2) by (simp_all add: coarsens_def)
  obtain g' lk' m' where g': "eg_rebuild_loop h lk1 m1 is = Ok (g', lk', m')" "coarsens h g'" "bt_wf lk'"
    "\<forall>k z. bt_get lk' k = Some z \<longrightarrow> unat z < length (eg_nodes g)" "\<forall>R. congruence_on h R \<longrightarrow> partition_within g' R"
    using Cons.IH [OF hn(1), of lk1 m1] Cons.prems(2) h(3,4) hn(2) by auto
  have "partition_within g' R" if R: "congruence_on g R" for R
  proof -
    have "partition_within g R" using R by (simp add: congruence_on_def partition_within_def)
    then have "congruence_on h R" using congruence_on_coarsens [OF R h(2)] h(5) R by blast
    with g'(5) show ?thesis by blast
  qed
  with h(1) g' coarsens_trans [OF h(2) g'(2)] show ?case by (intro exI [of _ g'] exI [of _ lk'] exI [of _ m']) simp
qed

section \<open>Contracts\<close>

text \<open>What one rebuild does: the terms stay the same up to equivalent children, and every identification is forced.\<close>

lemma rebuild_ok:
  assumes "eg_inv g"
  shows "\<exists>m g' h. eg_rebuild g = Ok (m, g') \<and> eg_inv g' \<and> same_terms g h \<and> eg_nodes g' = eg_nodes h \<and>
    eg_capacity g' = eg_capacity g \<and>
    (\<forall>i < length (eg_nodes g). \<forall>j < length (eg_nodes g).
       (uf_canon (eg_uf g) i = uf_canon (eg_uf g) j \<longrightarrow> uf_canon (eg_uf g') i = uf_canon (eg_uf g') j) \<and>
       (uf_canon (eg_uf g') i = uf_canon (eg_uf g') j \<longrightarrow> (\<forall>R. congruence_on g R \<longrightarrow> R i j)))"
proof -
  let ?n = "length (eg_nodes g)"
  have cap: "?n \<le> eg_capacity g" using assms by (simp add: eg_inv_def)
  have "set [0 ..< ?n] \<subseteq> {..<?n}" by auto
  from eg_canon_nodes_ok [OF assms this] obtain h where h: "eg_canon_nodes g [0 ..< ?n] = Ok h" "same_terms g h" by blast
  note hd = same_termsD [OF h(2)]
  have "set [0 ..< ?n] \<subseteq> {..<length (eg_nodes h)}" using hd(3) by auto
  then obtain g' lk m where g': "eg_rebuild_loop h [] 0 [0 ..< ?n] = Ok (g', lk, m)" "coarsens h g'" "bt_wf lk"
    "\<forall>k z. bt_get lk k = Some z \<longrightarrow> unat z < length (eg_nodes h)" "\<forall>R. congruence_on h R \<longrightarrow> partition_within g' R"
    using rebuild_loop_ok [OF hd(1), of "[0 ..< ?n]" "[]" 0] by auto
  let ?g = "g'\<lparr>eg_lookup := lk\<rparr>"
  have gn: "eg_inv g'" "eg_nodes g' = eg_nodes h" using g'(2) by (simp_all add: coarsens_def)
  have inv: "eg_inv ?g" using gn g'(3,4) by (simp add: eg_inv_def classes_ok_def)
  have run: "eg_rebuild g = Ok (m, ?g)" using h(1) g'(1) by (simp add: eg_rebuild_def Let_def)
  have uf: "eg_uf ?g = eg_uf g'" by simp
  have keep: "uf_canon (eg_uf g') i = uf_canon (eg_uf g') j"
    if "i < ?n" "j < ?n" "uf_canon (eg_uf g) i = uf_canon (eg_uf g) j" for i j
  proof -
    have ij: "i < 2 * eg_capacity g" "j < 2 * eg_capacity g" using that(1,2) cap by simp_all
    have "uf_canon (eg_uf h) i = uf_canon (eg_uf h) j" unfolding hd(4) [OF ij(1)] hd(4) [OF ij(2)] by (rule that(3))
    then show ?thesis using ij g'(2) unfolding coarsens_def hd(2) by blast
  qed
  have least: "R i j" if "i < ?n" "j < ?n" "uf_canon (eg_uf g') i = uf_canon (eg_uf g') j" "congruence_on g R" for i j R
  proof -
    have "partition_within g' R" using g'(5) congruence_on_same_terms [OF assms that(4) h(2)] by blast
    then show ?thesis using that(1-3) unfolding partition_within_def gn(2) hd(3) by blast
  qed
  show ?thesis
  proof (intro exI conjI allI impI)
    show "eg_rebuild g = Ok (m, ?g)" by (rule run)
    show "eg_inv ?g" by (rule inv)
    show "same_terms g h" by (rule h(2))
    show "eg_nodes ?g = eg_nodes h" using gn(2) by simp
    show "eg_capacity ?g = eg_capacity g" using g'(2) hd(2) by (simp add: coarsens_def)
    fix i j assume ij: "i < ?n" "j < ?n"
    show "uf_canon (eg_uf ?g) i = uf_canon (eg_uf ?g) j" if "uf_canon (eg_uf g) i = uf_canon (eg_uf g) j"
      unfolding uf by (rule keep [OF ij that])
    show "R i j" if "uf_canon (eg_uf ?g) i = uf_canon (eg_uf ?g) j" "congruence_on g R" for R
      by (rule least [OF ij that(1) [unfolded uf] that(2)])
  qed
qed





definition build_terms :: "nat \<Rightarrow> (xop \<times> u32 list) list \<Rightarrow> egraph" where
  "build_terms capacity terms = foldl (\<lambda>g (op, children).
     case eg_add g op children of Ok (_, g') \<Rightarrow> g' | _ \<Rightarrow> g) (egraph_new capacity) terms"

lemma eg_add_inv:
  assumes "eg_inv g" "\<forall>c \<in> set children. unat c < length (eg_nodes g)" "eg_add g op children = Ok (c, g')"
  shows "eg_inv g'" "length (eg_nodes g) \<le> length (eg_nodes g')"
proof -
  have lt: "length (eg_nodes g) < eg_capacity g" "length children \<le> 4"
    using assms(3) by (auto simp: eg_add_def not_le split: if_splits)
  note app = eg_append_inv [OF assms(1) lt assms(2), of op "node_key op children"]
  have "g' = g \<or> g' = snd (eg_append g op children (node_key op children))"
    using eg_add_cases [OF assms(1) lt assms(2), of op] assms(3) by (metis outcome.inject(1) prod.inject prod.collapse)
  then show "eg_inv g'" "length (eg_nodes g) \<le> length (eg_nodes g')"
    using app(1) assms(1) by (auto simp: eg_append_def Let_def)
qed

text \<open>The terms \<open>a, b, -a, -b, --a, --b\<close>, used by the concrete examples below.\<close>

definition demo_graph :: egraph where
  "demo_graph = build_terms 8 [(Param 0, []), (Param 1, []), (Unary Neg, [0]), (Unary Neg, [1]),
     (Unary Neg, [2]), (Unary Neg, [3])]"

lemma demo_graph_length: "length (eg_nodes demo_graph) = 6" by code_simp

lemma two_params_inv: "eg_inv (build_terms 4 [(Param 0, []), (Param 1, [])])"
proof -
  obtain a g1 where 1: "eg_add (egraph_new 4) (Param 0) [] = Ok (a, g1)" "eg_inv g1"
  proof (cases "eg_add (egraph_new 4) (Param 0) []")
    case (Ok r)
    then have "eg_inv (snd r)" using eg_add_inv(1) [OF eg_new_inv [of 4], of "[]" "Param 0" "fst r" "snd r"] by simp
    with Ok show ?thesis by (intro that [of "fst r" "snd r"]) simp_all
  qed (simp_all add: eg_add_def egraph_new_def bt_get_def Let_def)
  show ?thesis
  proof (cases "eg_add g1 (Param 1) []")
    case (Ok r)
    then show ?thesis using 1 eg_add_inv(1) [of g1 "[]" "Param 1" "fst r" "snd r"]
      by (cases r) (simp add: build_terms_def)
  qed (use 1 in \<open>simp_all add: build_terms_def\<close>)
qed

lemma two_params_length: "length (eg_nodes (build_terms 4 [(Param 0, []), (Param 1, [])])) = 2"
  by code_simp

text \<open>
  C22: \<^verbatim>\<open>merge\<close> of two existing classes succeeds, keeps the invariant (so the class table again lists
  exactly the canonical classes with their nodes in ascending order), returns the smaller of the two
  canonical ids, and identifies exactly the two classes and nothing else.
\<close>

theorem eg_merge_contract:
  assumes "eg_inv g" "unat a < length (eg_nodes g)" "unat b < length (eg_nodes g)"
  shows "\<exists>w g'. eg_merge g a b = Ok (w, g') \<and> eg_inv g' \<and> eg_nodes g' = eg_nodes g \<and>
    unat w = min (uf_canon (eg_uf g) (unat a)) (uf_canon (eg_uf g) (unat b)) \<and>
    (\<forall>i < length (eg_nodes g). \<forall>j < length (eg_nodes g).
       uf_canon (eg_uf g') i = uf_canon (eg_uf g') j \<longleftrightarrow>
       uf_canon (eg_uf g) i = uf_canon (eg_uf g) j \<or>
       {uf_canon (eg_uf g) i, uf_canon (eg_uf g) j} = {uf_canon (eg_uf g) (unat a), uf_canon (eg_uf g) (unat b)}) \<and>
    set (map unat (eg_class_ids g')) = {i. i < length (eg_nodes g) \<and> uf_canon (eg_uf g') i = i}"
proof -
  let ?f = "uf_canon (eg_uf g)"
  obtain g' where g': "eg_merge g a b = Ok (word_of_nat (min (?f (unat a)) (?f (unat b))), g')" "eg_inv g'"
    "eg_nodes g' = eg_nodes g" "\<forall>i < 2 * eg_capacity g. uf_canon (eg_uf g') i = merge_canon ?f (unat a) (unat b) i"
    using eg_merge_ok [OF assms] by blast
  have cap: "length (eg_nodes g) \<le> eg_capacity g" using assms(1) by (simp add: eg_inv_def)
  have lt: "?f (unat a) < length (eg_nodes g)"
    using uf.canon_le [of "eg_uf g"] assms(1,2) by (auto simp: eg_inv_def intro: le_less_trans)
  have w: "unat (word_of_nat (min (?f (unat a)) (?f (unat b))) :: u32) = min (?f (unat a)) (?f (unat b))"
    using lt eg_inv_bound [OF assms(1)] by (intro unat_of_nat_small) simp
  have canon: "uf_canon (eg_uf g') i = merge_canon ?f (unat a) (unat b) i" if "i < length (eg_nodes g)" for i
    using g'(4) that cap by simp
  have part: "uf_canon (eg_uf g') i = uf_canon (eg_uf g') j \<longleftrightarrow> ?f i = ?f j \<or> {?f i, ?f j} = {?f (unat a), ?f (unat b)}"
    if "i < length (eg_nodes g)" "j < length (eg_nodes g)" for i j
    unfolding canon [OF that(1)] canon [OF that(2)]
    by (auto simp: merge_canon_def min_def doubleton_eq_iff split: if_splits)
  have "set (map unat (eg_class_ids g')) = {i. i < length (eg_nodes g) \<and> uf_canon (eg_uf g') i = i}"
  proof -
    have mem: "c \<in> set (eg_class_ids g') \<longleftrightarrow> unat c < length (eg_nodes g) \<and> uf_canon (eg_uf g') (unat c) = unat c" for c
      using g'(2,3) by (auto simp: eg_class_ids_def set_bt_keys eg_inv_def classes_ok_def)
    have "\<exists>c \<in> set (eg_class_ids g'). unat c = i" if "i < length (eg_nodes g)" "uf_canon (eg_uf g') i = i" for i
      using that mem [of "word_of_nat i"] eg_inv_class(2) [OF assms(1) that(1)] by (intro bexI [of _ "word_of_nat i"]) simp_all
    then show ?thesis using mem by force
  qed
  with g' w part show ?thesis by (intro exI [of _ "word_of_nat (min (?f (unat a)) (?f (unat b)))"] exI [of _ g']) simp
qed

theorem eg_merge_contract_witness:
  "\<exists>w g'. eg_merge (build_terms 4 [(Param 0, []), (Param 1, [])]) 0 1 = Ok (w, g') \<and> eg_inv g' \<and>
     uf_canon (eg_uf g') 0 = uf_canon (eg_uf g') 1"
proof -
  have "unat (0 :: u32) < 2" "unat (1 :: u32) < 2" by simp_all
  with eg_merge_contract [OF two_params_inv, of 0 1] show ?thesis unfolding two_params_length by fastforce
qed

text \<open>
  One call of \<^verbatim>\<open>rebuild\<close> need not restore congruence closure. With the six terms \<open>a\<close>, \<open>b\<close>, \<open>-a\<close>,
  \<open>-b\<close>, \<open>--a\<close>, \<open>--b\<close>, merging \<open>a\<close> and \<open>b\<close> and rebuilding merges \<open>-a\<close> with \<open>-b\<close> but leaves \<open>--a\<close> and
  \<open>--b\<close> in different classes, although their operations agree and their children are now in one class:
  the pass hashes every node once, with the children that were canonical before its own merges. A second
  call finds the remaining merge.
\<close>

definition demo_rebuilt :: "(egraph_error, u32 \<times> egraph) outcome" where
  "demo_rebuilt = obind (eg_merge demo_graph 0 1) (\<lambda>(_, g). eg_rebuild g)"

theorem rebuild_one_pass_incomplete:
  "(case demo_rebuilt of Ok (m, g) \<Rightarrow> m = 1 \<and> uf_canon (eg_uf g) 2 = uf_canon (eg_uf g) 3 \<and>
      uf_canon (eg_uf g) 4 \<noteq> uf_canon (eg_uf g) 5 \<and>
      (case eg_rebuild g of Ok (m', g') \<Rightarrow> m' = 1 \<and> uf_canon (eg_uf g') 4 = uf_canon (eg_uf g') 5 | _ \<Rightarrow> False)
    | _ \<Rightarrow> False)"
  by code_simp

end
