(* ===== verification/Target.thy ===== *)
theory Target
  imports Op_Node
begin

text \<open>
  The target level: the instruction set and programs of \<^verbatim>\<open>crates/xir-levels/src/level4.rs\<close> and the runtime
  values of \<^verbatim>\<open>crates/runtime/src/value.rs\<close>. The floating-point arithmetic that instructions use is a
  parameter, the record \<open>fp\<close>: Rust leaves the payload of computed NaNs, the sign of the zero that
  \<^verbatim>\<open>max\<close> returns and the last digit of \<^verbatim>\<open>exp\<close>, \<^verbatim>\<open>ln\<close> and \<^verbatim>\<open>cos\<close> open, and no theorem depends on them.
  Values are bit patterns, so literals, comparison with zero and storage are exact.
\<close>

section \<open>Floating-point operations\<close>

record fp =
  fp_add :: "f64 \<Rightarrow> f64 \<Rightarrow> f64"
  fp_sub :: "f64 \<Rightarrow> f64 \<Rightarrow> f64"
  fp_mul :: "f64 \<Rightarrow> f64 \<Rightarrow> f64"
  fp_div :: "f64 \<Rightarrow> f64 \<Rightarrow> f64"
  fp_max :: "f64 \<Rightarrow> f64 \<Rightarrow> f64"
  fp_min :: "f64 \<Rightarrow> f64 \<Rightarrow> f64"
  fp_exp :: "f64 \<Rightarrow> f64"
  fp_ln :: "f64 \<Rightarrow> f64"
  fp_sqrt :: "f64 \<Rightarrow> f64"
  fp_cos :: "f64 \<Rightarrow> f64"
  fp_fract :: "f64 \<Rightarrow> f64"
  fp_of_i64 :: "i64 \<Rightarrow> f64"
  fp_of_u64 :: "u64 \<Rightarrow> f64"
  fp_to_i64 :: "f64 \<Rightarrow> i64"

text \<open>Negation flips the sign bit.\<close>

definition f64_neg :: "f64 \<Rightarrow> f64" where
  "f64_neg x = x XOR push_bit 63 1"

text \<open>\<^verbatim>\<open>v > 0.0\<close>\<close>

definition f64_positive :: "f64 \<Rightarrow> bool" where
  "f64_positive x \<longleftrightarrow> \<not> f64_is_nan x \<and> \<not> f64_is_zero x \<and> \<not> bit x 63"

definition F64_ONE :: f64 where "F64_ONE = 0x3FF0000000000000"
definition F64_INF :: f64 where "F64_INF = 0x7FF0000000000000"
definition F64_NEG_INF :: f64 where "F64_NEG_INF = 0xFFF0000000000000"
definition F64_MINUS_TWO :: f64 where "F64_MINUS_TWO = 0xC000000000000000"
definition F64_1E_12 :: f64 where "F64_1E_12 = 0x3D719799812DEA11"
definition F64_TAU :: f64 where "F64_TAU = 0x401921FB54442D18"

section \<open>Instructions and programs\<close>

datatype instr =
    IAdd u32 u32 u32
  | ISub u32 u32 u32
  | IMul u32 u32 u32
  | IDiv u32 u32 u32
  | IMax u32 u32 u32
  | IMin u32 u32 u32
  | INeg u32 u32
  | IRelu u32 u32
  | IExp u32 u32
  | ILog u32 u32
  | IDot u32 u32 u32
  | IReduce u32 u32 u8 monoid
  | IMatmul u32 u32 u32 bool bool
  | IBroadcast u32 u32
  | ITranspose u32 u32
  | IConv u32 u32 u32 padding u8
  | IRng u32 u64 rng_dist
  | IConstF64 u32 f64
  | IConstI64 u32 i64
  | IMov u32 u32

record target_program =
  tp_instrs :: "instr list"
  tp_results :: "u32 list"
  tp_value_count :: u32

section \<open>Runtime values\<close>

datatype rvalue = VF64 f64 | VI64 i64 | VTensor "f64 list" shape

datatype value_error = LengthMismatch

definition value_tensor :: "f64 list \<Rightarrow> shape \<Rightarrow> value_error + rvalue" where
  "value_tensor data shape =
     (if int (length data) \<noteq> num_elements shape then Inl LengthMismatch else Inr (VTensor data shape))"

fun element_count :: "rvalue \<Rightarrow> nat" where
  "element_count (VF64 _) = 1"
| "element_count (VI64 _) = 1"
| "element_count (VTensor _ shape) = nat (max (num_elements shape) 0)"

fun value_shape :: "rvalue \<Rightarrow> shape" where
  "value_shape (VF64 _) = shape_scalar"
| "value_shape (VI64 _) = shape_scalar"
| "value_shape (VTensor _ shape) = shape"

end
