(* ===== verification/Levels.thy ===== *)
theory Levels
  imports Schedule_Spec Target
begin

text \<open>
  The lower IR levels, \<^verbatim>\<open>crates/xir-levels/src\<close>: fusion clusters (\<^verbatim>\<open>level2.rs\<close>), the projection of an arena
  to a linear program with value slots and a buffer plan (\<^verbatim>\<open>level3.rs\<close>) and its lowering to
  target instructions (\<^verbatim>\<open>level4.rs\<close>).
\<close>

section \<open>Clusters\<close>

datatype cluster_error = DuplicateNode | ClusterUnknownNode

record cluster =
  cl_members :: "node_id list"
  cl_shared_budget :: u32
  cl_register_budget :: u32
  cl_materialize :: bool

record cluster_set =
  cs_clusters :: "cluster list"
  cs_owner :: "u32 option list"
  cs_edges :: "(u32 \<times> u32) list"

definition cs_new :: "arena \<Rightarrow> cluster_set" where
  "cs_new a = \<lparr>cs_clusters = [], cs_owner = replicate (slot_count a) None, cs_edges = []\<rparr>"

definition cs_empty :: cluster_set where
  "cs_empty = \<lparr>cs_clusters = [], cs_owner = [], cs_edges = []\<rparr>"

definition add_cluster :: "cluster_set \<Rightarrow> u32 \<Rightarrow> u32 \<Rightarrow> u32 \<times> cluster_set" where
  "add_cluster cs shared_budget register_budget =
     (let cls = cs_clusters cs @ [\<lparr>cl_members = [], cl_shared_budget = shared_budget,
                                   cl_register_budget = register_budget, cl_materialize = False\<rparr>]
      in (word_of_nat (length cls - 1), cs\<lparr>cs_clusters := cls\<rparr>))"

definition assign :: "cluster_set \<Rightarrow> u32 \<Rightarrow> node_id \<Rightarrow> cluster_error + cluster_set" where
  "assign cs c x =
     (let slot = unat (nid_index x) in
      if slot \<ge> length (cs_owner cs) then Inl ClusterUnknownNode
      else if cs_owner cs ! slot \<noteq> None then Inl DuplicateNode
      else
        let cs1 = cs\<lparr>cs_owner := (cs_owner cs)[slot := Some c]\<rparr> in
        Inr (if unat c < length (cs_clusters cs1)
             then cs1\<lparr>cs_clusters := (cs_clusters cs1)[unat c := (cs_clusters cs1 ! unat c)
                        \<lparr>cl_members := sort_key nid_index (cl_members (cs_clusters cs1 ! unat c) @ [x])\<rparr>]\<rparr>
             else cs1))"

definition cluster_of :: "cluster_set \<Rightarrow> node_id \<Rightarrow> u32 option" where
  "cluster_of cs x = (case nth_opt (cs_owner cs) (unat (nid_index x)) of Some c \<Rightarrow> c | None \<Rightarrow> None)"

definition pair_le :: "u32 \<times> u32 \<Rightarrow> u32 \<times> u32 \<Rightarrow> bool" where
  "pair_le p q \<longleftrightarrow> fst p < fst q \<or> fst p = fst q \<and> snd p \<le> snd q"

fun pair_insert :: "u32 \<times> u32 \<Rightarrow> (u32 \<times> u32) list \<Rightarrow> (u32 \<times> u32) list" where
  "pair_insert p [] = [p]"
| "pair_insert p (q # qs) = (if pair_le p q then p # q # qs else q # pair_insert p qs)"

text \<open>\<^verbatim>\<open>edges.sort(); edges.dedup()\<close>\<close>

definition pair_sort :: "(u32 \<times> u32) list \<Rightarrow> (u32 \<times> u32) list" where
  "pair_sort ps = foldr pair_insert ps []"

definition derive_edges :: "cluster_set \<Rightarrow> arena \<Rightarrow> cluster_set" where
  "derive_edges cs a =
     (let edges = concat (map (\<lambda>(x, n).
            case cluster_of cs x of
              None \<Rightarrow> []
            | Some consumer \<Rightarrow>
                concat (map (\<lambda>v. case cluster_of cs (vid_node v) of
                                   Some p \<Rightarrow> if p \<noteq> consumer then [(p, consumer)] else []
                                 | None \<Rightarrow> []) (node_uses n))) (live_nodes a))
      in cs\<lparr>cs_edges := remdups_adj (pair_sort edges)\<rparr>)"

definition cs_len :: "cluster_set \<Rightarrow> nat" where
  "cs_len cs = length (cs_clusters cs)"

definition cs_is_empty :: "cluster_set \<Rightarrow> bool" where
  "cs_is_empty cs \<longleftrightarrow> cs_clusters cs = []"

definition set_materialize :: "cluster_set \<Rightarrow> u32 \<Rightarrow> bool \<Rightarrow> cluster_set" where
  "set_materialize cs c b =
     (if unat c < length (cs_clusters cs)
      then cs\<lparr>cs_clusters := (cs_clusters cs)[unat c := (cs_clusters cs ! unat c)\<lparr>cl_materialize := b\<rparr>]\<rparr>
      else cs)"

definition cs_cluster :: "cluster_set \<Rightarrow> u32 \<Rightarrow> cluster option" where
  "cs_cluster cs i = nth_opt (cs_clusters cs) (unat i)"

section \<open>Projection to a linear program\<close>

datatype lower_error = LowerSchedule schedule_error | LowerUnknownNode | LowerArity

record scheduled_op =
  so_op :: xop
  so_inputs :: "u32 list"
  so_n_inputs :: u8
  so_output :: u32
  so_ty :: ty
  so_cluster :: "u32 option"

record loop_program =
  lp_params :: "ty list"
  lp_ops :: "scheduled_op list"
  lp_results :: "u32 list"
  lp_buffers :: "(u32 \<times> u32 \<times> address_space) list"

text \<open>\<^verbatim>\<open>slot_of.get(i).copied().flatten()\<close>\<close>

definition slot_get :: "u32 option list \<Rightarrow> node_id \<Rightarrow> u32 option" where
  "slot_get slot_of x = (case nth_opt slot_of (unat (nid_index x)) of Some s \<Rightarrow> s | None \<Rightarrow> None)"

text \<open>The first loop: parameter slots and types.\<close>

fun project_params ::
  "arena \<Rightarrow> node_id list \<Rightarrow> u32 option list \<times> ty list \<times> u32 \<Rightarrow> lower_error + (u32 option list \<times> ty list \<times> u32)" where
  "project_params a [] s = Inr s"
| "project_params a (x # xs) (slot_of, params, nslot) =
     rbind (map_err (\<lambda>_. LowerUnknownNode) (arena_node a x)) (\<lambda>n.
       project_params a xs
         (case nd_op n of
            Param index \<Rightarrow>
              (let idx = unat index; params1 = params @ replicate (Suc idx - length params) NoneTy in
               (slot_of[unat (nid_index x) := Some nslot], params1[idx := nd_ty n], nslot + 1))
          | _ \<Rightarrow> (slot_of, params, nslot)))"

fun project_inputs :: "u32 option list \<Rightarrow> value_id list \<Rightarrow> lower_error + u32 list" where
  "project_inputs slot_of [] = Inr []"
| "project_inputs slot_of (v # vs) =
     (case slot_get slot_of (vid_node v) of
        None \<Rightarrow> Inl LowerUnknownNode
      | Some s \<Rightarrow> rbind (project_inputs slot_of vs) (\<lambda>ss. Inr (s # ss)))"

text \<open>The second loop: operations in schedule order, with their nodes.\<close>

fun project_ops ::
  "arena \<Rightarrow> (node_id \<Rightarrow> u32 option) \<Rightarrow> node_id list \<Rightarrow> u32 option list \<times> u32 \<Rightarrow> (scheduled_op \<times> node_id) list \<Rightarrow>
     lower_error + (u32 option list \<times> u32 \<times> (scheduled_op \<times> node_id) list)" where
  "project_ops a cof [] (slot_of, nslot) ops = Inr (slot_of, nslot, ops)"
| "project_ops a cof (x # xs) (slot_of, nslot) ops =
     rbind (map_err (\<lambda>_. LowerUnknownNode) (arena_node a x)) (\<lambda>n.
       if (case nd_op n of Param _ \<Rightarrow> True | _ \<Rightarrow> False) then project_ops a cof xs (slot_of, nslot) ops
       else if unat (nd_n_inputs n) > MAX_INPUTS then Inl LowerArity
       else
         rbind (project_inputs slot_of (node_uses n)) (\<lambda>ins.
           let sop = \<lparr>so_op = nd_op n, so_inputs = ins @ replicate (MAX_INPUTS - length ins) 0,
                      so_n_inputs = nd_n_inputs n, so_output = nslot, so_ty = nd_ty n, so_cluster = cof x\<rparr>
           in project_ops a cof xs (slot_of[unat (nid_index x) := Some nslot], nslot + 1) (ops @ [(sop, x)])))"

fun project_results :: "u32 option list \<Rightarrow> node_id list \<Rightarrow> lower_error + u32 list" where
  "project_results slot_of [] = Inr []"
| "project_results slot_of (r # rs) =
     (case slot_get slot_of r of
        None \<Rightarrow> Inl LowerUnknownNode
      | Some s \<Rightarrow> rbind (project_results slot_of rs) (\<lambda>ss. Inr (s # ss)))"

definition consumers_by_slot :: "arena \<Rightarrow> node_id list list" where
  "consumers_by_slot a =
     foldl (\<lambda>m (x, n).
       foldl (\<lambda>m v. let slot = unat (nid_index (vid_node v)) in
                if slot < length m then m[slot := m ! slot @ [x]] else m) m (node_uses n))
       (replicate (slot_count a) []) (live_nodes a)"

definition buffer_space ::
  "arena \<Rightarrow> node_id list \<Rightarrow> cluster_set \<Rightarrow> node_id \<Rightarrow> node_id list list \<Rightarrow> address_space" where
  "buffer_space a roots cs producer consumers_of =
     (case cluster_of cs producer of
        None \<Rightarrow> Global
      | Some pc \<Rightarrow>
          if (case cs_cluster cs pc of Some c \<Rightarrow> cl_materialize c | None \<Rightarrow> False) then Global
          else if List.member roots producer then Global
          else
            let consumers = (case nth_opt consumers_of (unat (nid_index producer)) of Some v \<Rightarrow> v | None \<Rightarrow> []) in
            if consumers = [] then Global
            else case arena_node a producer of
              Inl _ \<Rightarrow> Global
            | Inr n \<Rightarrow>
                if list_all (\<lambda>c. cluster_of cs c = Some pc \<and>
                     (case arena_node a c of Inr cn \<Rightarrow> nd_region cn = nd_region n | Inl _ \<Rightarrow> False)) consumers
                then Register else Global)"

definition buffer_plan ::
  "(node_id \<Rightarrow> address_space) \<Rightarrow> (scheduled_op \<times> node_id) list \<Rightarrow> (u32 \<times> u32 \<times> address_space) list" where
  "buffer_plan space ops =
     concat (map (\<lambda>(sop, producer).
       case so_ty sop of
         Tensor t \<Rightarrow>
           (let bytes = saturating_mul_i64 (num_elements (tt_shape t)) (uint (scalar_byte_size (tt_elem t)));
                b32 = (if 0 \<le> bytes \<and> bytes < 2 ^ 32 then word_of_int bytes else - 1 :: u32)
            in [(so_output sop, b32, space producer)])
       | _ \<Rightarrow> []) ops)"

definition project_with_fusion :: "arena \<Rightarrow> node_id list \<Rightarrow> cluster_set \<Rightarrow> lower_error + loop_program" where
  "project_with_fusion a roots cs =
     (let has_clusters = \<not> cs_is_empty cs in
      rbind (map_err LowerSchedule (if has_clusters then schedule_fused a (cluster_of cs) else schedule a)) (\<lambda>order.
      rbind (project_params a order (replicate (slot_count a) None, [], 0)) (\<lambda>(slot_of, params, nslot).
      rbind (project_ops a (\<lambda>x. if has_clusters then cluster_of cs x else None) order (slot_of, nslot) [])
        (\<lambda>(slot_of', _, ops).
      rbind (project_results slot_of' roots) (\<lambda>results.
        Inr \<lparr>lp_params = params, lp_ops = map fst ops, lp_results = results,
             lp_buffers = buffer_plan (\<lambda>p. if has_clusters then buffer_space a roots cs p (consumers_by_slot a)
                                            else Global) ops\<rparr>)))))"

definition project :: "arena \<Rightarrow> node_id list \<Rightarrow> lower_error + loop_program" where
  "project a roots = project_with_fusion a roots cs_empty"

definition value_count :: "loop_program \<Rightarrow> u32" where
  "value_count prog = foldl (\<lambda>m op. max m (so_output op + 1)) (word_of_nat (length (lp_params prog))) (lp_ops prog)"

section \<open>Lowering to instructions\<close>

datatype target_error = UnsupportedOp | TargetBadSlot

fun lower_op :: "xop \<Rightarrow> u32 \<Rightarrow> u32 \<Rightarrow> u32 \<Rightarrow> target_error + instr option" where
  "lower_op (ConstI64 v) dst a b = Inr (Some (IConstI64 dst v))"
| "lower_op (ConstF64 v) dst a b = Inr (Some (IConstF64 dst v))"
| "lower_op (Param _) dst a b = Inr None"
| "lower_op (Binary BAdd) dst a b = Inr (Some (IAdd dst a b))"
| "lower_op (Binary BSub) dst a b = Inr (Some (ISub dst a b))"
| "lower_op (Binary BMul) dst a b = Inr (Some (IMul dst a b))"
| "lower_op (Binary BDiv) dst a b = Inr (Some (IDiv dst a b))"
| "lower_op (Binary BMax) dst a b = Inr (Some (IMax dst a b))"
| "lower_op (Binary BMin) dst a b = Inr (Some (IMin dst a b))"
| "lower_op (Unary Neg) dst a b = Inr (Some (INeg dst a))"
| "lower_op (Unary Relu) dst a b = Inr (Some (IRelu dst a))"
| "lower_op (Unary Exp) dst a b = Inr (Some (IExp dst a))"
| "lower_op (Unary Log) dst a b = Inr (Some (ILog dst a))"
| "lower_op Dot dst a b = Inr (Some (IDot dst a b))"
| "lower_op (Reduce axis m) dst a b = Inr (Some (IReduce dst a axis m))"
| "lower_op (Matmul ta tb) dst a b = Inr (Some (IMatmul dst a b ta tb))"
| "lower_op (Conv padding stride) dst a b = Inr (Some (IConv dst a b padding stride))"
| "lower_op (Broadcast _) dst a b = Inr (Some (IBroadcast dst a))"
| "lower_op (Transpose _ _) dst a b = Inr (Some (ITranspose dst a))"
| "lower_op (Rng dist seed) dst a b = Inr (Some (IRng dst seed dist))"
| "lower_op OpIf dst a b = Inl UnsupportedOp"
| "lower_op (Custom _) dst a b = Inl UnsupportedOp"
| "lower_op _ dst a b = Inr None"

definition lower_sop :: "scheduled_op \<Rightarrow> target_error + instr option" where
  "lower_sop sop =
     lower_op (so_op sop) (so_output sop) (so_inputs sop ! 0)
       (if so_n_inputs sop > 1 then so_inputs sop ! 1 else 0)"

fun lower_ops :: "scheduled_op list \<Rightarrow> target_error + instr list" where
  "lower_ops [] = Inr []"
| "lower_ops (sop # sops) =
     rbind (lower_sop sop) (\<lambda>i. rbind (lower_ops sops) (\<lambda>is. Inr (case i of Some i \<Rightarrow> i # is | None \<Rightarrow> is)))"

definition lower :: "loop_program \<Rightarrow> target_error + target_program" where
  "lower prog =
     rbind (lower_ops (lp_ops prog)) (\<lambda>instrs.
       Inr \<lparr>tp_instrs = instrs, tp_results = lp_results prog, tp_value_count = value_count prog\<rparr>)"

end
