(* ===== verification/Codegen.thy ===== *)
theory Codegen
  imports Levels
begin

text \<open>
  The code generation passes, \<^verbatim>\<open>crates/codegen/src\<close>: tile sizes (\<^verbatim>\<open>tile.rs\<close>), the memory space of
  every buffer (\<^verbatim>\<open>bufferize.rs\<close>), vector widths (\<^verbatim>\<open>vectorize.rs\<close>) and their composition with the lowering
  of \<^verbatim>\<open>level4.rs\<close> (\<^verbatim>\<open>lower.rs\<close>). The tile search is a \<^verbatim>\<open>loop\<close> that can run forever, so its model is a
  partial function: \<open>None\<close> means that it does not return.
\<close>

section \<open>Tiling\<close>

definition TILE_CACHE_LINE :: i64 where "TILE_CACHE_LINE = 64"

datatype tile_error = TileRankTooLarge

record tile_plan =
  tl_edges :: "i64 list"
  tl_rank :: u8

text \<open>The elements of one tile: the loop over the first \<^verbatim>\<open>rank\<close> edges.\<close>

definition tile_extent :: "shape \<Rightarrow> i64 list \<Rightarrow> nat \<Rightarrow> i64" where
  "tile_extent s edges a = min (edges ! a) (case shape_dim s (word_of_nat a) of Some d \<Rightarrow> d | None \<Rightarrow> 1)"

definition tile_elems :: "shape \<Rightarrow> i64 list \<Rightarrow> i64" where
  "tile_elems s edges = foldl (\<lambda>n a. saturating_mul_i64 n (tile_extent s edges a)) 1 [0 ..< unat (sh_rank s)]"

definition tile_bytes :: "shape \<Rightarrow> i64 list \<Rightarrow> i64" where
  "tile_bytes s edges = saturating_mul_i64 (tile_elems s edges) 8"

text \<open>The index of the first largest edge among those of the shape.\<close>

definition largest_edge :: "u8 \<Rightarrow> i64 list \<Rightarrow> nat" where
  "largest_edge rank edges =
     foldl (\<lambda>largest a. if edges ! a > edges ! largest then a else largest) 0 [1 ..< unat rank]"

definition tile_shrink :: "u8 \<Rightarrow> i64 list \<Rightarrow> i64 list" where
  "tile_shrink rank edges =
     (let largest = largest_edge rank edges in edges[largest := max (trunc_div (edges ! largest) 2) 1])"

partial_function (option) tile_loop :: "shape \<Rightarrow> u32 \<Rightarrow> i64 list \<Rightarrow> i64 list option" where
  "tile_loop s budget edges =
     (if tile_bytes s edges \<le> uint budget \<or> edges = replicate MAX_RANK 1 then Some edges
      else tile_loop s budget (tile_shrink (sh_rank s) edges))"

definition tile_shapes :: "shape \<Rightarrow> u32 \<Rightarrow> (tile_error + tile_plan) option" where
  "tile_shapes s budget =
     map_option (\<lambda>edges. Inr \<lparr>tl_edges = edges, tl_rank = sh_rank s\<rparr>)
       (tile_loop s budget (replicate MAX_RANK TILE_CACHE_LINE))"

section \<open>Buffers\<close>

record buffer_plan =
  bp_entries :: "(u32 \<times> u32 \<times> address_space \<times> bool) list"

definition count_use :: "u32 list \<Rightarrow> u32 \<Rightarrow> u32 list" where
  "count_use uses slot =
     (if unat slot < length uses then uses[unat slot := saturating_add (uses ! unat slot) 1] else uses)"

definition count_uses :: "loop_program \<Rightarrow> u32 list" where
  "count_uses prog =
     foldl (\<lambda>uses op. foldl count_use uses (take (unat (so_n_inputs op)) (so_inputs op)))
       (replicate (max (unat (value_count prog)) 1) 0) (lp_ops prog)"

definition bufferize_entry ::
  "loop_program \<Rightarrow> u32 list \<Rightarrow> u32 \<times> u32 \<times> address_space \<Rightarrow> u32 \<times> u32 \<times> address_space \<times> bool" where
  "bufferize_entry prog uses = (\<lambda>(slot, bytes, space).
     let multi = (case nth_opt uses (unat slot) of Some u \<Rightarrow> u | None \<Rightarrow> 0) > 1;
         is_result = (slot \<in> set (lp_results prog));
         keep_register = (\<not> multi \<and> \<not> is_result \<and> bytes \<le> 256)
     in (slot, bytes, if keep_register then Register else space, multi \<or> is_result))"

definition bufferize :: "loop_program \<Rightarrow> buffer_plan" where
  "bufferize prog = \<lparr>bp_entries = map (bufferize_entry prog (count_uses prog)) (lp_buffers prog)\<rparr>"

section \<open>Vector widths and target programs\<close>

record vector_plan =
  vp_width :: u32
  vp_vectorizable :: bool

definition vectorizable_width :: "xop \<Rightarrow> scalar_type \<Rightarrow> vector_plan" where
  "vectorizable_width op elem =
     (case op of
        Binary _ \<Rightarrow> \<lparr>vp_width = 4, vp_vectorizable = True\<rparr>
      | Unary _ \<Rightarrow> \<lparr>vp_width = 4, vp_vectorizable = True\<rparr>
      | _ \<Rightarrow> \<lparr>vp_width = 1, vp_vectorizable = False\<rparr>)"

record lowered_program =
  lw_target :: target_program
  lw_buffers :: buffer_plan

definition lower_target :: "loop_program \<Rightarrow> target_error + lowered_program" where
  "lower_target prog =
     (let buffers = bufferize prog in
      rbind (lower prog) (\<lambda>target. Inr \<lparr>lw_target = target, lw_buffers = buffers\<rparr>))"

section \<open>The tile search ends with a tile that fits\<close>

lemma trunc_div_pos: "0 \<le> x \<Longrightarrow> 0 < y \<Longrightarrow> trunc_div x y = x div y"
  by (cases "x = 0") (auto simp: trunc_div_def)

definition edges_ok :: "i64 list \<Rightarrow> bool" where
  "edges_ok edges \<longleftrightarrow> length edges = MAX_RANK \<and> (\<forall>e\<in>set edges. 1 \<le> e \<and> e \<le> TILE_CACHE_LINE)"

lemma largest_edge_max:
  assumes "0 < unat rank"
  shows "largest_edge rank edges < unat rank" "\<forall>a < unat rank. edges ! a \<le> edges ! largest_edge rank edges"
proof -
  let ?f = "\<lambda>largest a. if edges ! a > edges ! largest then a else largest"
  have "foldl ?f 0 [1 ..< Suc n] < Suc n \<and> (\<forall>a < Suc n. edges ! a \<le> edges ! foldl ?f 0 [1 ..< Suc n])" for n
  proof (induction n)
    case (Suc n)
    define m where "m = foldl ?f 0 [1 ..< Suc n]"
    have m: "m < Suc n" "\<forall>a < Suc n. edges ! a \<le> edges ! m" using Suc.IH by (simp_all add: m_def)
    have "foldl ?f 0 [1 ..< Suc (Suc n)] = ?f m (Suc n)" by (simp add: m_def)
    moreover have "edges ! a \<le> edges ! ?f m (Suc n)" if "a < Suc (Suc n)" for a
      using m(2) [rule_format, of a] that by (cases "a = Suc n") auto
    ultimately show ?case using m(1) by auto
  qed simp
  from this [of "unat rank - 1"] assms
  show "largest_edge rank edges < unat rank" "\<forall>a < unat rank. edges ! a \<le> edges ! largest_edge rank edges"
    by (auto simp: largest_edge_def)
qed

lemma largest_edge_in_range: "unat rank \<le> MAX_RANK \<Longrightarrow> largest_edge rank edges < MAX_RANK"
  using largest_edge_max(1) [of rank edges] by (cases "unat rank = 0") (auto simp: largest_edge_def MAX_RANK_def)

lemma tile_shrink_ok:
  assumes "edges_ok edges" "unat rank \<le> MAX_RANK"
  shows "edges_ok (tile_shrink rank edges)"
proof -
  let ?l = "largest_edge rank edges"
  have l: "?l < length edges" using largest_edge_in_range [OF assms(2)] assms(1) by (simp add: edges_ok_def)
  then have "1 \<le> edges ! ?l \<and> edges ! ?l \<le> TILE_CACHE_LINE" using assms(1) by (simp add: edges_ok_def)
  then show ?thesis using assms(1)
    by (auto simp: edges_ok_def tile_shrink_def Let_def trunc_div_pos TILE_CACHE_LINE_def
        dest!: subsetD [OF set_update_subset_insert])
qed

lemma tile_shrink_less:
  assumes "edges_ok edges" "unat rank \<le> MAX_RANK" "a < unat rank" "edges ! a \<noteq> 1"
  shows "sum_list (map nat (tile_shrink rank edges)) < sum_list (map nat edges)"
proof -
  let ?l = "largest_edge rank edges"
  have rank: "0 < unat rank" using assms(3) by simp
  have l: "?l < length edges" using largest_edge_in_range [OF assms(2)] assms(1) by (simp add: edges_ok_def)
  have "1 \<le> edges ! a" using assms(1-3) by (simp add: edges_ok_def)
  then have "2 \<le> edges ! ?l" using largest_edge_max(2) [OF rank, of edges] assms(3,4) by force
  then have less: "nat (max (trunc_div (edges ! ?l) 2) 1) < nat (edges ! ?l)" by (auto simp: trunc_div_pos)
  have split: "edges = take ?l edges @ edges ! ?l # drop (Suc ?l) edges" using l by (rule id_take_nth_drop)
  have "sum_list (map nat edges) = sum_list (map nat (take ?l edges)) + nat (edges ! ?l) + sum_list (map nat (drop (Suc ?l) edges))"
    by (subst split) simp
  moreover have "sum_list (map nat (tile_shrink rank edges)) =
      sum_list (map nat (take ?l edges)) + nat (max (trunc_div (edges ! ?l) 2) 1) + sum_list (map nat (drop (Suc ?l) edges))"
    using l by (simp add: tile_shrink_def Let_def upd_conv_take_nth_drop)
  ultimately show ?thesis using less by linarith
qed

text \<open>With all the edges of the shape at one the tile is a single element.\<close>

lemma tile_bytes_unit:
  assumes "shape_wf s" "\<forall>a < unat (sh_rank s). edges ! a = 1"
  shows "tile_bytes s edges = 8"
proof -
  have "tile_extent s edges a = 1" if "a < unat (sh_rank s)" for a
  proof -
    have le: "unat (sh_rank s) \<le> MAX_RANK" using assms(1) by (simp add: shape_wf_def)
    then have a: "unat (word_of_nat a :: u8) = a" using that by (intro unat_of_nat_small) (simp add: MAX_RANK_def)
    then have lt: "(word_of_nat a :: u8) < sh_rank s" using that by (simp add: word_less_nat_alt)
    have "shape_as_slice s ! a = sh_dims s ! a" "a < length (shape_as_slice s)"
      using that le assms(1) by (auto simp: shape_as_slice_def shape_wf_def)
    then have "0 < sh_dims s ! a" using assms(1) by (metis list_all_length shape_wf_def)
    then show ?thesis using that lt a assms(2) by (simp add: tile_extent_def shape_dim_def)
  qed
  then have "foldl (\<lambda>n a. saturating_mul_i64 n (tile_extent s edges a)) 1 xs = 1"
    if "set xs \<subseteq> {0 ..< unat (sh_rank s)}" for xs
    using that by (induction xs) (auto simp: saturating_mul_i64_def sat_i64_def i64_min_def i64_max_def)
  then show ?thesis
    by (simp add: tile_bytes_def tile_elems_def saturating_mul_i64_def sat_i64_def i64_min_def i64_max_def)
qed

lemma tile_loop_returns:
  assumes "shape_wf s" "edges_ok edges" "8 \<le> budget \<or> unat (sh_rank s) = MAX_RANK"
  shows "\<exists>r. tile_loop s budget edges = Some r \<and> edges_ok r \<and>
    (tile_bytes s r \<le> uint budget \<or> r = replicate MAX_RANK 1)"
  using assms(2)
proof (induction edges rule: measure_induct_rule [of "\<lambda>e. sum_list (map nat e)"])
  case (less edges)
  let ?stop = "tile_bytes s edges \<le> uint budget \<or> edges = replicate MAX_RANK 1"
  show ?case
  proof (cases ?stop)
    case True
    then show ?thesis using less.prems by (subst tile_loop.simps) auto
  next
    case False
    have rank: "unat (sh_rank s) \<le> MAX_RANK" using assms(1) by (simp add: shape_wf_def)
    have "\<exists>a < unat (sh_rank s). edges ! a \<noteq> 1"
    proof (rule ccontr)
      assume "\<not> ?thesis"
      then have one: "\<forall>a < unat (sh_rank s). edges ! a = 1" by blast
      from tile_bytes_unit [OF assms(1) this] False have "uint budget < 8" by simp
      then have "\<not> 8 \<le> budget" by (simp add: word_le_def)
      with assms(3) one have "edges = replicate MAX_RANK 1"
        using less.prems by (auto simp: edges_ok_def intro: nth_equalityI)
      with False show False by blast
    qed
    then obtain a where a: "a < unat (sh_rank s)" "edges ! a \<noteq> 1" by blast
    from less.IH [OF tile_shrink_less [OF less.prems rank a] tile_shrink_ok [OF less.prems rank]] False
    show ?thesis by (subst tile_loop.simps) simp
  qed
qed

text \<open>Below one element of budget the search never returns when the shape leaves an edge untouched.\<close>

lemma tile_extent_pos:
  assumes "shape_wf s" "edges_ok edges" "a < unat (sh_rank s)"
  shows "1 \<le> tile_extent s edges a"
proof -
  have le: "unat (sh_rank s) \<le> MAX_RANK" using assms(1) by (simp add: shape_wf_def)
  have "shape_as_slice s ! a = sh_dims s ! a" "a < length (shape_as_slice s)"
    using assms(3) le assms(1) by (auto simp: shape_as_slice_def shape_wf_def)
  then have d: "0 < sh_dims s ! a" using assms(1) by (metis list_all_length shape_wf_def)
  have "unat (word_of_nat a :: u8) = a" using assms(3) le by (intro unat_of_nat_small) (simp add: MAX_RANK_def)
  moreover have "1 \<le> edges ! a" using assms(2,3) le by (simp add: edges_ok_def)
  ultimately show ?thesis using d by (simp add: tile_extent_def shape_dim_def)
qed

lemma saturating_mul_i64_ge: "0 < n \<Longrightarrow> n \<le> i64_max \<Longrightarrow> 0 < k \<Longrightarrow> n \<le> saturating_mul_i64 n k"
proof -
  assume n: "0 < n" "n \<le> i64_max" "0 < k"
  then have "n * 1 \<le> n * k" by (intro mult_left_mono) auto
  with n show ?thesis by (simp add: saturating_mul_i64_def sat_i64_def i64_min_def le_max_iff_disj)
qed

lemma tile_bytes_pos:
  assumes "shape_wf s" "edges_ok edges"
  shows "8 \<le> tile_bytes s edges"
proof -
  have "1 \<le> foldl (\<lambda>n a. saturating_mul_i64 n (tile_extent s edges a)) m xs \<and>
      foldl (\<lambda>n a. saturating_mul_i64 n (tile_extent s edges a)) m xs \<le> i64_max"
    if "set xs \<subseteq> {0 ..< unat (sh_rank s)}" "1 \<le> m" "m \<le> i64_max" for xs m
    using that
  proof (induction xs arbitrary: m)
    case (Cons a xs)
    then have "1 \<le> tile_extent s edges a" using tile_extent_pos [OF assms] by simp
    then have "m \<le> saturating_mul_i64 m (tile_extent s edges a)" using Cons.prems by (intro saturating_mul_i64_ge) auto
    moreover have "saturating_mul_i64 m (tile_extent s edges a) \<le> i64_max"
      by (simp add: saturating_mul_i64_def sat_i64_def i64_min_def i64_max_def)
    ultimately show ?case using Cons.IH [of "saturating_mul_i64 m (tile_extent s edges a)"] Cons.prems by simp
  qed simp
  from this [of "[0 ..< unat (sh_rank s)]" 1]
  have "1 \<le> tile_elems s edges \<and> tile_elems s edges \<le> i64_max" by (simp add: tile_elems_def i64_max_def)
  then show ?thesis by (auto simp: tile_bytes_def saturating_mul_i64_def sat_i64_def i64_min_def i64_max_def)
qed

lemma tile_loop_diverges:
  assumes "shape_wf s" "budget < 8" "unat (sh_rank s) < MAX_RANK"
    and "edges_ok edges" "edges ! (MAX_RANK - 1) = TILE_CACHE_LINE"
  shows "tile_loop s budget edges = None"
proof (rule ccontr)
  assume "tile_loop s budget edges \<noteq> None"
  then obtain r where "tile_loop s budget edges = Some r" by blast
  then show False using assms
  proof (induction rule: tile_loop.raw_induct [rotated 1, consumes 1, case_names step])
    case (step loop s budget edges r)
    have "uint budget < 8" using step.prems(2) by (simp add: word_less_def)
    then have "\<not> tile_bytes s edges \<le> uint budget" using tile_bytes_pos [OF step.prems(1,4)] by simp
    moreover have "edges \<noteq> replicate MAX_RANK 1"
      using step.prems(5) by (auto simp: MAX_RANK_def TILE_CACHE_LINE_def)
    ultimately have rec: "loop s budget (tile_shrink (sh_rank s) edges) = Some r" using step.hyps by simp
    have "largest_edge (sh_rank s) edges < MAX_RANK - 1"
      using largest_edge_max(1) [of "sh_rank s" edges] step.prems(3)
      by (cases "unat (sh_rank s) = 0") (auto simp: largest_edge_def MAX_RANK_def)
    then have "tile_shrink (sh_rank s) edges ! (MAX_RANK - 1) = TILE_CACHE_LINE"
      using step.prems(5) by (simp add: tile_shrink_def Let_def)
    with step.IH [OF rec step.prems(1-3) tile_shrink_ok [OF step.prems(4)]] step.prems(3)
    show False by simp
  qed
qed

lemma edges_start: "edges_ok (replicate MAX_RANK TILE_CACHE_LINE)"
  by (auto simp: edges_ok_def TILE_CACHE_LINE_def)

text \<open>
  C29: the tile search returns exactly when the budget holds one element or the shape uses all four axes. When it
  returns, the plan has one edge per axis between 1 and 64, and the tile fits the budget or is
  a single element.
\<close>

theorem tile_shapes_terminates:
  assumes "shape_wf s"
  shows "((\<exists>plan. tile_shapes s budget = Some (Inr plan)) \<longleftrightarrow> 8 \<le> budget \<or> unat (sh_rank s) = MAX_RANK) \<and>
    (\<forall>r. tile_shapes s budget = Some r \<longrightarrow> (\<exists>plan. r = Inr plan \<and> edges_ok (tl_edges plan) \<and>
      (tile_bytes s (tl_edges plan) \<le> uint budget \<or> tl_edges plan = replicate MAX_RANK 1)))"
proof (cases "8 \<le> budget \<or> unat (sh_rank s) = MAX_RANK")
  case True
  then show ?thesis using tile_loop_returns [OF assms edges_start True] by (auto simp: tile_shapes_def)
next
  case False
  moreover have "unat (sh_rank s) \<le> MAX_RANK" using assms by (simp add: shape_wf_def)
  ultimately have "tile_loop s budget (replicate MAX_RANK TILE_CACHE_LINE) = None"
    using tile_loop_diverges [OF assms _ _ edges_start, of budget] by (auto simp: MAX_RANK_def)
  with False show ?thesis by (simp add: tile_shapes_def)
qed

theorem tile_shapes_terminates_witness:
  "tile_shapes shape_scalar 7 = None \<and> (\<exists>plan. tile_shapes shape_scalar 8 = Some (Inr plan))"
proof -
  have wf: "shape_wf shape_scalar" by code_simp
  have rank: "unat (sh_rank shape_scalar) \<noteq> MAX_RANK" by code_simp
  have "tile_shapes shape_scalar 7 = None"
    using tile_shapes_terminates [OF wf, of 7] rank by (cases "tile_shapes shape_scalar 7") auto
  moreover have "\<exists>plan. tile_shapes shape_scalar 8 = Some (Inr plan)"
    using tile_shapes_terminates [OF wf, of 8] by simp
  ultimately show ?thesis by blast
qed

section \<open>Register placement\<close>

text \<open>The operand slots that the operations of a program read.\<close>

definition operand_slots :: "loop_program \<Rightarrow> u32 list" where
  "operand_slots prog = concat (map (\<lambda>op. take (unat (so_n_inputs op)) (so_inputs op)) (lp_ops prog))"

lemma count_uses_flat:
  "count_uses prog = foldl count_use (replicate (max (unat (value_count prog)) 1) 0) (operand_slots prog)"
proof -
  have "foldl (\<lambda>uses op. foldl count_use uses (take (unat (so_n_inputs op)) (so_inputs op))) us ops =
      foldl count_use us (concat (map (\<lambda>op. take (unat (so_n_inputs op)) (so_inputs op)) ops))" for us ops
    by (induction ops arbitrary: us) simp_all
  then show ?thesis by (simp add: count_uses_def operand_slots_def)
qed

lemma count_use_foldl:
  "length (foldl count_use uses slots) = length uses \<and>
    (unat s < length uses \<longrightarrow> unat (foldl count_use uses slots ! unat s) = min (unat (uses ! unat s) + count_list slots s) (2 ^ 32 - 1))"
proof (induction slots arbitrary: uses)
  case Nil
  show ?case using unsigned_less [of "uses ! unat s", where ?'a = nat] by (auto simp: min_def)
next
  case (Cons x xs)
  have len: "length (count_use uses x) = length uses" by (simp add: count_use_def)
  have "unat s < length uses \<Longrightarrow> unat (count_use uses x ! unat s) =
      min (unat (uses ! unat s) + (if x = s then 1 else 0)) (2 ^ 32 - 1)"
    using unsigned_less [of "uses ! unat s", where ?'a = nat]
    by (auto simp: count_use_def nth_list_update unat_saturating_add word_unat_eq_iff)
  with Cons.IH [of "count_use uses x"] len show ?case by (auto simp: min_def)
qed

text \<open>
  C30: bufferization keeps the slots and sizes of the plan. A buffer is moved to registers exactly when it is
  at most 256 bytes, no result, and read by at most one operand of the program; every other buffer stays in its
  space and is marked as escaping when it is read twice or is a result.
\<close>

theorem bufferize_registers:
  assumes "\<forall>(slot, bytes, space) \<in> set (lp_buffers prog). unat slot < unat (value_count prog)"
  shows "bp_entries (bufferize prog) = map (\<lambda>(slot, bytes, space).
    let escapes = count_list (operand_slots prog) slot > 1 \<or> slot \<in> set (lp_results prog) in
    (slot, bytes, if \<not> escapes \<and> unat bytes \<le> 256 then Register else space, escapes)) (lp_buffers prog)"
proof -
  have "bufferize_entry prog (count_uses prog) (slot, bytes, space) =
    (let escapes = count_list (operand_slots prog) slot > 1 \<or> slot \<in> set (lp_results prog) in
     (slot, bytes, if \<not> escapes \<and> unat bytes \<le> 256 then Register else space, escapes))"
    if "(slot, bytes, space) \<in> set (lp_buffers prog)" for slot bytes space
  proof -
    let ?n = "max (unat (value_count prog)) 1"
    have slot: "unat slot < ?n" using bspec [OF assms that] by simp
    have len: "length (count_uses prog) = ?n"
      and cnt: "unat (count_uses prog ! unat slot) = min (count_list (operand_slots prog) slot) (2 ^ 32 - 1)"
      using count_use_foldl [of "replicate ?n 0" "operand_slots prog" slot] slot by (simp_all add: count_uses_flat)
    have "count_uses prog ! unat slot > 1 \<longleftrightarrow> count_list (operand_slots prog) slot > 1"
      using cnt by (simp add: word_less_nat_alt)
    then show ?thesis using slot len
      by (simp add: bufferize_entry_def Let_def nth_opt_def word_le_nat_alt)
  qed
  then show ?thesis by (auto simp: bufferize_def)
qed

definition demo_loop :: loop_program where
  "demo_loop = \<lparr>lp_params = [], lp_ops =
     [\<lparr>so_op = ConstF64 0, so_inputs = [0, 0, 0, 0], so_n_inputs = 0, so_output = 0, so_ty = NoneTy, so_cluster = None\<rparr>,
      \<lparr>so_op = Unary Neg, so_inputs = [0, 0, 0, 0], so_n_inputs = 1, so_output = 1, so_ty = NoneTy, so_cluster = None\<rparr>],
     lp_results = [1], lp_buffers = [(0, 64, Global), (1, 64, Global)]\<rparr>"

theorem bufferize_registers_witness:
  "bp_entries (bufferize demo_loop) = [(0, 64, Register, False), (1, 64, Global, True)]"
proof -
  have "\<forall>(slot, bytes, space) \<in> set (lp_buffers demo_loop). unat slot < unat (value_count demo_loop)"
    by code_simp
  from bufferize_registers [OF this]
  show ?thesis by (simp add: demo_loop_def operand_slots_def)
qed

end
