(* ===== verification/Snapshot.thy ===== *)
theory Snapshot
  imports Arena_Spec
begin

text \<open>
  Edits, edit logs and snapshot commits, \<^verbatim>\<open>crates/xir-core/src/snapshot.rs\<close>. A commit works on a
  clone, so the snapshot it starts from is a value that is never changed; the verifier is the
  predicate the caller passes.
\<close>

section \<open>Model\<close>

datatype commit_error = VerifierFailed | ArenaExhausted | UnknownTarget

datatype edit =
    ReplaceAllUses value_id value_id
  | RemoveNode node_id
  | SetOp node_id xop
  | SetEffectIn node_id value_id

record edit_log =
  el_pass_id :: u16
  el_edits :: "edit list"

definition edit_log_new :: "u16 \<Rightarrow> edit_log" where
  "edit_log_new p = \<lparr>el_pass_id = p, el_edits = []\<rparr>"

definition edit_log_push :: "edit_log \<Rightarrow> edit \<Rightarrow> edit_log" where
  "edit_log_push l e = l\<lparr>el_edits := el_edits l @ [e]\<rparr>"

definition edit_log_len :: "edit_log \<Rightarrow> nat" where
  "edit_log_len l = length (el_edits l)"

definition edit_log_is_empty :: "edit_log \<Rightarrow> bool" where
  "edit_log_is_empty l \<longleftrightarrow> el_edits l = []"

definition edit_log_merge :: "edit_log \<Rightarrow> edit_log \<Rightarrow> edit_log" where
  "edit_log_merge l other = l\<lparr>el_edits := el_edits l @ el_edits other\<rparr>"

text \<open>The write of the \<^verbatim>\<open>ReplaceAllUses\<close> loop body into one node.\<close>

definition replace_in :: "value_id \<Rightarrow> value_id \<Rightarrow> node \<Rightarrow> node" where
  "replace_in from to n =
     (let n1 = n\<lparr>nd_inputs := map (\<lambda>v. if v = from then to else v) (nd_inputs n)\<rparr>
      in if nd_effect_in n1 = from then n1\<lparr>nd_effect_in := to\<rparr> else n1)"

text \<open>A loop that edits every node of a list of handles, skipping the ones that do not look up.\<close>

definition edit_nodes :: "(node \<Rightarrow> node) \<Rightarrow> node_id list \<Rightarrow> arena \<Rightarrow> arena" where
  "edit_nodes f = fold (\<lambda>x a. case node_mut a x f of Inr a' \<Rightarrow> a' | Inl _ \<Rightarrow> a)"

definition replace_uses :: "arena \<Rightarrow> value_id \<Rightarrow> value_id \<Rightarrow> arena" where
  "replace_uses a from to = edit_nodes (replace_in from to) (live_ids a) a"

fun apply_edit :: "arena \<Rightarrow> edit \<Rightarrow> commit_error + arena" where
  "apply_edit a (ReplaceAllUses from to) = Inr (replace_uses a from to)"
| "apply_edit a (RemoveNode x) =
     (case remove_node a x of
        (Inr _, a') \<Rightarrow> Inr a'
      | (Inl UnknownNode, _) \<Rightarrow> Inl UnknownTarget
      | (Inl _, _) \<Rightarrow> Inl ArenaExhausted)"
| "apply_edit a (SetOp x op) =
     (case node_mut a x (\<lambda>n. n\<lparr>nd_op := op\<rparr>) of Inr a' \<Rightarrow> Inr a' | Inl _ \<Rightarrow> Inl UnknownTarget)"
| "apply_edit a (SetEffectIn x effect) =
     (case node_mut a x (\<lambda>n. n\<lparr>nd_effect_in := effect\<rparr>) of Inr a' \<Rightarrow> Inr a' | Inl _ \<Rightarrow> Inl UnknownTarget)"

fun apply_edits :: "arena \<Rightarrow> edit list \<Rightarrow> commit_error + arena" where
  "apply_edits a [] = Inr a"
| "apply_edits a (e # es) = rbind (apply_edit a e) (\<lambda>a'. apply_edits a' es)"

definition compute_fingerprint :: "arena \<Rightarrow> u64" where
  "compute_fingerprint a =
     fnv_finish (write_u64 (foldl (\<lambda>h (_, n). node_hash_into n h) fnv_new (live_nodes a))
       (word_of_nat (region_count a)))"

record snapshot =
  sn_arena :: arena
  sn_version :: u64
  sn_fingerprint :: u64

definition snapshot_new :: "arena \<Rightarrow> snapshot" where
  "snapshot_new a = \<lparr>sn_arena = a, sn_version = 0, sn_fingerprint = compute_fingerprint a\<rparr>"

definition commit :: "snapshot \<Rightarrow> edit_log \<Rightarrow> (arena \<Rightarrow> bool) \<Rightarrow> commit_error + snapshot" where
  "commit s log verify =
     rbind (apply_edits (deep_clone (sn_arena s)) (el_edits log)) (\<lambda>clone.
       if \<not> verify clone then Inl VerifierFailed
       else Inr \<lparr>sn_arena = clone, sn_version = sn_version s + 1,
                 sn_fingerprint = compute_fingerprint clone\<rparr>)"

section \<open>Editing many nodes\<close>

lemma edit_nodes_simps [simp]:
  "edit_nodes f [] a = a"
  "edit_nodes f (x # xs) a = edit_nodes f xs (case node_mut a x f of Inr a' \<Rightarrow> a' | Inl _ \<Rightarrow> a)"
  by (simp_all add: edit_nodes_def)

lemma arena_node_edit_slot:
  assumes wf: "arena_wf a" and f: "edit_ok f" and i: "i < length (ar_nodes a)"
    and y: "y \<in> set (live_ids a)"
  shows "arena_node (edit_slot a i f) y =
    map_sum id (\<lambda>n. if y = slot_handle a i then f n else n) (arena_node a y)"
proof -
  from y obtain j where j: "j < length (ar_nodes a)" "y = slot_handle a j" by (auto elim: live_idsE)
  have "arena_node (edit_slot a i f) y = Inr (ar_nodes (edit_slot a i f) ! j)"
    using j arena_node_handle [OF arena_wf_edit [OF wf f], of j i] edit_slot_nth(3) [OF f j(1)] by simp
  also have "\<dots> = Inr (if j = i then f (ar_nodes a ! j) else ar_nodes a ! j)"
    using i by (cases "i = j") (simp_all add: edit_slot_def)
  also have "\<dots> = map_sum id (\<lambda>n. if y = slot_handle a i then f n else n) (arena_node a y)"
    using slot_handle_inj [OF wf j(1) i] arena_node_handle [OF wf j(1)] j(2) by simp
  finally show ?thesis .
qed

lemma node_mut_live:
  assumes wf: "arena_wf a" and x: "x \<in> set (live_ids a)"
  obtains i where "i < length (ar_nodes a)" "x = slot_handle a i" "node_mut a x f = Inr (edit_slot a i f)"
proof -
  from x obtain i where i: "i < length (ar_nodes a)" "slot_live a i" "x = slot_handle a i" by (rule live_idsE)
  with that wf show thesis by (simp add: node_mut_Inr unat_slot)
qed

lemma edit_nodes_inv:
  assumes "arena_inv a" "edit_ok f" "set xs \<subseteq> set (live_ids a)"
  shows "arena_inv (edit_nodes f xs a) \<and> live_ids (edit_nodes f xs a) = live_ids a"
  using assms
proof (induction xs arbitrary: a)
  case (Cons x xs)
  then have "x \<in> set (live_ids a)" by simp
  with arena_inv_wf [OF Cons.prems(1)] obtain i where i: "node_mut a x f = Inr (edit_slot a i f)"
    by (rule node_mut_live)
  with Cons.IH [of "edit_slot a i f"] Cons.prems show ?case by (simp add: arena_inv_edit live_ids_edit)
qed simp

lemma edit_nodes_node:
  assumes "arena_inv a" "edit_ok f" "set xs \<subseteq> set (live_ids a)" "distinct xs" "y \<in> set (live_ids a)"
  shows "arena_node (edit_nodes f xs a) y = map_sum id (\<lambda>n. if y \<in> set xs then f n else n) (arena_node a y)"
  using assms
proof (induction xs arbitrary: a)
  case Nil
  then show ?case by (simp add: map_sum.id [unfolded id_def] id_def)
next
  case (Cons x xs)
  have wf: "arena_wf a" by (rule arena_inv_wf [OF Cons.prems(1)])
  have "x \<in> set (live_ids a)" using Cons.prems by simp
  with wf obtain i where i: "i < length (ar_nodes a)" "x = slot_handle a i"
    "node_mut a x f = Inr (edit_slot a i f)" by (rule node_mut_live)
  let ?b = "edit_slot a i f"
  have "arena_node (edit_nodes f xs ?b) y = map_sum id (\<lambda>n. if y \<in> set xs then f n else n) (arena_node ?b y)"
    using Cons.IH [of ?b] Cons.prems unfolding live_ids_edit [OF Cons.prems(2)]
    by (auto simp only: arena_inv_edit list.set distinct.simps insert_subset)
  also have "arena_node ?b y = map_sum id (\<lambda>n. if y = x then f n else n) (arena_node a y)"
    using arena_node_edit_slot [OF wf Cons.prems(2) i(1) Cons.prems(5)] i(2) by simp
  finally show ?case using i(3) Cons.prems(4) by (cases "arena_node a y") auto
qed

lemma edit_ok_replace_in: "edit_ok (replace_in f t)"
  by (simp add: edit_ok_def replace_in_def Let_def node_wf_def)

lemma replace_uses_facts:
  assumes "arena_inv a"
  shows "arena_inv (replace_uses a f t)" "live_ids (replace_uses a f t) = live_ids a"
    "y \<in> set (live_ids a) \<Longrightarrow> arena_node (replace_uses a f t) y = map_sum id (replace_in f t) (arena_node a y)"
  using edit_nodes_inv [OF assms edit_ok_replace_in, of "live_ids a"]
    edit_nodes_node [OF assms edit_ok_replace_in, of "live_ids a" y] distinct_live_ids [OF arena_inv_wf [OF assms]]
  by (simp_all add: replace_uses_def)

section \<open>Commits\<close>

text \<open>
  The edits that respect the handles: a removal names a live node or one that does not look up, and
  \<^verbatim>\<open>SetOp\<close> stays on the level of the node it changes.
\<close>

fun edit_safe :: "arena \<Rightarrow> edit \<Rightarrow> bool" where
  "edit_safe a (ReplaceAllUses _ _) = True"
| "edit_safe a (RemoveNode x) = (x \<in> set (live_ids a) \<or> isl (arena_node a x))"
| "edit_safe a (SetOp x op) =
     (case arena_node a x of Inl _ \<Rightarrow> True | Inr n \<Rightarrow> op_level op = op_level (nd_op n))"
| "edit_safe a (SetEffectIn _ _) = True"

fun edits_safe :: "arena \<Rightarrow> edit list \<Rightarrow> bool" where
  "edits_safe a [] = True"
| "edits_safe a (e # es) =
     (edit_safe a e \<and> (case apply_edit a e of Inl _ \<Rightarrow> True | Inr a' \<Rightarrow> edits_safe a' es))"

lemma edit_slot_cong:
  "f (ar_nodes a ! i) = g (ar_nodes a ! i) \<Longrightarrow> edit_slot a i f = edit_slot a i g"
  by (simp add: edit_slot_def)

lemma remove_node_error: "isl (arena_node a x) \<Longrightarrow> remove_node a x = (Inl UnknownNode, a)"
  by (auto simp: arena_node_def remove_node_def Let_def split: if_splits)

lemma apply_edit_inv:
  assumes "arena_inv a" "edit_safe a e" "apply_edit a e = Inr b" shows "arena_inv b"
proof (cases e)
  case (ReplaceAllUses v w)
  with assms show ?thesis by (auto simp: replace_uses_facts)
next
  case (RemoveNode x)
  show ?thesis
  proof (cases "isl (arena_node a x)")
    case True
    with assms RemoveNode show ?thesis by (simp add: remove_node_error)
  next
    case False
    with assms(2) RemoveNode have x: "x \<in> set (live_ids a)" by simp
    with assms(1) obtain c where c: "remove_node a x = (Inr (), c)" by (rule remove_node_liveE)
    with assms(3) RemoveNode have "b = c" by simp
    with c arena_inv_remove [OF assms(1) x] show ?thesis by simp
  qed
next
  case (SetOp x op)
  let ?g = "\<lambda>n. if op_level op = op_level (nd_op n) then n\<lparr>nd_op := op\<rparr> else n" and ?i = "unat (nid_index x)"
  have b: "b = edit_slot a ?i (\<lambda>n. n\<lparr>nd_op := op\<rparr>)" and i: "?i < length (ar_nodes a)" "ar_gen a ! ?i = nid_generation x"
    using assms(3) SetOp by (auto simp: node_mut_Inr split: sum.splits)
  have "op_level op = op_level (nd_op (ar_nodes a ! ?i))"
    using assms(2) SetOp i by (simp add: arena_node_def)
  then have "b = edit_slot a ?i ?g" unfolding b by (intro edit_slot_cong) simp
  moreover have "edit_ok ?g" by (simp add: edit_ok_def node_wf_def)
  ultimately show ?thesis using arena_inv_edit [OF assms(1)] by simp
next
  case (SetEffectIn x v)
  have "edit_ok (\<lambda>n. n\<lparr>nd_effect_in := v\<rparr>)" by (simp add: edit_ok_def node_wf_def)
  with assms SetEffectIn show ?thesis by (auto simp: node_mut_Inr arena_inv_edit split: sum.splits)
qed

lemma apply_edits_inv:
  "arena_inv a \<Longrightarrow> edits_safe a es \<Longrightarrow> apply_edits a es = Inr b \<Longrightarrow> arena_inv b"
proof (induction es arbitrary: a)
  case (Cons e es)
  then obtain c where c: "apply_edit a e = Inr c" "apply_edits c es = Inr b" by (auto simp: rbind_eq_Inr)
  with Cons.prems have "arena_inv c" "edits_safe c es" by (auto intro: apply_edit_inv)
  with Cons.IH c show ?case by blast
qed simp

lemma apply_edits_append: "apply_edits a (es @ fs) = rbind (apply_edits a es) (\<lambda>b. apply_edits b fs)"
  by (induction es arbitrary: a) (auto simp: rbind_def split: sum.splits)

lemma deep_clone_eq:
  assumes "arena_wf a" shows "deep_clone a = a"
proof -
  have "max (ar_node_cap a) (length (ar_nodes a)) = ar_node_cap a"
    "max (ar_region_cap a) (length (ar_regions a)) = ar_region_cap a"
    using assms by (auto simp: arena_wf_def)
  then show ?thesis by (simp add: deep_clone_def Let_def)
qed



text \<open>
  C7: \<^verbatim>\<open>ReplaceAllUses\<close> of distinct values leaves no live node that mentions the old value, in an input
  position or as its effect input, and changes nothing else: handles, liveness and all other fields stay.
\<close>

theorem replace_all_uses_complete:
  assumes "arena_inv a" "from \<noteq> to" "apply_edit a (ReplaceAllUses from to) = Inr b"
  shows "live_ids b = live_ids a \<and>
    (\<forall>x \<in> set (live_ids a). \<exists>n m. arena_node a x = Inr n \<and> arena_node b x = Inr m \<and>
       nd_inputs m = map (\<lambda>v. if v = from then to else v) (nd_inputs n) \<and>
       nd_effect_in m = (if nd_effect_in n = from then to else nd_effect_in n) \<and>
       from \<notin> set (nd_inputs m) \<and> nd_effect_in m \<noteq> from \<and>
       m\<lparr>nd_inputs := nd_inputs n, nd_effect_in := nd_effect_in n\<rparr> = n)"
proof -
  have b: "b = replace_uses a from to" using assms(3) by simp
  have "\<exists>n m. arena_node a x = Inr n \<and> arena_node b x = Inr m \<and> m = replace_in from to n"
    if x: "x \<in> set (live_ids a)" for x
    using live_ids_node [OF arena_inv_wf [OF assms(1)] x] replace_uses_facts(3) [OF assms(1) x] b by fastforce
  then show ?thesis
    using replace_uses_facts(2) [OF assms(1)] assms(2) b
    by (fastforce simp: replace_in_def Let_def)
qed

theorem replace_all_uses_complete_witness:
  "\<exists>b. apply_edit demo_arena (ReplaceAllUses ValueId_NONE (ValueId 3)) = Inr b \<and> live_ids b = live_ids demo_arena"
  using replace_all_uses_complete [OF demo_arena_inv, of ValueId_NONE "ValueId 3"]
  by (simp add: ValueId_NONE_def)



text \<open>
  \<^verbatim>\<open>SetOp\<close> does not check the level of the new operation. After it moves a node to another level,
  removing the node through the handle \<^verbatim>\<open>for_each_live_node\<close> now yields succeeds but does not unlink it:
  the region's list head is left pointing at a handle that no longer looks up.
\<close>

definition setop_demo :: "commit_error + arena" where
  "setop_demo =
     (let a = with_capacity 4 2; a1 = snd (const_i64 a (root_region a) 7)
      in rbind (apply_edit a1 (SetOp (hd (live_ids a1)) FusionBarrier))
           (\<lambda>a2. apply_edit a2 (RemoveNode (hd (live_ids a2)))))"

definition setop_arena :: arena where
  "setop_arena = projr setop_demo"

definition setop_region :: region where
  "setop_region = projr (arena_region setop_arena (root_region setop_arena))"

lemma setop_demo_eq: "setop_demo = Inr setop_arena"
proof -
  have "\<not> isl setop_demo" by code_simp
  then show ?thesis by (simp add: setop_arena_def)
qed

lemma setop_region_eq: "arena_region setop_arena (root_region setop_arena) = Inr setop_region"
proof -
  have "\<not> isl (arena_region setop_arena (root_region setop_arena))" by code_simp
  then show ?thesis by (simp add: setop_region_def)
qed

lemma setop_arena_empty: "live_ids setop_arena = []"
  by code_simp

lemma setop_region_first: "rg_first setop_region \<noteq> NodeId_NONE"
  by code_simp

lemma setop_region_stale: "arena_node setop_arena (rg_first setop_region) = Inl UnknownNode"
  by code_simp

theorem setop_level_dangling:
  "\<exists>b r. setop_demo = Inr b \<and> live_ids b = [] \<and> arena_region b (root_region b) = Inr r \<and>
     rg_first r \<noteq> NodeId_NONE \<and> arena_node b (rg_first r) = Inl UnknownNode"
  using setop_demo_eq setop_region_eq setop_arena_empty setop_region_first setop_region_stale by blast

end
