(* ===== verification/Reshape.thy ===== *)
theory Reshape
  imports Snapshot
begin

text \<open>
  What the rewriting passes keep of an arena. Every pass writes nodes in place and removes nodes, so the
  result has the regions of the original with the same parents and owners, every region list is the old one
  without the removed nodes, and no survivor changes its region.
\<close>

definition reshaped :: "arena \<Rightarrow> arena \<Rightarrow> bool" where
  "reshaped a b \<longleftrightarrow> arena_inv b \<and> set (live_ids b) \<subseteq> set (live_ids a) \<and>
     length (ar_regions b) = length (ar_regions a) \<and> ar_region_gen b = ar_region_gen a \<and> ar_root b = ar_root a \<and>
     (\<forall>r < length (ar_regions a). rg_parent (ar_regions b ! r) = rg_parent (ar_regions a ! r) \<and>
        rg_owner (ar_regions b ! r) = rg_owner (ar_regions a ! r)) \<and>
     (\<forall>r < length (ar_regions a). let g = rid_pack (word_of_nat r) 0 in
        region_list b g = filter (\<lambda>x. x \<in> set (live_ids b)) (region_list a g)) \<and>
     (\<forall>x \<in> set (live_ids b). \<forall>n m. arena_node a x = Inr n \<longrightarrow> arena_node b x = Inr m \<longrightarrow> nd_region m = nd_region n)"

lemma reshapedD:
  assumes "reshaped a b"
  shows "arena_inv b" "set (live_ids b) \<subseteq> set (live_ids a)" "length (ar_regions b) = length (ar_regions a)"
    "ar_region_gen b = ar_region_gen a" "ar_root b = ar_root a"
    "r < length (ar_regions a) \<Longrightarrow> rg_parent (ar_regions b ! r) = rg_parent (ar_regions a ! r)"
    "r < length (ar_regions a) \<Longrightarrow> rg_owner (ar_regions b ! r) = rg_owner (ar_regions a ! r)"
    "r < length (ar_regions a) \<Longrightarrow> region_list b (rid_pack (word_of_nat r) 0) =
       filter (\<lambda>x. x \<in> set (live_ids b)) (region_list a (rid_pack (word_of_nat r) 0))"
    "x \<in> set (live_ids b) \<Longrightarrow> arena_node a x = Inr n \<Longrightarrow> arena_node b x = Inr m \<Longrightarrow> nd_region m = nd_region n"
  using assms unfolding reshaped_def Let_def by blast+

lemma reshapedI:
  assumes "arena_inv b" "set (live_ids b) \<subseteq> set (live_ids a)" "length (ar_regions b) = length (ar_regions a)"
    "ar_region_gen b = ar_region_gen a" "ar_root b = ar_root a"
    "\<And>r. r < length (ar_regions a) \<Longrightarrow> rg_parent (ar_regions b ! r) = rg_parent (ar_regions a ! r) \<and>
       rg_owner (ar_regions b ! r) = rg_owner (ar_regions a ! r)"
    "\<And>r. r < length (ar_regions a) \<Longrightarrow> region_list b (rid_pack (word_of_nat r) 0) =
       filter (\<lambda>x. x \<in> set (live_ids b)) (region_list a (rid_pack (word_of_nat r) 0))"
    "\<And>x n m. x \<in> set (live_ids b) \<Longrightarrow> arena_node a x = Inr n \<Longrightarrow> arena_node b x = Inr m \<Longrightarrow> nd_region m = nd_region n"
  shows "reshaped a b"
  using assms unfolding reshaped_def Let_def by blast

lemma region_list_live:
  assumes "arena_inv a" "r < length (ar_regions a)"
  shows "set (region_list a (rid_pack (word_of_nat r) 0)) \<subseteq> set (live_ids a)"
proof -
  have "rid_pack (word_of_nat r) 0 \<in> set (region_ids a)"
    using region_ids_slot [OF arena_inv_wf [OF assms(1)] assms(2)] .
  then show ?thesis using region_list_members(2) [OF assms(1)] by (force simp: live_ids_def)
qed

lemma region_list_filter_live:
  assumes "arena_inv a" "r < length (ar_regions a)"
  shows "filter (\<lambda>x. x \<in> set (live_ids a)) (region_list a (rid_pack (word_of_nat r) 0)) = region_list a (rid_pack (word_of_nat r) 0)"
  using region_list_live [OF assms] by (intro filter_True) blast

lemma reshaped_refl: "arena_inv a \<Longrightarrow> reshaped a a"
  by (rule reshapedI) (simp_all add: region_list_filter_live)

lemma reshaped_trans:
  assumes ab: "reshaped a b" and bc: "reshaped b c" and inv: "arena_inv a"
  shows "reshaped a c"
proof -
  note A = reshapedD [OF ab] and B = reshapedD [OF bc]
  have "region_list c (rid_pack (word_of_nat r) 0) =
      filter (\<lambda>x. x \<in> set (live_ids c)) (region_list a (rid_pack (word_of_nat r) 0))" if "r < length (ar_regions a)" for r
  proof -
    have "filter (\<lambda>x. x \<in> set (live_ids c)) (filter (\<lambda>x. x \<in> set (live_ids b)) xs) = filter (\<lambda>x. x \<in> set (live_ids c)) xs" for xs
      using B(2) by (auto intro: filter_cong)
    then show ?thesis using that A(3,8) B(8) by simp
  qed
  moreover have "nd_region m = nd_region n"
    if x: "x \<in> set (live_ids c)" "arena_node a x = Inr n" "arena_node c x = Inr m" for x n m
  proof -
    have xb: "x \<in> set (live_ids b)" using x(1) B(2) by blast
    obtain k where k: "arena_node b x = Inr k"
      using live_ids_node [OF arena_inv_wf [OF A(1)] xb] arena_node_live [OF arena_inv_wf [OF A(1)]] by blast
    show ?thesis using A(9) [OF xb x(2) k] B(9) [OF x(1) k x(3)] by simp
  qed
  ultimately show ?thesis using A(2) B(1,2) A(3-7) B(3-7) by (intro reshapedI) (blast | simp)+
qed

lemma reshaped_del:
  assumes inv: "arena_inv a" and x: "x \<in> set (live_ids a)"
  shows "reshaped a (node_del a x)"
proof -
  note wf = arena_inv_wf [OF inv]
  from inv x obtain r js i ks where i: "i < length (ar_nodes a)" "x = slot_handle a i"
    "r < length (ar_regions a)" "region_chain a r (js @ i # ks)" "remove_node a x = (Inr (), cut_node a r js i)"
    by (rule remove_node_liveE)
  let ?b = "cut_node a r js i"
  have b: "node_del a x = ?b" by (simp add: node_del_def i(5))
  have live: "set (live_ids ?b) = set (live_ids a) - {x}" using store.del_ids [OF inv x] b by simp
  have lists: "region_list ?b (rid_pack (word_of_nat s) 0) =
      filter (\<lambda>y. y \<in> set (live_ids ?b)) (region_list a (rid_pack (word_of_nat s) 0))" if s: "s < length (ar_regions a)" for s
  proof -
    let ?l = "region_list a (rid_pack (word_of_nat s) 0)"
    have d: "distinct ?l" using region_list_members(1) [OF inv region_ids_slot [OF wf s]] .
    have "region_list ?b (rid_pack (word_of_nat s) 0) = remove1 x ?l"
      using region_list_cut [OF inv i(3,4) s] i(2) by simp
    also have "\<dots> = filter (\<lambda>y. y \<noteq> x) ?l" by (rule distinct_remove1_removeAll [OF d, unfolded removeAll_filter_not_eq neq_commute])
    also have "\<dots> = filter (\<lambda>y. y \<in> set (live_ids ?b)) ?l"
      using region_list_live [OF inv s] by (auto simp: live intro: filter_cong)
    finally show ?thesis .
  qed
  have reg: "nd_region m = nd_region n"
    if y: "y \<in> set (live_ids ?b)" "arena_node a y = Inr n" "arena_node ?b y = Inr m" for y n m
  proof -
    have "node_get ?b y = node_get a y" using store.del_get [OF inv x, of y] y(1) live b by auto
    then have "payload m = payload n" using y by (simp add: node_get_def)
    then have "nd_region (payload m) = nd_region (payload n)" by simp
    then show ?thesis by simp
  qed
  show ?thesis unfolding b
  proof (rule reshapedI)
    show "arena_inv ?b" using store.del_inv [OF inv x] b by simp
    show "set (live_ids ?b) \<subseteq> set (live_ids a)" using live by blast
  qed (simp_all add: cut_node_regions, (fact lists reg)+)
qed

lemma reshaped_del_all:
  "arena_inv a \<Longrightarrow> distinct xs \<Longrightarrow> set xs \<subseteq> set (live_ids a) \<Longrightarrow> reshaped a (store.del_all xs a)"
proof (induction xs arbitrary: a)
  case (Cons x xs)
  then have x: "x \<in> set (live_ids a)" by simp
  note r = reshaped_del [OF Cons.prems(1) x]
  have "reshaped (node_del a x) (store.del_all xs (node_del a x))"
    using Cons store.del_ids [OF Cons.prems(1) x] reshapedD(1) [OF r] by auto
  with r show ?case using reshaped_trans [OF _ _ Cons.prems(1)] by simp
qed (simp add: reshaped_refl)

lemma reshaped_edit:
  assumes inv: "arena_inv a" and f: "edit_ok f" and i: "i < length (ar_nodes a)"
  shows "reshaped a (edit_slot a i f)"
proof -
  note wf = arena_inv_wf [OF inv]
  let ?b = "edit_slot a i f"
  have inv': "arena_inv ?b" by (rule arena_inv_edit [OF inv f])
  have li: "live_ids ?b = live_ids a" by (rule live_ids_edit [OF f])
  have lists: "region_list ?b (rid_pack (word_of_nat s) 0) = region_list a (rid_pack (word_of_nat s) 0)"
    if s: "s < length (ar_regions a)" for s
  proof -
    obtain js where c: "region_chain a s js" using inv s by (auto simp: arena_inv_def)
    have "map (slot_handle ?b) js = map (slot_handle a) js"
      using c edit_slot_nth(3) [OF f, of _ a i] by (auto simp: region_chain_def slots_of_region_def)
    then show ?thesis
      using region_list_chain [OF wf s c] region_list_chain [OF arena_inv_wf [OF inv'] _ region_chain_edit [OF f c]] s by simp
  qed
  have reg: "nd_region m = nd_region n"
    if y: "y \<in> set (live_ids ?b)" "arena_node a y = Inr n" "arena_node ?b y = Inr m" for y n m
    using arena_node_edit_slot [OF wf f i, of y] y li edit_okD(2) [OF f] by (auto split: if_splits)
  have "ar_root ?b = ar_root a" by (simp add: edit_slot_def)
  moreover have "region_list ?b (rid_pack (word_of_nat s) 0) =
      filter (\<lambda>x. x \<in> set (live_ids ?b)) (region_list a (rid_pack (word_of_nat s) 0))" if "s < length (ar_regions a)" for s
    using lists [OF that] region_list_filter_live [OF inv that] li by simp
  ultimately show ?thesis using inv' by (intro reshapedI) (simp_all only: li edit_slot_sel order_refl simp_thms reg)
qed

lemma reshaped_edit_nodes:
  assumes "edit_ok f"
  shows "arena_inv a \<Longrightarrow> set xs \<subseteq> set (live_ids a) \<Longrightarrow> reshaped a (edit_nodes f xs a)"
proof (induction xs arbitrary: a)
  case (Cons x xs)
  then have x: "x \<in> set (live_ids a)" by simp
  from arena_inv_wf [OF Cons.prems(1)] x obtain i where i: "i < length (ar_nodes a)" "node_mut a x f = Inr (edit_slot a i f)"
    by (rule node_mut_live)
  note r = reshaped_edit [OF Cons.prems(1) assms i(1)]
  have "reshaped (edit_slot a i f) (edit_nodes f xs (edit_slot a i f))"
    using Cons live_ids_edit [OF assms] reshapedD(1) [OF r] by simp
  with r i(2) show ?case using reshaped_trans [OF _ _ Cons.prems(1)] by simp
qed (simp add: reshaped_refl)

lemma reshaped_replace_uses: "arena_inv a \<Longrightarrow> reshaped a (replace_uses a v w)"
  by (simp add: replace_uses_def reshaped_edit_nodes edit_ok_replace_in)

end
