(* ===== verification/Fold.thy ===== *)
theory Fold
  imports Reshape Target
begin

text \<open>
  Constant folding, \<^verbatim>\<open>crates/xir-graph/src/fold.rs\<close>, and layout inference,
  \<^verbatim>\<open>crates/xir-levels/src/level1.rs\<close>: passes that visit the nodes that were live at the start and edit
  them in place.
\<close>

section \<open>Constant folding\<close>

definition const_i64_of :: "arena \<Rightarrow> value_id \<Rightarrow> i64 option" where
  "const_i64_of a v =
     (case arena_node a (vid_node v) of
        Inr n \<Rightarrow> (case nd_op n of ConstI64 x \<Rightarrow> Some x | _ \<Rightarrow> None)
      | Inl _ \<Rightarrow> None)"

definition const_f64_of :: "fp \<Rightarrow> arena \<Rightarrow> value_id \<Rightarrow> f64 option" where
  "const_f64_of F a v =
     (case arena_node a (vid_node v) of
        Inr n \<Rightarrow> (case nd_op n of ConstF64 x \<Rightarrow> Some x | ConstI64 x \<Rightarrow> Some (fp_of_i64 F x) | _ \<Rightarrow> None)
      | Inl _ \<Rightarrow> None)"

fun fold_unary :: "fp \<Rightarrow> unary_op \<Rightarrow> f64 \<Rightarrow> f64 option" where
  "fold_unary F Neg v = Some (f64_neg v)"
| "fold_unary F Relu v = Some (fp_max F v 0)"
| "fold_unary F Exp v = Some (fp_exp F v)"
| "fold_unary F Log v = (if f64_positive v then Some (fp_ln F v) else None)"

fun fold_i64 :: "binary_op \<Rightarrow> i64 \<Rightarrow> i64 \<Rightarrow> i64 option" where
  "fold_i64 BAdd x y = checked_i64 (x + y)"
| "fold_i64 BSub x y = checked_i64 (x - y)"
| "fold_i64 BMul x y = checked_i64 (x * y)"
| "fold_i64 BDiv x y = (if y = 0 then None else checked_div_i64 x y)"
| "fold_i64 BMax x y = Some (max x y)"
| "fold_i64 BMin x y = Some (min x y)"

fun fold_f64 :: "fp \<Rightarrow> binary_op \<Rightarrow> f64 \<Rightarrow> f64 \<Rightarrow> f64 option" where
  "fold_f64 F BAdd x y = Some (fp_add F x y)"
| "fold_f64 F BSub x y = Some (fp_sub F x y)"
| "fold_f64 F BMul x y = Some (fp_mul F x y)"
| "fold_f64 F BDiv x y = (if f64_is_zero y then None else Some (fp_div F x y))"
| "fold_f64 F BMax x y = Some (fp_max F x y)"
| "fold_f64 F BMin x y = Some (fp_min F x y)"

text \<open>The constant and the type that the loop body writes to a node, if it folds it.\<close>

definition fold_result :: "fp \<Rightarrow> arena \<Rightarrow> node \<Rightarrow> (xop \<times> ty) option" where
  "fold_result F a n =
     (case nd_op n of
        Unary u \<Rightarrow>
          (case node_input n 0 of
             Some av \<Rightarrow>
               (case const_f64_of F a av of
                  Some v \<Rightarrow> map_option (\<lambda>r. (ConstF64 r, nd_ty n)) (fold_unary F u v)
                | None \<Rightarrow> None)
           | None \<Rightarrow> None)
      | Binary b \<Rightarrow>
          (case (node_input n 0, node_input n 1) of
             (Some av, Some bv) \<Rightarrow>
               (case (const_i64_of a av, const_i64_of a bv) of
                  (Some x, Some y) \<Rightarrow> map_option (\<lambda>r. (ConstI64 r, Scalar I64)) (fold_i64 b x y)
                | _ \<Rightarrow>
                    (case (const_f64_of F a av, const_f64_of F a bv) of
                       (Some x, Some y) \<Rightarrow> map_option (\<lambda>r. (ConstF64 r, nd_ty n)) (fold_f64 F b x y)
                     | _ \<Rightarrow> None))
           | _ \<Rightarrow> None)
      | _ \<Rightarrow> None)"

definition set_const :: "xop \<Rightarrow> ty \<Rightarrow> node \<Rightarrow> node" where
  "set_const op t n =
     n\<lparr>nd_op := op, nd_ty := t, nd_n_inputs := 0, nd_inputs := replicate MAX_INPUTS ValueId_NONE\<rparr>"

definition fold_node :: "fp \<Rightarrow> node_id \<Rightarrow> arena \<times> u32 \<Rightarrow> arena \<times> u32" where
  "fold_node F x = (\<lambda>(a, folded).
     case arena_node a x of
       Inl _ \<Rightarrow> (a, folded)
     | Inr n \<Rightarrow>
         (case fold_result F a n of
            None \<Rightarrow> (a, folded)
          | Some (op, t) \<Rightarrow>
              (case node_mut a x (set_const op t) of
                 Inr a' \<Rightarrow> (a', folded + 1)
               | Inl _ \<Rightarrow> (a, folded))))"

definition fold_run :: "fp \<Rightarrow> arena \<Rightarrow> u32 \<times> arena" where
  "fold_run F a = prod.swap (fold (fold_node F) (live_ids a) (a, 0))"

section \<open>Layout inference\<close>

fun first_tensor_layout :: "arena \<Rightarrow> value_id list \<Rightarrow> layout option" where
  "first_tensor_layout a [] = None"
| "first_tensor_layout a (v # vs) =
     (case arena_node a (vid_node v) of
        Inr p \<Rightarrow> (case nd_ty p of Tensor t \<Rightarrow> Some (tt_layout t) | _ \<Rightarrow> first_tensor_layout a vs)
      | Inl _ \<Rightarrow> first_tensor_layout a vs)"

definition first_input_layout :: "arena \<Rightarrow> node_id \<Rightarrow> layout option" where
  "first_input_layout a x =
     (case arena_node a x of Inl _ \<Rightarrow> None | Inr n \<Rightarrow> first_tensor_layout a (node_uses n))"

definition inferred_layout :: "arena \<Rightarrow> node_id \<Rightarrow> xop \<Rightarrow> layout option" where
  "inferred_layout a x op =
     (case op of
        Transpose _ _ \<Rightarrow> Some ColMajor
      | Matmul _ _ \<Rightarrow> Some RowMajor
      | _ \<Rightarrow> first_input_layout a x)"

definition set_layout :: "layout \<Rightarrow> node \<Rightarrow> node" where
  "set_layout l n =
     (case nd_ty n of
        Tensor t \<Rightarrow> if tt_layout t \<noteq> l \<and> tt_layout t = RowMajor then n\<lparr>nd_ty := Tensor (t\<lparr>tt_layout := l\<rparr>)\<rparr> else n
      | _ \<Rightarrow> n)"

definition layout_node :: "node_id \<times> xop \<Rightarrow> arena \<times> u32 \<Rightarrow> arena \<times> u32" where
  "layout_node = (\<lambda>(x, op) (a, changed).
     case inferred_layout a x op of
       None \<Rightarrow> (a, changed)
     | Some l \<Rightarrow>
         (case (arena_node a x, node_mut a x (set_layout l)) of
            (Inr n, Inr a') \<Rightarrow> (a', if set_layout l n \<noteq> n then changed + 1 else changed)
          | _ \<Rightarrow> (a, changed)))"

definition is_tensor :: "ty \<Rightarrow> bool" where
  "is_tensor t = (case t of Tensor _ \<Rightarrow> True | _ \<Rightarrow> False)"

definition layout_infer :: "arena \<Rightarrow> u32 \<times> arena" where
  "layout_infer a =
     prod.swap (fold layout_node
       (map (\<lambda>(x, n). (x, nd_op n)) (filter (\<lambda>(_, n). is_tensor (nd_ty n)) (live_nodes a))) (a, 0))"

section \<open>Passes that edit nodes in place\<close>

text \<open>
  Both passes write through one handle at a time. \<open>edited P a b\<close>: \<open>b\<close> is \<open>a\<close> with the live nodes edited in
  a way that \<open>P\<close> allows, handles, lists and regions unchanged.
\<close>

definition edited :: "(node_id \<Rightarrow> node \<Rightarrow> node \<Rightarrow> bool) \<Rightarrow> arena \<Rightarrow> arena \<Rightarrow> bool" where
  "edited P a b \<longleftrightarrow> reshaped a b \<and> live_ids b = live_ids a \<and>
     (\<forall>x \<in> set (live_ids a). \<forall>n. arena_node a x = Inr n \<longrightarrow> (\<exists>m. arena_node b x = Inr m \<and> P x n m))"

lemma edited_inv: "edited P a b \<Longrightarrow> arena_inv b \<and> live_ids b = live_ids a"
  by (auto simp: edited_def reshapedD)

lemma edited_refl: "arena_inv a \<Longrightarrow> (\<And>x n. P x n n) \<Longrightarrow> edited P a a"
  by (simp add: edited_def reshaped_refl)

lemma edited_trans:
  assumes "arena_inv a" "edited P a b" "edited P b c" "\<And>x n m k. P x n m \<Longrightarrow> P x m k \<Longrightarrow> P x n k"
  shows "edited P a c"
proof -
  have "reshaped a c" using assms(1-3) reshaped_trans by (auto simp: edited_def)
  then show ?thesis using assms(2-4) unfolding edited_def by metis
qed

lemma edited_node_mut:
  assumes inv: "arena_inv a" and x: "x \<in> set (live_ids a)" and f: "edit_ok f"
    and n: "arena_node a x = Inr n" and P: "P x n (f n)" "\<And>y m. P y m m"
  shows "\<exists>b. node_mut a x f = Inr b \<and> edited P a b"
proof -
  have wf: "arena_wf a" by (rule arena_inv_wf [OF inv])
  from wf x obtain i where i: "i < length (ar_nodes a)" "x = slot_handle a i"
    "node_mut a x f = Inr (edit_slot a i f)" by (rule node_mut_live)
  have "\<exists>k. arena_node (edit_slot a i f) y = Inr k \<and> P y m k" if "y \<in> set (live_ids a)" "arena_node a y = Inr m" for y m
    using arena_node_edit_slot [OF wf f i(1) that(1)] that(2) i(2) n P by (cases "y = x") auto
  then have "edited P a (edit_slot a i f)"
    using reshaped_edit [OF inv f i(1)] live_ids_edit [OF f] by (simp add: edited_def)
  with i(3) show ?thesis by blast
qed

text \<open>An edit that only has to be well-behaved at the node it is applied to.\<close>

lemma node_mut_cong:
  assumes "arena_node a x = Inr n" "f n = g n" shows "node_mut a x f = node_mut a x g"
  using assms by (auto simp: node_mut_def arena_node_def Let_def split: if_splits)

definition edit_at :: "node \<Rightarrow> (node \<Rightarrow> node) \<Rightarrow> node \<Rightarrow> node" where
  "edit_at n f m = (if m = n then f m else m)"

lemma edit_at_ok:
  assumes "nd_next (f n) = nd_next n" "nd_region (f n) = nd_region n"
    "op_level (nd_op (f n)) = op_level (nd_op n)" "node_wf n \<Longrightarrow> node_wf (f n)"
  shows "edit_ok (edit_at n f)"
  using assms by (simp add: edit_ok_def edit_at_def)

lemma edited_node_mut_at:
  assumes inv: "arena_inv a" and x: "x \<in> set (live_ids a)" and n: "arena_node a x = Inr n"
    and f: "nd_next (f n) = nd_next n" "nd_region (f n) = nd_region n"
      "op_level (nd_op (f n)) = op_level (nd_op n)" "node_wf n \<Longrightarrow> node_wf (f n)"
    and P: "P x n (f n)" "\<And>y m. P y m m"
  shows "\<exists>b. node_mut a x f = Inr b \<and> edited P a b"
proof -
  have "node_mut a x f = node_mut a x (edit_at n f)" by (rule node_mut_cong [OF n]) (simp add: edit_at_def)
  moreover have "P x n (edit_at n f n)" using P(1) by (simp add: edit_at_def)
  moreover have "edit_ok (edit_at n f)" by (rule edit_at_ok) (use f in auto)
  ultimately show ?thesis using edited_node_mut [OF inv x _ n, of "edit_at n f" P] P(2) by simp
qed

section \<open>What folding does to a node\<close>

text \<open>A node is untouched, or a unary or binary node became a constant.\<close>

definition arith :: "xop \<Rightarrow> bool" where
  "arith op = (case op of Unary _ \<Rightarrow> True | Binary _ \<Rightarrow> True | _ \<Rightarrow> False)"

fun is_const :: "xop \<Rightarrow> bool" where
  "is_const (ConstF64 _) = True"
| "is_const (ConstI64 _) = True"
| "is_const _ = False"

lemma fold_result_shape:
  assumes "fold_result F a n = Some (op, t)"
  shows "arith (nd_op n)" "is_const op"
    and "(\<exists>r. op = ConstF64 r) \<and> t = nd_ty n \<or> (\<exists>r. op = ConstI64 r) \<and> t = Scalar I64"
  using assms by (auto simp: fold_result_def arith_def split: xop.splits option.splits)

definition folded_node :: "node_id \<Rightarrow> node \<Rightarrow> node \<Rightarrow> bool" where
  "folded_node x n m \<longleftrightarrow> m = n \<or> (\<exists>op t. m = set_const op t n \<and> arith (nd_op n) \<and> is_const op \<and>
     ((\<exists>r. op = ConstF64 r) \<and> t = nd_ty n \<or> (\<exists>r. op = ConstI64 r) \<and> t = Scalar I64))"

lemma folded_node_trans: "folded_node x n m \<Longrightarrow> folded_node x m k \<Longrightarrow> folded_node x n k"
  by (auto simp: folded_node_def set_const_def arith_def)

lemma fold_node_step:
  assumes inv: "arena_inv a" and x: "x \<in> set (live_ids a)" and n: "arena_node a x = Inr n"
    and r: "fold_result F a n = Some (op, t)"
    and P: "P x n (set_const op t n)" "\<And>y m. P y m m"
  shows "\<exists>b. fold_node F x (a, k) = (b, k + 1) \<and> edited P a b"
proof -
  have lv: "op_level (nd_op (set_const op t n)) = op_level (nd_op n)"
    using fold_result_shape [OF r] by (cases "nd_op n") (auto simp: set_const_def arith_def)
  have "\<exists>b. node_mut a x (set_const op t) = Inr b \<and> edited P a b"
    by (rule edited_node_mut_at [OF inv x n]) (use P lv in \<open>auto simp: set_const_def node_wf_def\<close>)
  then obtain b where b: "node_mut a x (set_const op t) = Inr b" "edited P a b" by blast
  with n r show ?thesis by (simp add: fold_node_def)
qed

text \<open>
  An invariant that one fold step keeps, kept by the pass. \<open>P\<close> relates old and new nodes, \<open>Q\<close> is a property
  of the arena.
\<close>

lemma fold_pass_induct:
  assumes inv: "arena_inv a" and Q: "Q a"
    and refl: "\<And>y m. P y m m" and trans: "\<And>x n m k. P x n m \<Longrightarrow> P x m k \<Longrightarrow> P x n k"
    and step: "\<And>c x n op t. arena_inv c \<Longrightarrow> Q c \<Longrightarrow> x \<in> set (live_ids c) \<Longrightarrow> arena_node c x = Inr n \<Longrightarrow>
      fold_result F c n = Some (op, t) \<Longrightarrow> P x n (set_const op t n)"
    and stepQ: "\<And>c d x n op t. arena_inv c \<Longrightarrow> Q c \<Longrightarrow> x \<in> set (live_ids c) \<Longrightarrow> arena_node c x = Inr n \<Longrightarrow>
      fold_result F c n = Some (op, t) \<Longrightarrow> node_mut c x (set_const op t) = Inr d \<Longrightarrow> arena_inv d \<Longrightarrow> Q d"
  shows "edited P a (snd (fold_run F a)) \<and> Q (snd (fold_run F a))"
proof -
  have "edited P c (fst (fold (fold_node F) xs (c, k))) \<and> Q (fst (fold (fold_node F) xs (c, k)))"
    if "arena_inv c" "Q c" "set xs \<subseteq> set (live_ids c)" for xs c k
    using that
  proof (induction xs arbitrary: c k)
    case Nil
    then show ?case using refl by (simp add: edited_refl)
  next
    case (Cons x xs)
    then have x: "x \<in> set (live_ids c)" by simp
    then obtain n where n: "arena_node c x = Inr n"
      using live_ids_node [OF arena_inv_wf [OF Cons.prems(1)]] arena_node_live [OF arena_inv_wf [OF Cons.prems(1)]] by blast
    show ?case
    proof (cases "fold_result F c n")
      case None
      with n have "fold_node F x (c, k) = (c, k)" by (simp add: fold_node_def)
      with Cons show ?thesis by simp
    next
      case (Some r)
      obtain op t where r: "fold_result F c n = Some (op, t)" using Some by (cases r) simp
      note P1 = step [OF Cons.prems(1,2) x n r]
      obtain d where d: "fold_node F x (c, k) = (d, k + 1)" "edited P c d"
        using fold_node_step [OF Cons.prems(1) x n r, where P = P] P1 refl by blast
      then have inv': "arena_inv d" and li: "live_ids d = live_ids c" by (auto dest: edited_inv)
      have "node_mut c x (set_const op t) = Inr d"
        using d(1) n r by (auto simp: fold_node_def split: sum.splits)
      note Qd = stepQ [OF Cons.prems(1,2) x n r this inv']
      from Cons.IH [OF inv' Qd, of "k + 1"] li Cons.prems(3)
      have "edited P d (fst (fold (fold_node F) xs (d, k + 1))) \<and> Q (fst (fold (fold_node F) xs (d, k + 1)))" by simp
      with d edited_trans [OF Cons.prems(1) d(2), of "fst (fold (fold_node F) xs (d, k + 1))"] trans show ?thesis by simp
    qed
  qed
  from this [OF inv Q order_refl, of 0] show ?thesis by (simp add: fold_run_def)
qed

lemma fold_result_folded: "fold_result F a n = Some (op, t) \<Longrightarrow> folded_node x n (set_const op t n)"
  using fold_result_shape [of F a n op t] unfolding folded_node_def by blast

lemma fold_run_edited:
  assumes "arena_inv a" shows "edited folded_node a (snd (fold_run F a))"
proof -
  have "edited folded_node a (snd (fold_run F a)) \<and> True"
    by (rule fold_pass_induct [OF assms])
      (auto intro: folded_node_trans fold_result_folded simp: folded_node_def [of _ n n for n])
  then show ?thesis ..
qed

section \<open>What layout inference does to a node\<close>

definition relaid_node :: "node_id \<Rightarrow> node \<Rightarrow> node \<Rightarrow> bool" where
  "relaid_node x n m \<longleftrightarrow> m = n \<or> (\<exists>t l. nd_ty n = Tensor t \<and> m = n\<lparr>nd_ty := Tensor (t\<lparr>tt_layout := l\<rparr>)\<rparr>)"

lemma relaid_node_trans:
  assumes "relaid_node x n m" "relaid_node x m k" shows "relaid_node x n k"
proof (cases "m = n \<or> k = m")
  case True
  then show ?thesis using assms by auto
next
  case False
  then obtain t l l' where "nd_ty n = Tensor t" "m = n\<lparr>nd_ty := Tensor (t\<lparr>tt_layout := l\<rparr>)\<rparr>"
    "k = n\<lparr>nd_ty := Tensor (t\<lparr>tt_layout := l'\<rparr>)\<rparr>"
    using assms by (auto simp: relaid_node_def)
  then show ?thesis unfolding relaid_node_def by blast
qed

lemma layout_node_step:
  assumes inv: "arena_inv a" and x: "x \<in> set (live_ids a)"
  shows "edited relaid_node a (fst (layout_node (x, op) (a, k)))"
proof -
  have refl: "edited relaid_node a a" by (rule edited_refl [OF inv]) (simp add: relaid_node_def)
  obtain n where n: "arena_node a x = Inr n"
    using live_ids_node [OF arena_inv_wf [OF inv]] arena_node_live [OF arena_inv_wf [OF inv]] x by blast
  show ?thesis
  proof (cases "inferred_layout a x op")
    case None
    with refl show ?thesis by (simp add: layout_node_def)
  next
    case (Some l)
    have P: "relaid_node x n (set_layout l n)" by (auto simp: relaid_node_def set_layout_def split: ty.splits)
    have "nd_next (set_layout l n) = nd_next n" "nd_region (set_layout l n) = nd_region n"
      "nd_op (set_layout l n) = nd_op n" "node_wf n \<Longrightarrow> node_wf (set_layout l n)"
      by (auto simp: set_layout_def node_wf_def split: ty.splits)
    with edited_node_mut_at [OF inv x n, of "set_layout l" relaid_node] P
    obtain b where "node_mut a x (set_layout l) = Inr b" "edited relaid_node a b"
      by (auto simp: relaid_node_def)
    with Some n show ?thesis by (simp add: layout_node_def)
  qed
qed

lemma layout_infer_edited:
  assumes "arena_inv a" shows "edited relaid_node a (snd (layout_infer a))"
proof -
  have "edited relaid_node c (fst (fold layout_node xs (c, k)))"
    if "arena_inv c" "fst ` set xs \<subseteq> set (live_ids c)" for xs c k
    using that
  proof (induction xs arbitrary: c k)
    case Nil
    then show ?case by (simp add: edited_refl relaid_node_def)
  next
    case (Cons p xs)
    obtain x op where p: "p = (x, op)" by (cases p)
    obtain d j where d: "layout_node p (c, k) = (d, j)" by (cases "layout_node p (c, k)")
    have e: "edited relaid_node c d" using layout_node_step [OF Cons.prems(1), of x op k] Cons.prems(2) d p by simp
    then have "arena_inv d" "live_ids d = live_ids c" by (auto dest: edited_inv)
    with Cons.IH [of d j] Cons.prems(2) have "edited relaid_node d (fst (fold layout_node xs (d, j)))" by simp
    with e d show ?case by (auto intro: edited_trans [OF Cons.prems(1)] relaid_node_trans)
  qed
  then have "edited relaid_node a (fst (fold layout_node (map (\<lambda>(x, n). (x, nd_op n))
      (filter (\<lambda>(_, n). is_tensor (nd_ty n)) (live_nodes a))) (a, 0)))"
    using assms by (rule meta_mp) (auto simp: live_ids_def intro!: rev_image_eqI)
  then show ?thesis by (simp add: layout_infer_def)
qed

end
