(* ===== verification/Gvn.thy ===== *)
theory Gvn
  imports Dominance Snapshot BTree_Map
begin

text \<open>
  Global value numbering, \<^verbatim>\<open>crates/xir-graph/src/gvn.rs\<close>: pure nodes are hashed over their operation and
  the representatives of their inputs; a node that agrees with the table entry of its hash, whose region
  is dominated by the entry's, is replaced by it and removed after the scan.
\<close>

record gvn_state =
  gs_arena :: arena
  gs_canon :: "node_id option list"
  gs_table :: "(u64, node_id) btree_map"
  gs_removals :: "node_id list"
  gs_changed :: u32

text \<open>\<^verbatim>\<open>canon.get(def.index()).copied().flatten().unwrap_or(def)\<close>\<close>

definition canon_rep :: "node_id option list \<Rightarrow> node_id \<Rightarrow> node_id" where
  "canon_rep canon d = (case nth_opt canon (unat (nid_index d)) of Some (Some r) \<Rightarrow> r | _ \<Rightarrow> d)"

definition gvn_key :: "node_id option list \<Rightarrow> xop \<Rightarrow> value_id list \<Rightarrow> u64" where
  "gvn_key canon op uses =
     fnv_finish (foldl (\<lambda>h v. write_u64 h (nid_raw (canon_rep canon (vid_node v)))) (op_hash_into op fnv_new) uses)"

definition inputs_congruent :: "node_id option list \<Rightarrow> node \<Rightarrow> node \<Rightarrow> bool" where
  "inputs_congruent canon n rep_node \<longleftrightarrow>
     nd_n_inputs rep_node = nd_n_inputs n \<and>
     list_all (\<lambda>(mine, theirs). canon_rep canon (vid_node mine) = canon_rep canon (vid_node theirs))
       (take MAX_INPUTS (take (unat (nd_n_inputs n)) (zip (nd_inputs n) (nd_inputs rep_node))))"

definition set_canon :: "gvn_state \<Rightarrow> node_id \<Rightarrow> node_id \<Rightarrow> gvn_state" where
  "set_canon s x r = s\<lparr>gs_canon := (gs_canon s)[unat (nid_index x) := Some r]\<rparr>"

text \<open>One iteration of the scan; \<open>n\<close> is the snapshot of the node taken before the loop.\<close>

definition gvn_visit :: "dominator_tree \<Rightarrow> node_id \<times> node \<Rightarrow> gvn_state \<Rightarrow> (pass_error + unit) \<times> gvn_state" where
  "gvn_visit tree = (\<lambda>(x, n) s.
     if \<not> is_pure (nd_op n) then (Inr (), set_canon s x x)
     else
       let key = gvn_key (gs_canon s) (nd_op n) (node_uses n) in
       case bt_get (gs_table s) key of
         None \<Rightarrow> (Inr (), set_canon (s\<lparr>gs_table := bt_insert (gs_table s) key x\<rparr>) x x)
       | Some rep \<Rightarrow>
           (case arena_node (gs_arena s) rep of
              Inl _ \<Rightarrow> (Inl Internal, s)
            | Inr rep_node \<Rightarrow>
                if nd_ty rep_node = nd_ty n \<and> dominates tree (nd_region rep_node) (nd_region n) \<and>
                   nd_n_inputs rep_node = nd_n_inputs n \<and> op_eq (nd_op rep_node) (nd_op n) \<and>
                   inputs_congruent (gs_canon s) n rep_node
                then (Inr (), set_canon
                       (s\<lparr>gs_arena := replace_uses (gs_arena s) (vid_from_node x 0) (vid_from_node rep 0),
                          gs_removals := gs_removals s @ [x],
                          gs_changed := gs_changed s + 1\<rparr>) x rep)
                else (Inr (), set_canon s x x)))"

fun gvn_scan :: "dominator_tree \<Rightarrow> (node_id \<times> node) list \<Rightarrow> gvn_state \<Rightarrow> (pass_error + unit) \<times> gvn_state" where
  "gvn_scan tree [] s = (Inr (), s)"
| "gvn_scan tree (p # ps) s =
     (case gvn_visit tree p s of (Inr _, s') \<Rightarrow> gvn_scan tree ps s' | (Inl e, s') \<Rightarrow> (Inl e, s'))"

fun gvn_remove :: "node_id list \<Rightarrow> arena \<Rightarrow> (pass_error + unit) \<times> arena" where
  "gvn_remove [] a = (Inr (), a)"
| "gvn_remove (x # xs) a =
     (case remove_node a x of (Inr _, a') \<Rightarrow> gvn_remove xs a' | (Inl _, a') \<Rightarrow> (Inl Internal, a'))"

definition gvn_init :: "arena \<Rightarrow> gvn_state" where
  "gvn_init a = \<lparr>gs_arena = a, gs_canon = replicate (slot_count a) None, gs_table = [], gs_removals = [], gs_changed = 0\<rparr>"

definition gvn_run :: "arena \<Rightarrow> (pass_error + u32) \<times> arena" where
  "gvn_run a =
     (case dom_build a of
        Inl e \<Rightarrow> (Inl (DominanceBuildFailed e), a)
      | Inr tree \<Rightarrow>
          (case gvn_scan tree (live_nodes a) (gvn_init a) of
             (Inl e, s) \<Rightarrow> (Inl e, gs_arena s)
           | (Inr _, s) \<Rightarrow>
               (case gvn_remove (gs_removals s) (gs_arena s) of
                  (Inl e, b) \<Rightarrow> (Inl e, b)
                | (Inr _, b) \<Rightarrow> (Inr (gs_changed s), b))))"

end
