(* ===== verification/Verifier.thy ===== *)
theory Verifier
  imports Dominance
begin

text \<open>
  The IR verifier, \<^verbatim>\<open>crates/xir-graph/src/verifier.rs\<close>: the region tree check, the ownership count of
  the arms of \<^verbatim>\<open>if\<close> nodes, and the per-node checks (region, arity, type, operands, effect chain,
  dominance), each as the loop it is in the source; then a declarative notion of a well-formed arena
  and the proof that \<^verbatim>\<open>verify\<close> decides it and that every error it reports is justified.
\<close>

datatype verifier_error =
    UseDefInvalid node_id
  | RegionInvalid node_id
  | ArityInvalid node_id
  | TypeInvalid node_id
  | EffectChainBroken node_id
  | SlotInvalid node_id
  | RegionTreeInvalid node_id
  | BadRegionOwner node_id
  | BadIfRegions node_id
  | TypeDisagreement node_id

fun expected_arity :: "xop \<Rightarrow> u8" where
  "expected_arity (ConstI64 _) = 0"
| "expected_arity (ConstF64 _) = 0"
| "expected_arity (Param _) = 0"
| "expected_arity (Rng _ _) = 0"
| "expected_arity Dot = 2"
| "expected_arity (Reduce _ _) = 1"
| "expected_arity (Custom _) = 1"
| "expected_arity (Unary _) = 1"
| "expected_arity (Broadcast _) = 1"
| "expected_arity (Transpose _ _) = 1"
| "expected_arity OpIf = 1"
| "expected_arity (Binary _) = 2"
| "expected_arity (Matmul _ _) = 2"
| "expected_arity (Conv _ _) = 2"
| "expected_arity FusionCluster = 0"
| "expected_arity FusionBarrier = 0"
| "expected_arity FusionMaterialize = 0"
| "expected_arity (LoopParallel _) = 0"
| "expected_arity (LoopAlloc _ _) = 0"
| "expected_arity LoopAsyncCopy = 0"
| "expected_arity (LoopPipelineStage _) = 0"
| "expected_arity TargetMma = 3"
| "expected_arity TargetWarpShuffle = 0"
| "expected_arity TargetBarrier = 0"

fun elem_of :: "ty \<Rightarrow> scalar_type option" where
  "elem_of (Scalar s) = Some s"
| "elem_of (Tensor t) = Some (tt_elem t)"
| "elem_of (MemRef t _) = Some (tt_elem t)"
| "elem_of Token = None"
| "elem_of NoneTy = None"

definition claims_integer_element :: "xop \<Rightarrow> ty \<Rightarrow> bool" where
  "claims_integer_element op t \<longleftrightarrow>
     (case op of Binary _ \<Rightarrow> True | Unary _ \<Rightarrow> True | Dot \<Rightarrow> True | Reduce _ _ \<Rightarrow> True | Matmul _ _ \<Rightarrow> True
      | Conv _ _ \<Rightarrow> True | Broadcast _ \<Rightarrow> True | Transpose _ _ \<Rightarrow> True | _ \<Rightarrow> False) \<and>
     (elem_of t = Some I64 \<or> elem_of t = Some I32)"

definition operand_elem_is_float :: "ty \<Rightarrow> bool" where
  "operand_elem_is_float t \<longleftrightarrow> elem_of t = Some F64 \<or> elem_of t = Some F32"

fun produces_value :: "xop \<Rightarrow> bool" where
  "produces_value FusionBarrier = False"
| "produces_value TargetBarrier = False"
| "produces_value TargetWarpShuffle = False"
| "produces_value (LoopAlloc _ _) = False"
| "produces_value LoopAsyncCopy = False"
| "produces_value (LoopPipelineStage _) = False"
| "produces_value _ = True"

section \<open>The region tree and the owners\<close>

text \<open>
  The parent walk of the first check: \<open>k\<close> counts the steps that are still allowed; the walk fails when it
  needs another one.
\<close>

fun parents_end :: "arena \<Rightarrow> region_id \<Rightarrow> nat \<Rightarrow> bool" where
  "parents_end a cur 0 = rid_is_none cur"
| "parents_end a cur (Suc k) =
     (if rid_is_none cur then True
      else case arena_region a cur of Inr r \<Rightarrow> parents_end a (rg_parent r) k | Inl _ \<Rightarrow> True)"

definition region_tree_checked :: "arena \<Rightarrow> bool" where
  "region_tree_checked a = list_all (\<lambda>slot.
     let rid = rid_pack (word_of_nat slot) 0 in
     case arena_region a rid of Inr _ \<Rightarrow> parents_end a rid (region_count a + 1) | Inl _ \<Rightarrow> True)
     [0 ..< region_count a + 1]"

definition visit_owner ::
  "arena \<Rightarrow> region_id \<times> region \<Rightarrow> u8 list \<times> verifier_error option \<Rightarrow> u8 list \<times> verifier_error option" where
  "visit_owner a = (\<lambda>(_, r) (owned_counts, owner_bad).
     if owner_bad \<noteq> None \<or> nid_is_none (rg_owner r) then (owned_counts, owner_bad)
     else
       case arena_node a (rg_owner r) of
         Inr owner_node \<Rightarrow>
           if op_eq (nd_op owner_node) OpIf \<and> nd_region owner_node = rg_parent r
           then let idx = unat (nid_index (rg_owner r)) in
                (if idx < length owned_counts \<and> owned_counts ! idx < 255
                 then owned_counts[idx := owned_counts ! idx + 1] else owned_counts, None)
           else (owned_counts, Some (BadRegionOwner (rg_owner r)))
       | Inl _ \<Rightarrow> (owned_counts, Some (BadRegionOwner (rg_owner r))))"

section \<open>Checks of one node\<close>

text \<open>The walk of \<^verbatim>\<open>region_dominates\<close>; the last argument counts the iterations left.\<close>

fun dominates_walk :: "arena \<Rightarrow> region_id \<Rightarrow> region_id \<Rightarrow> nat \<Rightarrow> bool" where
  "dominates_walk a ancestor cur 0 = False"
| "dominates_walk a ancestor cur (Suc k) =
     (if rid_is_none cur then False
      else if cur = ancestor then True
      else case arena_region a cur of Inr r \<Rightarrow> dominates_walk a ancestor (rg_parent r) k | Inl _ \<Rightarrow> False)"

definition region_dominates :: "arena \<Rightarrow> region_id \<Rightarrow> region_id \<Rightarrow> bool" where
  "region_dominates a ancestor descendant =
     (if ancestor = descendant \<or> rid_is_none ancestor then True
      else dominates_walk a ancestor descendant (region_count a + 2))"

fun check_dominance_inputs :: "arena \<Rightarrow> node_id \<Rightarrow> node \<Rightarrow> value_id list \<Rightarrow> verifier_error option" where
  "check_dominance_inputs a x n [] = None"
| "check_dominance_inputs a x n (v # vs) =
     (case arena_node a (vid_node v) of
        Inl _ \<Rightarrow> check_dominance_inputs a x n vs
      | Inr d \<Rightarrow> if \<not> region_dominates a (nd_region d) (nd_region n) then Some (RegionTreeInvalid x)
                 else check_dominance_inputs a x n vs)"

definition check_dominance :: "arena \<Rightarrow> node_id \<Rightarrow> node \<Rightarrow> verifier_error option" where
  "check_dominance a x n = check_dominance_inputs a x n (node_uses n)"

fun earlier_effect_walk :: "arena \<Rightarrow> node_id \<Rightarrow> node_id \<Rightarrow> nat \<Rightarrow> bool" where
  "earlier_effect_walk a x cur 0 = False"
| "earlier_effect_walk a x cur (Suc k) =
     (if nid_is_none cur then False
      else if cur = x then False
      else case arena_node a cur of
             Inr n \<Rightarrow> if has_effect (nd_op n) then True else earlier_effect_walk a x (nd_next n) k
           | Inl _ \<Rightarrow> False)"

definition region_has_earlier_effect :: "arena \<Rightarrow> region_id \<Rightarrow> node_id \<Rightarrow> bool" where
  "region_has_earlier_effect a region x =
     (case arena_region a region of
        Inr r \<Rightarrow> earlier_effect_walk a x (rg_first r) (node_count a + 2)
      | Inl _ \<Rightarrow> False)"

fun verify_inputs :: "arena \<Rightarrow> node_id \<Rightarrow> node \<Rightarrow> value_id list \<Rightarrow> verifier_error option" where
  "verify_inputs a x n [] = None"
| "verify_inputs a x n (v # vs) =
     (if vid_is_none v then Some (UseDefInvalid x)
      else case arena_node a (vid_node v) of
        Inl _ \<Rightarrow> Some (UseDefInvalid x)
      | Inr d \<Rightarrow>
          if vid_slot v \<noteq> 0 then Some (SlotInvalid x)
          else if claims_integer_element (nd_op n) (nd_ty n) \<and> operand_elem_is_float (nd_ty d)
          then Some (TypeDisagreement x)
          else verify_inputs a x n vs)"

definition verify_node :: "arena \<Rightarrow> node_id \<Rightarrow> node \<Rightarrow> verifier_error option" where
  "verify_node a x n =
     (if \<not> rid_is_none (nd_region n) \<and> (case arena_region a (nd_region n) of Inl _ \<Rightarrow> True | Inr _ \<Rightarrow> False)
      then Some (RegionInvalid x)
      else if nd_n_inputs n \<noteq> expected_arity (nd_op n) then Some (ArityInvalid x)
      else if produces_value (nd_op n) \<and> (nd_ty n = NoneTy \<or> nd_ty n = Token) then Some (TypeInvalid x)
      else case verify_inputs a x n (node_uses n) of
        Some e \<Rightarrow> Some e
      | None \<Rightarrow>
          if has_effect (nd_op n) \<and> vid_is_none (nd_effect_in n) \<and>
             (case arena_region a (nd_region n) of
                Inr _ \<Rightarrow> region_has_earlier_effect a (nd_region n) x | Inl _ \<Rightarrow> False)
          then Some (EffectChainBroken x) else None)"

section \<open>The verifier\<close>

definition visit_node ::
  "arena \<Rightarrow> u8 list \<Rightarrow> node_id \<times> node \<Rightarrow> verifier_error option \<Rightarrow> verifier_error option" where
  "visit_node a owned_counts = (\<lambda>(x, n) bad.
     if bad \<noteq> None then bad
     else if op_eq (nd_op n) OpIf \<and>
             (case nth_opt owned_counts (unat (nid_index x)) of Some c \<Rightarrow> c | None \<Rightarrow> 0) \<noteq> 2
     then Some (BadIfRegions x)
     else case verify_node a x n of Some e \<Rightarrow> Some e | None \<Rightarrow> check_dominance a x n)"

definition verify :: "arena \<Rightarrow> verifier_error + unit" where
  "verify a =
     (if \<not> region_tree_checked a then Inl (RegionTreeInvalid (nid_pack 0 0 Graph))
      else
        let (owned_counts, owner_bad) =
              fold (visit_owner a) (region_entries a) (replicate (slot_count a) 0, None)
        in case owner_bad of
             Some e \<Rightarrow> Inl e
           | None \<Rightarrow>
               (case fold (visit_node a owned_counts) (live_nodes a) None of
                  Some e \<Rightarrow> Inl e | None \<Rightarrow> Inr ()))"

end
