(* ===== verification/Passman.thy ===== *)
theory Passman
  imports Fold Gvn Dce Verifier Telemetry Levels
begin

text \<open>
  The pass manager and the canonicalization pass, \<^verbatim>\<open>crates/xir-levels/src/passman.rs\<close>, and the form
  conversions of \<^verbatim>\<open>convert.rs\<close>. A pass is a record of its trait methods; its \<^verbatim>\<open>run\<close> may write telemetry
  through the worker context, which is threaded as state, and may fail to return (\<open>None\<close>).
\<close>

section \<open>Passes\<close>

datatype ir_form_preference = FormGraph | FormStructured | FormEither

datatype pass_concurrency = Disjoint | ReadOnly | Transactional

datatype hpc_class = Hpc0 | Hpc1

datatype pass_output = Unchanged | Changed snapshot

datatype pipeline_error =
    PassFailed string
  | VerifyFailed string verifier_error
  | FormConversion string

record worker_context =
  wc_worker_index :: nat
  wc_workers :: nat
  wc_telemetry :: telemetry_bus

definition ctx_emit :: "worker_context \<Rightarrow> telemetry_kind \<Rightarrow> u16 \<Rightarrow> u64 \<Rightarrow> bool \<times> worker_context" where
  "ctx_emit ctx kind pass_id data =
     (case bus_emit (wc_telemetry ctx) (wc_worker_index ctx)
             \<lparr>te_kind = telemetry_code kind, te_pad = 0, te_pass_id = pass_id, te_payload = data\<rparr> of
        (ok, bus) \<Rightarrow> (ok, ctx\<lparr>wc_telemetry := bus\<rparr>))"

type_synonym 'a step = "((pipeline_error + 'a) \<times> worker_context) option"

record pass =
  ps_name :: string
  ps_version :: u32
  ps_required_form :: ir_form_preference
  ps_concurrency :: pass_concurrency
  ps_hpc_class :: hpc_class
  ps_pass_id :: u16
  ps_run :: "worker_context \<Rightarrow> snapshot \<Rightarrow> pass_output step"

record pass_manager =
  pm_manifest :: string
  pm_passes :: "pass list"

definition pm_new :: "string \<Rightarrow> pass list \<Rightarrow> pass_manager" where
  "pm_new manifest passes = \<lparr>pm_manifest = manifest, pm_passes = passes\<rparr>"

section \<open>Running a pipeline\<close>

fun form_ok :: "ir_form_preference \<Rightarrow> bool" where
  "form_ok FormEither = True"
| "form_ok FormGraph = True"
| "form_ok FormStructured = True"

text \<open>What the loop does with the output of a pass: the next snapshot, or the error of its verification.\<close>

definition accept_output :: "pass \<Rightarrow> snapshot \<Rightarrow> pass_output \<Rightarrow> pipeline_error + snapshot" where
  "accept_output p current out =
     (case out of
        Unchanged \<Rightarrow> Inr current
      | Changed nxt \<Rightarrow>
          if ps_hpc_class p = Hpc0
          then (case verify (sn_arena nxt) of Inl e \<Rightarrow> Inl (VerifyFailed (ps_name p) e) | Inr _ \<Rightarrow> Inr nxt)
          else Inr nxt)"

fun run_passes :: "pass list \<Rightarrow> worker_context \<Rightarrow> snapshot \<Rightarrow> snapshot step" where
  "run_passes [] ctx current = Some (Inr current, ctx)"
| "run_passes (p # ps) ctx current =
     (if \<not> form_ok (ps_required_form p) then Some (Inl (FormConversion (ps_name p)), ctx)
      else
        case ps_run p (snd (ctx_emit ctx PassStart (ps_pass_id p) 0)) current of
          None \<Rightarrow> None
        | Some (Inl e, ctx) \<Rightarrow> Some (Inl e, ctx)
        | Some (Inr out, ctx) \<Rightarrow>
            (case accept_output p current out of
               Inl e \<Rightarrow> Some (Inl e, ctx)
             | Inr nxt \<Rightarrow> run_passes ps (snd (ctx_emit ctx PassEnd (ps_pass_id p) (ucast (ps_version p)))) nxt))"

definition pm_run :: "pass_manager \<Rightarrow> worker_context \<Rightarrow> snapshot \<Rightarrow> snapshot step" where
  "pm_run pm ctx ir =
     (case verify (sn_arena ir) of
        Inl e \<Rightarrow> Some (Inl (VerifyFailed ''pipeline-entry'' e), ctx)
      | Inr _ \<Rightarrow> run_passes (pm_passes pm) ctx ir)"

fun decimal :: "nat \<Rightarrow> string" where
  "decimal n = (if n < 10 then [char_of (48 + n)] else decimal (n div 10) @ [char_of (48 + n mod 10)])"

declare decimal.simps [simp del]

definition manifest_line :: "pass_manager \<Rightarrow> string" where
  "manifest_line pm =
     pm_manifest pm @ '': '' @
     concat (map (\<lambda>(i, p). (if i > (0 :: nat) then '', '' else []) @ ps_name p @ ''@'' @ decimal (unat (ps_version p)))
       (enumerate 0 (pm_passes pm)))"

definition pass_count :: "pass_manager \<Rightarrow> nat" where
  "pass_count pm = length (pm_passes pm)"

section \<open>Canonicalization\<close>

definition canonicalize_run :: "fp \<Rightarrow> node_id list \<Rightarrow> worker_context \<Rightarrow> snapshot \<Rightarrow> pass_output step" where
  "canonicalize_run F roots ctx ir =
     (let name = ''canonicalize-l0''; (folded, w1) = fold_run F (deep_clone (sn_arena ir)) in
      case gvn_run w1 of
        (Inl _, _) \<Rightarrow> Some (Inl (PassFailed name), ctx)
      | (Inr merged, w2) \<Rightarrow>
          (case dce_run w2 roots of
             None \<Rightarrow> None
           | Some (Inl _, _) \<Rightarrow> Some (Inl (PassFailed name), ctx)
           | Some (Inr removed, w3) \<Rightarrow>
               if merged = 0 \<and> removed = 0 \<and> folded = 0 then Some (Inr Unchanged, ctx)
               else
                 case verify w3 of
                   Inl e \<Rightarrow> Some (Inl (VerifyFailed name e), ctx)
                 | Inr _ \<Rightarrow> Some (Inr (Changed (snapshot_new w3)), ctx)))"

definition canonicalize_pass :: "fp \<Rightarrow> node_id list \<Rightarrow> pass" where
  "canonicalize_pass F roots =
     \<lparr>ps_name = ''canonicalize-l0'', ps_version = 1, ps_required_form = FormGraph,
      ps_concurrency = Transactional, ps_hpc_class = Hpc0, ps_pass_id = 1, ps_run = canonicalize_run F roots\<rparr>"

section \<open>Form conversion\<close>

datatype form_error = FormLower lower_error | FormUnavailable

definition graphify :: "arena \<Rightarrow> arena" where
  "graphify a = a"

definition structurize :: "arena \<Rightarrow> node_id list \<Rightarrow> form_error + loop_program" where
  "structurize a roots = map_err FormLower (project a roots)"

section \<open>What a pipeline guarantees\<close>

lemma accept_output_verified:
  "accept_output p s out = Inr t \<Longrightarrow> ps_hpc_class p = Hpc0 \<Longrightarrow> verify (sn_arena s) = Inr () \<Longrightarrow> verify (sn_arena t) = Inr ()"
  by (auto simp: accept_output_def split: pass_output.splits sum.splits)

lemma run_passes_ConsE:
  assumes "run_passes (p # ps) ctx s = Some (r, ctx')"
  obtains (failed) c e where "ps_run p c s = Some (Inl e, ctx')" "r = Inl e"
  | (rejected) c out e where "ps_run p c s = Some (Inr out, ctx')" "accept_output p s out = Inl e" "r = Inl e"
  | (accepted) c c1 c2 out t where "ps_run p c s = Some (Inr out, c1)" "accept_output p s out = Inr t"
      "run_passes ps c2 t = Some (r, ctx')"
proof -
  let ?c = "snd (ctx_emit ctx PassStart (ps_pass_id p) 0)"
  have form: "form_ok (ps_required_form p)" by (cases "ps_required_form p") simp_all
  then obtain q c1 where q: "ps_run p ?c s = Some (q, c1)"
    using assms by (auto split: option.splits prod.splits)
  show thesis
  proof (cases q)
    case (Inl e)
    with q assms form failed show ?thesis by simp
  next
    case (Inr out)
    show ?thesis
    proof (cases "accept_output p s out")
      case (Inl e)
      with q \<open>q = Inr out\<close> assms form have "r = Inl e" "c1 = ctx'" by auto
      with q \<open>q = Inr out\<close> Inl rejected show ?thesis by blast
    next
      case (Inr t)
      with q \<open>q = Inr out\<close> assms form accepted show ?thesis by simp
    qed
  qed
qed

lemma run_passes_verified:
  "run_passes ps ctx s = Some (Inr t, ctx') \<Longrightarrow> \<forall>p \<in> set ps. ps_hpc_class p = Hpc0 \<Longrightarrow>
    verify (sn_arena s) = Inr () \<Longrightarrow> verify (sn_arena t) = Inr ()"
proof (induction ps arbitrary: ctx s)
  case (Cons p ps)
  from Cons.prems(1) show ?case
  proof (cases rule: run_passes_ConsE)
    case (accepted c c1 c2 out u)
    with Cons accept_output_verified [OF accepted(2)] show ?thesis by simp
  qed simp_all
qed simp

text \<open>The error of a pipeline comes from a pass or from the check of a pass result.\<close>

lemma run_passes_error:
  "run_passes ps ctx s = Some (Inl e, ctx') \<Longrightarrow>
    (\<exists>p \<in> set ps. \<exists>c t c'. ps_run p c t = Some (Inl e, c')) \<or> (\<exists>p \<in> set ps. \<exists>err. e = VerifyFailed (ps_name p) err)"
proof (induction ps arbitrary: ctx s)
  case (Cons p ps)
  from Cons.prems show ?case
  proof (cases rule: run_passes_ConsE)
    case (rejected c out err)
    then have "\<exists>v. e = VerifyFailed (ps_name p) v"
      by (auto simp: accept_output_def split: pass_output.splits if_splits sum.splits)
    then show ?thesis by auto
  next
    case (accepted c c1 c2 out t)
    with Cons.IH show ?thesis by auto
  qed auto
qed simp


definition demo_ctx :: worker_context where
  "demo_ctx = \<lparr>wc_worker_index = 0, wc_workers = 1, wc_telemetry = \<lparr>tb_rings = [], tb_dropped = 0\<rparr>\<rparr>"

definition idle_pass :: pass where
  "idle_pass = \<lparr>ps_name = ''idle'', ps_version = 1, ps_required_form = FormEither, ps_concurrency = ReadOnly,
     ps_hpc_class = Hpc0, ps_pass_id = 9, ps_run = (\<lambda>ctx s. Some (Inr (Changed s), ctx))\<rparr>"


end
