(* ===== verification/Gvn_Correct.thy ===== *)
theory Gvn_Correct
  imports Gvn
begin

text \<open>
  Correctness of value numbering. Two nodes are congruent when every assignment of values in which
  pure nodes are functions of their operation and inputs gives them the same value; the pass replaces
  each removed node by a congruent one that dominates it, and changes nothing else.
\<close>

section \<open>Congruent nodes\<close>

definition uses_live :: "arena \<Rightarrow> bool" where
  "uses_live a \<longleftrightarrow> (\<forall>(x, n) \<in> set (live_nodes a). \<forall>v \<in> set (node_uses n). \<exists>y \<in> set (live_ids a). v = vid_from_node y 0)"

lemma uses_liveE:
  assumes "uses_live a" "(x, n) \<in> set (live_nodes a)" "v \<in> set (node_uses n)"
  obtains y where "y \<in> set (live_ids a)" "v = vid_from_node y 0"
  using bspec [OF assms(1) [unfolded uses_live_def] assms(2)] assms(3) that by auto

definition const_arity :: "arena \<Rightarrow> bool" where
  "const_arity a \<longleftrightarrow> (\<forall>(x, n) \<in> set (live_nodes a). \<forall>c. nd_op n = ConstF64 c \<longrightarrow> nd_n_inputs n = 0)"

inductive congruent :: "arena \<Rightarrow> node_id \<Rightarrow> node_id \<Rightarrow> bool" for a where
  cg_refl: "congruent a x x"
| cg_sym: "congruent a x y \<Longrightarrow> congruent a y x"
| cg_trans: "congruent a x y \<Longrightarrow> congruent a y z \<Longrightarrow> congruent a x z"
| cg_node: "(x, n) \<in> set (live_nodes a) \<Longrightarrow> (y, m) \<in> set (live_nodes a) \<Longrightarrow> is_pure (nd_op n) \<Longrightarrow> nd_op n = nd_op m \<Longrightarrow>
    length (node_uses n) = length (node_uses m) \<Longrightarrow>
    \<forall>i < length (node_uses n). congruent a (vid_node (node_uses n ! i)) (vid_node (node_uses m ! i)) \<Longrightarrow> congruent a x y"

definition consistent :: "arena \<Rightarrow> (xop \<Rightarrow> 'v list \<Rightarrow> 'v) \<Rightarrow> (node_id \<Rightarrow> 'v) \<Rightarrow> bool" where
  "consistent a F val \<longleftrightarrow> (\<forall>(x, n) \<in> set (live_nodes a). is_pure (nd_op n) \<longrightarrow>
     val x = F (nd_op n) (map (val \<circ> vid_node) (node_uses n)))"

lemma consistentD:
  "consistent a F val \<Longrightarrow> (x, n) \<in> set (live_nodes a) \<Longrightarrow> is_pure (nd_op n) \<Longrightarrow>
     val x = F (nd_op n) (map (val \<circ> vid_node) (node_uses n))"
  by (auto simp: consistent_def)

lemma congruent_value: "congruent a x y \<Longrightarrow> consistent a F val \<Longrightarrow> val x = val y"
proof (induction rule: congruent.induct)
  case (cg_node x n y m)
  then have "map (val \<circ> vid_node) (node_uses n) = map (val \<circ> vid_node) (node_uses m)"
    by (intro nth_equalityI) simp_all
  moreover have "is_pure (nd_op m)" using cg_node(3,4) by simp
  ultimately show ?case
    using consistentD [OF cg_node.prems cg_node(1,3)] consistentD [OF cg_node.prems cg_node(2)] cg_node(4) by simp
qed simp_all

section \<open>Handles, zeros and keys\<close>

lemma live_handle_value:
  assumes "y \<in> set (live_ids a)" shows "vid_node (vid_from_node y 0) = y"
  using assms by (auto elim!: live_idsE simp: slot_handle_def)

lemma f64_is_zero_iff: "f64_is_zero x \<longleftrightarrow> x = 0 \<or> x = push_bit 63 1"
proof
  assume z: "f64_is_zero x"
  have e: "drop_bit 52 x AND mask 11 = 0" and m: "x AND mask 52 = 0"
    using z by (simp_all add: f64_is_zero_def f64_exp_bits_def f64_frac_bits_def unat_eq_0)
  have b: "\<not> bit x n" if "n < 63" for n
  proof (cases "n < 52")
    case True
    with m have "\<not> bit (x AND mask 52) n" by simp
    with True show ?thesis by (simp add: bit_simps)
  next
    case False
    with that have "\<not> bit (drop_bit 52 x AND mask 11) (n - 52)" using e by simp
    moreover have "n - 52 < 64" "n - 52 < 11" using that False by linarith+
    ultimately show ?thesis using False that by (simp add: bit_simps)
  qed
  have n: "n < 63 \<or> n = 63" if "n < LENGTH(64)" for n using that by auto
  show "x = 0 \<or> x = push_bit 63 1"
  proof (cases "bit x 63")
    case True
    have "bit x n = bit (push_bit 63 1 :: f64) n" if "n < LENGTH(64)" for n
      using n [OF that] b True bit_push_bit_iff [of 63 "1 :: f64" n] by (auto simp: bit_1_iff simp del: push_bit_of_1)
    then have "x = push_bit 63 1" by (rule bit_word_eqI)
    then show ?thesis ..
  next
    case False
    have "bit x n = bit (0 :: f64) n" if "n < LENGTH(64)" for n using n [OF that] b False by auto
    then have "x = 0" by (rule bit_word_eqI)
    then show ?thesis ..
  qed
next
  have "f64_is_zero 0" "f64_is_zero (push_bit 63 1)" by code_simp+
  then show "x = 0 \<or> x = push_bit 63 1 \<Longrightarrow> f64_is_zero x" by metis
qed

lemma zero_keys: "gvn_key [] (ConstF64 0) [] \<noteq> gvn_key [] (ConstF64 (push_bit 63 1)) []"
  by code_simp

lemma gvn_key_Nil: "gvn_key canon op [] = gvn_key [] op []"
  by (simp add: gvn_key_def)

lemma const_key_inj:
  assumes "f64_eq x y" "gvn_key [] (ConstF64 x) [] = gvn_key [] (ConstF64 y) []" shows "x = y"
  using assms zero_keys by (auto simp: f64_eq_def f64_is_zero_iff)

section \<open>Substituting values in nodes\<close>

definition subst_node :: "(value_id \<Rightarrow> value_id) \<Rightarrow> node \<Rightarrow> node" where
  "subst_node f n = n\<lparr>nd_inputs := map f (nd_inputs n), nd_effect_in := f (nd_effect_in n)\<rparr>"

lemma subst_node_sel [simp]:
  "nd_op (subst_node f n) = nd_op n" "nd_ty (subst_node f n) = nd_ty n" "nd_region (subst_node f n) = nd_region n"
  "nd_n_inputs (subst_node f n) = nd_n_inputs n" "node_uses (subst_node f n) = map f (node_uses n)"
  "payload (subst_node f n) = subst_node f (payload n)"
  by (simp_all add: subst_node_def node_uses_def payload_def take_map)

lemma replace_in_subst: "replace_in v w n = subst_node (\<lambda>u. if u = v then w else u) n"
  by (simp add: replace_in_def subst_node_def Let_def)

lemma subst_node_comp: "subst_node f (subst_node g n) = subst_node (f \<circ> g) n"
  by (simp add: subst_node_def)

definition subst_val :: "(node_id \<Rightarrow> node_id) \<Rightarrow> node_id set \<Rightarrow> value_id \<Rightarrow> value_id" where
  "subst_val \<rho> D v = (if vid_node v \<in> D \<and> v = vid_from_node (vid_node v) 0 then vid_from_node (\<rho> (vid_node v)) 0 else v)"

lemma subst_val_empty [simp]: "subst_val \<rho> {} v = v"
  by (simp add: subst_val_def)

lemma subst_val_live:
  assumes "y \<in> set (live_ids a)"
  shows "subst_val \<rho> D (vid_from_node y 0) = vid_from_node (if y \<in> D then \<rho> y else y) 0"
  using live_handle_value [OF assms] by (simp add: subst_val_def)

lemma subst_val_extend:
  assumes x: "x \<in> set (live_ids a)" "x \<notin> D" and D: "D \<subseteq> set (live_ids a)"
    and r: "\<forall>y \<in> D. \<rho> y \<in> set (live_ids a) \<and> \<rho> y \<noteq> x" and \<rho>': "\<forall>y \<in> D. \<rho>' y = \<rho> y"
  shows "(\<lambda>u. if u = vid_from_node x 0 then vid_from_node (\<rho>' x) 0 else u) \<circ> subst_val \<rho> D = subst_val \<rho>' (insert x D)"
proof
  fix v
  let ?y = "vid_node v"
  have inj: "vid_from_node y 0 = vid_from_node x 0 \<longleftrightarrow> y = x" if "y \<in> set (live_ids a)" for y
    using live_handle_value [OF that] live_handle_value [OF x(1)] by metis
  show "((\<lambda>u. if u = vid_from_node x 0 then vid_from_node (\<rho>' x) 0 else u) \<circ> subst_val \<rho> D) v = subst_val \<rho>' (insert x D) v"
  proof (cases "?y \<in> D \<and> v = vid_from_node ?y 0")
    case True
    then have "\<rho> ?y \<in> set (live_ids a)" "\<rho> ?y \<noteq> x" "\<rho>' ?y = \<rho> ?y" using r \<rho>' by auto
    with True inj show ?thesis by (simp add: subst_val_def)
  next
    case False
    then show ?thesis using live_handle_value [OF x(1)] x(2) by (auto simp: subst_val_def)
  qed
qed

section \<open>The scan\<close>

text \<open>
  The state after the nodes \<open>ps\<close> (a prefix of the live nodes of \<open>a\<close>): the representative of a handle is
  \<open>canon_rep\<close> of the table built so far, \<open>D\<close> is the set of nodes to remove.
\<close>

definition merged :: "arena \<Rightarrow> node_id \<Rightarrow> node_id \<Rightarrow> bool" where
  "merged a x r \<longleftrightarrow> congruent a x r \<and> (\<exists>n m. (x, n) \<in> set (live_nodes a) \<and> (r, m) \<in> set (live_nodes a) \<and>
     is_pure (nd_op n) \<and> nd_op m = nd_op n \<and> nd_ty m = nd_ty n \<and>
     (\<exists>p q. nd_region m = rid_pack (word_of_nat p) 0 \<and> nd_region n = rid_pack (word_of_nat q) 0 \<and>
        p < length (ar_regions a) \<and> q < length (ar_regions a) \<and> region_anc a p q))"

definition gvn_arena_inv :: "arena \<Rightarrow> gvn_state \<Rightarrow> bool" where
  "gvn_arena_inv a s \<longleftrightarrow> arena_inv (gs_arena s) \<and> live_ids (gs_arena s) = live_ids a \<and>
     (\<forall>(y, n) \<in> set (live_nodes a). arena_node (gs_arena s) y =
        Inr (subst_node (subst_val (canon_rep (gs_canon s)) (set (gs_removals s))) n))"

definition gvn_canon_inv :: "arena \<Rightarrow> node_id set \<Rightarrow> gvn_state \<Rightarrow> bool" where
  "gvn_canon_inv a P s \<longleftrightarrow> length (gs_canon s) = length (ar_nodes a) \<and>
     (\<forall>x \<in> set (live_ids a) - P. gs_canon s ! unat (nid_index x) = None) \<and>
     (\<forall>x \<in> P. canon_rep (gs_canon s) x \<in> P - set (gs_removals s)) \<and>
     (\<forall>x \<in> P - set (gs_removals s). canon_rep (gs_canon s) x = x) \<and>
     set (gs_removals s) \<subseteq> P \<and> distinct (gs_removals s) \<and>
     gs_changed s = word_of_nat (length (gs_removals s)) \<and>
     (\<forall>x \<in> set (gs_removals s). merged a x (canon_rep (gs_canon s) x))"

definition gvn_table_inv :: "arena \<Rightarrow> node_id set \<Rightarrow> gvn_state \<Rightarrow> bool" where
  "gvn_table_inv a P s \<longleftrightarrow> bt_wf (gs_table s) \<and>
     (\<forall>k r. bt_get (gs_table s) k = Some r \<longrightarrow> r \<in> P - set (gs_removals s) \<and>
        (\<forall>n. (r, n) \<in> set (live_nodes a) \<longrightarrow> is_pure (nd_op n) \<and> (nd_n_inputs n = 0 \<longrightarrow> k = gvn_key [] (nd_op n) [])))"

lemma live_nodes_unique:
  assumes "arena_wf a" "(x, n) \<in> set (live_nodes a)" "(x, m) \<in> set (live_nodes a)" shows "n = m"
  using arena_node_live [OF assms(1,2)] arena_node_live [OF assms(1,3)] by simp

lemma live_index_inj:
  assumes "arena_wf a" "x \<in> set (live_ids a)" "y \<in> set (live_ids a)" "unat (nid_index x) = unat (nid_index y)"
  shows "x = y"
proof -
  obtain i j where "i < length (ar_nodes a)" "x = slot_handle a i" "j < length (ar_nodes a)" "y = slot_handle a j"
    using assms(2,3) by (auto elim!: live_idsE)
  with assms(4) unat_slot [OF assms(1)] show ?thesis by simp
qed

lemma live_index_lt:
  assumes "arena_wf a" "x \<in> set (live_ids a)" shows "unat (nid_index x) < length (ar_nodes a)"
  using assms unat_slot by (auto elim!: live_idsE)

text \<open>Setting the table entry of a new node leaves all other representatives alone.\<close>

lemma canon_rep_set:
  assumes "arena_wf a" "length canon = length (ar_nodes a)" "x \<in> set (live_ids a)" "y \<in> set (live_ids a)"
  shows "canon_rep (canon[unat (nid_index x) := Some r]) y = (if y = x then r else canon_rep canon y)"
proof (cases "y = x")
  case True
  then show ?thesis using live_index_lt [OF assms(1,3)] assms(2) by (simp add: canon_rep_def nth_opt_def)
next
  case False
  then have "unat (nid_index x) \<noteq> unat (nid_index y)" using live_index_inj [OF assms(1,3,4)] by blast
  with False show ?thesis by (simp add: canon_rep_def nth_opt_def)
qed

lemma canon_rep_fresh:
  assumes "gvn_canon_inv a P s" "arena_wf a" "x \<in> set (live_ids a)" "x \<notin> P"
  shows "canon_rep (gs_canon s) x = x"
  using assms live_index_lt [OF assms(2,3)] by (simp add: gvn_canon_inv_def canon_rep_def nth_opt_def)

lemma gvn_reps:
  assumes inv: "gvn_canon_inv a P s" and wf: "arena_wf a" and P: "P \<subseteq> set (live_ids a)" and y: "y \<in> set (live_ids a)"
  shows "canon_rep (gs_canon s) y \<in> set (live_ids a)" "canon_rep (gs_canon s) y \<notin> set (gs_removals s)"
    "canon_rep (gs_canon s) (canon_rep (gs_canon s) y) = canon_rep (gs_canon s) y"
    "congruent a y (canon_rep (gs_canon s) y)"
    "y \<notin> set (gs_removals s) \<Longrightarrow> canon_rep (gs_canon s) y = y"
proof -
  let ?r = "canon_rep (gs_canon s)"
  have D: "set (gs_removals s) \<subseteq> P" and rP: "\<forall>x \<in> P. ?r x \<in> P - set (gs_removals s)"
    and self: "\<forall>x \<in> P - set (gs_removals s). ?r x = x" and mg: "\<forall>x \<in> set (gs_removals s). merged a x (?r x)"
    using inv by (simp_all add: gvn_canon_inv_def)
  note fresh = canon_rep_fresh [OF inv wf y]
  show live: "?r y \<in> set (live_ids a)" using fresh rP P y by (cases "y \<in> P") auto
  show nD: "?r y \<notin> set (gs_removals s)" using fresh rP D by (cases "y \<in> P") auto
  show s: "y \<notin> set (gs_removals s) \<Longrightarrow> ?r y = y" using fresh self by (cases "y \<in> P") auto
  show "?r (?r y) = ?r y"
    using nD self rP fresh by (cases "y \<in> P") auto
  show "congruent a y (?r y)"
    using s mg by (cases "y \<in> set (gs_removals s)") (auto simp: merged_def intro: cg_refl)
qed

lemma subst_val_cong: "\<forall>y \<in> D. \<rho> y = \<rho>' y \<Longrightarrow> subst_val \<rho> D = subst_val \<rho>' D"
  by (auto simp: subst_val_def fun_eq_iff)

definition gvn_inv :: "arena \<Rightarrow> node_id set \<Rightarrow> gvn_state \<Rightarrow> bool" where
  "gvn_inv a P s \<longleftrightarrow> P \<subseteq> set (live_ids a) \<and> gvn_arena_inv a s \<and> gvn_canon_inv a P s \<and> gvn_table_inv a P s"

lemma gvn_keep:
  assumes wf: "arena_wf a" and inv: "gvn_inv a P s" and x: "x \<in> set (live_ids a)" "x \<notin> P"
  shows "gvn_inv a (insert x P) (set_canon s x x)"
proof -
  let ?s = "set_canon s x x"
  have c: "gvn_canon_inv a P s" and P: "P \<subseteq> set (live_ids a)" using inv by (simp_all add: gvn_inv_def)
  then have len: "length (gs_canon s) = length (ar_nodes a)" and D: "set (gs_removals s) \<subseteq> P"
    by (simp_all add: gvn_canon_inv_def)
  have rep: "canon_rep (gs_canon ?s) y = (if y = x then x else canon_rep (gs_canon s) y)" if "y \<in> set (live_ids a)" for y
    using canon_rep_set [OF wf len x(1) that] by (simp add: set_canon_def)
  have same: "\<forall>y \<in> set (gs_removals s). canon_rep (gs_canon s) y = canon_rep (gs_canon ?s) y"
  proof
    fix y assume "y \<in> set (gs_removals s)"
    then have "y \<in> set (live_ids a)" "y \<noteq> x" using D P x(2) by blast+
    then show "canon_rep (gs_canon s) y = canon_rep (gs_canon ?s) y" using rep by simp
  qed
  have "gvn_arena_inv a ?s"
    using inv subst_val_cong [OF same] by (simp add: gvn_inv_def gvn_arena_inv_def set_canon_def)
  moreover have "gvn_canon_inv a (insert x P) ?s"
  proof -
    have sel: "gs_removals ?s = gs_removals s" "gs_changed ?s = gs_changed s" "length (gs_canon ?s) = length (gs_canon s)"
      by (simp_all add: set_canon_def)
    have none: "gs_canon ?s ! unat (nid_index y) = None" if "y \<in> set (live_ids a) - insert x P" for y
    proof -
      have "unat (nid_index x) \<noteq> unat (nid_index y)" using live_index_inj [OF wf x(1), of y] that by blast
      with that c show ?thesis by (simp add: set_canon_def gvn_canon_inv_def)
    qed
    have repP: "canon_rep (gs_canon ?s) y \<in> insert x P - set (gs_removals s)" if "y \<in> insert x P" for y
      using that c rep P D x by (cases "y = x") (auto simp: gvn_canon_inv_def)
    have self: "canon_rep (gs_canon ?s) y = y" if "y \<in> insert x P - set (gs_removals s)" for y
      using that c rep P x by (cases "y = x") (auto simp: gvn_canon_inv_def)
    show ?thesis using c none repP self D same len unfolding gvn_canon_inv_def sel by auto
  qed
  moreover have "gvn_table_inv a (insert x P) ?s"
    using inv unfolding gvn_inv_def gvn_table_inv_def by (auto simp: set_canon_def)
  ultimately show ?thesis using P x(1) by (simp add: gvn_inv_def)
qed

lemma gvn_enter:
  assumes wf: "arena_wf a" and inv: "gvn_inv a P s" and x: "(x, n) \<in> set (live_nodes a)" "x \<in> set (live_ids a)" "x \<notin> P"
    and pure: "is_pure (nd_op n)"
  shows "gvn_inv a (insert x P)
    (set_canon (s\<lparr>gs_table := bt_insert (gs_table s) (gvn_key (gs_canon s) (nd_op n) (node_uses n)) x\<rparr>) x x)"
proof -
  let ?k = "gvn_key (gs_canon s) (nd_op n) (node_uses n)" and ?t = "set_canon s x x"
  have keep: "gvn_inv a (insert x P) ?t" by (rule gvn_keep [OF wf inv x(2,3)])
  have D: "x \<notin> set (gs_removals s)" using inv x(3) by (auto simp: gvn_inv_def gvn_canon_inv_def)
  have zero: "?k = gvn_key [] (nd_op n) []" if "nd_n_inputs n = 0"
    using that gvn_key_Nil by (simp add: node_uses_def)
  have new: "\<forall>m. (x, m) \<in> set (live_nodes a) \<longrightarrow> is_pure (nd_op m) \<and> (nd_n_inputs m = 0 \<longrightarrow> ?k = gvn_key [] (nd_op m) [])"
    using live_nodes_unique [OF wf x(1)] pure zero by blast
  have t: "gvn_table_inv a (insert x P) ?t" and bt: "bt_wf (gs_table s)"
    using keep inv by (simp_all add: gvn_inv_def gvn_table_inv_def)
  have "gvn_table_inv a (insert x P) (?t\<lparr>gs_table := bt_insert (gs_table s) ?k x\<rparr>)"
    using t new bt D unfolding gvn_table_inv_def by (auto simp: set_canon_def bt_get_insert)
  moreover have "set_canon (s\<lparr>gs_table := bt_insert (gs_table s) ?k x\<rparr>) x x = ?t\<lparr>gs_table := bt_insert (gs_table s) ?k x\<rparr>"
    by (simp add: set_canon_def)
  ultimately show ?thesis using keep by (simp add: gvn_inv_def gvn_arena_inv_def gvn_canon_inv_def)
qed

lemma gvn_replace:
  assumes wf: "arena_wf a" and inv: "gvn_inv a P s" and x: "x \<in> set (live_ids a)" "x \<notin> P"
    and r: "r \<in> P" "r \<notin> set (gs_removals s)" and mg: "merged a x r"
  shows "gvn_inv a (insert x P)
    (set_canon (s\<lparr>gs_arena := replace_uses (gs_arena s) (vid_from_node x 0) (vid_from_node r 0),
                  gs_removals := gs_removals s @ [x], gs_changed := gs_changed s + 1\<rparr>) x r)"
    (is "gvn_inv a _ ?s")
proof -
  have c: "gvn_canon_inv a P s" and P: "P \<subseteq> set (live_ids a)" and ar: "gvn_arena_inv a s" and tb: "gvn_table_inv a P s"
    using inv by (simp_all add: gvn_inv_def)
  then have len: "length (gs_canon s) = length (ar_nodes a)" and D: "set (gs_removals s) \<subseteq> P"
    by (simp_all add: gvn_canon_inv_def)
  have rx: "r \<noteq> x" using r x by blast
  have rep: "canon_rep (gs_canon ?s) y = (if y = x then r else canon_rep (gs_canon s) y)" if "y \<in> set (live_ids a)" for y
    using canon_rep_set [OF wf len x(1) that] by (simp add: set_canon_def)
  have same: "\<forall>y \<in> set (gs_removals s). canon_rep (gs_canon ?s) y = canon_rep (gs_canon s) y"
  proof
    fix y assume "y \<in> set (gs_removals s)"
    then have "y \<in> set (live_ids a)" "y \<noteq> x" using D P x(2) by blast+
    then show "canon_rep (gs_canon ?s) y = canon_rep (gs_canon s) y" using rep by simp
  qed
  have sel: "set (gs_removals ?s) = insert x (set (gs_removals s))" "gs_removals ?s = gs_removals s @ [x]"
    "gs_changed ?s = gs_changed s + 1" "length (gs_canon ?s) = length (gs_canon s)" "gs_table ?s = gs_table s"
    "gs_arena ?s = replace_uses (gs_arena s) (vid_from_node x 0) (vid_from_node r 0)"
    by (auto simp: set_canon_def)
  have ai: "arena_inv (gs_arena s)" and li: "live_ids (gs_arena s) = live_ids a" using ar by (simp_all add: gvn_arena_inv_def)
  have "gvn_arena_inv a ?s"
  proof -
    let ?f = "subst_val (canon_rep (gs_canon s)) (set (gs_removals s))"
      and ?g = "subst_val (canon_rep (gs_canon ?s)) (set (gs_removals ?s))"
    have tgt: "\<forall>y \<in> set (gs_removals s). canon_rep (gs_canon s) y \<in> set (live_ids a) \<and> canon_rep (gs_canon s) y \<noteq> x"
      using c D P x(2) by (auto simp: gvn_canon_inv_def)
    have "(\<lambda>u. if u = vid_from_node x 0 then vid_from_node (canon_rep (gs_canon ?s) x) 0 else u) \<circ> ?f = ?g"
      unfolding sel(1) using x D P tgt same by (intro subst_val_extend) auto
    moreover have "canon_rep (gs_canon ?s) x = r" using rep [OF x(1)] by simp
    ultimately have comp: "(\<lambda>u. if u = vid_from_node x 0 then vid_from_node r 0 else u) \<circ> ?f = ?g" by (simp only:)
    have "arena_node (gs_arena ?s) y = Inr (subst_node ?g n)" if y: "(y, n) \<in> set (live_nodes a)" for y n
    proof -
      have "y \<in> set (live_ids (gs_arena s))" using y li by (auto simp: live_ids_def [of a] intro: rev_image_eqI)
      note facts = replace_uses_facts(3) [OF ai this, of "vid_from_node x 0" "vid_from_node r 0"]
      have "arena_node (gs_arena s) y = Inr (subst_node ?f n)" using ar y by (auto simp: gvn_arena_inv_def)
      then show ?thesis unfolding sel(6) facts by (simp add: replace_in_subst subst_node_comp comp)
    qed
    then show ?thesis unfolding gvn_arena_inv_def sel(6) using replace_uses_facts(1,2) [OF ai] li by auto
  qed
  moreover have "gvn_canon_inv a (insert x P) ?s"
  proof -
    have none: "gs_canon ?s ! unat (nid_index y) = None" if "y \<in> set (live_ids a) - insert x P" for y
    proof -
      have "unat (nid_index x) \<noteq> unat (nid_index y)" using live_index_inj [OF wf x(1), of y] that by blast
      with that c show ?thesis by (simp add: set_canon_def gvn_canon_inv_def)
    qed
    have repP: "canon_rep (gs_canon ?s) y \<in> insert x P - insert x (set (gs_removals s))" if "y \<in> insert x P" for y
      using that c rep P r rx x by (cases "y = x") (auto simp: gvn_canon_inv_def)
    have self: "canon_rep (gs_canon ?s) y = y" if "y \<in> insert x P - insert x (set (gs_removals s))" for y
      using that c rep P by (auto simp: gvn_canon_inv_def)
    have mgs: "merged a y (canon_rep (gs_canon ?s) y)" if "y \<in> insert x (set (gs_removals s))" for y
      using that c same mg rep [OF x(1)] by (auto simp: gvn_canon_inv_def)
    have "x \<notin> set (gs_removals s)" using D x(2) by blast
    then have ch: "gs_changed ?s = word_of_nat (length (gs_removals ?s))" "distinct (gs_removals ?s)"
      using c unfolding sel(2,3) by (simp_all add: gvn_canon_inv_def)
    show ?thesis unfolding gvn_canon_inv_def sel(1,4)
      by (intro conjI ballI) (use len none repP self D ch mgs in blast)+
  qed
  moreover have "gvn_table_inv a (insert x P) ?s"
    using tb x(2) unfolding gvn_table_inv_def sel(1,5) by blast
  ultimately show ?thesis using P x(1) by (simp add: gvn_inv_def)
qed

section \<open>One visit and the whole scan\<close>

lemma zip_uses:
  assumes "nd_n_inputs m = nd_n_inputs n"
  shows "take MAX_INPUTS (take (unat (nd_n_inputs n)) (zip (nd_inputs n) (nd_inputs m))) = zip (node_uses n) (node_uses m)"
  using assms by (simp add: node_uses_def take_zip min.commute)

lemma gvn_merged:
  assumes ainv: "arena_inv a" and tree: "region_tree a" and uses: "uses_live a" and const: "const_arity a"
    and inv: "gvn_inv a P s" and x: "(x, n) \<in> set (live_nodes a)" "is_pure (nd_op n)"
    and k: "bt_get (gs_table s) (gvn_key (gs_canon s) (nd_op n) (node_uses n)) = Some r"
    and m: "arena_node (gs_arena s) r = Inr m"
    and eq: "nd_ty m = nd_ty n" "dominates (tree_upto a (length (ar_regions a))) (nd_region m) (nd_region n)"
      "nd_n_inputs m = nd_n_inputs n" "op_eq (nd_op m) (nd_op n)" "inputs_congruent (gs_canon s) n m"
  shows "merged a x r"
proof -
  let ?\<rho> = "canon_rep (gs_canon s)" and ?D = "set (gs_removals s)"
  note wf = arena_inv_wf [OF ainv]
  have c: "gvn_canon_inv a P s" and P: "P \<subseteq> set (live_ids a)" and ar: "gvn_arena_inv a s" and tb: "gvn_table_inv a P s"
    using inv by (simp_all add: gvn_inv_def)
  note reps = gvn_reps [OF c wf P]
  have r: "r \<in> P - ?D" using tb k by (simp add: gvn_table_inv_def)
  then obtain m0 where m0: "(r, m0) \<in> set (live_nodes a)" using P live_ids_node [OF wf, of r] by blast
  have mm: "m = subst_node (subst_val ?\<rho> ?D) m0" using ar m0 m by (auto simp: gvn_arena_inv_def)
  have key: "nd_n_inputs m0 = 0 \<longrightarrow> gvn_key (gs_canon s) (nd_op n) (node_uses n) = gvn_key [] (nd_op m0) []"
    using tb k m0 by (auto simp: gvn_table_inv_def)
  have op: "nd_op m0 = nd_op n"
  proof (cases "\<exists>u v. nd_op m0 = ConstF64 u \<and> nd_op n = ConstF64 v")
    case True
    then obtain u v where uv: "nd_op m0 = ConstF64 u" "nd_op n = ConstF64 v" by blast
    have z: "nd_n_inputs m0 = 0" "node_uses n = []" using const m0 x(1) uv eq(3) mm by (auto simp: const_arity_def node_uses_def)
    have "gvn_key [] (ConstF64 u) [] = gvn_key [] (ConstF64 v) []" using key z uv gvn_key_Nil [of "gs_canon s"] by simp
    with const_key_inj [of u v] eq(4) uv mm show ?thesis by simp
  next
    case False
    with eq(4) mm show ?thesis by (auto simp: op_eq_iff split: xop.splits)
  qed
  have len: "length (node_uses n) = length (node_uses m0)"
  proof -
    have "n \<in> set (ar_nodes a)" "m0 \<in> set (ar_nodes a)" using x(1) m0 by (auto simp: live_nodes_def)
    then have "node_wf n" "node_wf m0" using wf by (auto simp: arena_wf_def)
    then show ?thesis using eq(3) mm by (simp add: node_uses_def node_wf_def)
  qed
  have cong: "congruent a (vid_node (node_uses n ! i)) (vid_node (node_uses m0 ! i))" if i: "i < length (node_uses n)" for i
  proof -
    have "node_uses n ! i \<in> set (node_uses n)" "node_uses m0 ! i \<in> set (node_uses m0)" using i len by simp_all
    then obtain y z where y: "y \<in> set (live_ids a)" "node_uses n ! i = vid_from_node y 0"
      and z: "z \<in> set (live_ids a)" "node_uses m0 ! i = vid_from_node z 0"
      using uses_liveE [OF uses x(1)] uses_liveE [OF uses m0] by metis
    have "?\<rho> (vid_node (node_uses n ! i)) = ?\<rho> (vid_node (node_uses m ! i))"
      using eq(5) i len unfolding inputs_congruent_def zip_uses [OF eq(3)] by (auto simp: list_all_length mm)
    moreover have "node_uses m ! i = vid_from_node (if z \<in> ?D then ?\<rho> z else z) 0"
      using i len z by (simp add: mm subst_val_live [OF z(1)])
    moreover have "(if z \<in> ?D then ?\<rho> z else z) \<in> set (live_ids a)" using reps(1) [OF z(1)] z(1) by simp
    ultimately have "?\<rho> y = ?\<rho> (if z \<in> ?D then ?\<rho> z else z)"
      using y(2) live_handle_value [OF y(1)] live_handle_value by simp
    then have "?\<rho> y = ?\<rho> z" using reps(3) [OF z(1)] by (simp split: if_splits)
    then have "congruent a y z"
      using reps(4) [OF y(1)] reps(4) [OF z(1)] by (metis cg_sym cg_trans)
    with y z live_handle_value show ?thesis by metis
  qed
  have "congruent a x r" using cg_node [OF x(1) m0 x(2) op [symmetric] len] cong by blast
  moreover obtain i j where ij: "i < length (ar_nodes a)" "slot_live a i" "n = ar_nodes a ! i"
    "j < length (ar_nodes a)" "slot_live a j" "m0 = ar_nodes a ! j" using x(1) m0 by (auto simp: live_nodes_def)
  obtain q where q: "q < length (ar_regions a)" "nd_region n = rid_pack (word_of_nat q) 0"
    using arena_inv_region [OF ainv ij(1,2)] ij(3) by metis
  obtain p where p: "p < length (ar_regions a)" "nd_region m0 = rid_pack (word_of_nat p) 0"
    using arena_inv_region [OF ainv ij(4,5)] ij(6) by metis
  have "region_anc a p q"
    using eq(2) dominates_eq [OF tree HOL.refl p(1) q(1)] p(2) q(2) mm by simp
  moreover have "nd_ty m0 = nd_ty n" using eq(1) mm by simp
  ultimately show ?thesis using x m0 op p q unfolding merged_def by blast
qed

lemma gvn_visit_ok:
  assumes ainv: "arena_inv a" and tree: "region_tree a" and uses: "uses_live a" and const: "const_arity a"
    and inv: "gvn_inv a P s" and x: "(x, n) \<in> set (live_nodes a)" "x \<notin> P"
  shows "\<exists>s'. gvn_visit (tree_upto a (length (ar_regions a))) (x, n) s = (Inr (), s') \<and> gvn_inv a (insert x P) s'"
proof -
  let ?tree = "tree_upto a (length (ar_regions a))" and ?k = "gvn_key (gs_canon s) (nd_op n) (node_uses n)"
  note wf = arena_inv_wf [OF ainv]
  have xl: "x \<in> set (live_ids a)" using x(1) by (auto simp: live_ids_def intro: rev_image_eqI)
  note keep = gvn_keep [OF wf inv xl x(2)]
  show ?thesis
  proof (cases "is_pure (nd_op n)")
    case False
    with keep show ?thesis by (simp add: gvn_visit_def)
  next
    case pure: True
    show ?thesis
    proof (cases "bt_get (gs_table s) ?k")
      case None
      with pure gvn_enter [OF wf inv x(1) xl x(2) pure] show ?thesis by (simp add: gvn_visit_def Let_def)
    next
      case (Some r)
      have r: "r \<in> P" "r \<notin> set (gs_removals s)" and P: "P \<subseteq> set (live_ids a)" and ar: "gvn_arena_inv a s"
        using inv Some by (auto simp: gvn_inv_def gvn_table_inv_def)
      obtain m0 where "(r, m0) \<in> set (live_nodes a)" using r P live_ids_node [OF wf, of r] by blast
      then obtain m where m: "arena_node (gs_arena s) r = Inr m" using ar by (auto simp: gvn_arena_inv_def)
      show ?thesis
      proof (cases "nd_ty m = nd_ty n \<and> dominates ?tree (nd_region m) (nd_region n) \<and>
          nd_n_inputs m = nd_n_inputs n \<and> op_eq (nd_op m) (nd_op n) \<and> inputs_congruent (gs_canon s) n m")
        case True
        then have "merged a x r" using gvn_merged [OF ainv tree uses const inv x(1) pure Some m] by blast
        from gvn_replace [OF wf inv xl x(2) r this] True pure Some m show ?thesis by (simp add: gvn_visit_def Let_def)
      next
        case False
        with pure Some m keep show ?thesis by (auto simp: gvn_visit_def Let_def)
      qed
    qed
  qed
qed

lemma gvn_scan_ok:
  assumes "arena_inv a" "region_tree a" "uses_live a" "const_arity a"
  shows "gvn_inv a P s \<Longrightarrow> set ps \<subseteq> set (live_nodes a) \<Longrightarrow> distinct (map fst ps) \<Longrightarrow> fst ` set ps \<inter> P = {} \<Longrightarrow>
    \<exists>s'. gvn_scan (tree_upto a (length (ar_regions a))) ps s = (Inr (), s') \<and> gvn_inv a (P \<union> fst ` set ps) s'"
proof (induction ps arbitrary: P s)
  case (Cons p ps)
  obtain x n where p: "p = (x, n)" by force
  from gvn_visit_ok [OF assms Cons.prems(1), of x n] Cons.prems obtain s1 where
    s1: "gvn_visit (tree_upto a (length (ar_regions a))) (x, n) s = (Inr (), s1)" "gvn_inv a (insert x P) s1" by (auto simp: p)
  from Cons.IH [OF s1(2)] Cons.prems s1(1) show ?case by (auto simp: p)
qed simp

lemma gvn_init_inv: "arena_inv a \<Longrightarrow> gvn_inv a {} (gvn_init a)"
proof -
  assume inv: "arena_inv a"
  note wf = arena_inv_wf [OF inv]
  have "gvn_arena_inv a (gvn_init a)"
  proof -
    have "subst_node (subst_val \<rho> {}) n = n" for \<rho> n
      by (cases n) (simp add: subst_node_def map_idI)
    then show ?thesis using inv arena_node_live [OF wf] by (auto simp: gvn_arena_inv_def gvn_init_def)
  qed
  moreover have "gvn_canon_inv a {} (gvn_init a)"
    using live_index_lt [OF wf] by (simp add: gvn_canon_inv_def gvn_init_def slot_count_def)
  ultimately show ?thesis by (simp add: gvn_inv_def gvn_table_inv_def gvn_init_def)
qed

lemma gvn_remove_eq:
  "arena_inv b \<Longrightarrow> distinct xs \<Longrightarrow> set xs \<subseteq> set (live_ids b) \<Longrightarrow> gvn_remove xs b = (Inr (), store.del_all xs b)"
proof (induction xs arbitrary: b)
  case (Cons x xs)
  then have x: "x \<in> set (live_ids b)" by simp
  obtain r js i where "remove_node b x = (Inr (), cut_node b r js i)" using remove_node_liveE [OF Cons.prems(1) x] by metis
  then have rm: "remove_node b x = (Inr (), node_del b x)" by (simp add: node_del_def)
  have "arena_inv (node_del b x)" "set (live_ids (node_del b x)) = set (live_ids b) - {x}"
    using store.del_inv [OF Cons.prems(1) x] store.del_ids [OF Cons.prems(1) x] by simp_all
  with Cons show ?case by (auto simp: rm)
qed simp

section \<open>The pass\<close>

text \<open>
  The relation between the arena before and after the pass: \<open>\<rho>\<close> maps the removed nodes to their
  representatives.
\<close>

definition gvn_result :: "arena \<Rightarrow> (node_id \<Rightarrow> node_id) \<Rightarrow> arena \<Rightarrow> bool" where
  "gvn_result a \<rho> b \<longleftrightarrow> (let D = set (live_ids a) - set (live_ids b) in
     arena_inv b \<and> set (live_ids b) \<subseteq> set (live_ids a) \<and> uses_live b \<and>
     (\<forall>x \<in> D. \<rho> x \<in> set (live_ids b) \<and> merged a x (\<rho> x)) \<and>
     (\<forall>(y, n) \<in> set (live_nodes a). y \<in> set (live_ids b) \<longrightarrow> node_get b y = Some (subst_node (subst_val \<rho> D) (payload n))))"

lemma gvn_run_ok:
  assumes "arena_inv a" "region_tree a" "uses_live a" "const_arity a"
  shows "\<exists>b \<rho> s. gvn_run a = (Inr (word_of_nat (card (set (live_ids a) - set (live_ids b)))), b) \<and> gvn_result a \<rho> b \<and>
    gvn_scan (tree_upto a (length (ar_regions a))) (live_nodes a) (gvn_init a) = (Inr (), s) \<and>
    b = store.del_all (gs_removals s) (gs_arena s) \<and> distinct (gs_removals s) \<and>
    set (gs_removals s) \<subseteq> set (live_ids (gs_arena s))"
proof -
  note wf = arena_inv_wf [OF assms(1)]
  have dist: "distinct (map fst (live_nodes a))" using distinct_live_ids [OF wf] by (simp add: live_ids_def)
  from gvn_scan_ok [OF assms(1-4) gvn_init_inv [OF assms(1)] subset_refl dist] obtain s where
    s: "gvn_scan (tree_upto a (length (ar_regions a))) (live_nodes a) (gvn_init a) = (Inr (), s)"
    "gvn_inv a (set (live_ids a)) s" by (auto simp: live_ids_def)
  let ?\<rho> = "canon_rep (gs_canon s)" and ?D = "set (gs_removals s)" and ?b = "store.del_all (gs_removals s) (gs_arena s)"
  have c: "gvn_canon_inv a (set (live_ids a)) s" and ar: "gvn_arena_inv a s" using s(2) by (simp_all add: gvn_inv_def)
  have inv: "arena_inv (gs_arena s)" and li: "live_ids (gs_arena s) = live_ids a" using ar by (simp_all add: gvn_arena_inv_def)
  have D: "distinct (gs_removals s)" "?D \<subseteq> set (live_ids (gs_arena s))" using c li by (simp_all add: gvn_canon_inv_def)
  note del = store.del_all_inv [OF inv D, unfolded li] and get = store.del_all_get [OF inv D, unfolded li]
  note reps = gvn_reps [OF c wf subset_refl]
  have Deq: "set (live_ids a) - set (live_ids ?b) = ?D" using del D(2) li by auto
  have run: "gvn_run a = (Inr (word_of_nat (card ?D)), ?b)"
    using s(1) gvn_remove_eq [OF inv D] c D(1)
    by (simp add: gvn_run_def dom_build_eq [OF assms(2)] gvn_canon_inv_def distinct_card)
  have surv: "node_get ?b y = Some (subst_node (subst_val ?\<rho> ?D) (payload n))"
    if y: "(y, n) \<in> set (live_nodes a)" "y \<in> set (live_ids ?b)" for y n
  proof -
    have "node_get (gs_arena s) y = Some (subst_node (subst_val ?\<rho> ?D) (payload n))"
      using ar y(1) by (auto simp: gvn_arena_inv_def node_get_def)
    moreover have "y \<in> set (live_ids a)" "y \<notin> ?D" using y(2) del by auto
    ultimately show ?thesis using get by metis
  qed
  have rep: "?\<rho> x \<in> set (live_ids ?b) \<and> merged a x (?\<rho> x)" if "x \<in> ?D" for x
  proof -
    have x: "x \<in> set (live_ids a)" using that D(2) li by auto
    moreover have "merged a x (?\<rho> x)" using c that by (simp add: gvn_canon_inv_def)
    ultimately show ?thesis
      using reps(1,2) [OF x] del by auto
  qed
  have "uses_live ?b"
    unfolding uses_live_def
  proof (intro ballI, unfold split_paired_all prod.case, intro ballI)
    fix y m v assume y: "(y, m) \<in> set (live_nodes ?b)" and v: "v \<in> set (node_uses m)"
    have yl: "y \<in> set (live_ids ?b)" using y by (auto simp: live_ids_def intro: rev_image_eqI)
    have "y \<in> set (live_ids a)" using yl del by blast
    then obtain n where n: "(y, n) \<in> set (live_nodes a)" using live_ids_node [OF wf] by blast
    have "arena_node ?b y = Inr m" using arena_node_live [OF arena_inv_wf y] del by blast
    then have "payload m = subst_node (subst_val ?\<rho> ?D) (payload n)" using surv [OF n yl] by (simp add: node_get_def)
    moreover have "node_uses (payload k) = node_uses k" for k by (simp add: node_uses_def)
    ultimately have "node_uses m = map (subst_val ?\<rho> ?D) (node_uses n)" by (metis subst_node_sel(5))
    with v obtain u where u: "u \<in> set (node_uses n)" "v = subst_val ?\<rho> ?D u" by auto
    then obtain z where z: "z \<in> set (live_ids a)" "u = vid_from_node z 0" using uses_liveE [OF assms(3) n] by metis
    have "v = vid_from_node (?\<rho> z) 0" using u(2) z reps(5) [OF z(1)] subst_val_live [OF z(1)] by simp
    moreover have "?\<rho> z \<in> set (live_ids ?b)" using reps(1,2) [OF z(1)] del by blast
    ultimately show "\<exists>z \<in> set (live_ids ?b). v = vid_from_node z 0" by blast
  qed
  moreover have "arena_inv ?b" "set (live_ids ?b) \<subseteq> set (live_ids a)" using del by blast+
  moreover have "\<forall>(y, n) \<in> set (live_nodes a). y \<in> set (live_ids ?b) \<longrightarrow>
      node_get ?b y = Some (subst_node (subst_val ?\<rho> ?D) (payload n))" using surv by blast
  ultimately have "gvn_result a ?\<rho> ?b" unfolding gvn_result_def Let_def Deq using rep by blast
  with run s(1) D Deq show ?thesis by metis
qed

text \<open>
  C26: value numbering is sound. On an arena with a region tree whose nodes only use first outputs of
  live nodes (and whose float constants have no inputs) the pass succeeds and keeps the arena
  invariant. Every node it removes was pure and has a surviving representative of the same operation
  and type, in a region that dominates the removed node's, and with the same value under every
  interpretation in which pure nodes are functions of their operation and inputs (so the two zeros are
  never identified); every survivor is the old node with each use of a removed node redirected to its
  representative, so no use dangles; the count it returns is the number of removed nodes.
\<close>

theorem gvn_run_sound:
  fixes F :: "xop \<Rightarrow> 'v list \<Rightarrow> 'v" and val :: "node_id \<Rightarrow> 'v"
  assumes "arena_inv a" "region_tree a" "uses_live a" "const_arity a" "consistent a F val"
  shows "\<exists>b \<rho>. let D = set (live_ids a) - set (live_ids b) in
    gvn_run a = (Inr (word_of_nat (card D)), b) \<and> arena_inv b \<and> set (live_ids b) \<subseteq> set (live_ids a) \<and> uses_live b \<and>
    (\<forall>x \<in> D. \<rho> x \<in> set (live_ids b) \<and> merged a x (\<rho> x) \<and> val (\<rho> x) = val x) \<and>
    (\<forall>(y, n) \<in> set (live_nodes a). y \<in> set (live_ids b) \<longrightarrow> node_get b y = Some (subst_node (subst_val \<rho> D) (payload n)))"
proof -
  obtain b \<rho> where b: "gvn_run a = (Inr (word_of_nat (card (set (live_ids a) - set (live_ids b)))), b)" "gvn_result a \<rho> b"
    using gvn_run_ok [OF assms(1-4)] by blast
  have "val (\<rho> x) = val x" if "merged a x (\<rho> x)" for x
    using that congruent_value [OF _ assms(5)] by (fastforce simp: merged_def)
  with b show ?thesis unfolding gvn_result_def Let_def by blast
qed

definition demo_dup :: arena where
  "demo_dup = (let a = with_capacity 4 2; g = root_region a; b = snd (const_i64 a g 7) in snd (const_i64 b g 7))"

lemma demo_dup_inv: "arena_inv demo_dup"
  unfolding demo_dup_def Let_def const_i64_def
  by (intro arena_inv_insert arena_inv_with_capacity node_wf_new) (simp, simp, code_simp+)

theorem gvn_run_sound_witness:
  "\<exists>b \<rho>. gvn_run demo_dup = (Inr 1, b) \<and> arena_inv b \<and> uses_live b \<and>
     (\<forall>x \<in> set (live_ids demo_dup) - set (live_ids b). \<rho> x \<in> set (live_ids b) \<and> merged demo_dup x (\<rho> x))"
proof -
  have n: "length (ar_regions demo_dup) = 1" "ar_root demo_dup = rid_pack 0 0"
    "rid_is_none (rg_parent (ar_regions demo_dup ! 0))" by code_simp+
  have tree: "region_tree demo_dup" using n arena_inv_wf [OF demo_dup_inv] by (simp add: region_tree_def Let_def)
  have ops: "list_all (\<lambda>(x, n). nd_op n = ConstI64 7 \<and> node_uses n = []) (live_nodes demo_dup)" by code_simp
  have all: "nd_op n = ConstI64 7 \<and> node_uses n = []" if "(x, n) \<in> set (live_nodes demo_dup)" for x n
    using ops that by (auto simp: list_all_iff)
  have u: "uses_live demo_dup" and c: "const_arity demo_dup"
    and v: "consistent demo_dup (\<lambda>op _. case op of ConstI64 k \<Rightarrow> k | _ \<Rightarrow> 0) (\<lambda>_. 7)"
    using all by (auto simp: uses_live_def const_arity_def consistent_def)
  have run: "fst (gvn_run demo_dup) = Inr 1" by code_simp
  from gvn_run_sound [OF demo_dup_inv tree u c v] run show ?thesis unfolding Let_def by fastforce
qed

end
