(* ===== verification/Verifier_Spec.thy ===== *)
theory Verifier_Spec
  imports Verifier
begin

text \<open>
  What the verifier promises: a declarative definition of a well-formed arena, stated over the region
  forest, the node lists and the handle look-up, and the proof that \<^verbatim>\<open>verify\<close> accepts exactly the
  well-formed arenas; each error it returns is justified by the arena.
\<close>

section \<open>Well-formed arenas\<close>

definition parents_minted :: "arena \<Rightarrow> bool" where
  "parents_minted a \<longleftrightarrow> (\<forall>r < length (ar_regions a). rid_is_none (rg_parent (ar_regions a ! r)) \<or>
     (\<exists>p < length (ar_regions a). rg_parent (ar_regions a ! r) = rid_pack (word_of_nat p) 0))"

definition on_cycle :: "arena \<Rightarrow> nat \<Rightarrow> bool" where
  "on_cycle a r \<longleftrightarrow> (\<exists>p. parent_slot a r = Some p \<and> region_anc a r p)"

definition regions_acyclic :: "arena \<Rightarrow> bool" where
  "regions_acyclic a \<longleftrightarrow> (\<forall>r < length (ar_regions a). \<not> on_cycle a r)"

definition owner_ok :: "arena \<Rightarrow> region \<Rightarrow> bool" where
  "owner_ok a r \<longleftrightarrow> nid_is_none (rg_owner r) \<or>
     (\<exists>n. arena_node a (rg_owner r) = Inr n \<and> nd_op n = OpIf \<and> nd_region n = rg_parent r)"

definition arms :: "region list \<Rightarrow> nat \<Rightarrow> nat" where
  "arms rs i = length (filter (\<lambda>r. \<not> nid_is_none (rg_owner r) \<and> unat (nid_index (rg_owner r)) = i) rs)"

definition defined_above :: "arena \<Rightarrow> node \<Rightarrow> node \<Rightarrow> bool" where
  "defined_above a n d \<longleftrightarrow> rid_is_none (nd_region d) \<or>
     (\<exists>q < length (ar_regions a). \<exists>r < length (ar_regions a).
        nd_region d = rid_pack (word_of_nat q) 0 \<and> nd_region n = rid_pack (word_of_nat r) 0 \<and> region_anc a q r)"

definition operand_ok :: "arena \<Rightarrow> node \<Rightarrow> value_id \<Rightarrow> bool" where
  "operand_ok a n v \<longleftrightarrow> \<not> vid_is_none v \<and> vid_slot v = 0 \<and>
     (\<exists>d. arena_node a (vid_node v) = Inr d \<and>
        \<not> (claims_integer_element (nd_op n) (nd_ty n) \<and> operand_elem_is_float (nd_ty d)))"

definition effect_first :: "arena \<Rightarrow> node_id \<Rightarrow> node \<Rightarrow> bool" where
  "effect_first a x n \<longleftrightarrow> (\<forall>y \<in> set (takeWhile (\<lambda>y. y \<noteq> x) (region_list a (nd_region n))).
     \<forall>m. arena_node a y = Inr m \<longrightarrow> is_pure (nd_op m))"

definition node_ok :: "arena \<Rightarrow> node_id \<Rightarrow> node \<Rightarrow> bool" where
  "node_ok a x n \<longleftrightarrow>
     nd_n_inputs n = expected_arity (nd_op n) \<and>
     (produces_value (nd_op n) \<longrightarrow> nd_ty n \<noteq> NoneTy \<and> nd_ty n \<noteq> Token) \<and>
     (\<forall>v \<in> set (node_uses n). operand_ok a n v) \<and>
     (is_pure (nd_op n) \<or> \<not> vid_is_none (nd_effect_in n) \<or> effect_first a x n)"

definition uses_above :: "arena \<Rightarrow> node \<Rightarrow> bool" where
  "uses_above a n \<longleftrightarrow> (\<forall>v \<in> set (node_uses n). \<forall>d. arena_node a (vid_node v) = Inr d \<longrightarrow> defined_above a n d)"

definition well_formed :: "arena \<Rightarrow> bool" where
  "well_formed a \<longleftrightarrow> regions_acyclic a \<and> (\<forall>r \<in> set (ar_regions a). owner_ok a r) \<and>
     (\<forall>(x, n) \<in> set (live_nodes a). (nd_op n = OpIf \<longrightarrow> arms (ar_regions a) (unat (nid_index x)) = 2) \<and>
        node_ok a x n \<and> uses_above a n)"

section \<open>The region forest\<close>

fun ancestor_n :: "arena \<Rightarrow> nat \<Rightarrow> nat \<Rightarrow> nat option" where
  "ancestor_n a 0 r = Some r"
| "ancestor_n a (Suc k) r = (case parent_slot a r of None \<Rightarrow> None | Some p \<Rightarrow> ancestor_n a k p)"

lemma ancestor_n_add: "ancestor_n a (j + k) r = Option.bind (ancestor_n a j r) (ancestor_n a k)"
  by (induction j arbitrary: r) (auto split: option.splits)

lemma ancestor_n_mono: "ancestor_n a k r \<noteq> None \<Longrightarrow> j \<le> k \<Longrightarrow> ancestor_n a j r \<noteq> None"
  using ancestor_n_add [of a j "k - j" r] by (cases "ancestor_n a j r") simp_all

lemma region_anc_iff: "region_anc a q r \<longleftrightarrow> (\<exists>k. ancestor_n a k r = Some q)"
proof
  show "region_anc a q r \<Longrightarrow> \<exists>k. ancestor_n a k r = Some q"
  proof (induction rule: region_anc.induct)
    case (anc_refl r)
    show ?case by (rule exI [of _ 0]) simp
  next
    case (anc_up r p q)
    then obtain k where "ancestor_n a k p = Some q" by blast
    with anc_up(1) show ?case by (intro exI [of _ "Suc k"]) simp
  qed
  have "ancestor_n a k r = Some q \<Longrightarrow> region_anc a q r" for k
    by (induction k arbitrary: r) (auto intro: region_anc.intros split: option.splits)
  then show "\<exists>k. ancestor_n a k r = Some q \<Longrightarrow> region_anc a q r" by blast
qed

lemma parent_slot_minted:
  assumes "arena_wf a" "parents_minted a" "r < length (ar_regions a)"
  shows "parent_slot a r = Some p \<Longrightarrow> p < length (ar_regions a) \<and> rg_parent (ar_regions a ! r) = rid_pack (word_of_nat p) 0"
    and "parent_slot a r = None \<Longrightarrow> rid_is_none (rg_parent (ar_regions a ! r))"
  using assms unat_region_slot [OF assms(1)]
  by (auto simp: parents_minted_def parent_slot_def Let_def split: if_splits)

lemma ancestor_n_bound:
  assumes "arena_wf a" "parents_minted a"
  shows "r < length (ar_regions a) \<Longrightarrow> ancestor_n a k r = Some q \<Longrightarrow> q < length (ar_regions a)"
  by (induction k arbitrary: r) (auto dest: parent_slot_minted(1) [OF assms] split: option.splits)

lemma parents_end_eq:
  assumes "arena_wf a" "parents_minted a"
  shows "r < length (ar_regions a) \<Longrightarrow> parents_end a (rid_pack (word_of_nat r) 0) k \<longleftrightarrow> ancestor_n a k r = None"
proof (induction k arbitrary: r)
  case (Suc k)
  note reg = arena_region_slot [OF assms(1) Suc.prems]
  show ?case
  proof (cases "parent_slot a r")
    case None
    then have "parents_end a (rg_parent (ar_regions a ! r)) k"
      using parent_slot_minted(2) [OF assms Suc.prems] by (cases k) simp_all
    with None show ?thesis by (simp add: reg)
  next
    case (Some p)
    then show ?thesis using parent_slot_minted(1) [OF assms Suc.prems Some] Suc.IH [of p] by (simp add: reg)
  qed
qed simp

lemma cycle_forever: "ancestor_n a (Suc m) r = Some r \<Longrightarrow> ancestor_n a (k * Suc m) r = Some r"
proof (induction k)
  case (Suc k)
  then show ?case using ancestor_n_add [of a "Suc m" "k * Suc m" r]
    by (simp del: ancestor_n.simps add: mult_Suc del: mult_Suc_right)
qed simp

lemma on_cycle_iff: "on_cycle a r \<longleftrightarrow> (\<exists>m. ancestor_n a (Suc m) r = Some r)"
  by (auto simp: on_cycle_def region_anc_iff split: option.splits)

lemma long_chain_cycle:
  assumes "arena_wf a" "parents_minted a" "r < length (ar_regions a)" "ancestor_n a (length (ar_regions a)) r \<noteq> None"
  shows "\<exists>s < length (ar_regions a). on_cycle a s"
proof -
  let ?n = "length (ar_regions a)" and ?f = "\<lambda>j. the (ancestor_n a j r)"
  have some: "ancestor_n a j r = Some (?f j)" if "j \<le> ?n" for j using ancestor_n_mono [OF assms(4) that] by auto
  have lt: "?f j < ?n" if "j \<le> ?n" for j using ancestor_n_bound [OF assms(1-3) some [OF that]] .
  have "\<not> inj_on ?f {..?n}"
  proof
    assume "inj_on ?f {..?n}"
    moreover have "?f ` {..?n} \<subseteq> {..<?n}" using lt by auto
    ultimately have "card {..?n} \<le> card {..<?n}" by (rule card_inj_on_le) simp
    then show False by simp
  qed
  then obtain i j where ij: "i \<le> ?n" "j \<le> ?n" "i < j" "?f i = ?f j"
    unfolding inj_on_def by (metis atMost_iff linorder_neqE_nat)
  have "ancestor_n a j r = Option.bind (ancestor_n a i r) (ancestor_n a (j - i))"
    using ancestor_n_add [of a i "j - i" r] ij(3) by simp
  then have "ancestor_n a (j - i) (?f i) = Some (?f i)"
    using some [OF ij(1)] some [OF ij(2)] ij(4) by (metis bind.bind_lunit)
  moreover have "j - i = Suc (j - i - 1)" using ij(3) by simp
  ultimately have "\<exists>m. ancestor_n a (Suc m) (?f i) = Some (?f i)" by metis
  then have "on_cycle a (?f i)" unfolding on_cycle_iff by blast
  with lt [OF ij(1)] show ?thesis by blast
qed

lemma region_tree_checked_iff:
  assumes "arena_wf a" "parents_minted a" "length (ar_regions a) < 2 ^ 32"
  shows "region_tree_checked a \<longleftrightarrow> regions_acyclic a"
proof -
  let ?n = "length (ar_regions a)" and ?rid = "\<lambda>r. rid_pack (word_of_nat r) 0"
  have count: "region_count a = ?n" using assms(1) by (simp add: region_count_def arena_wf_def)
  have out: "arena_region a (?rid ?n) \<noteq> Inr g" for g
    using assms(3) by (simp add: arena_region_Inr unat_of_nat_small)
  have "region_tree_checked a \<longleftrightarrow> (\<forall>r < ?n. parents_end a (?rid r) (?n + 1))"
    using out arena_region_slot [OF assms(1)]
    by (auto simp: region_tree_checked_def count list_all_iff Let_def split: sum.splits)
  also have "\<dots> \<longleftrightarrow> (\<forall>r < ?n. ancestor_n a (?n + 1) r = None)" using parents_end_eq [OF assms(1,2)] by blast
  also have "\<dots> \<longleftrightarrow> regions_acyclic a"
  proof
    assume none: "\<forall>r < ?n. ancestor_n a (?n + 1) r = None"
    have "\<not> on_cycle a r" if r: "r < ?n" for r
    proof
      assume "on_cycle a r"
      then obtain m where "ancestor_n a (Suc m) r = Some r" unfolding on_cycle_iff by blast
      from cycle_forever [OF this, of "?n + 1"] have "ancestor_n a ((?n + 1) * Suc m) r \<noteq> None" by simp
      then have "ancestor_n a (?n + 1) r \<noteq> None" by (rule ancestor_n_mono) simp
      with none r show False by simp
    qed
    then show "regions_acyclic a" by (simp add: regions_acyclic_def)
  next
    assume acyclic: "regions_acyclic a"
    show "\<forall>r < ?n. ancestor_n a (?n + 1) r = None"
    proof (intro allI impI, rule ccontr)
      fix r assume r: "r < ?n" "ancestor_n a (?n + 1) r \<noteq> None"
      then have "ancestor_n a ?n r \<noteq> None" by (elim ancestor_n_mono) simp
      from long_chain_cycle [OF assms(1,2) r(1) this] acyclic show False by (auto simp: regions_acyclic_def)
    qed
  qed
  finally show ?thesis .
qed

lemma acyclic_chain_short:
  assumes "arena_wf a" "parents_minted a" "regions_acyclic a" "r < length (ar_regions a)" "ancestor_n a k r = Some q"
  shows "k < length (ar_regions a)"
proof (rule ccontr)
  assume "\<not> k < length (ar_regions a)"
  then have "ancestor_n a (length (ar_regions a)) r \<noteq> None" using ancestor_n_mono [of a k r] assms(5) by simp
  from long_chain_cycle [OF assms(1,2,4) this] assms(3) show False by (auto simp: regions_acyclic_def)
qed

lemma dominates_walk_eq:
  assumes "arena_wf a" "parents_minted a"
  shows "r < length (ar_regions a) \<Longrightarrow> dominates_walk a anc (rid_pack (word_of_nat r) 0) k \<longleftrightarrow>
    (\<exists>j < k. \<exists>q. ancestor_n a j r = Some q \<and> anc = rid_pack (word_of_nat q) 0)"
proof (induction k arbitrary: r)
  case (Suc k)
  note reg = arena_region_slot [OF assms(1) Suc.prems]
  have split: "(\<exists>j < Suc k. P j) \<longleftrightarrow> P 0 \<or> (\<exists>j < k. P (Suc j))" for P by (metis Ex_less_Suc2)
  show ?case
  proof (cases "parent_slot a r")
    case None
    then have "\<not> dominates_walk a anc (rg_parent (ar_regions a ! r)) k"
      using parent_slot_minted(2) [OF assms Suc.prems] by (cases k) simp_all
    with None show ?thesis unfolding split by (auto simp: reg)
  next
    case (Some p)
    note pm = parent_slot_minted(1) [OF assms Suc.prems Some]
    then show ?thesis unfolding split using Suc.IH [of p] Some by (auto simp: reg)
  qed
qed simp

lemma region_dominates_iff:
  assumes "arena_wf a" "parents_minted a" "regions_acyclic a" "r < length (ar_regions a)"
  shows "region_dominates a anc (rid_pack (word_of_nat r) 0) \<longleftrightarrow>
    rid_is_none anc \<or> (\<exists>q < length (ar_regions a). anc = rid_pack (word_of_nat q) 0 \<and> region_anc a q r)"
proof -
  let ?n = "length (ar_regions a)"
  have count: "region_count a = ?n" using assms(1) by (simp add: region_count_def arena_wf_def)
  have "(\<exists>j < ?n + 2. \<exists>q. ancestor_n a j r = Some q \<and> anc = rid_pack (word_of_nat q) 0) \<longleftrightarrow>
    (\<exists>q < ?n. anc = rid_pack (word_of_nat q) 0 \<and> region_anc a q r)"
    (is "?L \<longleftrightarrow> ?R")
  proof
    show "?L \<Longrightarrow> ?R" unfolding region_anc_iff using ancestor_n_bound [OF assms(1,2,4)] by blast
    show "?R \<Longrightarrow> ?L" unfolding region_anc_iff using acyclic_chain_short [OF assms] trans_less_add1 by blast
  qed
  moreover have "region_anc a r r" by (rule anc_refl)
  ultimately show ?thesis
    using assms(4) unfolding region_dominates_def count dominates_walk_eq [OF assms(1,2,4)] by auto
qed

section \<open>Owners\<close>

lemma arms_Cons [simp]:
  "arms [] i = 0"
  "arms (r # rs) i = (if \<not> nid_is_none (rg_owner r) \<and> unat (nid_index (rg_owner r)) = i then 1 else 0) + arms rs i"
  by (simp_all add: arms_def)

lemma fold_visit_owner_bad: "fold (visit_owner a) es (cs, Some e) = (cs, Some e)"
  by (induction es) (simp_all add: visit_owner_def split: prod.splits)

lemma op_eq_If [simp]: "op_eq p OpIf \<longleftrightarrow> p = OpIf"
  by (cases p) simp_all

definition bump_at :: "u8 list \<Rightarrow> nat \<Rightarrow> u8 list" where
  "bump_at cs i = (if i < length cs \<and> cs ! i < 255 then cs[i := cs ! i + 1] else cs)"

lemma length_bump_at [simp]: "length (bump_at cs i) = length cs"
  by (simp add: bump_at_def)

lemma bump_at_nth:
  assumes "i < length cs" "j < length cs"
  shows "unat (bump_at cs i ! j) = min 255 (unat (cs ! j) + (if j = i then 1 else 0))"
proof -
  have "unat (cs ! j) < 256" using unsigned_less [of "cs ! j", where ?'a = nat] by simp
  moreover have "unat (cs ! i + 1) = Suc (unat (cs ! i))" if "cs ! i < 255"
  proof -
    have "Suc (unat (cs ! i)) < 2 ^ LENGTH(8)" using that by (simp add: word_less_nat_alt)
    then show ?thesis using unat_of_nat_small [of "Suc (unat (cs ! i))", where ?'a = 8] by (simp add: add.commute)
  qed
  ultimately show ?thesis using assms by (auto simp: bump_at_def word_less_nat_alt nth_list_update not_less)
qed

lemma visit_owner_cases:
  "visit_owner a (g, r) (cs, None) =
     (if nid_is_none (rg_owner r) then (cs, None)
      else if owner_ok a r then (bump_at cs (unat (nid_index (rg_owner r))), None)
      else (cs, Some (BadRegionOwner (rg_owner r))))"
  by (auto simp: visit_owner_def owner_ok_def bump_at_def Let_def split: sum.splits)

lemma fold_visit_owner_err:
  assumes "fold (visit_owner a) es (cs, None) = (cs', Some e)"
  shows "\<exists>r \<in> set (map snd es). \<not> owner_ok a r \<and> e = BadRegionOwner (rg_owner r)"
  using assms
proof (induction es arbitrary: cs)
  case (Cons p es)
  obtain g r where p: "p = (g, r)" by force
  show ?case
    using Cons.prems Cons.IH unfolding p
    by (auto simp: visit_owner_cases fold_visit_owner_bad split: if_splits)
qed simp

lemma owners_None:
  assumes "fold (visit_owner a) es (cs, None) = (cs', None)"
  shows "\<forall>r \<in> set (map snd es). owner_ok a r"
  using assms
proof (induction es arbitrary: cs)
  case (Cons p es)
  obtain g r where p: "p = (g, r)" by force
  have "owner_ok a r" if "nid_is_none (rg_owner r)" using that by (simp add: owner_ok_def)
  then show ?case
    using Cons.prems Cons.IH unfolding p
    by (auto simp: visit_owner_cases fold_visit_owner_bad split: if_splits)
qed simp

lemma fold_visit_owner_ok:
  assumes "\<forall>r \<in> set (map snd es). owner_ok a r" "length cs = length (ar_nodes a)"
  shows "\<exists>cs'. fold (visit_owner a) es (cs, None) = (cs', None) \<and> length cs' = length cs \<and>
    (\<forall>i < length cs. unat (cs' ! i) = min 255 (unat (cs ! i) + arms (map snd es) i))"
  using assms
proof (induction es arbitrary: cs)
  case Nil
  have le: "unat (cs ! i) \<le> 255" for i using unsigned_less [of "cs ! i", where ?'a = nat] by simp
  then show ?case by (simp add: min.absorb2 [OF le])
next
  case (Cons p es)
  obtain g r where p: "p = (g, r)" by force
  have ok: "owner_ok a r" "\<forall>r \<in> set (map snd es). owner_ok a r" using Cons.prems(1) by (auto simp: p)
  show ?case
  proof (cases "nid_is_none (rg_owner r)")
    case True
    then show ?thesis using Cons.IH [OF ok(2) Cons.prems(2)] by (simp add: p visit_owner_cases)
  next
    case False
    let ?i = "unat (nid_index (rg_owner r))"
    have lt: "?i < length cs" using ok(1) False Cons.prems(2) by (auto simp: owner_ok_def arena_node_Inr)
    from Cons.IH [OF ok(2), of "bump_at cs ?i"] Cons.prems(2) obtain cs' where cs':
      "fold (visit_owner a) es (bump_at cs ?i, None) = (cs', None)" "length cs' = length cs"
      "\<forall>j < length cs. unat (cs' ! j) = min 255 (unat (bump_at cs ?i ! j) + arms (map snd es) j)" by auto
    have "unat (cs' ! j) = min 255 (unat (cs ! j) + arms (map snd (p # es)) j)" if "j < length cs" for j
      using cs'(3) that bump_at_nth [OF lt that] False by (auto simp: p min_def)
    with cs' False ok(1) show ?thesis by (simp add: p visit_owner_cases)
  qed
qed

section \<open>Checks of one node\<close>

lemma fold_first_error:
  assumes "\<And>p bad. g p bad = (if bad \<noteq> None then bad else f p)"
  shows "fold g ps None = None \<longleftrightarrow> (\<forall>p \<in> set ps. f p = None)"
    and "fold g ps None = Some e \<Longrightarrow> \<exists>p \<in> set ps. f p = Some e"
proof -
  have g: "g p None = f p" "g p (Some e) = Some e" for p e by (simp_all add: assms)
  have stuck: "fold g ps (Some e) = Some e" for ps e by (induction ps) (simp_all add: g)
  show "fold g ps None = None \<longleftrightarrow> (\<forall>p \<in> set ps. f p = None)"
  proof (induction ps)
    case (Cons p ps)
    then show ?case by (cases "f p") (simp_all add: g stuck)
  qed simp
  show "fold g ps None = Some e \<Longrightarrow> \<exists>p \<in> set ps. f p = Some e"
  proof (induction ps)
    case (Cons p ps)
    then show ?case by (cases "f p") (simp_all add: g stuck)
  qed simp
qed

lemma verify_inputs_None:
  "verify_inputs a x n vs = None \<longleftrightarrow> (\<forall>v \<in> set vs. operand_ok a n v)"
  by (induction vs) (auto simp: operand_ok_def split: sum.splits)

lemma verify_inputs_Some:
  assumes "verify_inputs a x n vs = Some e"
  shows "\<exists>v \<in> set vs.
    (e = UseDefInvalid x \<and> (vid_is_none v \<or> (\<exists>u. arena_node a (vid_node v) = Inl u))) \<or>
    (e = SlotInvalid x \<and> vid_slot v \<noteq> 0) \<or>
    (e = TypeDisagreement x \<and> claims_integer_element (nd_op n) (nd_ty n) \<and>
       (\<exists>d. arena_node a (vid_node v) = Inr d \<and> operand_elem_is_float (nd_ty d)))"
  using assms by (induction vs) (auto split: sum.splits if_splits)

lemma check_dominance_eq:
  assumes inv: "arena_inv a" "parents_minted a" "regions_acyclic a" and x: "(x, n) \<in> set (live_nodes a)"
  shows "check_dominance a x n = (if uses_above a n then None else Some (RegionTreeInvalid x))"
proof -
  obtain i where i: "i < length (ar_nodes a)" "slot_live a i" "n = ar_nodes a ! i"
    using x by (auto simp: live_nodes_def)
  obtain r where r: "r < length (ar_regions a)" "nd_region n = rid_pack (word_of_nat r) 0"
    using arena_inv_region [OF inv(1) i(1,2)] i(3) by metis
  have dom: "region_dominates a (nd_region d) (nd_region n) \<longleftrightarrow> defined_above a n d" for d
  proof -
    have "nd_region n = rid_pack (word_of_nat s) 0 \<longleftrightarrow> s = r" if "s < length (ar_regions a)" for s
      using r that region_pack_inj [OF arena_inv_wf [OF inv(1)], of r s] inv(1)
      by (auto simp: arena_inv_def arena_wf_def)
    then show ?thesis using r(1)
      unfolding defined_above_def region_dominates_iff [OF arena_inv_wf [OF inv(1)] inv(2,3) r(1), folded r(2)] by blast
  qed
  have "check_dominance_inputs a x n vs =
    (if \<forall>v \<in> set vs. \<forall>d. arena_node a (vid_node v) = Inr d \<longrightarrow> defined_above a n d then None
     else Some (RegionTreeInvalid x))" for vs
    by (induction vs) (auto simp: dom split: sum.splits)
  then show ?thesis by (simp add: check_dominance_def uses_above_def)
qed

lemma earlier_effect_walk_eq:
  assumes "arena_wf a" "schain a cur is" "\<forall>i \<in> set is. i < length (ar_nodes a)" "length is < k"
  shows "earlier_effect_walk a x cur k \<longleftrightarrow>
    (\<exists>y \<in> set (takeWhile (\<lambda>y. y \<noteq> x) (map (slot_handle a) is)). \<exists>m. arena_node a y = Inr m \<and> \<not> is_pure (nd_op m))"
  using assms(2-)
proof (induction "is" arbitrary: cur k)
  case Nil
  then show ?case by (cases k) simp_all
next
  case (Cons i "is")
  then obtain k' where k': "k = Suc k'" "length is < k'" by (cases k) auto
  have "arena_node a (slot_handle a i) = Inr (ar_nodes a ! i)" using arena_node_handle assms(1) Cons.prems(2) by simp
  then show ?case using Cons.prems Cons.IH [of "nd_next (ar_nodes a ! i)" k'] k'
    by (cases "slot_handle a i = x") (simp_all add: has_effect_iff)
qed

lemma region_has_earlier_effect_iff:
  assumes inv: "arena_inv a" and r: "r < length (ar_regions a)" "nd_region n = rid_pack (word_of_nat r) 0"
  shows "region_has_earlier_effect a (nd_region n) x \<longleftrightarrow> \<not> effect_first a x n"
proof -
  note wf = arena_inv_wf [OF inv]
  obtain "is" where c: "region_chain a r is" using inv r(1) by (auto simp: arena_inv_def)
  have sub: "set is \<subseteq> {i. i < length (ar_nodes a) \<and> slot_live a i}" "distinct is"
    using c by (auto simp: region_chain_def slots_of_region_def)
  have "distinct (map (slot_handle a) is)"
    using sub slot_handle_inj [OF wf] by (auto simp: distinct_map intro!: inj_onI)
  moreover have "set (map (slot_handle a) is) \<subseteq> set (live_ids a)" using sub(1) set_live_ids by fastforce
  ultimately have "length is \<le> length (live_ids a)"
    by (metis card_mono distinct_card length_map finite_set distinct_live_ids [OF wf])
  then have "length is < node_count a + 2" by (simp add: length_live_ids [OF wf])
  moreover have "schain a (rg_first (ar_regions a ! r)) is" using c by (simp add: region_chain_def)
  ultimately show ?thesis
    using earlier_effect_walk_eq [OF wf, of "rg_first (ar_regions a ! r)" "is" "node_count a + 2" x] sub(1)
    unfolding region_has_earlier_effect_def effect_first_def r(2) arena_region_slot [OF wf r(1)] region_list_chain [OF wf r(1) c]
      sum.case by blast
qed

lemma verify_node_None:
  assumes inv: "arena_inv a" and x: "(x, n) \<in> set (live_nodes a)"
  shows "verify_node a x n = None \<longleftrightarrow> node_ok a x n"
proof -
  obtain i where i: "i < length (ar_nodes a)" "slot_live a i" "n = ar_nodes a ! i"
    using x by (auto simp: live_nodes_def)
  obtain r where r: "r < length (ar_regions a)" "nd_region n = rid_pack (word_of_nat r) 0"
    using arena_inv_region [OF inv i(1,2)] i(3) by metis
  have reg: "arena_region a (nd_region n) = Inr (ar_regions a ! r)"
    unfolding r(2) using arena_region_slot [OF arena_inv_wf [OF inv] r(1)] .
  show ?thesis
    using region_has_earlier_effect_iff [OF inv r, of x] verify_inputs_None [of a x n "node_uses n"]
    by (auto simp: verify_node_def node_ok_def reg has_effect_iff split: option.splits)
qed

section \<open>Soundness, completeness and diagnosis\<close>

text \<open>What each error asserts about the arena.\<close>

fun error_justified :: "arena \<Rightarrow> verifier_error \<Rightarrow> bool" where
  "error_justified a (UseDefInvalid x) = (\<exists>n. (x, n) \<in> set (live_nodes a) \<and>
     (\<exists>v \<in> set (node_uses n). vid_is_none v \<or> (\<exists>e. arena_node a (vid_node v) = Inl e)))"
| "error_justified a (RegionInvalid x) = False"
| "error_justified a (ArityInvalid x) = (\<exists>n. (x, n) \<in> set (live_nodes a) \<and> nd_n_inputs n \<noteq> expected_arity (nd_op n))"
| "error_justified a (TypeInvalid x) = (\<exists>n. (x, n) \<in> set (live_nodes a) \<and> produces_value (nd_op n) \<and>
     (nd_ty n = NoneTy \<or> nd_ty n = Token))"
| "error_justified a (EffectChainBroken x) = (\<exists>n. (x, n) \<in> set (live_nodes a) \<and> \<not> is_pure (nd_op n) \<and>
     vid_is_none (nd_effect_in n) \<and> \<not> effect_first a x n)"
| "error_justified a (SlotInvalid x) = (\<exists>n. (x, n) \<in> set (live_nodes a) \<and> (\<exists>v \<in> set (node_uses n). vid_slot v \<noteq> 0))"
| "error_justified a (RegionTreeInvalid x) =
     (\<not> regions_acyclic a \<or> (\<exists>n. (x, n) \<in> set (live_nodes a) \<and> \<not> uses_above a n))"
| "error_justified a (BadRegionOwner x) = (\<exists>r \<in> set (ar_regions a). rg_owner r = x \<and> \<not> owner_ok a r)"
| "error_justified a (BadIfRegions x) = (\<exists>n. (x, n) \<in> set (live_nodes a) \<and> nd_op n = OpIf \<and>
     arms (ar_regions a) (unat (nid_index x)) \<noteq> 2)"
| "error_justified a (TypeDisagreement x) = (\<exists>n. (x, n) \<in> set (live_nodes a) \<and>
     claims_integer_element (nd_op n) (nd_ty n) \<and> (\<exists>v \<in> set (node_uses n). \<exists>d. arena_node a (vid_node v) = Inr d \<and>
       operand_elem_is_float (nd_ty d)))"

lemma map_snd_region_entries: "map snd (region_entries a) = ar_regions a"
  by (simp add: region_entries_def comp_def map_nth)

definition node_check :: "arena \<Rightarrow> u8 list \<Rightarrow> node_id \<times> node \<Rightarrow> verifier_error option" where
  "node_check a cs = (\<lambda>(x, n). visit_node a cs (x, n) None)"

lemma visit_node_check: "visit_node a cs p bad = (if bad \<noteq> None then bad else node_check a cs p)"
  by (cases p) (simp add: visit_node_def node_check_def)

text \<open>The counters after the owner pass: \<open>2\<close> exactly for the nodes that own two regions.\<close>

lemma owner_pass:
  assumes "\<forall>r \<in> set (ar_regions a). owner_ok a r"
  obtains cs where "fold (visit_owner a) (region_entries a) (replicate (slot_count a) 0, None) = (cs, None)"
    "length cs = length (ar_nodes a)"
    "\<forall>i < length (ar_nodes a). cs ! i = 2 \<longleftrightarrow> arms (ar_regions a) i = 2"
proof -
  let ?cs = "replicate (slot_count a) (0 :: u8)"
  have len: "length ?cs = length (ar_nodes a)" by (simp add: slot_count_def)
  from fold_visit_owner_ok [of "region_entries a" a ?cs, unfolded map_snd_region_entries, OF assms len] obtain cs where
    cs: "fold (visit_owner a) (region_entries a) (?cs, None) = (cs, None)" "length cs = length (ar_nodes a)"
    "\<forall>i < length (ar_nodes a). unat (cs ! i) = min 255 (unat (?cs ! i) + arms (ar_regions a) i)"
    unfolding len by blast
  have "cs ! i = 2 \<longleftrightarrow> arms (ar_regions a) i = 2" if "i < length (ar_nodes a)" for i
  proof -
    have "unat (cs ! i) = min 255 (arms (ar_regions a) i)" using cs(3) that by (simp add: slot_count_def)
    then show ?thesis by (simp add: word_unat_eq_iff min_def)
  qed
  with cs that show ?thesis by blast
qed

lemma node_check_None:
  assumes inv: "arena_inv a" "parents_minted a" "regions_acyclic a" and x: "(x, n) \<in> set (live_nodes a)"
    and cs: "length cs = length (ar_nodes a)" "\<forall>i < length (ar_nodes a). cs ! i = 2 \<longleftrightarrow> arms (ar_regions a) i = 2"
  shows "node_check a cs (x, n) =
    (if nd_op n = OpIf \<and> arms (ar_regions a) (unat (nid_index x)) \<noteq> 2 then Some (BadIfRegions x)
     else if \<not> node_ok a x n then verify_node a x n
     else if \<not> uses_above a n then Some (RegionTreeInvalid x) else None)"
proof -
  have "unat (nid_index x) < length (ar_nodes a)"
    using x unat_slot [OF arena_inv_wf [OF inv(1)]] by (auto simp: live_nodes_def)
  then have "(case nth_opt cs (unat (nid_index x)) of Some c \<Rightarrow> c | None \<Rightarrow> 0) = 2 \<longleftrightarrow>
      arms (ar_regions a) (unat (nid_index x)) = 2"
    using cs by (simp add: nth_opt_def)
  then show ?thesis
    using verify_node_None [OF inv(1) x] check_dominance_eq [OF inv x]
    by (auto simp: node_check_def visit_node_def split: option.splits)
qed

lemma verify_node_justified:
  assumes inv: "arena_inv a" and x: "(x, n) \<in> set (live_nodes a)" and e: "verify_node a x n = Some e"
  shows "error_justified a e"
proof -
  obtain i where i: "i < length (ar_nodes a)" "slot_live a i" "n = ar_nodes a ! i"
    using x by (auto simp: live_nodes_def)
  obtain r where r: "r < length (ar_regions a)" "nd_region n = rid_pack (word_of_nat r) 0"
    using arena_inv_region [OF inv i(1,2)] i(3) by metis
  have reg: "arena_region a (nd_region n) = Inr (ar_regions a ! r)"
    unfolding r(2) using arena_region_slot [OF arena_inv_wf [OF inv] r(1)] .
  note e' = e [unfolded verify_node_def reg region_has_earlier_effect_iff [OF inv r, of x] has_effect_iff sum.case]
  show ?thesis
  proof (cases "nd_n_inputs n = expected_arity (nd_op n)")
    case arity: True
    show ?thesis
    proof (cases "produces_value (nd_op n) \<and> (nd_ty n = NoneTy \<or> nd_ty n = Token)")
      case True
      with e' arity have "e = TypeInvalid x" by simp
      with True x show ?thesis by auto
    next
      case False
      show ?thesis
      proof (cases "verify_inputs a x n (node_uses n)")
        case None
        then have "e = EffectChainBroken x" "\<not> is_pure (nd_op n)" "vid_is_none (nd_effect_in n)" "\<not> effect_first a x n"
          using e' arity False by (simp_all split: if_splits)
        with x show ?thesis by auto
      next
        case (Some e2)
        with e' arity False have "e2 = e" by (simp split: if_splits)
        from verify_inputs_Some [OF Some] show ?thesis unfolding \<open>e2 = e\<close>
          by (elim bexE disjE conjE exE) (simp_all only: error_justified.simps, (use x in blast)+)
      qed
    qed
  next
    case False
    with e' have "e = ArityInvalid x" by simp
    with False x show ?thesis by auto
  qed
qed

lemma verify_iff_well_formed:
  assumes "arena_inv a" "parents_minted a" "length (ar_regions a) < 2 ^ 32"
  shows "verify a = Inr () \<longleftrightarrow> well_formed a"
proof (cases "regions_acyclic a \<and> (\<forall>r \<in> set (ar_regions a). owner_ok a r)")
  case False
  have "verify a \<noteq> Inr ()"
  proof (cases "regions_acyclic a")
    case True
    obtain cs bad where f: "fold (visit_owner a) (region_entries a) (replicate (slot_count a) 0, None) = (cs, bad)" by force
    have "bad \<noteq> None"
    proof
      assume "bad = None"
      from owners_None [OF f [unfolded this]] False True show False by (simp add: map_snd_region_entries)
    qed
    with f show ?thesis by (auto simp: verify_def)
  qed (simp add: verify_def region_tree_checked_iff [OF arena_inv_wf [OF assms(1)] assms(2,3)])
  with False show ?thesis by (auto simp: well_formed_def)
next
  case True
  then obtain cs where cs: "fold (visit_owner a) (region_entries a) (replicate (slot_count a) 0, None) = (cs, None)"
    "length cs = length (ar_nodes a)" "\<forall>i < length (ar_nodes a). cs ! i = 2 \<longleftrightarrow> arms (ar_regions a) i = 2"
    using owner_pass by metis
  have ok: "region_tree_checked a" using True region_tree_checked_iff [OF arena_inv_wf [OF assms(1)] assms(2,3)] by simp
  have "verify a = Inr () \<longleftrightarrow> fold (visit_node a cs) (live_nodes a) None = None"
    using cs(1) ok by (simp add: verify_def split: option.splits)
  also have "\<dots> \<longleftrightarrow> (\<forall>p \<in> set (live_nodes a). node_check a cs p = None)"
    by (rule fold_first_error(1)) (rule visit_node_check)
  also have "\<dots> \<longleftrightarrow> well_formed a"
  proof -
    have "node_check a cs (x, n) = None \<longleftrightarrow>
        (nd_op n = OpIf \<longrightarrow> arms (ar_regions a) (unat (nid_index x)) = 2) \<and> node_ok a x n \<and> uses_above a n"
      if "(x, n) \<in> set (live_nodes a)" for x n
      unfolding node_check_None [OF assms(1,2) conjunct1 [OF True] that cs(2,3)]
      using verify_node_None [OF assms(1) that] by simp
    then have "(\<forall>p \<in> set (live_nodes a). node_check a cs p = None) \<longleftrightarrow> (\<forall>(x, n) \<in> set (live_nodes a).
        (nd_op n = OpIf \<longrightarrow> arms (ar_regions a) (unat (nid_index x)) = 2) \<and> node_ok a x n \<and> uses_above a n)"
      by (intro ball_cong refl) (auto split: prod.split)
    with True show ?thesis unfolding well_formed_def by simp
  qed
  finally show ?thesis .
qed

text \<open>
  C24: the verifier decides well-formedness. On an arena satisfying the arena invariant whose region
  parents are handles of its own regions, \<^verbatim>\<open>verify\<close> returns \<^verbatim>\<open>Ok\<close> exactly when the region parent
  relation has no cycle, every owned region belongs to an \<^verbatim>\<open>if\<close> node of its parent region, every
  \<^verbatim>\<open>if\<close> owns two regions, and every live node has its arity, a value type, operands that resolve to
  slot 0 of existing nodes of agreeing element type defined in an ancestor region, and, if it is
  effectful without an effect input, no effectful node before it in its region list.
\<close>

theorem verify_decides:
  assumes "arena_inv a" "parents_minted a" "length (ar_regions a) < 2 ^ 32"
  shows "verify a = Inr () \<longleftrightarrow> well_formed a"
  using assms by (rule verify_iff_well_formed)

theorem verify_decides_witness: "verify demo_arena = Inr () \<and> well_formed demo_arena"
proof -
  have ok: "verify demo_arena = Inr ()" and n: "length (ar_regions demo_arena) = 1"
    and p: "rid_is_none (rg_parent (ar_regions demo_arena ! 0))" by code_simp+
  have "parents_minted demo_arena" using n p by (simp add: parents_minted_def)
  from verify_decides [OF demo_arena_inv this] ok n show ?thesis by simp
qed

text \<open>
  C25: every error the verifier returns is justified: the named node is live and violates the rule the
  error stands for, or the region relation has a cycle, or a region's owner is not an \<^verbatim>\<open>if\<close> of its
  parent. In particular \<^verbatim>\<open>RegionInvalid\<close> is never returned on an arena that satisfies the arena
  invariant.
\<close>

theorem verify_error_justified:
  assumes "arena_inv a" "parents_minted a" "length (ar_regions a) < 2 ^ 32" "verify a = Inl e"
  shows "error_justified a e"
proof (cases "regions_acyclic a")
  case False
  then have "e = RegionTreeInvalid (nid_pack 0 0 Graph)"
    using assms(4) region_tree_checked_iff [OF arena_inv_wf [OF assms(1)] assms(2,3)] by (simp add: verify_def)
  with False show ?thesis by simp
next
  case acyclic: True
  then have ok: "region_tree_checked a" using region_tree_checked_iff [OF arena_inv_wf [OF assms(1)] assms(2,3)] by simp
  show ?thesis
  proof (cases "\<forall>r \<in> set (ar_regions a). owner_ok a r")
    case True
    then obtain cs where cs: "fold (visit_owner a) (region_entries a) (replicate (slot_count a) 0, None) = (cs, None)"
      "length cs = length (ar_nodes a)" "\<forall>i < length (ar_nodes a). cs ! i = 2 \<longleftrightarrow> arms (ar_regions a) i = 2"
      using owner_pass by metis
    have "fold (visit_node a cs) (live_nodes a) None = Some e"
      using assms(4) cs(1) ok by (simp add: verify_def split: option.splits)
    from fold_first_error(2) [OF visit_node_check this] obtain x n where
      x: "(x, n) \<in> set (live_nodes a)" "node_check a cs (x, n) = Some e" by auto
    note eq = x(2) [unfolded node_check_None [OF assms(1,2) acyclic x(1) cs(2,3)]]
    show ?thesis
    proof (cases "nd_op n = OpIf \<and> arms (ar_regions a) (unat (nid_index x)) \<noteq> 2")
      case True
      with eq have "e = BadIfRegions x" by simp
      with True x(1) show ?thesis by auto
    next
      case False
      show ?thesis
      proof (cases "node_ok a x n")
        case True
        with eq False have "e = RegionTreeInvalid x" "\<not> uses_above a n" by (simp_all split: if_splits)
        with x(1) show ?thesis by auto
      next
        case nok: False
        with eq False have "verify_node a x n = Some e" by simp
        then show ?thesis by (rule verify_node_justified [OF assms(1) x(1)])
      qed
    qed
  next
    case False
    obtain cs bad where f: "fold (visit_owner a) (region_entries a) (replicate (slot_count a) 0, None) = (cs, bad)" by force
    have "bad \<noteq> None"
    proof
      assume "bad = None"
      from owners_None [OF f [unfolded this]] False show False by (simp add: map_snd_region_entries)
    qed
    with f assms(4) ok have "bad = Some e" by (auto simp: verify_def)
    from fold_visit_owner_err [OF f [unfolded this]] show ?thesis by (auto simp: map_snd_region_entries)
  qed
qed

definition demo_bad_arity :: arena where
  "demo_bad_arity = (let a = with_capacity 4 2; g = root_region a in snd (insert_node a g (node_new (Unary Neg) g [] (Scalar F64))))"

theorem verify_error_justified_witness:
  "\<exists>x. verify demo_bad_arity = Inl (ArityInvalid x) \<and> error_justified demo_bad_arity (ArityInvalid x)"
proof -
  have inv: "arena_inv demo_bad_arity"
    unfolding demo_bad_arity_def Let_def
    by (intro arena_inv_insert arena_inv_with_capacity node_wf_new) (simp, simp, code_simp)
  have n: "length (ar_regions demo_bad_arity) = 1"
    and p: "rid_is_none (rg_parent (ar_regions demo_bad_arity ! 0))"
    and e: "verify demo_bad_arity = Inl (ArityInvalid (nid_pack 0 0 Graph))" by code_simp+
  have "parents_minted demo_bad_arity" using n p by (simp add: parents_minted_def)
  from verify_error_justified [OF inv this _ e] e n show ?thesis by simp
qed

end
