(* ===== verification/Canonical_Wf.thy ===== *)
theory Canonical_Wf
  imports Passman Gvn_Correct Verifier_Spec
begin

text \<open>
  The passes of the canonicalization keep verified programs verified: constant folding, value numbering and
  dead code elimination each map a well-formed arena to a well-formed arena.
\<close>

section \<open>A reshaped arena is well-formed when its nodes are\<close>

definition owners_live :: "arena \<Rightarrow> bool" where
  "owners_live a \<longleftrightarrow> (\<forall>r \<in> set (ar_regions a). nid_is_none (rg_owner r) \<or> rg_owner r \<in> set (live_ids a))"

lemma live_lookup:
  assumes "arena_inv a" "x \<in> set (live_ids a)"
  obtains n where "arena_node a x = Inr n" "(x, n) \<in> set (live_nodes a)"
  using live_ids_node [OF arena_inv_wf [OF assms(1)] assms(2)] that by blast

lemma live_node_id: "(x, n) \<in> set (live_nodes a) \<Longrightarrow> x \<in> set (live_ids a)"
  by (force simp: live_ids_def)

lemma live_node_lookup: "arena_inv a \<Longrightarrow> (x, n) \<in> set (live_nodes a) \<Longrightarrow> arena_node a x = Inr n"
  using arena_node_live [OF arena_inv_wf] by blast

lemma lookup_live_node: "arena_inv a \<Longrightarrow> x \<in> set (live_ids a) \<Longrightarrow> arena_node a x = Inr n \<Longrightarrow> (x, n) \<in> set (live_nodes a)"
  using live_lookup [of a x] by (metis sum.inject(2))

lemma live_region:
  assumes "arena_inv a" "(x, n) \<in> set (live_nodes a)"
  obtains r where "r < length (ar_regions a)" "nd_region n = rid_pack (word_of_nat r) 0"
  using assms by (auto simp: live_nodes_def elim: arena_inv_region)

lemma region_tree_minted:
  assumes "region_tree a" shows "parents_minted a"
  unfolding parents_minted_def
proof (intro allI impI)
  fix r assume r: "r < length (ar_regions a)"
  let ?p = "rg_parent (ar_regions a ! r)"
  show "rid_is_none ?p \<or> (\<exists>p < length (ar_regions a). ?p = rid_pack (word_of_nat p) 0)"
  proof (cases "rid_is_none ?p")
    case False
    then have "unat (rid_index ?p) < r" "?p = rid_pack (word_of_nat (unat (rid_index ?p))) 0"
      using assms r by (auto simp: region_tree_def Let_def)
    with r show ?thesis by (metis order.strict_trans)
  qed simp
qed

lemma region_tree_reshaped:
  assumes "reshaped a b" "region_tree a" shows "region_tree b"
  using assms reshapedD [OF assms(1)] arena_inv_wf [of b] by (simp add: region_tree_def Let_def)

lemma region_anc_reshaped:
  assumes ab: "reshaped a b" and wf: "arena_wf a" and pm: "parents_minted a"
  shows "region_anc a q r \<Longrightarrow> r < length (ar_regions a) \<Longrightarrow> region_anc b q r"
proof (induction rule: region_anc.induct)
  case (anc_refl r)
  show ?case by (rule region_anc.anc_refl)
next
  case (anc_up r p q)
  have "p < length (ar_regions a)" using parent_slot_minted(1) [OF wf pm anc_up.prems anc_up.hyps(1)] by blast
  moreover have "parent_slot b r = Some p"
    using anc_up.hyps(1) reshapedD(6) [OF ab anc_up.prems] by (simp add: parent_slot_def)
  ultimately show ?case using anc_up.IH by (blast intro: region_anc.anc_up)
qed

lemma region_anc_reshaped_back:
  assumes ab: "reshaped a b" and wf: "arena_wf a" and pm: "parents_minted a"
  shows "region_anc b q r \<Longrightarrow> r < length (ar_regions a) \<Longrightarrow> region_anc a q r"
proof (induction rule: region_anc.induct)
  case (anc_refl r)
  show ?case by (rule region_anc.anc_refl)
next
  case (anc_up r p q)
  have p: "parent_slot a r = Some p"
    using anc_up.hyps(1) reshapedD(6) [OF ab anc_up.prems] by (simp add: parent_slot_def)
  have "p < length (ar_regions a)" using parent_slot_minted(1) [OF wf pm anc_up.prems p] by blast
  with p show ?case using anc_up.IH by (blast intro: region_anc.anc_up)
qed

lemma regions_acyclic_reshaped:
  assumes "reshaped a b" "arena_wf a" "parents_minted a" "regions_acyclic a" shows "regions_acyclic b"
  unfolding regions_acyclic_def on_cycle_def
proof (intro allI impI notI)
  fix r assume r: "r < length (ar_regions b)" and "\<exists>p. parent_slot b r = Some p \<and> region_anc b r p"
  then obtain p where p: "parent_slot b r = Some p" "region_anc b r p" by blast
  have ra: "r < length (ar_regions a)" using r reshapedD(3) [OF assms(1)] by simp
  have pa: "parent_slot a r = Some p" using p(1) reshapedD(6) [OF assms(1) ra] by (simp add: parent_slot_def)
  then have "p < length (ar_regions a)" using parent_slot_minted(1) [OF assms(2,3) ra] by blast
  with region_anc_reshaped_back [OF assms(1-3) p(2)] pa ra assms(4)
  show False by (auto simp: regions_acyclic_def on_cycle_def)
qed

lemma arms_reshaped: "reshaped a b \<Longrightarrow> arms (ar_regions b) i = arms (ar_regions a) i"
proof -
  assume ab: "reshaped a b"
  have owners: "map rg_owner (ar_regions b) = map rg_owner (ar_regions a)"
    by (rule nth_equalityI) (simp_all add: reshapedD(3,7) [OF ab])
  have eq: "arms rs i = length (filter (\<lambda>w. \<not> nid_is_none w \<and> unat (nid_index w) = i) (map rg_owner rs))" for rs
    by (simp add: arms_def filter_map o_def)
  show ?thesis by (simp only: eq owners)
qed

lemma takeWhile_filter_subset:
  assumes "P x" shows "set (takeWhile (\<lambda>y. y \<noteq> x) (filter P l)) \<subseteq> set (takeWhile (\<lambda>y. y \<noteq> x) l)"
proof (induction l)
  case (Cons y l)
  then show ?case using assms by (cases "y = x"; cases "P y") auto
qed simp

text \<open>What has to hold of the nodes of \<open>b\<close>, node by node, given the old node.\<close>

definition node_kept :: "arena \<Rightarrow> node \<Rightarrow> node \<Rightarrow> bool" where
  "node_kept b n m \<longleftrightarrow> is_pure (nd_op m) = is_pure (nd_op n) \<and> (nd_op m = OpIf \<longleftrightarrow> nd_op n = OpIf) \<and>
     nd_n_inputs m = expected_arity (nd_op m) \<and>
     (produces_value (nd_op m) \<longrightarrow> nd_ty m \<noteq> NoneTy \<and> nd_ty m \<noteq> Token) \<and>
     (\<forall>v \<in> set (node_uses m). operand_ok b m v) \<and> uses_above b m \<and>
     (vid_is_none (nd_effect_in m) \<longrightarrow> vid_is_none (nd_effect_in n))"

definition kept :: "arena \<Rightarrow> arena \<Rightarrow> bool" where
  "kept a b \<longleftrightarrow> reshaped a b \<and>
     (\<forall>x \<in> set (live_ids a) - set (live_ids b). \<forall>n. arena_node a x = Inr n \<longrightarrow> is_pure (nd_op n)) \<and>
     (\<forall>x \<in> set (live_ids b). \<forall>n m. arena_node a x = Inr n \<longrightarrow> arena_node b x = Inr m \<longrightarrow> node_kept b n m)"

lemma keptD:
  assumes "kept a b"
  shows "reshaped a b"
    and "x \<in> set (live_ids a) \<Longrightarrow> x \<notin> set (live_ids b) \<Longrightarrow> arena_node a x = Inr n \<Longrightarrow> is_pure (nd_op n)"
    and "x \<in> set (live_ids b) \<Longrightarrow> arena_node a x = Inr n \<Longrightarrow> arena_node b x = Inr m \<Longrightarrow> node_kept b n m"
  using assms unfolding kept_def by blast+

lemma owner_kept:
  assumes ab: "kept a b" and inv: "arena_inv a" and r: "r < length (ar_regions a)"
    and ow: "owner_ok a (ar_regions a ! r)" "owners_live a" "\<not> nid_is_none (rg_owner (ar_regions a ! r))"
  shows "rg_owner (ar_regions a ! r) \<in> set (live_ids b)" "owner_ok b (ar_regions b ! r)"
proof -
  let ?w = "rg_owner (ar_regions a ! r)"
  note rs = keptD(1) [OF ab]
  obtain n where n: "arena_node a ?w = Inr n" "nd_op n = OpIf" "nd_region n = rg_parent (ar_regions a ! r)"
    using ow(1,3) by (auto simp: owner_ok_def)
  have "?w \<in> set (live_ids a)" using ow(2,3) r by (auto simp: owners_live_def)
  then show w: "?w \<in> set (live_ids b)" using keptD(2) [OF ab _ _ n(1)] n(2) by auto
  obtain m where m: "arena_node b ?w = Inr m" using live_lookup [OF reshapedD(1) [OF rs] w] by metis
  have "nd_op m = OpIf" using keptD(3) [OF ab w n(1) m] n(2) by (simp add: node_kept_def)
  moreover have "nd_region m = rg_parent (ar_regions b ! r)"
    using reshapedD(9) [OF rs w n(1) m] n(3) reshapedD(6) [OF rs r] by simp
  ultimately show "owner_ok b (ar_regions b ! r)" using m reshapedD(7) [OF rs r] by (auto simp: owner_ok_def)
qed

lemma effect_first_kept:
  assumes ab: "kept a b" and inv: "arena_inv a" and x: "x \<in> set (live_ids b)"
    and n: "arena_node a x = Inr n" and m: "arena_node b x = Inr m" and e: "effect_first a x n"
  shows "effect_first b x m"
  unfolding effect_first_def
proof (intro ballI allI impI)
  fix y k
  assume y: "y \<in> set (takeWhile (\<lambda>y. y \<noteq> x) (region_list b (nd_region m)))" and k: "arena_node b y = Inr k"
  note rs = keptD(1) [OF ab]
  have xa: "x \<in> set (live_ids a)" using x reshapedD(2) [OF rs] by blast
  obtain r where r: "r < length (ar_regions a)" "nd_region n = rid_pack (word_of_nat r) 0"
    using live_region [OF inv lookup_live_node [OF inv xa n]] by blast
  have mr: "nd_region m = nd_region n" by (rule reshapedD(9) [OF rs x n m])
  have yl: "y \<in> set (live_ids b)"
    using set_takeWhileD [OF y] region_list_live [OF reshapedD(1) [OF rs], of r] r mr reshapedD(3) [OF rs] by auto
  have "y \<in> set (takeWhile (\<lambda>y. y \<noteq> x) (region_list a (nd_region n)))"
    using y takeWhile_filter_subset [of "\<lambda>z. z \<in> set (live_ids b)" x, OF x] reshapedD(8) [OF rs r(1)] mr r(2) by auto
  moreover obtain j where j: "arena_node a y = Inr j" using live_lookup [OF inv, of y] yl reshapedD(2) [OF rs] by blast
  ultimately have "is_pure (nd_op j)" using e by (auto simp: effect_first_def)
  then show "is_pure (nd_op k)" using keptD(3) [OF ab yl j k] by (simp add: node_kept_def)
qed

lemma well_formed_kept:
  assumes ab: "kept a b" and inv: "arena_inv a" and pm: "parents_minted a" and wf: "well_formed a" and ow: "owners_live a"
  shows "well_formed b \<and> owners_live b"
proof -
  note rs = keptD(1) [OF ab]
  have inv': "arena_inv b" by (rule reshapedD(1) [OF rs])
  have "owner_ok b (ar_regions b ! r) \<and> (nid_is_none (rg_owner (ar_regions b ! r)) \<or> rg_owner (ar_regions b ! r) \<in> set (live_ids b))"
    if r: "r < length (ar_regions a)" for r
  proof (cases "nid_is_none (rg_owner (ar_regions a ! r))")
    case True
    then show ?thesis using reshapedD(7) [OF rs r] by (simp add: owner_ok_def)
  next
    case False
    have "owner_ok a (ar_regions a ! r)" using wf r by (auto simp: well_formed_def)
    from owner_kept [OF ab inv r this ow False] reshapedD(7) [OF rs r] show ?thesis by simp
  qed
  then have owner: "owner_ok b r \<and> (nid_is_none (rg_owner r) \<or> rg_owner r \<in> set (live_ids b))"
    if "r \<in> set (ar_regions b)" for r
    using that reshapedD(3) [OF rs] by (metis in_set_conv_nth)
  then have owners: "\<forall>r \<in> set (ar_regions b). owner_ok b r" "owners_live b"
    unfolding owners_live_def by blast+
  have nodes: "(nd_op m = OpIf \<longrightarrow> arms (ar_regions b) (unat (nid_index x)) = 2) \<and> node_ok b x m \<and> uses_above b m"
    if xm: "(x, m) \<in> set (live_nodes b)" for x m
  proof -
    have x: "x \<in> set (live_ids b)" and m: "arena_node b x = Inr m"
      using live_node_id [OF xm] live_node_lookup [OF inv' xm] by blast+
    have "x \<in> set (live_ids a)" using x reshapedD(2) [OF rs] by blast
    then obtain n where n: "arena_node a x = Inr n" "(x, n) \<in> set (live_nodes a)" using live_lookup [OF inv] by blast
    have old: "nd_op n = OpIf \<longrightarrow> arms (ar_regions a) (unat (nid_index x)) = 2" "node_ok a x n"
      using bspec [OF conjunct2 [OF conjunct2 [OF wf [unfolded well_formed_def]]] n(2)] by simp_all
    have k: "node_kept b n m" by (rule keptD(3) [OF ab x n(1) m])
    have "is_pure (nd_op m) \<or> \<not> vid_is_none (nd_effect_in m) \<or> effect_first b x m"
      using old(2) k effect_first_kept [OF ab inv x n(1) m] by (auto simp: node_ok_def node_kept_def)
    then show ?thesis using k old(1) by (simp add: node_kept_def node_ok_def arms_reshaped [OF rs])
  qed
  have "regions_acyclic b"
    using regions_acyclic_reshaped [OF rs arena_inv_wf [OF inv] pm] wf by (simp add: well_formed_def)
  with owners nodes show ?thesis unfolding well_formed_def by blast
qed

lemma well_formed_node:
  assumes "well_formed a" "(x, n) \<in> set (live_nodes a)"
  shows "nd_n_inputs n = expected_arity (nd_op n)"
    "produces_value (nd_op n) \<Longrightarrow> nd_ty n \<noteq> NoneTy \<and> nd_ty n \<noteq> Token"
    "v \<in> set (node_uses n) \<Longrightarrow> operand_ok a n v" "uses_above a n"
  using bspec [OF conjunct2 [OF conjunct2 [OF assms(1) [unfolded well_formed_def]]] assms(2)]
  by (simp_all add: node_ok_def)

lemma defined_above_reshaped:
  assumes "reshaped a b" "arena_wf a" "parents_minted a" "defined_above a n d"
    "nd_region n' = nd_region n" "nd_region d' = nd_region d"
  shows "defined_above b n' d'"
  using assms(4-6) region_anc_reshaped [OF assms(1-3)] reshapedD(3) [OF assms(1)] by (auto simp: defined_above_def)


section \<open>Each pass keeps well-formedness\<close>

lemma live_value:
  assumes "y \<in> set (live_ids a)"
  shows "vid_slot (vid_from_node y 0) = 0" "\<not> vid_is_none (vid_from_node y 0)"
proof -
  obtain i g l where y: "y = nid_pack i g l" using assms by (auto elim!: live_idsE simp: slot_handle_def)
  show s: "vid_slot (vid_from_node y 0) = 0" unfolding y by (rule vid_slot_pack) simp
  have "vid_slot ValueId_NONE \<noteq> 0" by code_simp
  with s show "\<not> vid_is_none (vid_from_node y 0)" by (metis vid_is_none_iff)
qed

text \<open>
  An operand of the new arena: it names a live node whose type is no more a float than that of the old
  operand, in a region that dominates the old operand's.
\<close>

definition stands_for :: "arena \<Rightarrow> arena \<Rightarrow> node_id \<Rightarrow> node_id \<Rightarrow> bool" where
  "stands_for a b z y \<longleftrightarrow> z \<in> set (live_ids b) \<and> (\<forall>d e. arena_node a y = Inr d \<longrightarrow> arena_node b z = Inr e \<longrightarrow>
     (operand_elem_is_float (nd_ty e) \<longrightarrow> operand_elem_is_float (nd_ty d)) \<and>
     (\<forall>n. defined_above a n d \<longrightarrow> defined_above a n e))"

lemma uses_kept:
  assumes ab: "reshaped a b" and inv: "arena_inv a" and pm: "parents_minted a" and wf: "well_formed a" and ul: "uses_live a"
    and xn: "(x, n) \<in> set (live_nodes a)" and m: "nd_region m = nd_region n"
    and claim: "claims_integer_element (nd_op m) (nd_ty m) \<longrightarrow> claims_integer_element (nd_op n) (nd_ty n)"
    and uses: "\<forall>v \<in> set (node_uses m). \<exists>y z. vid_from_node y 0 \<in> set (node_uses n) \<and> y \<in> set (live_ids a) \<and>
      v = vid_from_node z 0 \<and> stands_for a b z y"
  shows "(\<forall>v \<in> set (node_uses m). operand_ok b m v) \<and> uses_above b m"
proof -
  have "operand_ok b m v \<and> (\<forall>e. arena_node b (vid_node v) = Inr e \<longrightarrow> defined_above b m e)"
    if v: "v \<in> set (node_uses m)" for v
  proof -
    obtain y z where yz: "vid_from_node y 0 \<in> set (node_uses n)" "y \<in> set (live_ids a)" "v = vid_from_node z 0"
      "stands_for a b z y" using uses v by blast
    have z: "z \<in> set (live_ids b)" using yz(4) by (simp add: stands_for_def)
    obtain e where e: "arena_node b z = Inr e" using live_lookup [OF reshapedD(1) [OF ab] z] by blast
    obtain d where d: "arena_node a y = Inr d" using live_lookup [OF inv yz(2)] by blast
    have vy: "vid_node (vid_from_node y 0) = y" and vz: "vid_node v = z"
      using live_handle_value [OF yz(2)] live_handle_value [OF z] yz(3) by simp_all
    have "operand_ok a n (vid_from_node y 0)" by (rule well_formed_node(3) [OF wf xn yz(1)])
    then have "\<not> (claims_integer_element (nd_op n) (nd_ty n) \<and> operand_elem_is_float (nd_ty d))"
      using vy d by (auto simp: operand_ok_def)
    moreover have "operand_elem_is_float (nd_ty e) \<longrightarrow> operand_elem_is_float (nd_ty d)"
      using yz(4) d e by (simp add: stands_for_def)
    ultimately have op: "operand_ok b m v"
      using live_value [OF z] yz(3) vz e claim by (auto simp: operand_ok_def)
    have "defined_above a n d" using well_formed_node(4) [OF wf xn] yz(1) vy d by (auto simp: uses_above_def)
    then have "defined_above a n e" using yz(4) d e by (simp add: stands_for_def)
    then have "defined_above b m e" by (rule defined_above_reshaped [OF ab arena_inv_wf [OF inv] pm _ m refl])
    with op vz e show ?thesis by simp
  qed
  then show ?thesis by (auto simp: uses_above_def)
qed

lemma stands_for_self:
  assumes "reshaped a b" "y \<in> set (live_ids b)"
    and "\<And>d e. arena_node a y = Inr d \<Longrightarrow> arena_node b y = Inr e \<Longrightarrow> operand_elem_is_float (nd_ty e) \<Longrightarrow> operand_elem_is_float (nd_ty d)"
  shows "stands_for a b y y"
proof -
  have "defined_above a n e" if "arena_node a y = Inr d" "arena_node b y = Inr e" "defined_above a n d" for n d e
    using that(3) reshapedD(9) [OF assms(1,2) that(1,2)] by (simp add: defined_above_def)
  with assms(2,3) show ?thesis unfolding stands_for_def by blast
qed

lemma folded_node_float:
  "folded_node x n m \<Longrightarrow> operand_elem_is_float (nd_ty m) \<Longrightarrow> operand_elem_is_float (nd_ty n)"
  by (auto simp: folded_node_def set_const_def operand_elem_is_float_def)

lemma fold_kept:
  assumes inv: "arena_inv a" and pm: "parents_minted a" and wf: "well_formed a" and ul: "uses_live a"
  shows "kept a (snd (fold_run F a)) \<and> uses_live (snd (fold_run F a))"
proof -
  let ?b = "snd (fold_run F a)"
  have ed: "edited folded_node a ?b" by (rule fold_run_edited [OF inv])
  have rs: "reshaped a ?b" and li: "live_ids ?b = live_ids a" using ed by (simp_all add: edited_def)
  have fn: "folded_node x n m" if "x \<in> set (live_ids a)" "arena_node a x = Inr n" "arena_node ?b x = Inr m" for x n m
    using ed that unfolding edited_def by (metis sum.inject(2))
  have self: "stands_for a ?b y y" if y: "y \<in> set (live_ids a)" for y
    by (rule stands_for_self [OF rs]) (use y li in simp, rule folded_node_float [OF fn [OF y]])
  have new: "node_kept ?b n m \<and> set (node_uses m) \<subseteq> set (node_uses n)"
    if x: "x \<in> set (live_ids a)" and n: "arena_node a x = Inr n" and m: "arena_node ?b x = Inr m" for x n m
  proof -
    have xn: "(x, n) \<in> set (live_nodes a)" by (rule lookup_live_node [OF inv x n])
    note old = well_formed_node [OF wf xn]
    have mr: "nd_region m = nd_region n" using reshapedD(9) [OF rs _ n m] x li by simp
    show ?thesis
    proof (cases "m = n")
      case True
      have "\<exists>y z. vid_from_node y 0 \<in> set (node_uses n) \<and> y \<in> set (live_ids a) \<and> v = vid_from_node z 0 \<and> stands_for a ?b z y"
        if "v \<in> set (node_uses n)" for v
        using uses_liveE [OF ul xn that] self that by metis
      with uses_kept [OF rs inv pm wf ul xn, of n] have "(\<forall>v \<in> set (node_uses n). operand_ok ?b n v) \<and> uses_above ?b n" by simp
      with True old(1,2) show ?thesis by (auto simp: node_kept_def)
    next
      case False
      with fn [OF x n m] obtain op t where m': "m = set_const op t n" and op: "arith (nd_op n)" "is_const op"
        "(\<exists>r. op = ConstF64 r) \<and> t = nd_ty n \<or> (\<exists>r. op = ConstI64 r) \<and> t = Scalar I64" by (auto simp: folded_node_def)
      have "produces_value (nd_op n)" "is_pure (nd_op n)" "nd_op n \<noteq> OpIf"
        using op(1) by (auto simp: arith_def split: xop.splits)
      with old(2) op show ?thesis
        by (auto simp: m' node_kept_def set_const_def node_uses_def uses_above_def)
    qed
  qed
  have "kept a ?b" using rs new li by (auto simp: kept_def)
  moreover have "uses_live ?b"
    unfolding uses_live_def
  proof (intro ballI, unfold split_paired_all prod.case, intro ballI)
    fix x m v assume xm: "(x, m) \<in> set (live_nodes ?b)" and v: "v \<in> set (node_uses m)"
    have x: "x \<in> set (live_ids a)" using live_node_id [OF xm] li by simp
    obtain n where n: "arena_node a x = Inr n" "(x, n) \<in> set (live_nodes a)" using live_lookup [OF inv x] by blast
    have "v \<in> set (node_uses n)" using new [OF x n(1) live_node_lookup [OF reshapedD(1) [OF rs] xm]] v by blast
    from uses_liveE [OF ul n(2) this] li show "\<exists>y \<in> set (live_ids ?b). v = vid_from_node y 0" by metis
  qed
  ultimately show ?thesis ..
qed

lemma gvn_visit_reshaped:
  assumes "arena_inv (gs_arena s)" shows "reshaped (gs_arena s) (gs_arena (snd (gvn_visit tree p s)))"
  using reshaped_refl [OF assms] reshaped_replace_uses [OF assms]
  by (auto simp: gvn_visit_def set_canon_def Let_def split: prod.splits option.splits sum.splits)

lemma gvn_scan_reshaped:
  "arena_inv (gs_arena s) \<Longrightarrow> reshaped (gs_arena s) (gs_arena (snd (gvn_scan tree ps s)))"
proof (induction ps arbitrary: s)
  case (Cons p ps)
  obtain r t where t: "gvn_visit tree p s = (r, t)" by fastforce
  have st: "reshaped (gs_arena s) (gs_arena t)" using gvn_visit_reshaped [OF Cons.prems, of tree p] t by simp
  show ?case
  proof (cases r)
    case (Inl e)
    with t st show ?thesis by simp
  next
    case (Inr u)
    with t have "gvn_scan tree (p # ps) s = gvn_scan tree ps t" by simp
    then show ?thesis using reshaped_trans [OF st Cons.IH [OF reshapedD(1) [OF st]] Cons.prems] by simp
  qed
qed (simp add: reshaped_refl)

lemma const_arity_well_formed:
  assumes "well_formed a" shows "const_arity a"
  using well_formed_node(1) [OF assms] by (fastforce simp: const_arity_def)

lemma subst_val_none:
  assumes "\<forall>x \<in> D. \<rho> x \<in> set (live_ids b)" "vid_is_none (subst_val \<rho> D v)" shows "vid_is_none v"
  using assms live_value(2) by (auto simp: subst_val_def split: if_splits)

lemma region_anc_trans: "region_anc a q r \<Longrightarrow> region_anc a p q \<Longrightarrow> region_anc a p r"
  by (induction rule: region_anc.induct) (auto intro: region_anc.anc_up)

lemma merged_defined_above:
  assumes inv: "arena_inv a" and mg: "merged a y z" and d: "arena_node a y = Inr d" and e: "arena_node a z = Inr e"
  shows "nd_ty e = nd_ty d" "defined_above a n d \<Longrightarrow> defined_above a n e"
proof -
  obtain d' e' p q where m: "(y, d') \<in> set (live_nodes a)" "(z, e') \<in> set (live_nodes a)" "nd_ty e' = nd_ty d'"
    "nd_region e' = rid_pack (word_of_nat p) 0" "nd_region d' = rid_pack (word_of_nat q) 0"
    "p < length (ar_regions a)" "q < length (ar_regions a)" "region_anc a p q"
    using mg by (auto simp: merged_def)
  have de: "d' = d" "e' = e" using live_node_lookup [OF inv m(1)] live_node_lookup [OF inv m(2)] d e by simp_all
  then show "nd_ty e = nd_ty d" using m(3) by simp
  assume "defined_above a n d"
  moreover have "\<not> rid_is_none (nd_region d)"
    using m(5) de by auto
  ultimately obtain q' r where q': "q' < length (ar_regions a)" "r < length (ar_regions a)"
    "nd_region d = rid_pack (word_of_nat q') 0" "nd_region n = rid_pack (word_of_nat r) 0" "region_anc a q' r"
    by (auto simp: defined_above_def)
  have "q' = q" using q'(3) m(5) de(1) q'(1) m(7) unat_region_slot [OF arena_inv_wf [OF inv]]
    by (metis rid_index_pack)
  then have "region_anc a p r" using region_anc_trans [OF q'(5)] m(8) by simp
  then show "defined_above a n e" using m(4,6) de(2) q'(2,4) by (auto simp: defined_above_def)
qed

lemma payload_subst:
  assumes "payload m = subst_node f (payload n)"
  shows "nd_op m = nd_op n" "nd_ty m = nd_ty n" "nd_n_inputs m = nd_n_inputs n"
    "node_uses m = map f (node_uses n)" "nd_effect_in m = f (nd_effect_in n)"
proof -
  show "nd_op m = nd_op n" using arg_cong [OF assms, of nd_op] by simp
  show "nd_ty m = nd_ty n" using arg_cong [OF assms, of nd_ty] by simp
  show "nd_n_inputs m = nd_n_inputs n" using arg_cong [OF assms, of nd_n_inputs] by simp
  have p: "node_uses (payload j) = node_uses j" for j by (simp add: node_uses_def)
  show "node_uses m = map f (node_uses n)"
    using arg_cong [OF assms, of node_uses] by (simp only: p subst_node_sel)
  show "nd_effect_in m = f (nd_effect_in n)" using arg_cong [OF assms, of nd_effect_in] by (simp add: subst_node_def)
qed

lemma gvn_kept:
  assumes inv: "arena_inv a" and tree: "region_tree a" and wf: "well_formed a" and ul: "uses_live a"
  shows "\<exists>k b \<rho>. gvn_run a = (Inr k, b) \<and> gvn_result a \<rho> b \<and> kept a b \<and> uses_live b"
proof -
  have pm: "parents_minted a" by (rule region_tree_minted [OF tree])
  obtain k b \<rho> s where run: "gvn_run a = (Inr k, b)" and res: "gvn_result a \<rho> b"
    and scan: "gvn_scan (tree_upto a (length (ar_regions a))) (live_nodes a) (gvn_init a) = (Inr (), s)"
    and b: "b = store.del_all (gs_removals s) (gs_arena s)" "distinct (gs_removals s)" "set (gs_removals s) \<subseteq> set (live_ids (gs_arena s))"
    using gvn_run_ok [OF inv tree ul const_arity_well_formed [OF wf]] by blast
  have "reshaped a (gs_arena s)"
    using gvn_scan_reshaped [of "gvn_init a" "tree_upto a (length (ar_regions a))" "live_nodes a"] scan inv
    by (simp add: gvn_init_def)
  then have rs: "reshaped a b"
    using reshaped_trans [OF _ reshaped_del_all [OF _ b(2,3)] inv] reshapedD(1) b(1) by blast
  let ?D = "set (live_ids a) - set (live_ids b)"
  have reps: "\<forall>x \<in> ?D. \<rho> x \<in> set (live_ids b) \<and> merged a x (\<rho> x)" and ul': "uses_live b"
    and surv: "\<And>y n. (y, n) \<in> set (live_nodes a) \<Longrightarrow> y \<in> set (live_ids b) \<Longrightarrow>
      node_get b y = Some (subst_node (subst_val \<rho> ?D) (payload n))"
    using res unfolding gvn_result_def Let_def by blast+
  have new: "payload m = subst_node (subst_val \<rho> ?D) (payload n)"
    if "y \<in> set (live_ids b)" "arena_node a y = Inr n" "arena_node b y = Inr m" for y n m
  proof -
    have "y \<in> set (live_ids a)" using that(1) reshapedD(2) [OF rs] by blast
    note sv = surv [OF lookup_live_node [OF inv this that(2)] that(1)]
    have "node_get b y = Some (payload m)" using that(3) by (simp add: node_get_def)
    from trans [OF sym [OF this] sv] show ?thesis by (rule option.inject [THEN iffD1])
  qed
  have fields: "nd_op m = nd_op n" "nd_ty m = nd_ty n" "nd_n_inputs m = nd_n_inputs n"
    "node_uses m = map (subst_val \<rho> ?D) (node_uses n)" "nd_effect_in m = subst_val \<rho> ?D (nd_effect_in n)"
    if "y \<in> set (live_ids b)" "arena_node a y = Inr n" "arena_node b y = Inr m" for y n m
    by (rule payload_subst [OF new [OF that]])+
  have stands: "stands_for a b (if y \<in> ?D then \<rho> y else y) y" if y: "y \<in> set (live_ids a)" for y
  proof (cases "y \<in> ?D")
    case False
    then have yb: "y \<in> set (live_ids b)" using y by blast
    have "stands_for a b y y"
    proof (rule stands_for_self [OF rs yb])
      fix d e assume de: "arena_node a y = Inr d" "arena_node b y = Inr e" and "operand_elem_is_float (nd_ty e)"
      then show "operand_elem_is_float (nd_ty d)" using fields(2) [OF yb de] by simp
    qed
    with False show ?thesis by (simp only: if_False)
  next
    case True
    then have r: "\<rho> y \<in> set (live_ids b)" "merged a y (\<rho> y)" using reps by blast+
    obtain e' where e': "arena_node a (\<rho> y) = Inr e'" using live_lookup [OF inv] r(1) reshapedD(2) [OF rs] by blast
    have "(operand_elem_is_float (nd_ty e) \<longrightarrow> operand_elem_is_float (nd_ty d)) \<and> (\<forall>n. defined_above a n d \<longrightarrow> defined_above a n e)"
      if "arena_node a y = Inr d" "arena_node b (\<rho> y) = Inr e" for d e
    proof -
      have "nd_ty e = nd_ty e'" "nd_region e = nd_region e'"
        using fields(2) [OF r(1) e' that(2)] reshapedD(9) [OF rs r(1) e' that(2)] by simp_all
      then show ?thesis using merged_defined_above [OF inv r(2) that(1) e'] by (simp add: defined_above_def)
    qed
    with True r(1) show ?thesis unfolding stands_for_def by simp
  qed
  have kn: "node_kept b n m"
    if x: "x \<in> set (live_ids b)" and n: "arena_node a x = Inr n" and m: "arena_node b x = Inr m" for x n m
  proof -
    note f = fields [OF x n m]
    have xn: "(x, n) \<in> set (live_nodes a)" using lookup_live_node [OF inv _ n] x reshapedD(2) [OF rs] by blast
    have "\<exists>y z. vid_from_node y 0 \<in> set (node_uses n) \<and> y \<in> set (live_ids a) \<and> v = vid_from_node z 0 \<and> stands_for a b z y"
      if v: "v \<in> set (node_uses m)" for v
    proof -
      obtain u where u: "u \<in> set (node_uses n)" "v = subst_val \<rho> ?D u" using v f(4) by auto
      then obtain y where y: "y \<in> set (live_ids a)" "u = vid_from_node y 0" using uses_liveE [OF ul xn] by metis
      have "v = vid_from_node (if y \<in> ?D then \<rho> y else y) 0" using u(2) y(2) subst_val_live [OF y(1)] by simp
      with u(1) y stands [OF y(1)] show ?thesis by blast
    qed
    with uses_kept [OF rs inv pm wf ul xn, of m] reshapedD(9) [OF rs x n m] f
    have uk: "(\<forall>v \<in> set (node_uses m). operand_ok b m v) \<and> uses_above b m" by simp
    have "\<forall>x \<in> ?D. \<rho> x \<in> set (live_ids b)" using reps by blast
    then have "vid_is_none (nd_effect_in m) \<longrightarrow> vid_is_none (nd_effect_in n)" using f(5) subst_val_none by metis
    with uk f well_formed_node(1,2) [OF wf xn] show ?thesis by (simp add: node_kept_def)
  qed
  have "is_pure (nd_op n)" if x: "x \<in> ?D" "arena_node a x = Inr n" for x n
  proof -
    have "merged a x (\<rho> x)" using reps x(1) by blast
    then obtain n' where n': "(x, n') \<in> set (live_nodes a)" "is_pure (nd_op n')" by (auto simp: merged_def)
    have "n' = n" using live_node_lookup [OF inv n'(1)] x(2) by simp
    with n'(2) show ?thesis by simp
  qed
  with rs kn have "kept a b" unfolding kept_def by blast
  with run res ul' show ?thesis by blast
qed

section \<open>Dead code elimination\<close>

lemma dce_loop_reshaped:
  "dce_loop a roots k = Some out \<Longrightarrow> arena_inv a \<longrightarrow> reshaped a (snd out)"
proof (induction rule: dce_loop.raw_induct [rotated 1, consumes 1, case_names step])
  case (step loop a roots k out)
  show ?case
  proof
    assume inv: "arena_inv a"
    let ?d = "dce_dead a (dce_used a roots)"
    show "reshaped a (snd out)"
    proof (cases "?d = []")
      case True
      with step.hyps reshaped_refl [OF inv] show ?thesis by auto
    next
      case False
      note live = distinct_dce_dead [OF arena_inv_wf [OF inv], of "dce_used a roots"] dce_dead_live [of a "dce_used a roots"]
      have rs: "reshaped a (store.del_all ?d a)" by (rule reshaped_del_all [OF inv live])
      have "loop (store.del_all ?d a) roots (k + word_of_nat (length ?d)) = Some out"
        using step.hyps False by (simp add: dce_remove_eq [OF inv live] Let_def)
      from step.IH [OF this] reshapedD(1) [OF rs] have "reshaped (store.del_all ?d a) (snd out)" by blast
      then show ?thesis by (rule reshaped_trans [OF rs _ inv])
    qed
  qed
qed

lemma live_value_slot: "y \<in> set (live_ids a) \<Longrightarrow> value_slot (vid_from_node y 0) = unat (nid_index y)"
  by (simp add: value_slot_def live_handle_value)

lemma dce_kept:
  assumes inv: "arena_inv a" and pm: "parents_minted a" and wf: "well_formed a" and ul: "uses_live a"
  shows "\<exists>k b. dce_run a roots = Some (Inr k, b) \<and> dce_sound a roots b \<and> kept a b \<and> uses_live b"
proof -
  obtain k b where run: "dce_run a roots = Some (Inr k, b)" and snd: "dce_sound a roots b"
    using dce_loop_run [OF inv, of roots 0] by (auto simp: dce_run_def)
  have rs: "reshaped a b" using dce_loop_reshaped [OF run [unfolded dce_run_def]] inv by simp
  have same: "payload m = payload n" if "x \<in> set (live_ids b)" "arena_node a x = Inr n" "arena_node b x = Inr m" for x n m
    using snd that by (auto simp: dce_sound_def node_get_def)
  have used: "\<exists>y \<in> set (live_ids b). v = vid_from_node y 0"
    if xm: "(x, m) \<in> set (live_nodes b)" and v: "v \<in> set (node_uses m)" for x m v
  proof -
    have x: "x \<in> set (live_ids b)" using live_node_id [OF xm] .
    obtain n where n: "arena_node a x = Inr n" "(x, n) \<in> set (live_nodes a)" using live_lookup [OF inv] x reshapedD(2) [OF rs] by blast
    have "payload m = payload n" by (rule same [OF x n(1) live_node_lookup [OF reshapedD(1) [OF rs] xm]])
    then have "node_uses (payload m) = node_uses (payload n)" by simp
    then have "node_uses m = node_uses n" by (simp add: node_uses_def)
    with v obtain y where y: "y \<in> set (live_ids a)" "v = vid_from_node y 0" using uses_liveE [OF ul n(2)] by metis
    obtain d where d: "arena_node a y = Inr d" using live_lookup [OF inv y(1)] by blast
    have "unat (nid_index y) \<in> set (node_marks m)"
      using v live_value_slot [OF y(1)] y(2) by (force simp: node_marks_def)
    moreover have "unat (nid_index y) \<notin> set (node_marks m)" if "y \<notin> set (live_ids b)"
    proof -
      have "node_get a y = Some (payload d)" using d by (simp add: node_get_def)
      then have "\<forall>(y', m) \<in> set (live_nodes b). unat (nid_index y) \<notin> set (node_marks m)"
        using snd that y(1) unfolding dce_sound_def by blast
      with bspec [OF this xm] show ?thesis by simp
    qed
    ultimately have "y \<in> set (live_ids b)" by blast
    with y(2) show ?thesis by blast
  qed
  then have ul': "uses_live b" by (fastforce simp: uses_live_def)
  have kn: "node_kept b n m"
    if x: "x \<in> set (live_ids b)" and n: "arena_node a x = Inr n" and m: "arena_node b x = Inr m" for x n m
  proof -
    have e: "payload m = payload n" by (rule same [OF x n m])
    have f: "nd_op m = nd_op n" "nd_ty m = nd_ty n" "nd_n_inputs m = nd_n_inputs n" "node_uses m = node_uses n"
      "nd_effect_in m = nd_effect_in n"
    proof -
      have "subst_node id j = j" for j by (simp add: subst_node_def)
      then show "nd_op m = nd_op n" "nd_ty m = nd_ty n" "nd_n_inputs m = nd_n_inputs n" "node_uses m = node_uses n"
        "nd_effect_in m = nd_effect_in n" using payload_subst [of m id n] e by simp_all
    qed
    have xn: "(x, n) \<in> set (live_nodes a)" using lookup_live_node [OF inv _ n] x reshapedD(2) [OF rs] by blast
    have "\<exists>y z. vid_from_node y 0 \<in> set (node_uses n) \<and> y \<in> set (live_ids a) \<and> v = vid_from_node z 0 \<and> stands_for a b z y"
      if v: "v \<in> set (node_uses m)" for v
    proof -
      obtain y where y: "y \<in> set (live_ids b)" "v = vid_from_node y 0"
        using used [OF lookup_live_node [OF reshapedD(1) [OF rs] x m] v] by blast
      have "stands_for a b y y"
      proof (rule stands_for_self [OF rs y(1)])
        fix d e assume "arena_node a y = Inr d" "arena_node b y = Inr e" and fl: "operand_elem_is_float (nd_ty e)"
        then have "payload e = payload d" using same y(1) by blast
        then have "nd_ty (payload e) = nd_ty (payload d)" by simp
        with fl show "operand_elem_is_float (nd_ty d)" by simp
      qed
      with y v f(4) reshapedD(2) [OF rs] show ?thesis by auto
    qed
    with uses_kept [OF rs inv pm wf ul xn, of m] reshapedD(9) [OF rs x n m] f
    have "(\<forall>v \<in> set (node_uses m). operand_ok b m v) \<and> uses_above b m" by simp
    with f well_formed_node(1,2) [OF wf xn] show ?thesis by (simp add: node_kept_def)
  qed
  have "is_pure (nd_op n)" if "x \<in> set (live_ids a) - set (live_ids b)" "arena_node a x = Inr n" for x n
  proof -
    have "node_get a x = Some (payload n)" using that(2) by (simp add: node_get_def)
    then have "is_pure (nd_op (payload n))" using snd that(1) unfolding dce_sound_def by blast
    then show ?thesis by simp
  qed
  with rs kn have "kept a b" unfolding kept_def by blast
  with run snd ul' show ?thesis by blast
qed

end
