(* ===== verification/Interp.thy ===== *)
theory Interp
  imports Target
begin

text \<open>
  The reference interpreter, \<^verbatim>\<open>crates/runtime/src/interp.rs\<close>: a value table, one kernel per instruction.
  A result is a value, a \<^verbatim>\<open>RuntimeError\<close>, or a panic (an index out of range, or an element count that
  overflows \<^verbatim>\<open>i64\<close>). Loops over \<^verbatim>\<open>0..n\<close> are folds over \<open>[0 ..< n]\<close>; a buffer that a loop nest fills in
  row-major order is the list of the values in that order.
\<close>

datatype runtime_error = BadSlot | ShapeMismatch | UnsupportedValue | DivisionByZero | UnsupportedInstr

datatype ('e, 'a) eff = Done 'a | Fail 'e | Panic

fun ebind :: "('e, 'a) eff \<Rightarrow> ('a \<Rightarrow> ('e, 'b) eff) \<Rightarrow> ('e, 'b) eff" where
  "ebind (Done x) f = f x"
| "ebind (Fail e) f = Fail e"
| "ebind Panic f = Panic"

definition need :: "'a option \<Rightarrow> 'e \<Rightarrow> ('e, 'a) eff" where
  "need x e = (case x of Some v \<Rightarrow> Done v | None \<Rightarrow> Fail e)"

text \<open>\<^verbatim>\<open>v[i]\<close>\<close>

definition index :: "'a list \<Rightarrow> nat \<Rightarrow> ('e, 'a) eff" where
  "index xs i = (if i < length xs then Done (xs ! i) else Panic)"

fun efold :: "('a \<Rightarrow> 's \<Rightarrow> ('e, 's) eff) \<Rightarrow> 'a list \<Rightarrow> 's \<Rightarrow> ('e, 's) eff" where
  "efold f [] s = Done s"
| "efold f (x # xs) s = ebind (f x s) (efold f xs)"

fun emap :: "('a \<Rightarrow> ('e, 'b) eff) \<Rightarrow> 'a list \<Rightarrow> ('e, 'b list) eff" where
  "emap f [] = Done []"
| "emap f (x # xs) = ebind (f x) (\<lambda>y. ebind (emap f xs) (\<lambda>ys. Done (y # ys)))"

type_synonym 'a run = "(runtime_error, 'a) eff"

definition lift_shape :: "type_error + shape \<Rightarrow> shape run" where
  "lift_shape r = (case r of Inr s \<Rightarrow> Done s | Inl _ \<Rightarrow> Fail ShapeMismatch)"

section \<open>Table access\<close>

definition table_get :: "rvalue list \<Rightarrow> u32 \<Rightarrow> rvalue run" where
  "table_get t slot = need (nth_opt t (unat slot)) BadSlot"

definition table_set :: "rvalue list \<Rightarrow> u32 \<Rightarrow> rvalue \<Rightarrow> rvalue list run" where
  "table_set t slot v = (if unat slot < length t then Done (t[unat slot := v]) else Fail BadSlot)"

definition load_f64s :: "rvalue list \<Rightarrow> u32 \<Rightarrow> f64 list run" where
  "load_f64s t slot = ebind (table_get t slot) (\<lambda>v.
     case v of VF64 x \<Rightarrow> Done [x] | VTensor data _ \<Rightarrow> Done data | VI64 _ \<Rightarrow> Fail UnsupportedValue)"

definition store_f64 :: "rvalue list \<Rightarrow> u32 \<Rightarrow> f64 \<Rightarrow> rvalue list run" where
  "store_f64 t slot v = table_set t slot (VF64 v)"

definition tensor_shape :: "rvalue list \<Rightarrow> u32 \<Rightarrow> shape run" where
  "tensor_shape t slot = ebind (table_get t slot) (\<lambda>v. Done (value_shape v))"

fun va_scalar :: "rvalue \<Rightarrow> f64" where
  "va_scalar (VF64 x) = x"
| "va_scalar _ = 0"

section \<open>Elementwise kernels\<close>

definition bin_op :: "fp \<Rightarrow> rvalue list \<Rightarrow> u32 \<Rightarrow> u32 \<Rightarrow> u32 \<Rightarrow> (f64 \<Rightarrow> f64 \<Rightarrow> f64 run) \<Rightarrow> rvalue list run" where
  "bin_op F t dst a b f =
     ebind (table_get t a) (\<lambda>va. ebind (table_get t b) (\<lambda>vb.
       case (va, vb) of
         (VF64 x, VF64 y) \<Rightarrow> ebind (f x y) (store_f64 t dst)
       | (VI64 x, VI64 y) \<Rightarrow>
           ebind (f (fp_of_i64 F x) (fp_of_i64 F y)) (\<lambda>v.
             table_set t dst (if f64_is_zero (fp_fract F v) then VI64 (fp_to_i64 F v) else VF64 v))
       | (VF64 x, VTensor data shape) \<Rightarrow>
           ebind (emap (\<lambda>y. f x y) data) (\<lambda>out. table_set t dst (VTensor out shape))
       | (VTensor data shape, VF64 y) \<Rightarrow>
           ebind (emap (\<lambda>x. f x y) data) (\<lambda>out. table_set t dst (VTensor out shape))
       | (VTensor x sx, VTensor y sy) \<Rightarrow>
           if sx \<noteq> sy \<or> length x \<noteq> length y then Fail ShapeMismatch
           else ebind (emap (\<lambda>i. f (x ! i) (y ! i)) [0 ..< length x]) (\<lambda>out. table_set t dst (VTensor out sx))
       | _ \<Rightarrow> Fail UnsupportedValue))"

definition un_op :: "rvalue list \<Rightarrow> u32 \<Rightarrow> u32 \<Rightarrow> (f64 \<Rightarrow> f64 run) \<Rightarrow> rvalue list run" where
  "un_op t dst a f =
     ebind (table_get t a) (\<lambda>va.
       case va of
         VF64 x \<Rightarrow> ebind (f x) (store_f64 t dst)
       | VTensor data shape \<Rightarrow> ebind (emap f data) (\<lambda>out. table_set t dst (VTensor out shape))
       | VI64 _ \<Rightarrow> Fail UnsupportedValue)"

section \<open>Reductions\<close>

fun monoid_identity :: "monoid \<Rightarrow> f64" where
  "monoid_identity MAdd = 0"
| "monoid_identity MOr = 0"
| "monoid_identity MMul = F64_ONE"
| "monoid_identity MAnd = F64_ONE"
| "monoid_identity MMax = F64_NEG_INF"
| "monoid_identity MMin = F64_INF"

fun monoid_apply :: "fp \<Rightarrow> monoid \<Rightarrow> f64 \<Rightarrow> f64 \<Rightarrow> f64" where
  "monoid_apply F MAdd acc v = fp_add F acc v"
| "monoid_apply F MOr acc v = fp_add F acc v"
| "monoid_apply F MMul acc v = fp_mul F acc v"
| "monoid_apply F MAnd acc v = fp_mul F acc v"
| "monoid_apply F MMax acc v = fp_max F acc v"
| "monoid_apply F MMin acc v = fp_min F acc v"

definition dim_or :: "i64 \<Rightarrow> shape \<Rightarrow> nat \<Rightarrow> i64" where
  "dim_or d s axis = (case shape_dim s (word_of_nat axis) of Some x \<Rightarrow> x | None \<Rightarrow> d)"

definition reduce_cell :: "fp \<Rightarrow> monoid \<Rightarrow> f64 list \<Rightarrow> nat \<Rightarrow> nat \<Rightarrow> nat \<Rightarrow> f64 run" where
  "reduce_cell F m data axis_len inner ob =
     (let row = ob div max inner 1; off = ob mod max inner 1; base = row * axis_len * inner + off in
      efold (\<lambda>k acc. ebind (index data (base + k * inner)) (\<lambda>v. Done (monoid_apply F m acc v)))
        [0 ..< axis_len] (monoid_identity m))"

definition reduce :: "fp \<Rightarrow> rvalue list \<Rightarrow> u32 \<Rightarrow> u32 \<Rightarrow> u8 \<Rightarrow> monoid \<Rightarrow> rvalue list run" where
  "reduce F t dst a axis m =
     ebind (table_get t a) (\<lambda>va.
       case va of
         VF64 _ \<Rightarrow> store_f64 t dst (va_scalar va)
       | VI64 _ \<Rightarrow> Fail UnsupportedValue
       | VTensor data shape \<Rightarrow>
           if axis \<ge> sh_rank shape then Fail ShapeMismatch
           else
             let rank = unat (sh_rank shape);
                 out_dims = map (dim_or 1 shape) (filter (\<lambda>d. d \<noteq> unat axis) [0 ..< rank])
             in ebind (lift_shape (shape_from_dims out_dims)) (\<lambda>out_shape.
                  let axis_len = nat (dim_or 1 shape (unat axis));
                      inner = (if rank > unat axis + 1
                               then prod_list (map (\<lambda>d. nat (dim_or 1 shape d)) [unat axis + 1 ..< rank]) else 1);
                      total_out = nat (max (num_elements out_shape) 0)
                  in ebind (emap (reduce_cell F m data axis_len inner) [0 ..< total_out]) (\<lambda>out.
                       if sh_rank out_shape = 0 then ebind (index out 0) (store_f64 t dst)
                       else table_set t dst (VTensor out out_shape))))"

section \<open>Matrix product and transpose\<close>

text \<open>The closure \<^verbatim>\<open>idx\<close>: rows, columns, row, column, transposed.\<close>

definition mat_index :: "int \<Rightarrow> int \<Rightarrow> int \<Rightarrow> int \<Rightarrow> bool \<Rightarrow> nat" where
  "mat_index rows cols r c tr = nat (if tr then c * rows + r else r * cols + c)"

definition matmul_cell ::
  "fp \<Rightarrow> f64 list \<Rightarrow> f64 list \<Rightarrow> int \<Rightarrow> int \<Rightarrow> int \<Rightarrow> int \<Rightarrow> bool \<Rightarrow> bool \<Rightarrow> int \<Rightarrow> int \<times> int \<Rightarrow> f64 run" where
  "matmul_cell F xa xb m0 k0 k1 n1 ta tb k = (\<lambda>(r, c).
     efold (\<lambda>k2 acc.
       ebind (index xa (mat_index m0 k0 r k2 ta)) (\<lambda>av.
       ebind (index xb (mat_index k1 n1 k2 c tb)) (\<lambda>bv.
         Done (fp_add F acc (fp_mul F av bv))))) [0 .. k - 1] 0)"

definition matmul :: "fp \<Rightarrow> rvalue list \<Rightarrow> u32 \<Rightarrow> u32 \<Rightarrow> u32 \<Rightarrow> bool \<Rightarrow> bool \<Rightarrow> rvalue list run" where
  "matmul F t dst a b ta tb =
     ebind (load_f64s t a) (\<lambda>xa. ebind (tensor_shape t a) (\<lambda>sa.
     ebind (load_f64s t b) (\<lambda>xb. ebind (tensor_shape t b) (\<lambda>sb.
       if sh_rank sa \<noteq> 2 \<or> sh_rank sb \<noteq> 2 then Fail ShapeMismatch
       else
         let m0 = dim_or 0 sa 0; k0 = dim_or 0 sa 1; k1 = dim_or 0 sb 0; n1 = dim_or 0 sb 1;
             (m, ka) = (if ta then (k0, m0) else (m0, k0));
             (kb, n) = (if tb then (n1, k1) else (k1, n1))
         in if ka \<noteq> kb then Fail ShapeMismatch
            else if \<not> in_i64 (m * n) then Panic
            else
              ebind (emap (matmul_cell F xa xb m0 k0 k1 n1 ta tb ka) [(r, c). r \<leftarrow> [0 .. m - 1], c \<leftarrow> [0 .. n - 1]])
                (\<lambda>out. ebind (lift_shape (shape_from_dims [m, n])) (\<lambda>shape.
                  table_set t dst (VTensor out shape)))))))"

definition transpose_step :: "int \<Rightarrow> int \<Rightarrow> f64 list \<Rightarrow> int \<times> int \<Rightarrow> f64 list \<Rightarrow> f64 list run" where
  "transpose_step r c data = (\<lambda>(i, j) out.
     ebind (index data (nat (i * c + j))) (\<lambda>v.
       if nat (j * r + i) < length out then Done (out[nat (j * r + i) := v]) else Panic))"

definition transpose_op :: "rvalue list \<Rightarrow> u32 \<Rightarrow> u32 \<Rightarrow> rvalue list run" where
  "transpose_op t dst a =
     ebind (table_get t a) (\<lambda>va.
       case va of
         VTensor data shape \<Rightarrow>
           if sh_rank shape \<noteq> 2 then Fail ShapeMismatch
           else
             let r = dim_or 0 shape 0; c = dim_or 0 shape 1 in
             ebind (efold (transpose_step r c data) [(i, j). i \<leftarrow> [0 .. r - 1], j \<leftarrow> [0 .. c - 1]]
                     (replicate (length data) 0)) (\<lambda>out.
             ebind (lift_shape (shape_from_dims [c, r])) (\<lambda>shape'.
               table_set t dst (VTensor out shape')))
       | _ \<Rightarrow> Fail UnsupportedValue)"

section \<open>Convolution\<close>

definition conv_cell ::
  "fp \<Rightarrow> f64 list \<Rightarrow> f64 list \<Rightarrow> int \<times> int \<times> int \<Rightarrow> int \<times> int \<Rightarrow> int \<Rightarrow> int \<times> int \<Rightarrow> int \<times> int \<times> int \<times> int \<Rightarrow> f64 run" where
  "conv_cell F xa xb = (\<lambda>(c, h, w) (kh, kw) stride (pad_top, pad_left) (bn, bf, oy, ox).
     efold (\<lambda>(cc, ky, kx) acc.
       let iy = oy * stride + ky - pad_top; ix = ox * stride + kx - pad_left in
       if iy < 0 \<or> iy \<ge> h \<or> ix < 0 \<or> ix \<ge> w then Done acc
       else
         ebind (index xa (nat (((bn * c + cc) * h + iy) * w + ix))) (\<lambda>iv.
         ebind (index xb (nat (((bf * c + cc) * kh + ky) * kw + kx))) (\<lambda>wv.
           Done (fp_add F acc (fp_mul F iv wv)))))
       [(cc, ky, kx). cc \<leftarrow> [0 .. c - 1], ky \<leftarrow> [0 .. kh - 1], kx \<leftarrow> [0 .. kw - 1]] 0)"

fun conv_geometry :: "padding \<Rightarrow> int \<Rightarrow> int \<Rightarrow> int \<Rightarrow> int \<Rightarrow> int \<Rightarrow> (int \<times> int \<times> int \<times> int) run" where
  "conv_geometry Valid h w kh kw stride =
     (if kh > h \<or> kw > w then Fail ShapeMismatch
      else Done (trunc_div (h - kh) stride + 1, trunc_div (w - kw) stride + 1, 0, 0))"
| "conv_geometry Same h w kh kw stride =
     (if \<not> in_i64 (h + stride - 1) \<or> \<not> in_i64 (w + stride - 1) then Panic
      else
        let oh = trunc_div (h + stride - 1) stride; ow = trunc_div (w + stride - 1) stride in
        if \<not> in_i64 ((oh - 1) * stride + kh) \<or> \<not> in_i64 ((ow - 1) * stride + kw) then Panic
        else Done (oh, ow, max ((oh - 1) * stride + kh - h) 0, max ((ow - 1) * stride + kw - w) 0))"

definition conv :: "fp \<Rightarrow> rvalue list \<Rightarrow> u32 \<Rightarrow> u32 \<Rightarrow> u32 \<Rightarrow> padding \<Rightarrow> u8 \<Rightarrow> rvalue list run" where
  "conv F t dst a b padding stride8 =
     ebind (load_f64s t a) (\<lambda>xa. ebind (tensor_shape t a) (\<lambda>sa.
     ebind (load_f64s t b) (\<lambda>xb. ebind (tensor_shape t b) (\<lambda>sb.
       if sh_rank sa \<noteq> 4 \<or> sh_rank sb \<noteq> 4 then Fail ShapeMismatch
       else if stride8 = 0 then Fail ShapeMismatch
       else
         let stride = uint stride8;
             n = dim_or 0 sa 0; c = dim_or 0 sa 1; h = dim_or 0 sa 2; w = dim_or 0 sa 3;
             f = dim_or 0 sb 0; fc = dim_or 0 sb 1; kh = dim_or 0 sb 2; kw = dim_or 0 sb 3
         in if c \<noteq> fc then Fail ShapeMismatch
            else ebind (conv_geometry padding h w kh kw stride) (\<lambda>(oh, ow, pad_h, pad_w).
              if n \<le> 0 \<or> f \<le> 0 \<or> c \<le> 0 \<or> oh \<le> 0 \<or> ow \<le> 0 then Fail ShapeMismatch
              else if \<not> in_i64 (n * f * oh * ow) then Panic
              else
                ebind (emap (conv_cell F xa xb (c, h, w) (kh, kw) stride (trunc_div pad_h 2, trunc_div pad_w 2))
                        [(bn, bf, oy, ox). bn \<leftarrow> [0 .. n - 1], bf \<leftarrow> [0 .. f - 1], oy \<leftarrow> [0 .. oh - 1], ox \<leftarrow> [0 .. ow - 1]])
                  (\<lambda>out. ebind (lift_shape (shape_from_dims [n, f, oh, ow])) (\<lambda>shape.
                    table_set t dst (VTensor out shape))))))))"

section \<open>Random numbers\<close>

definition splitmix64 :: "u64 \<Rightarrow> u64" where
  "splitmix64 x0 =
     (let x = x0 + 0x9E3779B97F4A7C15;
          z1 = (x XOR drop_bit 30 x) * 0xBF58476D1CE4E5B9;
          z2 = (z1 XOR drop_bit 27 z1) * 0x94D049BB133111EB
      in z2 XOR drop_bit 31 z2)"

definition rng_unit :: "fp \<Rightarrow> u64 \<Rightarrow> f64" where
  "rng_unit F v = fp_div F (fp_of_u64 F (drop_bit 11 v)) (fp_of_u64 F (push_bit 53 1))"

definition rng_sample :: "fp \<Rightarrow> u64 \<Rightarrow> rng_dist \<Rightarrow> nat \<Rightarrow> f64" where
  "rng_sample F seed dist i =
     (let u = rng_unit F (splitmix64 (seed + word_of_nat i)) in
      case dist of
        Uniform \<Rightarrow> u
      | Normal \<Rightarrow>
          let u2 = rng_unit F (splitmix64 (seed + word_of_nat i + 0x9E3779B9));
              mag = fp_sqrt F (fp_mul F F64_MINUS_TWO (fp_ln F (fp_max F u F64_1E_12)))
          in fp_mul F mag (fp_cos F (fp_mul F F64_TAU u2)))"

definition rng :: "fp \<Rightarrow> rvalue list \<Rightarrow> u32 \<Rightarrow> u64 \<Rightarrow> rng_dist \<Rightarrow> rvalue list run" where
  "rng F t dst seed dist =
     ebind (table_get t dst) (\<lambda>old.
       let count = max (element_count old) 1; shape = value_shape old;
           out = map (rng_sample F seed dist) [0 ..< count]
       in if sh_rank shape = 0 then ebind (index out 0) (store_f64 t dst)
          else table_set t dst (VTensor out shape))"

section \<open>Instructions and programs\<close>

definition dot :: "fp \<Rightarrow> rvalue list \<Rightarrow> u32 \<Rightarrow> u32 \<Rightarrow> u32 \<Rightarrow> rvalue list run" where
  "dot F t dst a b =
     ebind (load_f64s t a) (\<lambda>x. ebind (load_f64s t b) (\<lambda>y.
       if length x \<noteq> length y then Fail ShapeMismatch
       else store_f64 t dst (foldl (\<lambda>acc i. fp_add F acc (fp_mul F (x ! i) (y ! i))) 0 [0 ..< length x])))"

definition copy_value :: "rvalue list \<Rightarrow> u32 \<Rightarrow> u32 \<Rightarrow> rvalue list run" where
  "copy_value t dst a = ebind (table_get t a) (table_set t dst)"

definition div_f64 :: "fp \<Rightarrow> f64 \<Rightarrow> f64 \<Rightarrow> f64 run" where
  "div_f64 F x y = (if f64_is_zero y then Fail DivisionByZero else Done (fp_div F x y))"

fun run_instr :: "fp \<Rightarrow> rvalue list \<Rightarrow> instr \<Rightarrow> rvalue list run" where
  "run_instr F t (IAdd dst a b) = bin_op F t dst a b (\<lambda>x y. Done (fp_add F x y))"
| "run_instr F t (ISub dst a b) = bin_op F t dst a b (\<lambda>x y. Done (fp_sub F x y))"
| "run_instr F t (IMul dst a b) = bin_op F t dst a b (\<lambda>x y. Done (fp_mul F x y))"
| "run_instr F t (IDiv dst a b) = bin_op F t dst a b (div_f64 F)"
| "run_instr F t (IMax dst a b) = bin_op F t dst a b (\<lambda>x y. Done (fp_max F x y))"
| "run_instr F t (IMin dst a b) = bin_op F t dst a b (\<lambda>x y. Done (fp_min F x y))"
| "run_instr F t (INeg dst a) = un_op t dst a (\<lambda>x. Done (f64_neg x))"
| "run_instr F t (IRelu dst a) = un_op t dst a (\<lambda>x. Done (fp_max F x 0))"
| "run_instr F t (IExp dst a) = un_op t dst a (\<lambda>x. Done (fp_exp F x))"
| "run_instr F t (ILog dst a) = un_op t dst a (\<lambda>x. Done (fp_ln F x))"
| "run_instr F t (IConstF64 dst v) = store_f64 t dst v"
| "run_instr F t (IConstI64 dst v) = table_set t dst (VI64 v)"
| "run_instr F t (IMov dst a) = copy_value t dst a"
| "run_instr F t (IDot dst a b) = dot F t dst a b"
| "run_instr F t (IReduce dst a axis m) = reduce F t dst a axis m"
| "run_instr F t (IMatmul dst a b ta tb) = matmul F t dst a b ta tb"
| "run_instr F t (IBroadcast dst a) = copy_value t dst a"
| "run_instr F t (ITranspose dst a) = transpose_op t dst a"
| "run_instr F t (IRng dst seed dist) = rng F t dst seed dist"
| "run_instr F t (IConv dst a b padding stride) = conv F t dst a b padding stride"

definition execute :: "fp \<Rightarrow> target_program \<Rightarrow> rvalue list \<Rightarrow> rvalue list run" where
  "execute F p params =
     (let table = params @ replicate (unat (tp_value_count p) - length params) (VF64 0) in
      ebind (efold (\<lambda>i t. run_instr F t i) (tp_instrs p) table) (\<lambda>t.
        emap (table_get t) (tp_results p)))"

end
