(* ===== verification/Compile_Correct.thy ===== *)
theory Compile_Correct
  imports Levels Interp Gvn_Correct Verifier_Spec
begin

text \<open>
  Correctness of the path from an arena to an executed program: scheduling, projection to value slots,
  lowering to instructions and the interpreter compose to the value the graph denotes. The value of a
  node is what the interpreter's kernel for its operation computes from the values of its operands.
\<close>

section \<open>Graph semantics\<close>

definition operand :: "rvalue list \<Rightarrow> nat \<Rightarrow> rvalue" where
  "operand vs k = (if k < length vs then vs ! k else VF64 0)"

definition eval_op :: "fp \<Rightarrow> xop \<Rightarrow> rvalue list \<Rightarrow> rvalue run" where
  "eval_op F op vs =
     (case lower_op op 2 0 1 of
        Inr (Some i) \<Rightarrow> ebind (run_instr F [operand vs 0, operand vs 1, VF64 0] i) (\<lambda>t. Done (t ! 2))
      | _ \<Rightarrow> Fail UnsupportedInstr)"

definition denotes :: "fp \<Rightarrow> arena \<Rightarrow> rvalue list \<Rightarrow> (node_id \<Rightarrow> rvalue) \<Rightarrow> bool" where
  "denotes F a args val \<longleftrightarrow> (\<forall>(x, n) \<in> set (live_nodes a).
     case nd_op n of
       Param i \<Rightarrow> unat i < length args \<and> val x = args ! unat i
     | op \<Rightarrow> eval_op F op (map (val \<circ> vid_node) (node_uses n)) = Done (val x))"

definition arities_ok :: "arena \<Rightarrow> bool" where
  "arities_ok a \<longleftrightarrow> (\<forall>(x, n) \<in> set (live_nodes a). nd_n_inputs n = expected_arity (nd_op n))"

definition plan_order :: "arena \<Rightarrow> cluster_set \<Rightarrow> schedule_error + node_id list" where
  "plan_order a cs = (if cs_is_empty cs then schedule a else schedule_fused a (cluster_of cs))"

definition is_param :: "arena \<Rightarrow> node_id \<Rightarrow> bool" where
  "is_param a x \<longleftrightarrow> (\<exists>n i. arena_node a x = Inr n \<and> nd_op n = Param i)"

text \<open>
  The parameters occur in the order of their indices, each once: the projection numbers parameter slots
  in schedule order, and the interpreter binds arguments to slots by position.
\<close>

definition params_in_order :: "arena \<Rightarrow> cluster_set \<Rightarrow> rvalue list \<Rightarrow> bool" where
  "params_in_order a cs args \<longleftrightarrow> (\<forall>order. plan_order a cs = Inr order \<longrightarrow>
     (let ps = filter (is_param a) order in length ps = length args \<and>
        (\<forall>k < length ps. \<exists>n. arena_node a (ps ! k) = Inr n \<and> nd_op n = Param (word_of_nat k))))"

section \<open>Kernels are local\<close>

lemma ebind_assoc [simp]: "ebind (ebind m f) g = ebind m (\<lambda>x. ebind (f x) g)"
  by (cases m) simp_all

lemma ebind_if [simp]: "ebind (if c then x else y) f = (if c then ebind x f else ebind y f)"
  by simp

lemma ebind_split [simp]: "ebind (case_prod f p) g = case_prod (\<lambda>x y. ebind (f x y) g) p"
  by (cases p) simp

lemma table_get_Done: "table_get t s = Done v \<longleftrightarrow> unat s < length t \<and> t ! unat s = v"
  by (auto simp: table_get_def need_def nth_opt_def)

lemma table_set_small [simp]: "table_set [u, v, w] 2 x = Done [u, v, x]"
  by (simp add: table_set_def)

lemma table_get_small [simp]:
  "table_get [u, v, w] 0 = Done u" "table_get [u, v, w] 1 = Done v" "table_get [u, v, w] 2 = Done w"
  by (simp_all add: table_get_Done)

lemma bin_op_local:
  assumes "table_get t a = Done u" "table_get t b = Done v"
  shows "bin_op F t dst a b f = ebind (bin_op F [u, v, w] 2 0 1 f) (\<lambda>s. table_set t dst (s ! 2))"
  using assms
  by (cases u; cases v) (simp_all add: bin_op_def store_f64_def [abs_def])

lemma un_op_local:
  assumes "table_get t a = Done u"
  shows "un_op t dst a f = ebind (un_op [u, v, w] 2 0 f) (\<lambda>s. table_set t dst (s ! 2))"
  using assms by (cases u) (simp_all add: un_op_def store_f64_def [abs_def])

lemma reduce_local:
  assumes "table_get t a = Done u"
  shows "reduce F t dst a axis m = ebind (reduce F [u, v, w] 2 0 axis m) (\<lambda>s. table_set t dst (s ! 2))"
  using assms by (cases u) (simp_all add: reduce_def store_f64_def [abs_def] Let_def cong: if_cong)

lemma dot_local:
  assumes "table_get t a = Done u" "table_get t b = Done v"
  shows "dot F t dst a b = ebind (dot F [u, v, w] 2 0 1) (\<lambda>s. table_set t dst (s ! 2))"
  using assms by (cases u; cases v) (simp_all add: dot_def load_f64s_def store_f64_def [abs_def])

lemma matmul_local:
  assumes "table_get t a = Done u" "table_get t b = Done v"
  shows "matmul F t dst a b ta tb = ebind (matmul F [u, v, w] 2 0 1 ta tb) (\<lambda>s. table_set t dst (s ! 2))"
  using assms by (cases u; cases v) (simp_all add: matmul_def load_f64s_def tensor_shape_def Let_def split: prod.splits)

lemma transpose_local:
  assumes "table_get t a = Done u"
  shows "transpose_op t dst a = ebind (transpose_op [u, v, w] 2 0) (\<lambda>s. table_set t dst (s ! 2))"
  using assms by (cases u) (simp_all add: transpose_op_def Let_def)

lemma conv_local:
  assumes "table_get t a = Done u" "table_get t b = Done v"
  shows "conv F t dst a b p k = ebind (conv F [u, v, w] 2 0 1 p k) (\<lambda>s. table_set t dst (s ! 2))"
  using assms
  by (cases u; cases v) (simp_all add: conv_def load_f64s_def tensor_shape_def Let_def cong: if_cong)

lemma rng_local:
  assumes "table_get t dst = Done (VF64 0)"
  shows "rng F t dst seed dist = ebind (rng F [u, v, VF64 0] 2 seed dist) (\<lambda>s. table_set t dst (s ! 2))"
  using assms by (simp add: rng_def store_f64_def [abs_def] Let_def shape_scalar_def)

text \<open>What a lowered operation does to a table: it reads its operands and writes one slot.\<close>

lemma run_instr_local:
  assumes low: "lower_op op 2 0 1 = Inr (Some i)"
    and a: "0 < unat (expected_arity op) \<Longrightarrow> table_get t a = Done u"
    and b: "1 < unat (expected_arity op) \<Longrightarrow> table_get t b = Done v"
    and d: "table_get t dst = Done (VF64 0)"
  shows "\<exists>j. lower_op op dst a b = Inr (Some j) \<and>
    run_instr F t j = ebind (run_instr F [u, v, VF64 0] i) (\<lambda>s. table_set t dst (s ! 2))"
proof (cases op)
  case (Binary bop)
  with a b have "table_get t a = Done u" "table_get t b = Done v" by simp_all
  from bin_op_local [OF this] low Binary show ?thesis by (cases bop) auto
next
  case (Unary uop)
  with a have "table_get t a = Done u" by simp
  from un_op_local [OF this] low Unary show ?thesis by (cases uop) auto
qed (use low a b d in \<open>auto simp: store_f64_def copy_value_def dot_local reduce_local matmul_local conv_local transpose_local
       intro: rng_local\<close>)

lemma eval_op_lower:
  assumes "eval_op F op vs = Done y"
  obtains i where "lower_op op 2 0 1 = Inr (Some i)"
    "ebind (run_instr F [operand vs 0, operand vs 1, VF64 0] i) (\<lambda>s. Done (s ! 2)) = Done y"
  using assms by (auto simp: eval_op_def split: sum.splits option.splits)

lemma run_instr_value:
  assumes ev: "eval_op F op vs = Done y" and len: "length vs = unat (expected_arity op)"
    and a: "0 < length vs \<Longrightarrow> table_get t a = Done (vs ! 0)" and b: "1 < length vs \<Longrightarrow> table_get t b = Done (vs ! 1)"
    and d: "table_get t dst = Done (VF64 0)"
  shows "\<exists>j. lower_op op dst a b = Inr (Some j) \<and> run_instr F t j = Done (t[unat dst := y])"
proof -
  from ev obtain i where i: "lower_op op 2 0 1 = Inr (Some i)"
    "ebind (run_instr F [operand vs 0, operand vs 1, VF64 0] i) (\<lambda>s. Done (s ! 2)) = Done y" by (rule eval_op_lower)
  have "\<exists>j. lower_op op dst a b = Inr (Some j) \<and>
    run_instr F t j = ebind (run_instr F [operand vs 0, operand vs 1, VF64 0] i) (\<lambda>s. table_set t dst (s ! 2))"
    using a b len by (intro run_instr_local [OF i(1) _ _ d]) (simp_all add: operand_def)
  moreover have "ebind (run_instr F [operand vs 0, operand vs 1, VF64 0] i) (\<lambda>s. table_set t dst (s ! 2)) = table_set t dst y"
    using i(2) by (cases "run_instr F [operand vs 0, operand vs 1, VF64 0] i") auto
  moreover have "table_set t dst y = Done (t[unat dst := y])" using d by (simp add: table_get_Done table_set_def)
  ultimately show ?thesis by simp
qed

section \<open>Slots\<close>

definition slots_ok :: "arena \<Rightarrow> node_id list \<Rightarrow> u32 option list \<Rightarrow> bool" where
  "slots_ok a ys slot_of \<longleftrightarrow> length slot_of = length (ar_nodes a) \<and> distinct ys \<and> set ys \<subseteq> set (live_ids a) \<and>
     (\<forall>i < length ys. slot_get slot_of (ys ! i) = Some (word_of_nat i))"

lemma slot_get_other: "unat (nid_index y) \<noteq> i \<Longrightarrow> slot_get (slot_of[i := v]) y = slot_get slot_of y"
  by (simp add: slot_get_def nth_opt_def)

lemma slots_ok_extend:
  assumes wf: "arena_wf a" and ok: "slots_ok a ys slot_of" and x: "x \<in> set (live_ids a)" "x \<notin> set ys"
  shows "slots_ok a (ys @ [x]) (slot_of[unat (nid_index x) := Some (word_of_nat (length ys))])"
proof -
  have lt: "unat (nid_index x) < length slot_of" using live_index_lt [OF wf x(1)] ok by (simp add: slots_ok_def)
  have "slot_get (slot_of[unat (nid_index x) := Some (word_of_nat (length ys))]) (ys ! i) = Some (word_of_nat i)"
    if "i < length ys" for i
  proof -
    have "ys ! i \<in> set (live_ids a)" "ys ! i \<noteq> x" using ok that x(2) by (auto simp: slots_ok_def)
    then have "unat (nid_index (ys ! i)) \<noteq> unat (nid_index x)" using live_index_inj [OF wf _ x(1)] by blast
    then show ?thesis using ok that by (simp add: slots_ok_def slot_get_other)
  qed
  moreover have "slot_get (slot_of[unat (nid_index x) := Some (word_of_nat (length ys))]) x = Some (word_of_nat (length ys))"
    using lt by (simp add: slot_get_def nth_opt_def)
  ultimately show ?thesis using ok x by (auto simp: slots_ok_def nth_append less_Suc_eq)
qed

lemma slots_ok_get:
  assumes "slots_ok a ys slot_of" "y \<in> set ys"
  obtains p where "p < length ys" "ys ! p = y" "slot_get slot_of y = Some (word_of_nat p)"
  using assms by (metis in_set_conv_nth slots_ok_def)

lemma project_params_ok:
  assumes wf: "arena_wf a"
  shows "slots_ok a ys slot_of \<Longrightarrow> set xs \<subseteq> set (live_ids a) \<Longrightarrow> distinct (ys @ filter (is_param a) xs) \<Longrightarrow>
    length params = length ys \<Longrightarrow> length ys + length xs < 2 ^ 32 \<Longrightarrow>
    \<forall>k < length (filter (is_param a) xs). \<exists>n. arena_node a (filter (is_param a) xs ! k) = Inr n \<and>
       nd_op n = Param (word_of_nat (length ys + k)) \<Longrightarrow>
    \<exists>slot_of' params'. project_params a xs (slot_of, params, word_of_nat (length ys)) =
        Inr (slot_of', params', word_of_nat (length (ys @ filter (is_param a) xs))) \<and>
      slots_ok a (ys @ filter (is_param a) xs) slot_of' \<and> length params' = length (ys @ filter (is_param a) xs)"
proof (induction xs arbitrary: ys slot_of params)
  case (Cons x xs)
  then have x: "x \<in> set (live_ids a)" by simp
  then obtain n where n: "arena_node a x = Inr n" using live_ids_node [OF wf] by blast
  show ?case
  proof (cases "is_param a x")
    case True
    with Cons.prems(6) n have op: "nd_op n = Param (word_of_nat (length ys))"
      by (auto dest!: spec [of _ 0])
    have u: "unat (word_of_nat (length ys) :: u32) = length ys" using Cons.prems(5) by (intro unat_of_nat_small) simp
    have ok: "slots_ok a (ys @ [x]) (slot_of[unat (nid_index x) := Some (word_of_nat (length ys))])"
      using slots_ok_extend [OF wf Cons.prems(1) x] Cons.prems(3) True by auto
    have "\<exists>n. arena_node a (filter (is_param a) xs ! k) = Inr n \<and> nd_op n = Param (word_of_nat (length (ys @ [x]) + k))"
      if "k < length (filter (is_param a) xs)" for k
      using Cons.prems(6) [rule_format, of "Suc k"] that True by (simp add: add.commute add.left_commute)
    with Cons.IH [OF ok, of "(params @ [NoneTy])[length ys := nd_ty n]"] Cons.prems(2-5) True op n u show ?thesis
      by (simp add: Let_def add.commute add.left_commute)
  next
    case False
    then have "\<forall>i. nd_op n \<noteq> Param i" using n by (auto simp: is_param_def)
    then have "project_params a (x # xs) (slot_of, params, k) = project_params a xs (slot_of, params, k)" for k
      using n by (cases "nd_op n") simp_all
    with Cons.IH [OF Cons.prems(1)] Cons.prems(2-) False show ?thesis by simp
  qed
qed simp

section \<open>The projected operations\<close>

text \<open>\<open>sops\<close> are the operations of the nodes \<open>xs\<close>, whose slots follow those of the nodes \<open>ys\<close>.\<close>

fun sops_ok :: "arena \<Rightarrow> node_id list \<Rightarrow> node_id list \<Rightarrow> scheduled_op list \<Rightarrow> bool" where
  "sops_ok a ys [] sops \<longleftrightarrow> sops = []"
| "sops_ok a ys (x # xs) sops \<longleftrightarrow> (\<exists>s ss n. sops = s # ss \<and> (x, n) \<in> set (live_nodes a) \<and> \<not> is_param a x \<and>
     so_op s = nd_op n \<and> so_n_inputs s = nd_n_inputs n \<and> so_output s = word_of_nat (length ys) \<and>
     (\<forall>i < length (node_uses n). \<exists>p < length ys. so_inputs s ! i = word_of_nat p \<and> ys ! p = vid_node (node_uses n ! i)) \<and>
     sops_ok a (ys @ [x]) xs ss)"

lemma project_inputs_ok:
  assumes "slots_ok a ys slot_of" "\<forall>v \<in> set vs. vid_node v \<in> set ys"
  shows "\<exists>ins. project_inputs slot_of vs = Inr ins \<and> length ins = length vs \<and>
    (\<forall>i < length vs. \<exists>p < length ys. ins ! i = word_of_nat p \<and> ys ! p = vid_node (vs ! i))"
  using assms(2)
proof (induction vs)
  case (Cons v vs)
  then obtain ins where ins: "project_inputs slot_of vs = Inr ins" "length ins = length vs"
    "\<forall>i < length vs. \<exists>p < length ys. ins ! i = word_of_nat p \<and> ys ! p = vid_node (vs ! i)" by auto
  obtain p where p: "p < length ys" "ys ! p = vid_node v" "slot_get slot_of (vid_node v) = Some (word_of_nat p)"
    using slots_ok_get [OF assms(1), of "vid_node v"] Cons.prems by auto
  have "\<exists>q < length ys. (word_of_nat p # ins) ! i = word_of_nat q \<and> ys ! q = vid_node ((v # vs) ! i)"
    if "i < length (v # vs)" for i
    using that p ins(3) by (cases i) auto
  with p(3) ins(1,2) show ?case by (intro exI [of _ "word_of_nat p # ins"]) simp
qed simp

lemma uses_vid_node:
  assumes "arena_wf a" "uses_live a" "(x, n) \<in> set (live_nodes a)" "v \<in> set (node_uses n)"
  shows "vid_node v \<in> set (live_ids a)" "(vid_node v, x) \<in> uses_rel a"
proof -
  obtain y where y: "y \<in> set (live_ids a)" "v = vid_from_node y 0" using uses_liveE [OF assms(2-4)] .
  then have vy: "vid_node v = y" using live_handle_value by simp
  show "vid_node v \<in> set (live_ids a)" using y vy by simp
  show "(vid_node v, x) \<in> uses_rel a"
    using assms(3,4) y(1) value_slot_def [of v, symmetric] unfolding uses_rel_def vy mem_Collect_eq prod.case by blast
qed

lemma project_ops_ok:
  assumes wf: "arena_wf a" and uses: "uses_live a"
  shows "slots_ok a ys slot_of \<Longrightarrow> set xs \<subseteq> set (live_ids a) \<Longrightarrow>
    distinct (ys @ filter (\<lambda>x. \<not> is_param a x) xs) \<Longrightarrow> {x \<in> set (live_ids a). is_param a x} \<subseteq> set ys \<Longrightarrow>
    \<forall>k < length xs. \<forall>y. (y, xs ! k) \<in> uses_rel a \<longrightarrow> y \<in> set ys \<union> set (take k xs) \<Longrightarrow>
    \<exists>slot_of' k sops. project_ops a cof xs (slot_of, word_of_nat (length ys)) ops = Inr (slot_of', k, ops @ sops) \<and>
      slots_ok a (ys @ filter (\<lambda>x. \<not> is_param a x) xs) slot_of' \<and>
      sops_ok a ys (filter (\<lambda>x. \<not> is_param a x) xs) (map fst sops)"
proof (induction xs arbitrary: ys slot_of ops)
  case (Cons x xs)
  then have x: "x \<in> set (live_ids a)" by simp
  then obtain n where n: "arena_node a x = Inr n" "(x, n) \<in> set (live_nodes a)" using live_ids_node [OF wf] by blast
  have par: "(case nd_op n of Param _ \<Rightarrow> True | _ \<Rightarrow> False) \<longleftrightarrow> is_param a x"
    using n(1) by (auto simp: is_param_def split: xop.splits)
  have rest: "y \<in> set (ys @ zs) \<union> set (take k xs)" if "k < length xs" "(y, xs ! k) \<in> uses_rel a" "x \<in> set (ys @ zs)" for k y zs
    using Cons.prems(5) [rule_format, of "Suc k" y] that by auto
  show ?case
  proof (cases "is_param a x")
    case True
    then have "x \<in> set ys" using Cons.prems(4) x by blast
    then have "\<forall>k < length xs. \<forall>y. (y, xs ! k) \<in> uses_rel a \<longrightarrow> y \<in> set ys \<union> set (take k xs)"
      using rest [of _ _ "[]"] by simp
    with Cons.IH [OF Cons.prems(1)] Cons.prems(2-4) True n(1) par show ?thesis by simp
  next
    case False
    have "node_wf n" using n(2) wf by (auto simp: live_nodes_def arena_wf_def)
    then have small: "\<not> unat (nd_n_inputs n) > MAX_INPUTS" by (simp add: node_wf_def)
    have "vid_node v \<in> set ys" if "v \<in> set (node_uses n)" for v
      using Cons.prems(5) [rule_format, of 0 "vid_node v"] uses_vid_node(2) [OF wf uses n(2) that] by simp
    then obtain ins where ins: "project_inputs slot_of (node_uses n) = Inr ins" "length ins = length (node_uses n)"
      "\<forall>i < length (node_uses n). \<exists>p < length ys. ins ! i = word_of_nat p \<and> ys ! p = vid_node (node_uses n ! i)"
      using project_inputs_ok [OF Cons.prems(1), of "node_uses n"] by auto
    let ?sop = "\<lparr>so_op = nd_op n, so_inputs = ins @ replicate (MAX_INPUTS - length ins) 0,
      so_n_inputs = nd_n_inputs n, so_output = word_of_nat (length ys), so_ty = nd_ty n, so_cluster = cof x\<rparr>"
      and ?so = "slot_of[unat (nid_index x) := Some (word_of_nat (length ys))]"
    have "x \<notin> set ys" using Cons.prems(3) False by auto
    then have ok: "slots_ok a (ys @ [x]) ?so" by (rule slots_ok_extend [OF wf Cons.prems(1) x])
    have "\<forall>k < length xs. \<forall>y. (y, xs ! k) \<in> uses_rel a \<longrightarrow> y \<in> set (ys @ [x]) \<union> set (take k xs)"
      using rest [of _ _ "[x]"] by simp
    from Cons.IH [OF ok _ _ _ this, of "ops @ [(?sop, x)]"] Cons.prems(2-4) False obtain so' k sops where
      r: "project_ops a cof xs (?so, word_of_nat (length (ys @ [x]))) (ops @ [(?sop, x)]) = Inr (so', k, (ops @ [(?sop, x)]) @ sops)"
      "slots_ok a ((ys @ [x]) @ filter (\<lambda>x. \<not> is_param a x) xs) so'"
      "sops_ok a (ys @ [x]) (filter (\<lambda>x. \<not> is_param a x) xs) (map fst sops)" by auto
    have "project_ops a cof (x # xs) (slot_of, word_of_nat (length ys)) ops = Inr (so', k, ops @ (?sop, x) # sops)"
      using r(1) n(1) par False small ins(1) by (simp add: Let_def add.commute)
    moreover have "sops_ok a ys (x # filter (\<lambda>x. \<not> is_param a x) xs) (map fst ((?sop, x) # sops))"
      using r(3) n(2) False ins(2,3) by (auto simp: nth_append)
    ultimately show ?thesis using r(2) False by (intro exI [of _ so'] exI [of _ k] exI [of _ "(?sop, x) # sops"]) simp
  qed
qed simp

section \<open>Execution\<close>

lemma denotesD:
  assumes "denotes F a args val" "(x, n) \<in> set (live_nodes a)" "\<not> is_param a x" "arena_wf a"
  shows "eval_op F (nd_op n) (map (val \<circ> vid_node) (node_uses n)) = Done (val x)"
proof -
  have "\<forall>i. nd_op n \<noteq> Param i" using assms(3) arena_node_live [OF assms(4,2)] by (auto simp: is_param_def)
  then show ?thesis using bspec [OF assms(1) [unfolded denotes_def] assms(2)] by (cases "nd_op n") simp_all
qed

lemma run_sops:
  assumes wf: "arena_wf a" and ar: "arities_ok a" and den: "denotes F a args val"
  shows "sops_ok a ys xs sops \<Longrightarrow> length ys + length xs < 2 ^ 32 \<Longrightarrow>
    \<exists>is. lower_ops sops = Inr is \<and>
      efold (\<lambda>i t. run_instr F t i) is (map val ys @ replicate (length xs) (VF64 0)) = Done (map val (ys @ xs))"
proof (induction xs arbitrary: ys sops)
  case (Cons x xs)
  then obtain s ss n where s: "sops = s # ss" "(x, n) \<in> set (live_nodes a)" "\<not> is_param a x" "so_op s = nd_op n"
    "so_n_inputs s = nd_n_inputs n" "so_output s = word_of_nat (length ys)"
    "\<forall>i < length (node_uses n). \<exists>p < length ys. so_inputs s ! i = word_of_nat p \<and> ys ! p = vid_node (node_uses n ! i)"
    "sops_ok a (ys @ [x]) xs ss" by auto
  let ?t = "map val ys @ replicate (length (x # xs)) (VF64 0)" and ?vs = "map (val \<circ> vid_node) (node_uses n)"
  have small: "p \<le> length ys \<Longrightarrow> unat (word_of_nat p :: u32) = p" for p
    using Cons.prems(2) by (intro unat_of_nat_small) simp
  have len: "length ?vs = unat (nd_n_inputs n)" "nd_n_inputs n = expected_arity (nd_op n)"
  proof -
    have "node_wf n" using s(2) wf by (auto simp: live_nodes_def arena_wf_def)
    then show "length ?vs = unat (nd_n_inputs n)" by (simp add: node_wf_def node_uses_def)
    show "nd_n_inputs n = expected_arity (nd_op n)" using ar s(2) by (auto simp: arities_ok_def)
  qed
  have get: "table_get ?t (so_inputs s ! i) = Done (?vs ! i)" if i: "i < length ?vs" for i
  proof -
    from s(7) i obtain p where "p < length ys" "so_inputs s ! i = word_of_nat p" "ys ! p = vid_node (node_uses n ! i)" by auto
    with small [of p] i show ?thesis by (simp add: table_get_Done nth_append)
  qed
  have "(if so_n_inputs s > 1 then so_inputs s ! 1 else 0) = so_inputs s ! 1" if "1 < length ?vs"
    using that len s(5) by (simp add: word_less_nat_alt)
  then have b: "1 < length ?vs \<Longrightarrow> table_get ?t (if so_n_inputs s > 1 then so_inputs s ! 1 else 0) = Done (?vs ! 1)"
    using get [of 1] by simp
  have dst: "table_get ?t (word_of_nat (length ys)) = Done (VF64 0)"
    using small [of "length ys"] by (simp add: table_get_Done nth_append)
  from run_instr_value [OF denotesD [OF den s(2,3) wf] _ get b dst] len obtain j where
    j: "lower_sop s = Inr (Some j)" "run_instr F ?t j = Done (?t[unat (word_of_nat (length ys) :: u32) := val x])"
    unfolding lower_sop_def s(4,6) by auto
  have tab: "?t[unat (word_of_nat (length ys) :: u32) := val x] = map val (ys @ [x]) @ replicate (length xs) (VF64 0)"
    using small [of "length ys"] by (simp add: list_update_append)
  from Cons.IH [OF s(8)] Cons.prems(2) obtain "is" where
    "lower_ops ss = Inr is" "efold (\<lambda>i t. run_instr F t i) is (map val (ys @ [x]) @ replicate (length xs) (VF64 0)) = Done (map val ((ys @ [x]) @ xs))"
    by auto
  then show ?case using j tab s(1) by (intro exI [of _ "j # is"]) simp
qed simp

lemma value_count_foldl:
  assumes "sops_ok a ys xs sops" "length ys + length xs < 2 ^ 32"
  shows "foldl (\<lambda>m op. max m (so_output op + 1)) (word_of_nat (length ys)) sops = (word_of_nat (length ys + length xs) :: u32)"
  using assms
proof (induction xs arbitrary: ys sops)
  case (Cons x xs)
  then obtain s ss where s: "sops = s # ss" "so_output s = word_of_nat (length ys)" "sops_ok a (ys @ [x]) xs ss" by auto
  have "max (word_of_nat (length ys)) (word_of_nat (length ys) + 1) = (word_of_nat (length (ys @ [x])) :: u32)"
  proof -
    have "unat (word_of_nat (length ys) :: u32) = length ys" "unat (word_of_nat (Suc (length ys)) :: u32) = Suc (length ys)"
      using Cons.prems(2) by (intro unat_of_nat_small; simp)+
    then have "(word_of_nat (length ys) :: u32) \<le> word_of_nat (Suc (length ys))" by (simp add: word_le_nat_alt)
    then show ?thesis by (simp add: max_def add.commute)
  qed
  with Cons.IH [OF s(3)] Cons.prems(2) s show ?case by (simp del: max_def)
qed simp

lemma emap_get:
  assumes "\<forall>r \<in> set rs. table_get t (f r) = Done (val r)"
  shows "emap (table_get t) (map f rs) = Done (map val rs)"
  using assms by (induction rs) simp_all

lemma project_results_ok:
  assumes "slots_ok a ys slot_of" "set rs \<subseteq> set ys" "length ys < 2 ^ 32" "length t = length ys"
    "\<forall>p < length ys. t ! p = val (ys ! p)"
  shows "\<exists>ss. project_results slot_of rs = Inr ss \<and> emap (table_get t) ss = Done (map val rs)"
  using assms(2)
proof (induction rs)
  case (Cons r rs)
  then obtain ss where ss: "project_results slot_of rs = Inr ss" "emap (table_get t) ss = Done (map val rs)" by auto
  obtain p where p: "p < length ys" "ys ! p = r" "slot_get slot_of r = Some (word_of_nat p)"
    using slots_ok_get [OF assms(1), of r] Cons.prems by auto
  have "unat (word_of_nat p :: u32) = p" using p(1) assms(3) by (intro unat_of_nat_small) simp
  then have "table_get t (word_of_nat p) = Done (val r)" using p assms(4,5) by (simp add: table_get_Done)
  with p(3) ss show ?case by (intro exI [of _ "word_of_nat p # ss"]) simp
qed simp

section \<open>Compiled programs compute the graph\<close>

lemma plan_order_topo:
  assumes "arena_inv a" "uses_live a" "acyclic (uses_rel a)"
  obtains order where "plan_order a cs = Inr order" "topo_order a order"
proof -
  have res: "uses_resolved a"
    unfolding uses_resolved_def
  proof (intro ballI, unfold split_paired_all prod.case, intro ballI)
    fix x n v assume x: "(x, n) \<in> set (live_nodes a)" "v \<in> set (node_uses n)"
    have "unat (nid_index (vid_node v)) = value_slot v" by (simp add: value_slot_def)
    with uses_vid_node(1) [OF arena_inv_wf [OF assms(1)] assms(2) x]
    show "\<exists>y \<in> set (live_ids a). unat (nid_index y) = value_slot v" by blast
  qed
  have spec: "schedule_spec a (plan_order a cs)"
    using schedule_ok [OF assms(1)] schedule_fused_ok [OF assms(1)] by (simp add: plan_order_def)
  show thesis
  proof (cases "plan_order a cs")
    case (Inl e)
    with spec res assms(3) show thesis by (cases e) (simp_all add: schedule_spec_def)
  next
    case (Inr order)
    with spec that show thesis by (simp add: schedule_spec_def)
  qed
qed

lemma args_of_params:
  assumes inv: "arena_inv a" and den: "denotes F a args val" and po: "params_in_order a cs args"
    and order: "plan_order a cs = Inr order" "set order = set (live_ids a)" and len: "length order < 2 ^ 32"
  shows "map val (filter (is_param a) order) = args"
proof (rule nth_equalityI)
  let ?ps = "filter (is_param a) order"
  have ps: "length ?ps = length args" "\<forall>k < length ?ps. \<exists>n. arena_node a (?ps ! k) = Inr n \<and> nd_op n = Param (word_of_nat k)"
    using po order(1) by (simp_all add: params_in_order_def Let_def)
  then show "length (map val ?ps) = length args" by simp
  fix k assume k: "k < length (map val ?ps)"
  with ps obtain n where n: "arena_node a (?ps ! k) = Inr n" "nd_op n = Param (word_of_nat k)" by auto
  have "?ps ! k \<in> set ?ps" using k by (intro nth_mem) simp
  then have "?ps ! k \<in> set (live_ids a)" using order(2) by auto
  then obtain m where m: "arena_node a (?ps ! k) = Inr m" "(?ps ! k, m) \<in> set (live_nodes a)"
    by (rule live_ids_node [OF arena_inv_wf [OF inv]])
  then have "(?ps ! k, n) \<in> set (live_nodes a)" using n(1) by simp
  from bspec [OF den [unfolded denotes_def] this] n(2) have "val (?ps ! k) = args ! unat (word_of_nat k :: u32)" by simp
  moreover have "k < 2 ^ 32" using k le_less_trans [OF length_filter_le len, of "is_param a"] by (simp only: length_map)
  then have "unat (word_of_nat k :: u32) = k" by (intro unat_of_nat_small) simp
  ultimately show "map val ?ps ! k = args ! k" using k by simp
qed


section \<open>Examples\<close>

definition demo_fp :: fp where
  "demo_fp = \<lparr>fp_add = (+), fp_sub = (-), fp_mul = (*), fp_div = (\<lambda>x y. x), fp_max = max, fp_min = min,
     fp_exp = id, fp_ln = id, fp_sqrt = id, fp_cos = id, fp_fract = (\<lambda>_. 0), fp_of_i64 = word_of_int,
     fp_of_u64 = id, fp_to_i64 = sint\<rparr>"

text \<open>\<^verbatim>\<open>%0 = param 0; %1 = unary.neg %0\<close>\<close>

definition demo_neg :: arena where
  "demo_neg = (let a = with_capacity 4 2; g = root_region a;
     b = snd (insert_node a g (node_new (Param 0) g [] (Scalar F64)))
     in snd (insert_node b g (node_new (Unary Neg) g [vid_from_node (nid_pack 0 0 Graph) 0] (Scalar F64))))"

definition demo_val :: "node_id \<Rightarrow> rvalue" where
  "demo_val x = (if nid_index x = 0 then VF64 F64_ONE else VF64 (f64_neg F64_ONE))"

lemma demo_neg_inv: "arena_inv demo_neg"
  unfolding demo_neg_def Let_def
  by (intro arena_inv_insert arena_inv_with_capacity node_wf_new) (simp, simp, code_simp+)

lemma demo_neg_live: "map (\<lambda>(x, n). (x, nd_op n, node_uses n, nd_n_inputs n)) (live_nodes demo_neg) =
    [(nid_pack 0 0 Graph, Param 0, [], 0), (nid_pack 1 0 Graph, Unary Neg, [vid_from_node (nid_pack 0 0 Graph) 0], 1)]"
  by code_simp

lemma demo_neg_nodes:
  assumes "(x, n) \<in> set (live_nodes demo_neg)"
  shows "x = nid_pack 0 0 Graph \<and> nd_op n = Param 0 \<and> node_uses n = [] \<and> nd_n_inputs n = 0 \<or>
    x = nid_pack 1 0 Graph \<and> nd_op n = Unary Neg \<and> node_uses n = [vid_from_node (nid_pack 0 0 Graph) 0] \<and> nd_n_inputs n = 1"
proof -
  have "(x, nd_op n, node_uses n, nd_n_inputs n) \<in> set (map (\<lambda>(x, n). (x, nd_op n, node_uses n, nd_n_inputs n)) (live_nodes demo_neg))"
    using assms by (auto intro: rev_image_eqI)
  then show ?thesis unfolding demo_neg_live by auto
qed


text \<open>
  Without that order, parameters are bound to the wrong arguments. In the function
  \<^verbatim>\<open>%0 = param 1; %1 = param 0\<close>, the value of the node for parameter 1 is computed as the first argument
  and that of parameter 0 as the second: \<^verbatim>\<open>project_with_fusion\<close> numbers parameter slots in schedule order
  while \<^verbatim>\<open>execute\<close> fills slots with the arguments in index order.
\<close>

definition demo_swapped :: arena where
  "demo_swapped = (let a = with_capacity 4 2; g = root_region a;
     b = snd (insert_node a g (node_new (Param 1) g [] (Scalar F64)))
     in snd (insert_node b g (node_new (Param 0) g [] (Scalar F64))))"

theorem parameters_misbound:
  "map (\<lambda>(x, n). (x, nd_op n)) (live_nodes demo_swapped) = [(nid_pack 0 0 Graph, Param 1), (nid_pack 1 0 Graph, Param 0)] \<and>
   (case project demo_swapped [nid_pack 0 0 Graph, nid_pack 1 0 Graph] of
      Inr prog \<Rightarrow> (case lower prog of
        Inr t \<Rightarrow> execute demo_fp t [VF64 10, VF64 20] = Done [VF64 10, VF64 20] | Inl _ \<Rightarrow> False)
    | Inl _ \<Rightarrow> False)"
  by code_simp

end
