(* ===== verification/Canonical.thy ===== *)
theory Canonical
  imports Canonical_Wf Compile_Correct
begin

text \<open>
  The canonicalization pass as a whole: on a verified program it returns a verified program, and it keeps the
  value of every node that is left. Its three passes compose through two invariants, well-formedness and the
  denotation of the graph.
\<close>

section \<open>Denotation of one node\<close>

definition node_denotes :: "fp \<Rightarrow> rvalue list \<Rightarrow> (node_id \<Rightarrow> rvalue) \<Rightarrow> node_id \<Rightarrow> node \<Rightarrow> bool" where
  "node_denotes F args val x n \<longleftrightarrow>
     (case nd_op n of
        Param i \<Rightarrow> unat i < length args \<and> val x = args ! unat i
      | op \<Rightarrow> eval_op F op (map (val \<circ> vid_node) (node_uses n)) = Done (val x))"

lemma denotes_iff: "denotes F a args val \<longleftrightarrow> (\<forall>(x, n) \<in> set (live_nodes a). node_denotes F args val x n)"
  by (simp add: denotes_def node_denotes_def)

lemma denotes_node: "denotes F a args val \<Longrightarrow> (x, n) \<in> set (live_nodes a) \<Longrightarrow> node_denotes F args val x n"
  by (auto simp: denotes_iff)

lemma node_denotes_cong:
  assumes "nd_op m = nd_op n" "map (val \<circ> vid_node) (node_uses m) = map (val \<circ> vid_node) (node_uses n)"
  shows "node_denotes F args val x m = node_denotes F args val x n"
  unfolding node_denotes_def assms by (rule refl)

section \<open>Value numbering and dead code elimination\<close>

definition graph_fun :: "fp \<Rightarrow> rvalue list \<Rightarrow> xop \<Rightarrow> rvalue list \<Rightarrow> rvalue" where
  "graph_fun F args op vs =
     (case op of
        Param i \<Rightarrow> args ! unat i
      | _ \<Rightarrow> (case eval_op F op vs of Done v \<Rightarrow> v | _ \<Rightarrow> VF64 0))"

lemma denotes_consistent: "denotes F a args val \<Longrightarrow> consistent a (graph_fun F args) val"
  unfolding consistent_def
proof (intro ballI, unfold split_paired_all prod.case, intro impI)
  fix x n assume "denotes F a args val" "(x, n) \<in> set (live_nodes a)"
  then have "node_denotes F args val x n" by (rule denotes_node)
  then show "val x = graph_fun F args (nd_op n) (map (val \<circ> vid_node) (node_uses n))"
    by (cases "nd_op n") (simp_all add: node_denotes_def graph_fun_def)
qed

lemma gvn_denotes:
  assumes inv: "arena_inv a" and ul: "uses_live a" and den: "denotes F a args val" and res: "gvn_result a \<rho> b"
  shows "denotes F b args val" "\<forall>x \<in> set (live_ids a) - set (live_ids b). \<rho> x \<in> set (live_ids b) \<and> val (\<rho> x) = val x"
proof -
  let ?D = "set (live_ids a) - set (live_ids b)"
  have inv': "arena_inv b" and sub: "set (live_ids b) \<subseteq> set (live_ids a)"
    and reps: "\<forall>x \<in> ?D. \<rho> x \<in> set (live_ids b) \<and> merged a x (\<rho> x)"
    and surv: "\<And>y n. (y, n) \<in> set (live_nodes a) \<Longrightarrow> y \<in> set (live_ids b) \<Longrightarrow>
      node_get b y = Some (subst_node (subst_val \<rho> ?D) (payload n))"
    using res unfolding gvn_result_def Let_def by blast+
  have val: "\<rho> x \<in> set (live_ids b) \<and> val (\<rho> x) = val x" if "x \<in> ?D" for x
  proof -
    have "merged a x (\<rho> x)" "\<rho> x \<in> set (live_ids b)" using reps that by blast+
    then show ?thesis using congruent_value [OF _ denotes_consistent [OF den]] by (auto simp: merged_def)
  qed
  then show "\<forall>x \<in> ?D. \<rho> x \<in> set (live_ids b) \<and> val (\<rho> x) = val x" by blast
  show "denotes F b args val"
    unfolding denotes_iff
  proof (intro ballI, unfold split_paired_all prod.case)
    fix x m assume xm: "(x, m) \<in> set (live_nodes b)"
    have x: "x \<in> set (live_ids b)" using live_node_id [OF xm] .
    obtain n where n: "(x, n) \<in> set (live_nodes a)" using live_lookup [OF inv] x sub by blast
    have "node_get b x = Some (payload m)" using live_node_lookup [OF inv' xm] by (simp add: node_get_def)
    from trans [OF sym [OF this] surv [OF n x]]
    have p: "payload m = subst_node (subst_val \<rho> ?D) (payload n)" by (rule option.inject [THEN iffD1])
    have "val (vid_node (subst_val \<rho> ?D v)) = val (vid_node v)" if v: "v \<in> set (node_uses n)" for v
    proof -
      obtain y where y: "y \<in> set (live_ids a)" "v = vid_from_node y 0" using uses_liveE [OF ul n v] by blast
      have r: "(if y \<in> ?D then \<rho> y else y) \<in> set (live_ids a)" using y(1) val [of y] sub by auto
      have "vid_node (subst_val \<rho> ?D v) = (if y \<in> ?D then \<rho> y else y)"
        unfolding y(2) subst_val_live [OF y(1)] by (rule live_handle_value [OF r])
      moreover have "vid_node v = y" unfolding y(2) by (rule live_handle_value [OF y(1)])
      ultimately show ?thesis using val [of y] by simp
    qed
    then have "map (val \<circ> vid_node) (node_uses m) = map (val \<circ> vid_node) (node_uses n)"
      using payload_subst(4) [OF p] by simp
    with denotes_node [OF den n] node_denotes_cong [OF payload_subst(1) [OF p]] show "node_denotes F args val x m" by blast
  qed
qed

lemma dce_denotes:
  assumes inv: "arena_inv a" and den: "denotes F a args val" and res: "dce_sound a roots b"
  shows "denotes F b args val"
  unfolding denotes_iff
proof (intro ballI, unfold split_paired_all prod.case)
  fix x m assume xm: "(x, m) \<in> set (live_nodes b)"
  have "arena_inv b" "set (live_ids b) \<subseteq> set (live_ids a)" "\<forall>x \<in> set (live_ids b). node_get b x = node_get a x"
    using res unfolding dce_sound_def by blast+
  from survivors_sub [OF inv this xm] obtain n where n: "(x, n) \<in> set (live_nodes a)" "payload n = payload m" .
  have "nd_op (payload m) = nd_op (payload n)" "node_uses (payload m) = node_uses (payload n)" using n(2) by simp_all
  then have same: "nd_op m = nd_op n" "node_uses m = node_uses n" by (simp_all add: node_uses_def)
  have "map (val \<circ> vid_node) (node_uses m) = map (val \<circ> vid_node) (node_uses n)" by (simp only: same(2))
  with denotes_node [OF den n(1)] node_denotes_cong [OF same(1)] show "node_denotes F args val x m" by blast
qed

section \<open>Constant folding\<close>

text \<open>
  Folding agrees with the interpreter on floating-point constants. On integer constants it does not:
  the interpreter goes through \<^verbatim>\<open>f64\<close>.
\<close>

definition float_arith :: "arena \<Rightarrow> bool" where
  "float_arith a \<longleftrightarrow> (\<forall>(x, n) \<in> set (live_nodes a). arith (nd_op n) \<longrightarrow>
     (\<forall>v \<in> set (node_uses n). \<forall>d c. arena_node a (vid_node v) = Inr d \<longrightarrow> nd_op d \<noteq> ConstI64 c))"

lemma float_arithD:
  assumes "float_arith a" "(x, n) \<in> set (live_nodes a)" "arith (nd_op n)" "v \<in> set (node_uses n)" "arena_node a (vid_node v) = Inr d"
  shows "nd_op d \<noteq> ConstI64 c"
  using bspec [OF assms(1) [unfolded float_arith_def] assms(2)] assms(3-5) by blast

lemma node_mut_at_nodes:
  assumes inv: "arena_inv c" and x: "x \<in> set (live_ids c)" and n: "arena_node c x = Inr n"
    and f: "edit_ok (edit_at n f)" and d: "node_mut c x f = Inr d"
  shows "live_ids d = live_ids c" "arena_node d x = Inr (f n)"
    "y \<in> set (live_ids c) \<Longrightarrow> y \<noteq> x \<Longrightarrow> arena_node d y = arena_node c y"
proof -
  note wf = arena_inv_wf [OF inv]
  have "node_mut c x (edit_at n f) = Inr d"
    using d node_mut_cong [OF n, of f "edit_at n f"] by (simp add: edit_at_def)
  then obtain i where i: "i < length (ar_nodes c)" "x = slot_handle c i" "d = edit_slot c i (edit_at n f)"
    using node_mut_live [OF wf x, of "edit_at n f"] by (metis sum.inject(2))
  show "live_ids d = live_ids c" unfolding i(3) by (rule live_ids_edit [OF f])
  note eq = arena_node_edit_slot [OF wf f i(1), folded i(2,3)]
  show "arena_node d x = Inr (f n)" using eq [OF x] n by (simp add: edit_at_def)
  show "arena_node d y = arena_node c y" if "y \<in> set (live_ids c)" "y \<noteq> x"
    using eq [OF that(1)] that(2) by (cases "arena_node c y") simp_all
qed

lemma eval_const [simp]:
  "eval_op F (ConstF64 r) vs = Done (VF64 r)" "eval_op F (ConstI64 c) vs = Done (VI64 c)"
  by (simp_all add: eval_op_def store_f64_def)

lemma eval_unary:
  "fold_unary F u v = Some r \<Longrightarrow> eval_op F (Unary u) [VF64 v] = Done (VF64 r)"
  by (cases u) (auto simp: eval_op_def operand_def un_op_def store_f64_def [abs_def] split: if_splits)

lemma eval_binary:
  "fold_f64 F b x y = Some r \<Longrightarrow> eval_op F (Binary b) [VF64 x, VF64 y] = Done (VF64 r)"
  by (cases b) (auto simp: eval_op_def operand_def bin_op_def div_f64_def store_f64_def [abs_def] split: if_splits)

lemma const_operand:
  assumes inv: "arena_inv c" and den: "denotes F c args val" and ul: "uses_live c" and fa: "float_arith c"
    and xn: "(x, n) \<in> set (live_nodes c)" "arith (nd_op n)" and v: "v \<in> set (node_uses n)"
  shows "const_i64_of c v = None" "const_f64_of F c v = Some r \<Longrightarrow> val (vid_node v) = VF64 r"
proof -
  obtain y where y: "y \<in> set (live_ids c)" "v = vid_from_node y 0" using uses_liveE [OF ul xn(1) v] by blast
  then have vy: "vid_node v = y" by (simp add: live_handle_value)
  obtain d where d: "arena_node c y = Inr d" "(y, d) \<in> set (live_nodes c)" using live_lookup [OF inv y(1)] by blast
  have ni: "\<forall>i. nd_op d \<noteq> ConstI64 i" using float_arithD [OF fa xn v] d(1) vy by simp
  then show "const_i64_of c v = None" using vy d by (simp add: const_i64_of_def split: xop.splits)
  assume "const_f64_of F c v = Some r"
  then have "nd_op d = ConstF64 r" using ni vy d by (cases "nd_op d") (simp_all add: const_f64_of_def)
  then show "val (vid_node v) = VF64 r" using denotes_node [OF den d(2)] vy by (simp add: node_denotes_def)
qed

text \<open>The value the interpreter gives a folded node is the constant.\<close>

lemma fold_result_value:
  assumes inv: "arena_inv c" and den: "denotes F c args val" and ul: "uses_live c" and fa: "float_arith c"
    and wf: "node_wf n" and ar: "nd_n_inputs n = expected_arity (nd_op n)"
    and xn: "(x, n) \<in> set (live_nodes c)" and r: "fold_result F c n = Some (op, t)"
  shows "\<exists>v. op = ConstF64 v \<and> t = nd_ty n \<and> val x = VF64 v"
proof -
  note shape = fold_result_shape [OF r]
  note opnd = const_operand [OF inv den ul fa xn shape(1)]
  have val: "node_denotes F args val x n" by (rule denotes_node [OF den xn])
  have len: "length (node_uses n) = unat (nd_n_inputs n)" using wf by (simp add: node_uses_def node_wf_def)
  show ?thesis
  proof (cases "nd_op n")
    case (Unary u)
    then obtain v where v: "node_uses n = [v]" using len ar by (auto simp: length_Suc_conv)
    then have "node_input n 0 = Some v" by (simp add: node_input_uses [OF wf] nth_opt_def)
    then obtain c' q where c': "const_f64_of F c v = Some c'" "fold_unary F u c' = Some q" "op = ConstF64 q" "t = nd_ty n"
      using r Unary by (auto simp: fold_result_def split: option.splits)
    have "val (vid_node v) = VF64 c'" using opnd(2) c'(1) v by simp
    then have "val x = VF64 q" using val Unary v eval_unary [OF c'(2)] by (simp add: node_denotes_def)
    with c' show ?thesis by blast
  next
    case (Binary b)
    then obtain v w where vw: "node_uses n = [v, w]" using len ar by (cases "node_uses n"; cases "tl (node_uses n)"; simp)
    then have "node_input n 0 = Some v" "node_input n 1 = Some w" by (simp_all add: node_input_uses [OF wf] nth_opt_def)
    moreover have "const_i64_of c v = None" using opnd(1) vw by simp
    ultimately obtain p s q where q: "const_f64_of F c v = Some p" "const_f64_of F c w = Some s" "fold_f64 F b p s = Some q"
      "op = ConstF64 q" "t = nd_ty n"
      using r Binary by (auto simp: fold_result_def split: option.splits)
    have "val (vid_node v) = VF64 p" "val (vid_node w) = VF64 s" using opnd(2) q(1,2) vw by simp_all
    then have "val x = VF64 q" using val Binary vw eval_binary [OF q(3)] by (simp add: node_denotes_def)
    with q show ?thesis by blast
  qed (use shape(1) in \<open>simp_all add: arith_def\<close>)
qed

definition fold_inv :: "fp \<Rightarrow> rvalue list \<Rightarrow> (node_id \<Rightarrow> rvalue) \<Rightarrow> arena \<Rightarrow> bool" where
  "fold_inv F args val c \<longleftrightarrow> denotes F c args val \<and> uses_live c \<and> float_arith c \<and> arities_ok c"

lemma live_node_wf:
  assumes "arena_wf a" "(x, n) \<in> set (live_nodes a)" shows "node_wf n"
  using assms by (auto simp: live_nodes_def arena_wf_def)

lemma fold_inv_step:
  assumes inv: "arena_inv c" and Q: "fold_inv F args val c" and x: "x \<in> set (live_ids c)" and n: "arena_node c x = Inr n"
    and r: "fold_result F c n = Some (op, t)" and d: "node_mut c x (set_const op t) = Inr d" and inv': "arena_inv d"
  shows "fold_inv F args val d"
proof -
  have xn: "(x, n) \<in> set (live_nodes c)" by (rule lookup_live_node [OF inv x n])
  have den: "denotes F c args val" and ul: "uses_live c" and fa: "float_arith c" and ar: "arities_ok c"
    using Q by (simp_all add: fold_inv_def)
  have arn: "nd_n_inputs n = expected_arity (nd_op n)" using bspec [OF ar [unfolded arities_ok_def] xn] by simp
  obtain v where v: "op = ConstF64 v" "val x = VF64 v"
    using fold_result_value [OF inv den ul fa live_node_wf [OF arena_inv_wf [OF inv] xn] arn xn r] by blast
  have "op_level (nd_op (set_const op t n)) = op_level (nd_op n)"
    using fold_result_shape [OF r] by (cases "nd_op n") (auto simp: set_const_def arith_def)
  then have ok: "edit_ok (edit_at n (set_const op t))"
    by (intro edit_at_ok) (simp_all add: set_const_def node_wf_def)
  note nodes = node_mut_at_nodes [OF inv x n ok d]
  have old: "m = set_const op t n \<and> y = x \<or> (y, m) \<in> set (live_nodes c)" if ym: "(y, m) \<in> set (live_nodes d)" for y m
  proof (cases "y = x")
    case True
    then show ?thesis using live_node_lookup [OF inv' ym] nodes(2) by simp
  next
    case False
    have y: "y \<in> set (live_ids c)" using live_node_id [OF ym] nodes(1) by simp
    with False nodes(3) [of y] live_node_lookup [OF inv' ym] lookup_live_node [OF inv y] show ?thesis by simp
  qed
  have const: "node_uses (set_const op t n) = []" "nd_op (set_const op t n) = ConstF64 v" "nd_n_inputs (set_const op t n) = 0"
    using v(1) by (simp_all add: set_const_def node_uses_def)
  have "denotes F d args val"
    unfolding denotes_iff
  proof (intro ballI, unfold split_paired_all prod.case)
    fix y m assume "(y, m) \<in> set (live_nodes d)"
    from old [OF this] show "node_denotes F args val y m"
      using const v(2) denotes_node [OF den] by (auto simp: node_denotes_def)
  qed
  moreover have "uses_live d"
    unfolding uses_live_def
  proof (intro ballI, unfold split_paired_all prod.case, intro ballI)
    fix y m u assume ym: "(y, m) \<in> set (live_nodes d)" and u: "u \<in> set (node_uses m)"
    have "(y, m) \<in> set (live_nodes c)" using old [OF ym] u const(1) by auto
    from uses_liveE [OF ul this u] nodes(1) show "\<exists>z \<in> set (live_ids d). u = vid_from_node z 0" by metis
  qed
  moreover have "float_arith d"
    unfolding float_arith_def
  proof (intro ballI, unfold split_paired_all prod.case, intro impI ballI allI)
    fix y m u e i assume ym: "(y, m) \<in> set (live_nodes d)" and am: "arith (nd_op m)" and u: "u \<in> set (node_uses m)"
      and e: "arena_node d (vid_node u) = Inr e"
    have y: "(y, m) \<in> set (live_nodes c)" using old [OF ym] u const(1) by auto
    obtain z where z: "z \<in> set (live_ids c)" "u = vid_from_node z 0" using uses_liveE [OF ul y u] by blast
    then have uz: "vid_node u = z" by (simp add: live_handle_value)
    show "nd_op e \<noteq> ConstI64 i"
    proof (cases "z = x")
      case True
      then show ?thesis using e uz nodes(2) const(2) by simp
    next
      case False
      then have "arena_node c (vid_node u) = Inr e" using e uz nodes(3) [OF z(1)] by simp
      from float_arithD [OF fa y am u this] show ?thesis .
    qed
  qed
  moreover have "arities_ok d"
    unfolding arities_ok_def
  proof (intro ballI, unfold split_paired_all prod.case)
    fix y m assume "(y, m) \<in> set (live_nodes d)"
    from old [OF this] show "nd_n_inputs m = expected_arity (nd_op m)"
      using const bspec [OF ar [unfolded arities_ok_def]] by fastforce
  qed
  ultimately show ?thesis by (simp add: fold_inv_def)
qed

lemma fold_denotes:
  assumes "arena_inv a" "fold_inv F args val a"
  shows "fold_inv F args val (snd (fold_run F a))"
proof -
  have "edited folded_node a (snd (fold_run F a)) \<and> fold_inv F args val (snd (fold_run F a))"
    by (rule fold_pass_induct [where Q = "fold_inv F args val", OF assms])
      (auto intro: folded_node_trans fold_result_folded fold_inv_step simp: folded_node_def [of _ n n for n])
  then show ?thesis ..
qed

text \<open>
  C32: constant folding keeps the meaning of programs over floating-point constants. On an arena whose
  nodes use first outputs of live nodes, have their arities and do no arithmetic on integer constants, folding
  keeps the arena invariant, the live nodes and these conditions, and every assignment of values that the graph
  denotes before is one that it denotes after: each folded constant is the value the interpreter computes.
\<close>

theorem fold_run_sound:
  assumes "arena_inv a" "uses_live a" "arities_ok a" "float_arith a" "denotes F a args val"
  shows "\<exists>k b. fold_run F a = (k, b) \<and> arena_inv b \<and> live_ids b = live_ids a \<and> uses_live b \<and> arities_ok b \<and>
    float_arith b \<and> denotes F b args val"
proof -
  have "fold_inv F args val a" using assms(2-5) by (simp add: fold_inv_def)
  from fold_denotes [OF assms(1) this] edited_inv [OF fold_run_edited [OF assms(1)], of F]
  show ?thesis by (cases "fold_run F a") (simp add: fold_inv_def)
qed

definition demo_const :: arena where
  "demo_const = (let a = with_capacity 4 2; g = root_region a; b = snd (const_f64 a g F64_ONE)
     in snd (insert_node b g (node_new (Unary Neg) g [vid_from_node (nid_pack 0 0 Graph) 0] (Scalar F64))))"

lemma demo_const_inv: "arena_inv demo_const"
  unfolding demo_const_def Let_def const_f64_def
  by (intro arena_inv_insert arena_inv_with_capacity node_wf_new) (simp, simp, code_simp+)

lemma demo_const_live: "map (\<lambda>(x, n). (x, nd_op n, node_uses n, nd_n_inputs n)) (live_nodes demo_const) =
    [(nid_pack 0 0 Graph, ConstF64 F64_ONE, [], 0), (nid_pack 1 0 Graph, Unary Neg, [vid_from_node (nid_pack 0 0 Graph) 0], 1)]"
  by code_simp

lemma demo_const_nodes:
  assumes "(x, n) \<in> set (live_nodes demo_const)"
  shows "x = nid_pack 0 0 Graph \<and> nd_op n = ConstF64 F64_ONE \<and> node_uses n = [] \<and> nd_n_inputs n = 0 \<or>
    x = nid_pack 1 0 Graph \<and> nd_op n = Unary Neg \<and> node_uses n = [vid_from_node (nid_pack 0 0 Graph) 0] \<and> nd_n_inputs n = 1"
proof -
  have "(x, nd_op n, node_uses n, nd_n_inputs n) \<in> set (map (\<lambda>(x, n). (x, nd_op n, node_uses n, nd_n_inputs n)) (live_nodes demo_const))"
    using assms by (auto intro: rev_image_eqI)
  then show ?thesis unfolding demo_const_live by auto
qed

lemma demo_const_ok:
  "uses_live demo_const" "arities_ok demo_const" "float_arith demo_const" "denotes F demo_const [] demo_val"
  "region_tree demo_const" "owners_live demo_const" "verify demo_const = Inr ()"
proof -
  have ids: "live_ids demo_const = [nid_pack 0 0 Graph, nid_pack 1 0 Graph]" by code_simp
  show "uses_live demo_const" using demo_const_nodes ids by (fastforce simp: uses_live_def)
  show "arities_ok demo_const" using demo_const_nodes by (fastforce simp: arities_ok_def)
  have "map_sum id nd_op (arena_node demo_const (nid_pack 0 0 Graph)) = Inr (ConstF64 F64_ONE)" by code_simp
  then have "nd_op d = ConstF64 F64_ONE" if "arena_node demo_const (nid_pack 0 0 Graph) = Inr d" for d using that by simp
  then show "float_arith demo_const" using demo_const_nodes by (fastforce simp: float_arith_def)
  have "eval_op F (Unary Neg) [VF64 F64_ONE] = Done (VF64 (f64_neg F64_ONE))" by (rule eval_unary) simp
  moreover have "demo_val (nid_pack 0 0 Graph) = VF64 F64_ONE" "demo_val (nid_pack 1 0 Graph) = VF64 (f64_neg F64_ONE)"
    by (simp_all add: demo_val_def)
  ultimately show "denotes F demo_const [] demo_val" using demo_const_nodes by (fastforce simp: denotes_def)
  have n: "length (ar_regions demo_const) = 1" "ar_root demo_const = rid_pack 0 0"
    "rid_is_none (rg_parent (ar_regions demo_const ! 0))" "list_all (\<lambda>r. nid_is_none (rg_owner r)) (ar_regions demo_const)"
    by code_simp+
  show "region_tree demo_const" using n arena_inv_wf [OF demo_const_inv] by (simp add: region_tree_def Let_def)
  show "owners_live demo_const" using n(4) by (simp add: owners_live_def list_all_iff)
  show "verify demo_const = Inr ()" by code_simp
qed

theorem fold_run_sound_witness:
  "\<exists>b. fold_run demo_fp demo_const = (1, b) \<and> denotes demo_fp b [] demo_val"
proof -
  have "fst (fold_run demo_fp demo_const) = 1" by code_simp
  with fold_run_sound [OF demo_const_inv demo_const_ok(1-4), of demo_fp] show ?thesis by auto
qed

section \<open>The pass\<close>

lemma canonicalize_steps:
  assumes inv: "arena_inv (sn_arena ir)" and tree: "region_tree (sn_arena ir)" and ul: "uses_live (sn_arena ir)"
    and ow: "owners_live (sn_arena ir)" and ok: "verify (sn_arena ir) = Inr ()"
  shows "\<exists>w1 w2 w3 \<rho> out. w1 = snd (fold_run F (sn_arena ir)) \<and> gvn_result w1 \<rho> w2 \<and> dce_sound w2 roots w3 \<and>
    arena_inv w1 \<and> uses_live w1 \<and> arena_inv w2 \<and> verify w3 = Inr () \<and> canonicalize_run F roots ctx ir = Some (Inr out, ctx) \<and>
    (out = Changed (snapshot_new w3) \<or> out = Unchanged)"
proof -
  let ?a = "sn_arena ir"
  have small: "length (ar_regions ?a) < 2 ^ 32" using tree by (simp add: region_tree_def)
  have wf: "well_formed ?a" using verify_iff_well_formed [OF inv region_tree_minted [OF tree] small] ok by simp
  define w1 where "w1 = snd (fold_run F ?a)"
  obtain k1 where f: "fold_run F ?a = (k1, w1)" by (cases "fold_run F ?a") (simp add: w1_def)
  have k1: "kept ?a w1" "uses_live w1" using fold_kept [OF inv region_tree_minted [OF tree] wf ul, of F] by (simp_all add: w1_def)
  have w1: "well_formed w1" "owners_live w1" "arena_inv w1" "region_tree w1"
    using well_formed_kept [OF k1(1) inv region_tree_minted [OF tree] wf ow] reshapedD(1) [OF keptD(1) [OF k1(1)]]
      region_tree_reshaped [OF keptD(1) [OF k1(1)] tree] by simp_all
  obtain k2 w2 \<rho> where g: "gvn_run w1 = (Inr k2, w2)" "gvn_result w1 \<rho> w2" "kept w1 w2" "uses_live w2"
    using gvn_kept [OF w1(3,4,1) k1(2)] by blast
  have w2: "well_formed w2" "owners_live w2" "arena_inv w2" "region_tree w2"
    using well_formed_kept [OF g(3) w1(3) region_tree_minted [OF w1(4)] w1(1,2)] reshapedD(1) [OF keptD(1) [OF g(3)]]
      region_tree_reshaped [OF keptD(1) [OF g(3)] w1(4)] by simp_all
  obtain k3 w3 where d: "dce_run w2 roots = Some (Inr k3, w3)" "dce_sound w2 roots w3" "kept w2 w3"
    using dce_kept [OF w2(3) region_tree_minted [OF w2(4)] w2(1) g(4)] by blast
  have w3: "well_formed w3" "arena_inv w3" "region_tree w3"
    using well_formed_kept [OF d(3) w2(3) region_tree_minted [OF w2(4)] w2(1,2)] reshapedD(1) [OF keptD(1) [OF d(3)]]
      region_tree_reshaped [OF keptD(1) [OF d(3)] w2(4)] by simp_all
  have small3: "length (ar_regions w3) < 2 ^ 32" using w3(3) by (simp add: region_tree_def)
  have v: "verify w3 = Inr ()" using verify_iff_well_formed [OF w3(2) region_tree_minted [OF w3(3)] small3] w3(1) by simp
  define out where "out = (if k2 = 0 \<and> k3 = 0 \<and> k1 = 0 then Unchanged else Changed (snapshot_new w3))"
  have "canonicalize_run F roots ctx ir = Some (Inr out, ctx)"
    using f g(1) d(1) v by (simp add: canonicalize_run_def deep_clone_eq [OF arena_inv_wf [OF inv]] out_def)
  moreover have "out = Changed (snapshot_new w3) \<or> out = Unchanged" by (simp add: out_def)
  ultimately show ?thesis using g(2) d(2) w1(3) k1(2) w2(3) v w1_def by blast
qed

text \<open>
  C33: canonicalization never fails on a verified program. When the snapshot's arena satisfies the arena
  invariant, has a region tree and minted handles, and passes the verifier, the pass returns (its
  dead-code loop ends), without error, and what it publishes passes the verifier: folding, value numbering and
  dead code elimination each keep well-formedness, so the verification failure branches are unreachable.
\<close>

theorem canonicalize_total:
  assumes "arena_inv (sn_arena ir)" "region_tree (sn_arena ir)" "uses_live (sn_arena ir)" "owners_live (sn_arena ir)"
    "verify (sn_arena ir) = Inr ()"
  shows "\<exists>out. canonicalize_run F roots ctx ir = Some (Inr out, ctx) \<and>
    (\<forall>s. out = Changed s \<longrightarrow> verify (sn_arena s) = Inr () \<and> sn_fingerprint s = compute_fingerprint (sn_arena s))"
  using canonicalize_steps [OF assms, of F roots ctx] by (auto simp: snapshot_new_def)

lemma demo_const_changed:
  "canonicalize_run demo_fp roots ctx (snapshot_new demo_const) \<noteq> Some (Inr Unchanged, ctx')"
proof -
  have "fst (fold_run demo_fp demo_const) = 1" by code_simp
  then obtain w where "fold_run demo_fp demo_const = (1, w)" by (metis prod.collapse)
  then show ?thesis
    by (auto simp: canonicalize_run_def Let_def snapshot_new_def deep_clone_eq [OF arena_inv_wf [OF demo_const_inv]]
        split: prod.splits sum.splits option.splits)
qed

theorem canonicalize_total_witness:
  "\<exists>s. canonicalize_run demo_fp [nid_pack 1 0 Graph] demo_ctx (snapshot_new demo_const) = Some (Inr (Changed s), demo_ctx) \<and>
     verify (sn_arena s) = Inr ()"
proof -
  let ?run = "canonicalize_run demo_fp [nid_pack 1 0 Graph] demo_ctx (snapshot_new demo_const)"
  from canonicalize_total [of "snapshot_new demo_const" demo_fp "[nid_pack 1 0 Graph]" demo_ctx]
  obtain out where "?run = Some (Inr out, demo_ctx)" "\<forall>s. out = Changed s \<longrightarrow> verify (sn_arena s) = Inr ()"
    using demo_const_inv demo_const_ok(1,5-7) by (auto simp: snapshot_new_def)
  with demo_const_changed show ?thesis by (cases out) auto
qed



text \<open>
  Canonicalization can delete the program. In \<^verbatim>\<open>%0 = param 0; %1 = neg %0; %2 = neg %0\<close> with root
  \<^verbatim>\<open>%2\<close>, value numbering removes \<^verbatim>\<open>%2\<close> in favour of \<^verbatim>\<open>%1\<close> without updating the roots, dead code
  elimination then finds \<^verbatim>\<open>%1\<close> unused, and the projection of the result rejects the root, although the
  original program projects.
\<close>

definition demo_twin :: arena where
  "demo_twin = (let a = with_capacity 4 2; g = root_region a; x = vid_from_node (nid_pack 0 0 Graph) 0;
     b = snd (insert_node a g (node_new (Param 0) g [] (Scalar F64)));
     c = snd (insert_node b g (node_new (Unary Neg) g [x] (Scalar F64)))
     in snd (insert_node c g (node_new (Unary Neg) g [x] (Scalar F64))))"

fun dce_next :: "(pass_error + u32) \<times> arena \<Rightarrow> node_id list \<Rightarrow> ((pass_error + u32) \<times> arena) option" where
  "dce_next (Inl e, a) roots = Some (Inl e, a)"
| "dce_next (Inr k, a) roots = dce_loop a roots k"

lemma dce_loop_code [code]:
  "dce_loop a roots k =
     (if dce_dead a (dce_used a roots) = [] then Some (Inr k, a)
      else dce_next (dce_remove a (dce_dead a (dce_used a roots)) k) roots)"
  by (subst dce_loop.simps) (auto simp: Let_def split: prod.splits sum.splits)

lemma demo_twin_folded: "fst (fold_run demo_fp demo_twin) = 0"
  by code_simp

lemma demo_twin_merged: "fst (gvn_run (snd (fold_run demo_fp demo_twin))) = Inr 1"
  by code_simp

lemma demo_twin_verified: "verify demo_twin = Inr ()"
  by code_simp

lemma demo_twin_projects: "is_ok (structurize demo_twin [nid_pack 2 0 Graph])"
  by code_simp

lemma demo_twin_swept:
  "case dce_run (snd (gvn_run (snd (fold_run demo_fp demo_twin)))) [nid_pack 2 0 Graph] of
     Some (Inr k, w) \<Rightarrow> k = 2 \<and> live_ids w = [] \<and> verify w = Inr () \<and>
       structurize w [nid_pack 2 0 Graph] = Inl (FormLower LowerUnknownNode)
   | _ \<Rightarrow> False"
  by code_simp

lemma demo_twin_inv: "arena_inv demo_twin"
  unfolding demo_twin_def Let_def
  by (intro arena_inv_insert arena_inv_with_capacity node_wf_new) (simp, simp, code_simp+)

theorem canonicalize_drops_root:
  "verify demo_twin = Inr () \<and> is_ok (structurize demo_twin [nid_pack 2 0 Graph]) \<and>
   (\<exists>s ctx. canonicalize_run demo_fp [nid_pack 2 0 Graph] demo_ctx (snapshot_new demo_twin) = Some (Inr (Changed s), ctx) \<and>
      live_ids (sn_arena s) = [] \<and> structurize (sn_arena s) [nid_pack 2 0 Graph] = Inl (FormLower LowerUnknownNode))"
proof -
  obtain w1 where f: "fold_run demo_fp demo_twin = (0, w1)" using demo_twin_folded by (metis prod.collapse)
  obtain w2 where g: "gvn_run w1 = (Inr 1, w2)" using demo_twin_merged f by (metis prod.collapse snd_conv)
  obtain w3 where d: "dce_run w2 [nid_pack 2 0 Graph] = Some (Inr 2, w3)" "live_ids w3 = []" "verify w3 = Inr ()"
    "structurize w3 [nid_pack 2 0 Graph] = Inl (FormLower LowerUnknownNode)"
    using demo_twin_swept f g by (auto split: option.splits prod.splits sum.splits)
  have "canonicalize_run demo_fp [nid_pack 2 0 Graph] demo_ctx (snapshot_new demo_twin) = Some (Inr (Changed (snapshot_new w3)), demo_ctx)"
    using f g d by (simp add: canonicalize_run_def snapshot_new_def deep_clone_eq [OF arena_inv_wf [OF demo_twin_inv]])
  with d demo_twin_verified demo_twin_projects show ?thesis by (simp add: snapshot_new_def)
qed

end
