(* ===== verification/Runtime.thy ===== *)
theory Runtime
  imports Interp
begin

text \<open>
  Types of runtime values, and the device and stream around the interpreter (\<^verbatim>\<open>crates/runtime/src/device.rs\<close>,
  \<^verbatim>\<open>stream.rs\<close>). A tensor value is well typed when its shape is a legal shape and its buffer has as many elements as
  the shape says; every kernel keeps the value table well typed.
\<close>

section \<open>Device and stream\<close>

definition cpu_launch :: "fp \<Rightarrow> target_program \<Rightarrow> rvalue list \<Rightarrow> rvalue list run" where
  "cpu_launch F program args = execute F program args"

datatype stream_error = UnknownEvent | Exec runtime_error

record stream_event =
  ev_id :: u32
  ev_after_launch :: u32

record cpu_stream =
  st_launches :: u32
  st_events :: "stream_event list"

definition stream_new :: cpu_stream where
  "stream_new = \<lparr>st_launches = 0, st_events = []\<rparr>"

text \<open>A launch that panics unwinds through the stream; the stream is unchanged then, as after an error.\<close>

definition stream_launch ::
  "fp \<Rightarrow> cpu_stream \<Rightarrow> target_program \<Rightarrow> rvalue list \<Rightarrow> (stream_error, rvalue list) eff \<times> cpu_stream" where
  "stream_launch F s program args =
     (case cpu_launch F program args of
        Done out \<Rightarrow> (Done out, s\<lparr>st_launches := st_launches s + 1\<rparr>)
      | Fail e \<Rightarrow> (Fail (Exec e), s)
      | Panic \<Rightarrow> (Panic, s))"

definition stream_record :: "cpu_stream \<Rightarrow> stream_event \<times> cpu_stream" where
  "stream_record s =
     (let ev = \<lparr>ev_id = word_of_nat (length (st_events s)), ev_after_launch = st_launches s\<rparr>
      in (ev, s\<lparr>st_events := st_events s @ [ev]\<rparr>))"

definition stream_wait_for :: "cpu_stream \<Rightarrow> stream_event \<Rightarrow> stream_error + unit" where
  "stream_wait_for s ev =
     (case nth_opt (st_events s) (unat (ev_id ev)) of
        Some recorded \<Rightarrow> if recorded = ev then Inr () else Inl UnknownEvent
      | None \<Rightarrow> Inl UnknownEvent)"

definition launch_count :: "cpu_stream \<Rightarrow> u32" where
  "launch_count s = st_launches s"

text \<open>An event is known to the stream that recorded it, before and after later launches and records.\<close>

lemma record_then_wait:
  assumes "stream_record s = (ev, s')" "length (st_events s) < 2 ^ 32"
  shows "stream_wait_for (s'\<lparr>st_launches := n, st_events := st_events s' @ later\<rparr>) ev = Inr ()"
  using assms by (auto simp: stream_record_def stream_wait_for_def Let_def nth_opt_Some unat_of_nat_small nth_append
      nth_opt_None split: option.splits)

section \<open>Well-typed values\<close>

fun value_wf :: "rvalue \<Rightarrow> bool" where
  "value_wf (VTensor data shape) \<longleftrightarrow> shape_wf shape \<and> int (length data) = num_elements shape"
| "value_wf (VF64 _) \<longleftrightarrow> True"
| "value_wf (VI64 _) \<longleftrightarrow> True"

definition table_wf :: "rvalue list \<Rightarrow> bool" where
  "table_wf t \<longleftrightarrow> list_all value_wf t"

lemma ebind_Done: "ebind m f = Done y \<longleftrightarrow> (\<exists>x. m = Done x \<and> f x = Done y)"
  by (cases m) auto

lemma emap_Done: "emap f xs = Done ys \<Longrightarrow> length ys = length xs"
  by (induction xs arbitrary: ys) (auto simp: ebind_Done)

lemma efold_Done:
  "efold f xs s = Done s' \<Longrightarrow> (\<And>x s s'. x \<in> set xs \<Longrightarrow> f x s = Done s' \<Longrightarrow> P s \<Longrightarrow> P s') \<Longrightarrow> P s \<Longrightarrow> P s'"
  by (induction xs arbitrary: s) (auto simp: ebind_Done)

lemma table_get_wf: "table_get t s = Done v \<Longrightarrow> table_wf t \<Longrightarrow> value_wf v"
  by (auto simp: table_get_def need_def nth_opt_Some table_wf_def list_all_iff split: option.splits)

lemma table_set_wf: "table_set t s v = Done t' \<Longrightarrow> table_wf t \<Longrightarrow> value_wf v \<Longrightarrow> table_wf t' \<and> length t' = length t"
  by (auto simp: table_set_def table_wf_def list_all_length nth_list_update split: if_splits)

lemma store_f64_wf: "store_f64 t s v = Done t' \<Longrightarrow> table_wf t \<Longrightarrow> table_wf t' \<and> length t' = length t"
  using table_set_wf [of t s "VF64 v" t'] by (simp add: store_f64_def)

lemma table_set_i64_wf: "table_set t s (VI64 v) = Done t' \<Longrightarrow> table_wf t \<Longrightarrow> table_wf t' \<and> length t' = length t"
  using table_set_wf [of t s "VI64 v" t'] by simp

lemma lift_shape_Done: "lift_shape r = Done s \<longleftrightarrow> r = Inr s"
  by (auto simp: lift_shape_def split: sum.splits)

lemma from_dims_count:
  assumes "shape_from_dims ds = Inr s"
  shows "shape_wf s" "num_elements s = min i64_max (prod_list ds)" "list_all (\<lambda>d. 0 < d) ds"
  using shape_from_dims_slice [OF assms] num_elements_eq [of s] by simp_all

lemmas kernel_wf = table_get_wf table_set_wf store_f64_wf

lemma bin_op_wf:
  assumes "bin_op F t dst a b f = Done t'" "table_wf t"
  shows "table_wf t' \<and> length t' = length t"
proof -
  obtain va vb where v: "table_get t a = Done va" "table_get t b = Done vb"
    using assms(1) by (auto simp: bin_op_def ebind_Done)
  note w = table_get_wf [OF v(1) assms(2)] table_get_wf [OF v(2) assms(2)]
  show ?thesis
    by (cases va; cases vb) (use assms v w in \<open>auto simp: bin_op_def ebind_Done split: if_splits dest!: emap_Done dest: kernel_wf\<close>)
qed

lemma un_op_wf:
  assumes "un_op t dst a f = Done t'" "table_wf t"
  shows "table_wf t' \<and> length t' = length t"
proof -
  obtain va where v: "table_get t a = Done va" using assms(1) by (auto simp: un_op_def ebind_Done)
  note w = table_get_wf [OF v assms(2)]
  show ?thesis
    by (cases va) (use assms v w in \<open>auto simp: un_op_def ebind_Done dest!: emap_Done dest: kernel_wf\<close>)
qed

lemma reduce_wf:
  assumes "reduce F t dst a axis m = Done t'" "table_wf t"
  shows "table_wf t' \<and> length t' = length t"
proof -
  obtain va where v: "table_get t a = Done va" using assms(1) by (auto simp: reduce_def ebind_Done)
  show ?thesis
  proof (cases va)
    case (VTensor data shape)
    then obtain os out where os: "shape_from_dims (map (dim_or 1 shape) (filter (\<lambda>d. d \<noteq> unat axis) [0 ..< unat (sh_rank shape)])) = Inr os"
        and out: "length out = nat (max (num_elements os) 0)"
        and st: "if sh_rank os = 0 then ebind (index out 0) (store_f64 t dst) = Done t' else table_set t dst (VTensor out os) = Done t'"
      using assms(1) v by (auto simp: reduce_def ebind_Done lift_shape_Done Let_def dest!: emap_Done split: if_splits)
    have "value_wf (VTensor out os)"
      using from_dims_count [OF os] out prod_list_pos [of "map (dim_or 1 shape) (filter (\<lambda>d. d \<noteq> unat axis) [0 ..< unat (sh_rank shape)])"]
      by (simp add: i64_max_def)
    then show ?thesis using st assms(2) by (auto simp: ebind_Done split: if_splits dest: kernel_wf)
  qed (use assms v in \<open>auto simp: reduce_def ebind_Done dest: kernel_wf\<close>)
qed

lemma dot_wf: "dot F t dst a b = Done t' \<Longrightarrow> table_wf t \<Longrightarrow> table_wf t' \<and> length t' = length t"
  by (auto simp: dot_def ebind_Done split: if_splits dest: kernel_wf)

lemma copy_value_wf: "copy_value t dst a = Done t' \<Longrightarrow> table_wf t \<Longrightarrow> table_wf t' \<and> length t' = length t"
  by (auto simp: copy_value_def ebind_Done dest: kernel_wf)

lemma length_pairs: "length [(i, j). i \<leftarrow> [0 .. m - 1], j \<leftarrow> [0 .. n - 1]] = nat m * nat n"
  by (simp add: length_concat comp_def sum_list_triv)

lemma matmul_wf:
  assumes "matmul F t dst a b ta tb = Done t'" "table_wf t"
  shows "table_wf t' \<and> length t' = length t"
proof -
  obtain m n out shape where o: "shape_from_dims [m, n] = Inr shape" "length out = nat m * nat n" "in_i64 (m * n)"
      "table_set t dst (VTensor out shape) = Done t'"
    using assms(1)
    by (auto simp: matmul_def ebind_Done lift_shape_Done length_pairs Let_def dest!: emap_Done split: if_splits prod.splits)
  have "value_wf (VTensor out shape)" using from_dims_count [OF o(1)] o(2,3) by (simp add: in_i64_def i64_max_def)
  then show ?thesis using o(4) assms(2) kernel_wf by blast
qed

lemma transpose_wf:
  assumes "transpose_op t dst a = Done t'" "table_wf t"
  shows "table_wf t' \<and> length t' = length t"
proof -
  obtain va where va: "table_get t a = Done va" using assms(1) by (auto simp: transpose_op_def ebind_Done)
  then obtain data shape where ds: "va = VTensor data shape"
    using assms(1) by (cases va) (simp_all add: transpose_op_def)
  then obtain out shape' where v: "table_get t a = Done (VTensor data shape)" "sh_rank shape = 2"
      and fold: "efold (transpose_step (dim_or 0 shape 0) (dim_or 0 shape 1) data)
        [(i, j). i \<leftarrow> [0 .. dim_or 0 shape 0 - 1], j \<leftarrow> [0 .. dim_or 0 shape 1 - 1]] (replicate (length data) 0) = Done out"
      and s: "shape_from_dims [dim_or 0 shape 1, dim_or 0 shape 0] = Inr shape'" "table_set t dst (VTensor out shape') = Done t'"
    using assms(1) va by (auto simp: transpose_op_def ebind_Done lift_shape_Done Let_def split: if_splits)
  have len: "length out = length data"
    by (rule efold_Done [OF fold]) (auto simp: transpose_step_def ebind_Done split: if_splits)
  have w: "shape_wf shape" "int (length data) = num_elements shape" using table_get_wf [OF v(1) assms(2)] by simp_all
  have "length (sh_dims shape) = 4" using w(1) by (simp add: shape_wf_def MAX_RANK_def)
  then obtain d0 d1 ds where dims: "sh_dims shape = d0 # d1 # ds"
    by (cases "sh_dims shape"; cases "tl (sh_dims shape)") auto
  then have "shape_as_slice shape = [dim_or 0 shape 0, dim_or 0 shape 1]"
    using v(2) by (simp add: shape_as_slice_def dim_or_def shape_dim_def)
  then have "num_elements shape' = num_elements shape"
    using from_dims_count [OF s(1)] num_elements_eq [OF w(1)] by (simp add: mult.commute)
  then have "value_wf (VTensor out shape')" using from_dims_count(1) [OF s(1)] w len by simp
  then show ?thesis using s(2) assms(2) kernel_wf by blast
qed

lemma length_quads:
  "length [(bn, bf, oy, ox). bn \<leftarrow> [0 .. n - 1], bf \<leftarrow> [0 .. f - 1], oy \<leftarrow> [0 .. oh - 1], ox \<leftarrow> [0 .. ow - 1]] =
   nat n * (nat f * (nat oh * nat ow))"
  by (simp add: length_concat comp_def sum_list_triv)

lemma conv_wf:
  assumes "conv F t dst a b padding stride8 = Done t'" "table_wf t"
  shows "table_wf t' \<and> length t' = length t"
proof -
  obtain n f oh ow out shape where o: "shape_from_dims [n, f, oh, ow] = Inr shape" "length out = nat n * (nat f * (nat oh * nat ow))"
      "in_i64 (n * f * oh * ow)" "table_set t dst (VTensor out shape) = Done t'"
    using assms(1)
    by (auto simp: conv_def ebind_Done lift_shape_Done length_quads Let_def dest!: emap_Done split: if_splits prod.splits)
  have "value_wf (VTensor out shape)"
    using from_dims_count [OF o(1)] o(2,3) by (simp add: in_i64_def i64_max_def mult.assoc)
  then show ?thesis using o(4) assms(2) kernel_wf by blast
qed

lemma num_elements_pos: "shape_wf s \<Longrightarrow> 0 < num_elements s"
  using prod_list_pos [of "shape_as_slice s"] by (simp add: num_elements_eq shape_wf_def i64_max_def)

lemma rng_wf:
  assumes "rng F t dst seed dist = Done t'" "table_wf t"
  shows "table_wf t' \<and> length t' = length t"
proof -
  obtain old where old: "table_get t dst = Done old" using assms(1) by (auto simp: rng_def ebind_Done)
  let ?out = "map (rng_sample F seed dist) [0 ..< max (element_count old) 1]"
  show ?thesis
  proof (cases "sh_rank (value_shape old) = 0")
    case True
    then show ?thesis using assms old by (auto simp: rng_def ebind_Done Let_def dest: kernel_wf)
  next
    case False
    then obtain data shape where v: "old = VTensor data shape" by (cases old) (auto simp: shape_scalar_def)
    then have "shape_wf shape" using table_get_wf [OF old assms(2)] by simp
    then have "value_wf (VTensor ?out shape)" using num_elements_pos [of shape] v by (auto simp: max_def)
    moreover have "table_set t dst (VTensor ?out shape) = Done t'" using assms(1) old False v by (simp add: rng_def Let_def)
    ultimately show ?thesis using assms(2) kernel_wf by blast
  qed
qed

lemma run_instr_wf: "run_instr F t i = Done t' \<Longrightarrow> table_wf t \<Longrightarrow> table_wf t' \<and> length t' = length t"
  by (cases i) (auto simp del: value_wf.simps
      dest: bin_op_wf un_op_wf reduce_wf dot_wf copy_value_wf matmul_wf transpose_wf conv_wf rng_wf store_f64_wf
      dest: table_set_i64_wf)


text \<open>A product of a vector with a matrix: \<open>[1, 1] \<times> [[1, 0], [0, 1]]\<close> as rank-two tensors.\<close>

definition demo_add_fp :: fp where
  "demo_add_fp = \<lparr>fp_add = (\<lambda>x y. x OR y), fp_sub = (\<lambda>x _. x), fp_mul = (\<lambda>x y. x AND y), fp_div = (\<lambda>x _. x), fp_max = max,
     fp_min = min, fp_exp = id, fp_ln = id, fp_sqrt = id, fp_cos = id, fp_fract = (\<lambda>_. 0), fp_of_i64 = (\<lambda>_. 0),
     fp_of_u64 = id, fp_to_i64 = (\<lambda>_. 0)\<rparr>"

definition demo_matmul :: target_program where
  "demo_matmul = \<lparr>tp_instrs = [IMatmul 2 0 1 False False, ITranspose 3 2], tp_results = [3], tp_value_count = 4\<rparr>"

definition demo_row :: rvalue where
  "demo_row = VTensor [F64_ONE, F64_ONE] \<lparr>sh_dims = [1, 2, 0, 0], sh_rank = 2\<rparr>"

definition demo_eye :: rvalue where
  "demo_eye = VTensor [F64_ONE, 0, 0, F64_ONE] \<lparr>sh_dims = [2, 2, 0, 0], sh_rank = 2\<rparr>"

lemma demo_matmul_run:
  "stream_launch demo_add_fp stream_new demo_matmul [demo_row, demo_eye] =
     (Done [VTensor [F64_ONE, F64_ONE] \<lparr>sh_dims = [2, 1, 0, 0], sh_rank = 2\<rparr>], \<lparr>st_launches = 1, st_events = []\<rparr>)"
  by code_simp

lemma demo_matmul_args: "list_all value_wf [demo_row, demo_eye]"
  by code_simp


text \<open>
  The transposed operand of a product is indexed with the row count as stride, where the buffer has the column count
  as stride: the product of the transpose of a column with a column of the same length reads past its buffer.
\<close>

definition demo_column :: rvalue where
  "demo_column = VTensor [F64_ONE, F64_ONE] \<lparr>sh_dims = [2, 1, 0, 0], sh_rank = 2\<rparr>"

lemma matmul_transposed_panics:
  "value_wf demo_column"
  "run_instr demo_add_fp [demo_column, demo_column, VF64 0] (IMatmul 2 0 1 True False) = Panic"
  by code_simp+

end
