(* ===== verification/Mss.thy ===== *)
theory Mss
  imports Target "HOL-Library.Product_Lexorder"
begin

text \<open>
  The multi-temperature superoptimiser, \<^verbatim>\<open>crates/mss/src\<close>: sea-of-nodes programs and their builder
  (\<^verbatim>\<open>son.rs\<close>), the reference evaluator (\<^verbatim>\<open>interp.rs\<close>), candidates as overlays over a base program
  (\<^verbatim>\<open>cand.rs\<close>), costs (\<^verbatim>\<open>cost.rs\<close>), the random number generator (\<^verbatim>\<open>rng.rs\<close>), the transposition table
  (\<^verbatim>\<open>tt.rs\<close>), the mutations (\<^verbatim>\<open>mutate.rs\<close>) and the annealing search (\<^verbatim>\<open>search.rs\<close>).

  Values are \<^verbatim>\<open>i64\<close> with wrapping arithmetic, so they are 64-bit words here, read as signed where the code
  compares or checks them. The columns of an arena have one length (the builder pushes to all of them), which the
  lemmas carry as an invariant. Floating-point arithmetic of the acceptance test is the parameter \<open>fp\<close>.
\<close>

type_synonym s64 = "64 word"

section \<open>Programs\<close>

datatype son_kind = KConst | KParam | KBin | KUn | KAlias | KDead

fun kind_code :: "son_kind \<Rightarrow> u8" where
  "kind_code KConst = 0"
| "kind_code KParam = 1"
| "kind_code KBin = 2"
| "kind_code KUn = 3"
| "kind_code KAlias = 4"
| "kind_code KDead = 5"

datatype son_bin_op = SAdd | SSub | SMul | SMin | SMax

fun bin_code :: "son_bin_op \<Rightarrow> u8" where
  "bin_code SAdd = 0"
| "bin_code SSub = 1"
| "bin_code SMul = 2"
| "bin_code SMin = 3"
| "bin_code SMax = 4"

datatype son_un_op = SNeg

fun un_code :: "son_un_op \<Rightarrow> u8" where
  "un_code SNeg = 0"

definition NO_OPERAND :: u32 where "NO_OPERAND = - 1"

record son_arena =
  sa_kinds :: "son_kind list"
  sa_imms :: "s64 list"
  sa_opcodes :: "u8 list"
  sa_lhs :: "u32 list"
  sa_rhs :: "u32 list"

definition sa_new :: son_arena where
  "sa_new = \<lparr>sa_kinds = [], sa_imms = [], sa_opcodes = [], sa_lhs = [], sa_rhs = []\<rparr>"

definition live_count :: "son_arena \<Rightarrow> nat" where
  "live_count a = length (filter (\<lambda>k. k \<noteq> KDead) (sa_kinds a))"

fun son_arity :: "son_kind \<Rightarrow> u8" where
  "son_arity KConst = 0"
| "son_arity KParam = 0"
| "son_arity KBin = 2"
| "son_arity KUn = 1"
| "son_arity KAlias = 1"
| "son_arity KDead = 0"

record son_program =
  pg_arena :: son_arena
  pg_root :: u32

datatype build_error = BadOperand

text \<open>The five pushes that every builder method makes.\<close>

definition sa_push :: "son_arena \<Rightarrow> son_kind \<Rightarrow> s64 \<Rightarrow> u8 \<Rightarrow> u32 \<Rightarrow> u32 \<Rightarrow> son_arena" where
  "sa_push a k imm opc l r =
     \<lparr>sa_kinds = sa_kinds a @ [k], sa_imms = sa_imms a @ [imm], sa_opcodes = sa_opcodes a @ [opc],
      sa_lhs = sa_lhs a @ [l], sa_rhs = sa_rhs a @ [r]\<rparr>"

definition sa_last :: "son_arena \<Rightarrow> u32" where
  "sa_last a = word_of_nat (length (sa_kinds a) - 1)"

definition check_operand :: "son_arena \<Rightarrow> u32 \<Rightarrow> build_error + unit" where
  "check_operand a slot =
     (if slot = NO_OPERAND \<or> unat slot \<ge> length (sa_kinds a) then Inl BadOperand else Inr ())"

definition pb_const_i64 :: "son_arena \<Rightarrow> s64 \<Rightarrow> u32 \<times> son_arena" where
  "pb_const_i64 a v = (let a' = sa_push a KConst v 0 NO_OPERAND NO_OPERAND in (sa_last a', a'))"

definition pb_param :: "son_arena \<Rightarrow> u32 \<Rightarrow> u32 \<times> son_arena" where
  "pb_param a i = (let a' = sa_push a KParam (ucast i) 0 NO_OPERAND NO_OPERAND in (sa_last a', a'))"

definition pb_bin :: "son_arena \<Rightarrow> son_bin_op \<Rightarrow> u32 \<Rightarrow> u32 \<Rightarrow> build_error + u32 \<times> son_arena" where
  "pb_bin a op l r =
     rbind (check_operand a l) (\<lambda>_. rbind (check_operand a r) (\<lambda>_.
       let a' = sa_push a KBin 0 (bin_code op) l r in Inr (sa_last a', a')))"

definition pb_un :: "son_arena \<Rightarrow> son_un_op \<Rightarrow> u32 \<Rightarrow> build_error + u32 \<times> son_arena" where
  "pb_un a op x =
     rbind (check_operand a x) (\<lambda>_. let a' = sa_push a KUn 0 (un_code op) x NO_OPERAND in Inr (sa_last a', a'))"

definition pb_finish :: "son_arena \<Rightarrow> u32 \<Rightarrow> build_error + son_program" where
  "pb_finish a root =
     (if unat root \<ge> length (sa_kinds a) then Inl BadOperand else Inr \<lparr>pg_arena = a, pg_root = root\<rparr>)"

section \<open>The reference evaluator\<close>

datatype interp_error = DeadRoot | DanglingOperand u32 | MissingParam u32 | UnknownOpcode u8

definition smin :: "s64 \<Rightarrow> s64 \<Rightarrow> s64" where "smin x y = (if sint x \<le> sint y then x else y)"
definition smax :: "s64 \<Rightarrow> s64 \<Rightarrow> s64" where "smax x y = (if sint x \<le> sint y then y else x)"

definition eval_bin :: "u8 \<Rightarrow> s64 \<Rightarrow> s64 \<Rightarrow> s64 option" where
  "eval_bin opc x y =
     (if opc = bin_code SAdd then Some (x + y)
      else if opc = bin_code SSub then Some (x - y)
      else if opc = bin_code SMul then Some (x * y)
      else if opc = bin_code SMin then Some (smin x y)
      else if opc = bin_code SMax then Some (smax x y)
      else None)"

definition eval_un :: "u8 \<Rightarrow> s64 \<Rightarrow> s64 option" where
  "eval_un opc x = (if opc = un_code SNeg then Some (- x) else None)"

text \<open>The alias walk; \<open>k\<close> is the number of hops still allowed.\<close>

fun ip_resolve :: "son_arena \<Rightarrow> nat \<Rightarrow> u32 \<Rightarrow> u32 option" where
  "ip_resolve a k cur =
     (case nth_opt (sa_kinds a) (unat cur) of
        None \<Rightarrow> None
      | Some kind \<Rightarrow>
          if kind = KAlias then
            (case nth_opt (sa_lhs a) (unat cur) of
               None \<Rightarrow> None
             | Some nxt \<Rightarrow>
                 if nxt = NO_OPERAND then None
                 else case k of 0 \<Rightarrow> None | Suc k' \<Rightarrow> ip_resolve a k' nxt)
          else Some cur)"

declare ip_resolve.simps [simp del]

definition ip_lookup :: "bool list \<Rightarrow> s64 list \<Rightarrow> u32 \<Rightarrow> interp_error + s64" where
  "ip_lookup computed values l =
     (if unat l < length values \<and> computed ! unat l then Inr (values ! unat l) else Inl (DanglingOperand l))"

definition ip_operand :: "son_arena \<Rightarrow> u32 \<Rightarrow> u32 \<Rightarrow> interp_error + u32" where
  "ip_operand a slot x =
     (case ip_resolve a (length (sa_kinds a)) x of Some l \<Rightarrow> Inr l | None \<Rightarrow> Inl (DanglingOperand slot))"

definition ip_value :: "son_arena \<Rightarrow> s64 list \<Rightarrow> u32 \<Rightarrow> bool list \<Rightarrow> s64 list \<Rightarrow> interp_error + s64 option" where
  "ip_value a params slot computed values =
     (let idx = unat slot in
      case sa_kinds a ! idx of
        KConst \<Rightarrow> Inr (Some (sa_imms a ! idx))
      | KParam \<Rightarrow>
          let pidx = sa_imms a ! idx in
          if sint pidx < 0 \<or> unat pidx \<ge> length params then Inl (MissingParam (ucast pidx))
          else Inr (Some (params ! unat pidx))
      | KBin \<Rightarrow>
          rbind (ip_operand a slot (sa_lhs a ! idx)) (\<lambda>l.
          rbind (ip_operand a slot (sa_rhs a ! idx)) (\<lambda>r.
          rbind (ip_lookup computed values l) (\<lambda>lv.
          rbind (ip_lookup computed values r) (\<lambda>rv.
            case eval_bin (sa_opcodes a ! idx) lv rv of
              Some v \<Rightarrow> Inr (Some v) | None \<Rightarrow> Inl (UnknownOpcode (sa_opcodes a ! idx))))))
      | KUn \<Rightarrow>
          rbind (ip_operand a slot (sa_lhs a ! idx)) (\<lambda>x.
          rbind (ip_lookup computed values x) (\<lambda>v.
            case eval_un (sa_opcodes a ! idx) v of
              Some v \<Rightarrow> Inr (Some v) | None \<Rightarrow> Inl (UnknownOpcode (sa_opcodes a ! idx))))
      | _ \<Rightarrow> Inr None)"

definition ip_step :: "son_program \<Rightarrow> s64 list \<Rightarrow> u32 \<Rightarrow> bool list \<times> s64 list \<Rightarrow> interp_error + bool list \<times> s64 list" where
  "ip_step p params slot = (\<lambda>(computed, values).
     let a = pg_arena p; idx = unat slot in
     if sa_kinds a ! idx = KDead then Inr (computed, values)
     else
       case ip_resolve a (length (sa_kinds a)) slot of
         None \<Rightarrow> if slot = pg_root p then Inl (DanglingOperand slot) else Inr (computed, values)
       | Some target \<Rightarrow>
           if target \<noteq> slot then Inr (computed, values)
           else
             rbind (ip_value a params slot computed values) (\<lambda>v.
               case v of
                 None \<Rightarrow> Inr (computed, values)
               | Some v \<Rightarrow> Inr (computed[idx := True], values[idx := v])))"

fun ip_loop :: "son_program \<Rightarrow> s64 list \<Rightarrow> u32 list \<Rightarrow> bool list \<times> s64 list \<Rightarrow> interp_error + bool list \<times> s64 list" where
  "ip_loop p params [] st = Inr st"
| "ip_loop p params (slot # slots) st = rbind (ip_step p params slot st) (ip_loop p params slots)"

definition ip_evaluate :: "son_program \<Rightarrow> s64 list \<Rightarrow> interp_error + s64" where
  "ip_evaluate p params =
     (let a = pg_arena p; n = length (sa_kinds a) in
      case nth_opt (sa_kinds a) (unat (pg_root p)) of
        None \<Rightarrow> Inl DeadRoot
      | Some KDead \<Rightarrow> Inl DeadRoot
      | Some _ \<Rightarrow>
          rbind (ip_loop p params (map word_of_nat [0 ..< n]) (replicate n False, replicate n 0)) (\<lambda>(computed, values).
            case ip_resolve a n (pg_root p) of
              None \<Rightarrow> Inl DeadRoot
            | Some t \<Rightarrow> if \<not> computed ! unat t then Inl DeadRoot else Inr (values ! unat t)))"

section \<open>Candidates\<close>

record node_def =
  df_kind :: son_kind
  df_imm :: s64
  df_opcode :: u8
  df_lhs :: u32
  df_rhs :: u32

datatype overlay = Replace u32 node_def | Extend node_def

fun is_extend :: "overlay \<Rightarrow> bool" where
  "is_extend (Extend _) = True"
| "is_extend (Replace _ _) = False"

record candidate =
  cd_base :: son_program
  cd_overlays :: "overlay list"
  cd_root :: u32

definition from_program :: "son_program \<Rightarrow> candidate" where
  "from_program base = \<lparr>cd_base = base, cd_overlays = [], cd_root = pg_root base\<rparr>"

definition base_len :: "candidate \<Rightarrow> nat" where
  "base_len c = length (sa_kinds (pg_arena (cd_base c)))"

definition cd_slot_count :: "candidate \<Rightarrow> nat" where
  "cd_slot_count c = base_len c + length (filter is_extend (cd_overlays c))"

definition dead_def :: node_def where
  "dead_def = \<lparr>df_kind = KDead, df_imm = 0, df_opcode = 0, df_lhs = NO_OPERAND, df_rhs = NO_OPERAND\<rparr>"

definition base_def :: "son_arena \<Rightarrow> u32 \<Rightarrow> node_def" where
  "base_def a slot =
     (if slot < word_of_nat (length (sa_kinds a))
      then let i = unat slot in
        \<lparr>df_kind = sa_kinds a ! i, df_imm = sa_imms a ! i, df_opcode = sa_opcodes a ! i,
         df_lhs = sa_lhs a ! i, df_rhs = sa_rhs a ! i\<rparr>
      else dead_def)"

fun view_overlay :: "u32 \<Rightarrow> overlay \<Rightarrow> node_def \<times> u32 \<Rightarrow> node_def \<times> u32" where
  "view_overlay slot (Replace s d) (df, extend_idx) = (if s = slot then d else df, extend_idx)"
| "view_overlay slot (Extend d) (df, extend_idx) = (if extend_idx = slot then d else df, extend_idx + 1)"

definition view :: "candidate \<Rightarrow> u32 \<Rightarrow> node_def" where
  "view c slot =
     fst (fold (view_overlay slot) (cd_overlays c)
       (base_def (pg_arena (cd_base c)) slot, word_of_nat (base_len c)))"

text \<open>The alias walk of \<^verbatim>\<open>cand.rs\<close>, \<^verbatim>\<open>cost.rs\<close> and \<^verbatim>\<open>mutate.rs\<close>: \<open>n + 1\<close> rounds.\<close>

fun resolve_loop :: "candidate \<Rightarrow> nat \<Rightarrow> u32 \<Rightarrow> u32" where
  "resolve_loop c 0 cur = cur"
| "resolve_loop c (Suc k) cur =
     (let d = view c cur in
      if df_kind d = KAlias then if df_lhs d = NO_OPERAND then cur else resolve_loop c k (df_lhs d) else cur)"

definition resolve :: "candidate \<Rightarrow> u32 \<Rightarrow> u32" where
  "resolve c slot = resolve_loop c (cd_slot_count c + 1) slot"

text \<open>The reachability walk of \<^verbatim>\<open>materialize\<close> and of the dead-code mutation; the stack has its top first.\<close>

definition operands :: "candidate \<Rightarrow> node_def \<Rightarrow> u32 list" where
  "operands c d = map (resolve c) (filter (\<lambda>x. x \<noteq> NO_OPERAND) [df_lhs d, df_rhs d])"

lemma count_false_mark:
  "i < length bs \<Longrightarrow> \<not> bs ! i \<Longrightarrow> length (filter Not (bs[i := True])) < length (filter Not bs)"
proof (induction bs arbitrary: i)
  case (Cons b bs)
  then show ?case by (cases i) auto
qed simp

lemma length_operands: "length (operands c d) \<le> 2"
  by (auto simp: operands_def)

function reach_loop :: "candidate \<Rightarrow> bool list \<Rightarrow> u32 list \<Rightarrow> bool list" where
  "reach_loop c reachable [] = reachable"
| "reach_loop c reachable (s # stack) =
     (if s = NO_OPERAND \<or> unat s \<ge> length reachable \<or> reachable ! unat s then reach_loop c reachable stack
      else reach_loop c (reachable[unat s := True]) (rev (operands c (view c s)) @ stack))"
  by pat_completeness auto

termination
proof (relation "measure (\<lambda>(c, bs, st). 3 * length (filter Not bs) + length st)", goal_cases)
  case (3 c bs s stack)
  then show ?case using count_false_mark [of "unat s" bs] length_operands [of c "view c s"] by auto
qed auto

definition reachable_slots :: "candidate \<Rightarrow> bool list" where
  "reachable_slots c = reach_loop c (replicate (cd_slot_count c) False) [resolve c (cd_root c)]"

text \<open>Materialization: \<open>new_index\<close> holds \<open>- 1\<close> for pending and \<open>- 2\<close> for skipped slots.\<close>

definition SKIPPED :: u32 where "SKIPPED = - 2"

datatype operand_state = Ready u32 | NotReady | OperandSkipped

definition operand_state :: "candidate \<Rightarrow> u32 list \<Rightarrow> u32 \<Rightarrow> operand_state" where
  "operand_state c new_index x =
     (if x = NO_OPERAND then Ready NO_OPERAND
      else
        let st = (case nth_opt new_index (unat (resolve c x)) of Some i \<Rightarrow> i | None \<Rightarrow> - 1) in
        if st = - 1 then NotReady else if st = SKIPPED then OperandSkipped else Ready st)"

definition mat_slot :: "candidate \<Rightarrow> bool list \<Rightarrow> u32 \<Rightarrow> u32 list \<times> son_arena \<times> bool \<Rightarrow> u32 list \<times> son_arena \<times> bool" where
  "mat_slot c reachable slot = (\<lambda>(new_index, a, progress).
     if new_index ! unat slot \<noteq> - 1 then (new_index, a, progress)
     else
       let d = view c slot in
       if df_kind d = KDead \<or> df_kind d = KAlias \<or> \<not> reachable ! unat slot
       then (new_index[unat slot := SKIPPED], a, True)
       else
         case operand_state c new_index (df_lhs d) of
           OperandSkipped \<Rightarrow> (new_index, a, progress)
         | l \<Rightarrow>
             (case (l, operand_state c new_index (df_rhs d)) of
                (Ready l, Ready r) \<Rightarrow>
                  let a' = sa_push a (df_kind d) (df_imm d) (df_opcode d) l r in
                  (new_index[unat slot := sa_last a'], a', True)
              | _ \<Rightarrow> (new_index, a, progress)))"

fun mat_passes :: "candidate \<Rightarrow> bool list \<Rightarrow> nat \<Rightarrow> u32 list \<times> son_arena \<Rightarrow> u32 list \<times> son_arena" where
  "mat_passes c reachable 0 st = st"
| "mat_passes c reachable (Suc k) (new_index, a) =
     (case fold (mat_slot c reachable) (map word_of_nat [0 ..< cd_slot_count c]) (new_index, a, False) of
        (new_index', a', progress) \<Rightarrow>
          if progress then mat_passes c reachable k (new_index', a') else (new_index', a'))"

definition materialize :: "candidate \<Rightarrow> son_program" where
  "materialize c =
     (let n = cd_slot_count c;
          (new_index, a) = mat_passes c (reachable_slots c) (n + 1) (replicate n (- 1), sa_new);
          root_new = (case nth_opt new_index (unat (resolve c (cd_root c))) of
                        Some i \<Rightarrow> if i \<noteq> - 1 \<and> i \<noteq> SKIPPED then i else 0
                      | None \<Rightarrow> 0)
      in \<lparr>pg_arena = a, pg_root = root_new\<rparr>)"

definition hash_part :: "u64 \<Rightarrow> u64 \<Rightarrow> u64" where
  "hash_part h part = (h XOR part) * 0x100000001B3"

definition hash_slot :: "candidate \<Rightarrow> u32 \<Rightarrow> u64 \<Rightarrow> u64" where
  "hash_slot c slot h =
     (let d = view c slot in
      if df_kind d = KDead \<or> df_kind d = KAlias then h
      else foldl hash_part h
        ([ucast (kind_code (df_kind d)), ucast (df_opcode d), df_imm d XOR drop_bit 32 (df_imm d)] @
         map (\<lambda>x. if x = NO_OPERAND then ucast NO_OPERAND else ucast (resolve c x)) [df_lhs d, df_rhs d]))"

definition canonical_hash :: "candidate \<Rightarrow> u64" where
  "canonical_hash c =
     hash_part (fold (hash_slot c) (map word_of_nat [0 ..< cd_slot_count c]) 0xCBF29CE484222325) (ucast (cd_root c))"

section \<open>Costs\<close>

fun node_weight :: "son_kind \<Rightarrow> u8 \<Rightarrow> u64" where
  "node_weight KConst opc = 1"
| "node_weight KParam opc = 1"
| "node_weight KUn opc = (if opc = un_code SNeg then 1 else 2)"
| "node_weight KBin opc =
     (if opc = bin_code SAdd \<or> opc = bin_code SSub \<or> opc = bin_code SMin \<or> opc = bin_code SMax then 2
      else if opc = bin_code SMul then 3 else 2)"
| "node_weight KAlias opc = 0"
| "node_weight KDead opc = 0"

record cost =
  ct_total :: u64
  ct_depth :: u64

definition cost_slot :: "candidate \<Rightarrow> u32 \<Rightarrow> u64 list \<times> u64 \<times> u64 \<Rightarrow> u64 list \<times> u64 \<times> u64" where
  "cost_slot c slot = (\<lambda>(depths, tot, max_depth).
     let d = view c slot in
     if df_kind d = KDead \<or> df_kind d = KAlias then (depths, tot, max_depth)
     else
       let w = node_weight (df_kind d) (df_opcode d);
           child_depth = foldl (\<lambda>m x.
             if x = NO_OPERAND then m
             else let r = unat (resolve c x) in if r < length depths then max m (depths ! r) else m) 0 [df_lhs d, df_rhs d];
           dp = saturating_add w child_depth
       in (depths[unat slot := dp], saturating_add tot w, max max_depth dp))"

definition cost_evaluate :: "candidate \<Rightarrow> cost" where
  "cost_evaluate c =
     (case fold (cost_slot c) (map word_of_nat [0 ..< cd_slot_count c]) (replicate (cd_slot_count c) 0, 0, 0) of
        (_, tot, max_depth) \<Rightarrow> \<lparr>ct_total = tot, ct_depth = max_depth\<rparr>)"

section \<open>Random numbers and the transposition table\<close>

type_synonym rng_state = u64

definition rng_new :: "u64 \<Rightarrow> rng_state" where
  "rng_new seed = (if seed = 0 then 0x9E3779B97F4A7C15 else seed) OR 1"

definition next_u64 :: "rng_state \<Rightarrow> u64 \<times> rng_state" where
  "next_u64 s =
     (let x = s XOR drop_bit 12 s; x = x XOR push_bit 25 x; x = x XOR drop_bit 27 x
      in (x * 0x2545F4914F6CDD1D, x))"

definition rng_below :: "rng_state \<Rightarrow> u64 \<Rightarrow> u64 \<times> rng_state" where
  "rng_below s bound = (if bound = 0 then (0, s) else case next_u64 s of (v, s') \<Rightarrow> (v mod bound, s'))"

definition permille :: "rng_state \<Rightarrow> u64 \<times> rng_state" where
  "permille s = rng_below s 1000"

type_synonym transposition_table = "u64 set"

definition tt_new :: transposition_table where "tt_new = {}"

definition probe_and_insert :: "transposition_table \<Rightarrow> u64 \<Rightarrow> bool \<times> transposition_table" where
  "probe_and_insert seen h = (h \<notin> seen, insert h seen)"

section \<open>Mutations\<close>

datatype mutation_family = IdentityAdd | IdentityMul | SubSelf | ConstFold | CommuteNorm | ReassocAdd | Cse | DceFamily

definition FAMILIES :: "mutation_family list" where
  "FAMILIES = [IdentityAdd, IdentityMul, SubSelf, ConstFold, CommuteNorm, ReassocAdd, Cse, DceFamily]"

definition live_slots :: "candidate \<Rightarrow> u32 list" where
  "live_slots c =
     filter (\<lambda>s. let k = df_kind (view c s) in k \<noteq> KDead \<and> k \<noteq> KAlias) (map word_of_nat [0 ..< cd_slot_count c])"

definition random_live_slot :: "candidate \<Rightarrow> rng_state \<Rightarrow> u32 option \<times> rng_state" where
  "random_live_slot c s =
     (let live = live_slots c in
      if live = [] then (None, s)
      else case rng_below s (word_of_nat (length live)) of (i, s') \<Rightarrow> (Some (live ! unat i), s'))"

definition alias_def :: "u32 \<Rightarrow> node_def" where
  "alias_def target = \<lparr>df_kind = KAlias, df_imm = 0, df_opcode = 0, df_lhs = target, df_rhs = NO_OPERAND\<rparr>"

definition const_def :: "s64 \<Rightarrow> node_def" where
  "const_def v = \<lparr>df_kind = KConst, df_imm = v, df_opcode = 0, df_lhs = NO_OPERAND, df_rhs = NO_OPERAND\<rparr>"

definition push_overlay :: "candidate \<Rightarrow> overlay \<Rightarrow> candidate" where
  "push_overlay c ov = c\<lparr>cd_overlays := cd_overlays c @ [ov]\<rparr>"

definition is_const_val :: "node_def \<Rightarrow> s64 \<Rightarrow> bool" where
  "is_const_val d v \<longleftrightarrow> df_kind d = KConst \<and> df_imm d = v"

definition is_bin :: "node_def \<Rightarrow> son_bin_op \<Rightarrow> bool" where
  "is_bin d op \<longleftrightarrow> df_kind d = KBin \<and> df_opcode d = bin_code op"

text \<open>The arms \<^verbatim>\<open>IdentityAdd\<close> (unit 0) and \<^verbatim>\<open>IdentityMul\<close> (unit 1).\<close>

definition mutate_identity :: "candidate \<Rightarrow> son_bin_op \<Rightarrow> s64 \<Rightarrow> u32 \<Rightarrow> candidate option" where
  "mutate_identity c op unit slot =
     (let d = view c slot in
      if \<not> is_bin d op then None
      else
        let l = resolve c (df_lhs d); r = resolve c (df_rhs d) in
        if is_const_val (view c l) unit then Some (push_overlay c (Replace slot (alias_def r)))
        else if is_const_val (view c r) unit then Some (push_overlay c (Replace slot (alias_def l)))
        else None)"

definition mutate_sub_self :: "candidate \<Rightarrow> u32 \<Rightarrow> candidate option" where
  "mutate_sub_self c slot =
     (let d = view c slot in
      if \<not> is_bin d SSub then None
      else if resolve c (df_lhs d) = resolve c (df_rhs d)
      then Some (push_overlay c (Replace slot (const_def 0))) else None)"

definition checked_s64 :: "int \<Rightarrow> s64 option" where
  "checked_s64 x = (if in_i64 x then Some (word_of_int x) else None)"

definition fold_const :: "u8 \<Rightarrow> s64 \<Rightarrow> s64 \<Rightarrow> s64 option" where
  "fold_const opc x y =
     (if opc = bin_code SAdd then checked_s64 (sint x + sint y)
      else if opc = bin_code SSub then checked_s64 (sint x - sint y)
      else if opc = bin_code SMul then checked_s64 (sint x * sint y)
      else if opc = bin_code SMin then Some (smin x y)
      else if opc = bin_code SMax then Some (smax x y)
      else None)"

definition mutate_const_fold :: "candidate \<Rightarrow> u32 \<Rightarrow> candidate option" where
  "mutate_const_fold c slot =
     (let d = view c slot in
      if df_kind d \<noteq> KBin then None
      else
        let ld = view c (resolve c (df_lhs d)); rd = view c (resolve c (df_rhs d)) in
        if df_kind ld \<noteq> KConst \<or> df_kind rd \<noteq> KConst then None
        else map_option (\<lambda>v. push_overlay c (Replace slot (const_def v))) (fold_const (df_opcode d) (df_imm ld) (df_imm rd)))"

definition commutative :: "u8 \<Rightarrow> bool" where
  "commutative opc \<longleftrightarrow> opc = bin_code SAdd \<or> opc = bin_code SMul \<or> opc = bin_code SMin \<or> opc = bin_code SMax"

definition commute_key :: "candidate \<Rightarrow> u32 \<Rightarrow> u8 \<times> int \<times> u32" where
  "commute_key c s = (let d = view c s in (kind_code (df_kind d), sint (df_imm d), s))"

definition mutate_commute :: "candidate \<Rightarrow> u32 \<Rightarrow> candidate option" where
  "mutate_commute c slot =
     (let d = view c slot in
      if df_kind d \<noteq> KBin then None
      else if \<not> commutative (df_opcode d) then None
      else if commute_key c (resolve c (df_lhs d)) \<le> commute_key c (resolve c (df_rhs d)) then None
      else Some (push_overlay c (Replace slot (d\<lparr>df_lhs := df_rhs d, df_rhs := df_lhs d\<rparr>))))"

definition mutate_reassoc :: "candidate \<Rightarrow> u32 \<Rightarrow> candidate option" where
  "mutate_reassoc c slot =
     (let d = view c slot in
      if \<not> is_bin d SAdd then None
      else
        let ld = view c (resolve c (df_lhs d)); rd = view c (resolve c (df_rhs d)) in
        if \<not> is_bin ld SAdd then None
        else
          let inner_l = resolve c (df_lhs ld); inner_r = resolve c (df_rhs ld);
              ild = view c inner_l; ird = view c inner_r
          in case (if df_kind ird = KConst \<and> df_kind rd = KConst then Some (inner_l, df_imm ird, df_imm rd)
                   else if df_kind ild = KConst \<and> df_kind rd = KConst then Some (inner_r, df_imm ild, df_imm rd)
                   else None) of
               None \<Rightarrow> None
             | Some (x, c1, c2) \<Rightarrow>
                 map_option (\<lambda>v.
                   let out = push_overlay c (Extend (const_def v)); new_const = word_of_nat (cd_slot_count out - 1)
                   in push_overlay out (Replace slot
                        \<lparr>df_kind = KBin, df_imm = 0, df_opcode = bin_code SAdd, df_lhs = x, df_rhs = new_const\<rparr>))
                   (checked_s64 (sint c1 + sint c2)))"

definition cse_key :: "candidate \<Rightarrow> u32 \<Rightarrow> u8 \<times> u8 \<times> int \<times> u32 \<times> u32" where
  "cse_key c s =
     (let d = view c s; res = (\<lambda>x. if x = NO_OPERAND then NO_OPERAND else resolve c x)
      in (kind_code (df_kind d), df_opcode d, sint (df_imm d), res (df_lhs d), res (df_rhs d)))"

fun first_twins :: "('k \<times> 'a) list \<Rightarrow> ('a \<times> 'a) option" where
  "first_twins ((k, a) # (k', b) # xs) = (if k = k' then Some (a, b) else first_twins ((k', b) # xs))"
| "first_twins _ = None"

definition mutate_cse :: "candidate \<Rightarrow> candidate option" where
  "mutate_cse c =
     (let defs = sort_key fst (map (\<lambda>s. (cse_key c s, s)) (live_slots c))
      in map_option (\<lambda>(a, b). push_overlay c (Replace b (alias_def a))) (first_twins defs))"

definition mutate_dce :: "candidate \<Rightarrow> candidate option" where
  "mutate_dce c =
     (let reachable = reachable_slots c in
      case List.find (\<lambda>s. let d = view c s in
             \<not> reachable ! unat s \<and> df_kind d \<noteq> KDead \<and> df_kind d \<noteq> KAlias) (map word_of_nat [0 ..< cd_slot_count c]) of
        None \<Rightarrow> None
      | Some s \<Rightarrow> Some (push_overlay c (Replace s dead_def)))"

definition at_random :: "candidate \<Rightarrow> rng_state \<Rightarrow> (u32 \<Rightarrow> candidate option) \<Rightarrow> candidate option \<times> rng_state" where
  "at_random c s f =
     (case random_live_slot c s of (None, s') \<Rightarrow> (None, s') | (Some slot, s') \<Rightarrow> (f slot, s'))"

fun mutate_apply :: "candidate \<Rightarrow> mutation_family \<Rightarrow> rng_state \<Rightarrow> candidate option \<times> rng_state" where
  "mutate_apply c IdentityAdd s = at_random c s (mutate_identity c SAdd 0)"
| "mutate_apply c IdentityMul s = at_random c s (mutate_identity c SMul 1)"
| "mutate_apply c SubSelf s = at_random c s (mutate_sub_self c)"
| "mutate_apply c ConstFold s = at_random c s (mutate_const_fold c)"
| "mutate_apply c CommuteNorm s = at_random c s (mutate_commute c)"
| "mutate_apply c ReassocAdd s = at_random c s (mutate_reassoc c)"
| "mutate_apply c Cse s = (mutate_cse c, s)"
| "mutate_apply c DceFamily s = (mutate_dce c, s)"

section \<open>Structural legality\<close>

definition slot_legal :: "candidate \<Rightarrow> u32 \<Rightarrow> bool" where
  "slot_legal c slot \<longleftrightarrow>
     (let n = word_of_nat (cd_slot_count c); d = view c slot in
      case df_kind d of
        KConst \<Rightarrow> df_lhs d = NO_OPERAND \<and> df_rhs d = NO_OPERAND
      | KParam \<Rightarrow> df_lhs d = NO_OPERAND \<and> df_rhs d = NO_OPERAND
      | KBin \<Rightarrow> df_lhs d \<noteq> NO_OPERAND \<and> df_rhs d \<noteq> NO_OPERAND \<and> df_lhs d < n \<and> df_rhs d < n
      | KUn \<Rightarrow> df_lhs d \<noteq> NO_OPERAND \<and> df_lhs d < n \<and> df_rhs d = NO_OPERAND
      | KAlias \<Rightarrow> df_lhs d \<noteq> NO_OPERAND \<and> df_lhs d < n \<and> df_rhs d = NO_OPERAND
      | KDead \<Rightarrow> True)"

definition tier0_legal :: "candidate \<Rightarrow> bool" where
  "tier0_legal c \<longleftrightarrow>
     list_all (slot_legal c) (map word_of_nat [0 ..< cd_slot_count c]) \<and>
     cd_root c < word_of_nat (cd_slot_count c) \<and> df_kind (view c (cd_root c)) \<noteq> KDead"

end
