(* ===== verification/Mss_Correct.thy ===== *)
theory Mss_Correct
  imports Mss "HOL-Library.Multiset"
begin

text \<open>
  The mutations of the superoptimiser keep the value of a program. The meaning of a slot is given by rules over the
  overlaid view of a candidate; every mutation family maps a candidate whose root means \<open>v\<close> to one whose root means
  \<open>v\<close>, for all parameters.
\<close>

section \<open>The meaning of a slot\<close>

inductive meaning :: "(u32 \<Rightarrow> node_def) \<Rightarrow> s64 list \<Rightarrow> u32 \<Rightarrow> s64 \<Rightarrow> bool" for w ps where
  m_const: "df_kind (w s) = KConst \<Longrightarrow> meaning w ps s (df_imm (w s))"
| m_param: "df_kind (w s) = KParam \<Longrightarrow> 0 \<le> sint (df_imm (w s)) \<Longrightarrow> unat (df_imm (w s)) < length ps \<Longrightarrow>
    meaning w ps s (ps ! unat (df_imm (w s)))"
| m_alias: "df_kind (w s) = KAlias \<Longrightarrow> df_lhs (w s) \<noteq> NO_OPERAND \<Longrightarrow> meaning w ps (df_lhs (w s)) v \<Longrightarrow> meaning w ps s v"
| m_bin: "df_kind (w s) = KBin \<Longrightarrow> meaning w ps (df_lhs (w s)) x \<Longrightarrow> meaning w ps (df_rhs (w s)) y \<Longrightarrow>
    eval_bin (df_opcode (w s)) x y = Some v \<Longrightarrow> meaning w ps s v"
| m_un: "df_kind (w s) = KUn \<Longrightarrow> meaning w ps (df_lhs (w s)) x \<Longrightarrow> eval_un (df_opcode (w s)) x = Some v \<Longrightarrow>
    meaning w ps s v"

inductive_cases meaningE: "meaning w ps s v"

lemma meaning_const: "df_kind (w s) = KConst \<Longrightarrow> meaning w ps s v \<longleftrightarrow> v = df_imm (w s)"
  by (auto elim: meaningE intro: m_const)

lemma meaning_alias:
  "df_kind (w s) = KAlias \<Longrightarrow> meaning w ps s v \<longleftrightarrow> df_lhs (w s) \<noteq> NO_OPERAND \<and> meaning w ps (df_lhs (w s)) v"
  by (auto elim: meaningE intro: m_alias)

lemma meaning_bin:
  "df_kind (w s) = KBin \<Longrightarrow> meaning w ps s v \<longleftrightarrow>
     (\<exists>x y. meaning w ps (df_lhs (w s)) x \<and> meaning w ps (df_rhs (w s)) y \<and> eval_bin (df_opcode (w s)) x y = Some v)"
  by (subst meaning.simps) auto

lemma meaning_un:
  "df_kind (w s) = KUn \<Longrightarrow> meaning w ps s v \<longleftrightarrow>
     (\<exists>x. meaning w ps (df_lhs (w s)) x \<and> eval_un (df_opcode (w s)) x = Some v)"
  by (subst meaning.simps) auto

lemma meaning_param:
  "df_kind (w s) = KParam \<Longrightarrow> meaning w ps s v \<longleftrightarrow>
     0 \<le> sint (df_imm (w s)) \<and> unat (df_imm (w s)) < length ps \<and> v = ps ! unat (df_imm (w s))"
  by (auto elim: meaningE intro: m_param)

lemma meaning_dead: "df_kind (w s) = KDead \<Longrightarrow> \<not> meaning w ps s v"
  by (auto elim: meaningE)

lemmas meaning_kind = meaning_const meaning_param meaning_alias meaning_bin meaning_un meaning_dead

lemma meaning_det: "meaning w ps s x \<Longrightarrow> meaning w ps s y \<Longrightarrow> x = y"
proof (induction arbitrary: y rule: meaning.induct)
  case (m_bin s x y v)
  then show ?case by (metis meaning_bin option.inject)
next
  case (m_un s x v)
  then show ?case by (metis meaning_un option.inject)
qed (auto simp: meaning_kind)

text \<open>
  Rewriting: when every slot of the new view means what the rule for the old slot gives, with its operands related
  in both views, the old meanings carry over.
\<close>

lemma meaning_transfer:
  assumes "meaning w ps s v"
    and "\<And>s v. w' s \<noteq> w s \<Longrightarrow> meaning w ps s v \<Longrightarrow>
      (\<And>u. df_kind (w s) \<in> {KBin, KUn, KAlias} \<Longrightarrow> meaning w ps (df_lhs (w s)) u \<Longrightarrow> meaning w' ps (df_lhs (w s)) u) \<Longrightarrow>
      (\<And>u. df_kind (w s) = KBin \<Longrightarrow> meaning w ps (df_rhs (w s)) u \<Longrightarrow> meaning w' ps (df_rhs (w s)) u) \<Longrightarrow>
      meaning w' ps s v"
  shows "meaning w' ps s v"
  using assms(1)
proof (induction rule: meaning.induct)
  case (m_const s)
  then show ?case using assms(2) [of s] meaning.m_const [of w s ps] meaning.m_const [of w' s ps] by (metis insertE empty_iff son_kind.distinct)
next
  case (m_param s)
  then show ?case using assms(2) [of s] meaning.m_param [of w s ps] meaning.m_param [of w' s ps] by (metis insertE empty_iff son_kind.distinct)
next
  case (m_alias s v)
  show ?case
  proof (cases "w' s = w s")
    case True
    then show ?thesis using m_alias meaning.m_alias [of w' s ps] by simp
  next
    case False
    then show ?thesis
      by (rule assms(2)) (use m_alias meaning.m_alias [of w s ps v] meaning_det in \<open>blast, blast, simp\<close>)
  qed
next
  case (m_bin s x y v)
  show ?case
  proof (cases "w' s = w s")
    case True
    then show ?thesis using m_bin meaning.m_bin [of w' s ps x y v] by simp
  next
    case False
    then show ?thesis
      by (rule assms(2)) (use m_bin meaning.m_bin [of w s ps x y v] meaning_det in \<open>blast+\<close>)
  qed
next
  case (m_un s x v)
  show ?case
  proof (cases "w' s = w s")
    case True
    then show ?thesis using m_un meaning.m_un [of w' s ps x v] by simp
  next
    case False
    then show ?thesis
      by (rule assms(2)) (use m_un meaning.m_un [of w s ps x v] meaning_det in \<open>blast, blast, simp\<close>)
  qed
qed

section \<open>Views and the alias walk\<close>

lemma view_fold_idx: "snd (fold (view_overlay s) ovs (d, i)) = i + word_of_nat (length (filter is_extend ovs))"
proof (induction ovs arbitrary: d i)
  case (Cons ov ovs)
  then show ?case by (cases ov) auto
qed simp

lemma view_overlay_pair:
  "view_overlay s (Replace t d) p = (if t = s then d else fst p, snd p)"
  "view_overlay s (Extend d) p = (if snd p = s then d else fst p, snd p + 1)"
  by (cases p; simp)+

lemma view_push:
  "view (push_overlay c (Replace t d)) s = (if s = t then d else view c s)"
  "view (push_overlay c (Extend d)) s = (if s = word_of_nat (cd_slot_count c) then d else view c s)"
  by (auto simp: view_def push_overlay_def base_len_def cd_slot_count_def view_overlay_pair view_fold_idx)

lemma slot_count_push:
  "cd_slot_count (push_overlay c (Replace t d)) = cd_slot_count c"
  "cd_slot_count (push_overlay c (Extend d)) = Suc (cd_slot_count c)"
  by (simp_all add: push_overlay_def cd_slot_count_def base_len_def)

lemma push_sel [simp]:
  "cd_root (push_overlay c ov) = cd_root c" "cd_overlays (push_overlay c ov) = cd_overlays c @ [ov]"
  "cd_base (push_overlay c ov) = cd_base c"
  by (simp_all add: push_overlay_def)

text \<open>A candidate is well formed when its replacements name existing slots and its slots fit a handle.\<close>

definition cand_wf :: "candidate \<Rightarrow> bool" where
  "cand_wf c \<longleftrightarrow> cd_slot_count c < 2 ^ 32 - 1 \<and>
     list_all (\<lambda>ov. case ov of Replace s _ \<Rightarrow> unat s < cd_slot_count c | Extend _ \<Rightarrow> True) (cd_overlays c)"

lemma cand_wf_replace: "cand_wf c \<Longrightarrow> unat s < cd_slot_count c \<Longrightarrow> cand_wf (push_overlay c (Replace s d))"
  by (auto simp: cand_wf_def slot_count_push list_all_iff split: overlay.splits)

lemma cand_wf_extend:
  "cand_wf c \<Longrightarrow> Suc (cd_slot_count c) < 2 ^ 32 - 1 \<Longrightarrow> cand_wf (push_overlay c (Extend d))"
  by (auto simp: cand_wf_def slot_count_push list_all_iff less_Suc_eq split: overlay.splits)

lemma view_outside_fold:
  assumes "list_all (\<lambda>ov. case ov of Replace t _ \<Rightarrow> unat t < n | Extend _ \<Rightarrow> True) ovs"
    and "m + length (filter is_extend ovs) \<le> n" and "n < 2 ^ 32" and "n \<le> unat s"
  shows "fst (fold (view_overlay s) ovs (d, word_of_nat m)) = d"
  using assms(1,2)
proof (induction ovs arbitrary: m)
  case (Cons ov ovs)
  show ?case
  proof (cases ov)
    case (Replace t e)
    then show ?thesis using Cons assms(4) by auto
  next
    case (Extend e)
    then have "m < n" using Cons.prems by simp
    then have "(word_of_nat m :: u32) \<noteq> s" using assms(3,4) by (auto simp: unat_of_nat_small)
    then show ?thesis using Extend Cons.IH [of "Suc m"] Cons.prems by (simp add: add.commute)
  qed
qed simp

lemma view_outside: "cand_wf c \<Longrightarrow> cd_slot_count c \<le> unat s \<Longrightarrow> view c s = dead_def"
proof -
  assume c: "cand_wf c" "cd_slot_count c \<le> unat s"
  then have "base_len c < 2 ^ 32" "base_len c \<le> unat s" by (auto simp: cand_wf_def cd_slot_count_def)
  then have "\<not> s < word_of_nat (base_len c)" by (simp add: word_less_nat_alt unat_of_nat_small)
  then show ?thesis using c view_outside_fold [of "cd_slot_count c" "cd_overlays c" "base_len c" s]
    by (simp add: view_def cand_wf_def base_def_def base_len_def cd_slot_count_def)
qed

lemma dead_def_kind [simp]: "df_kind dead_def = KDead"
  by (simp add: dead_def_def)

lemma alias_def_sel [simp]: "df_kind (alias_def t) = KAlias" "df_lhs (alias_def t) = t"
  by (simp_all add: alias_def_def)

lemma const_def_sel [simp]: "df_kind (const_def v) = KConst" "df_imm (const_def v) = v"
  by (simp_all add: const_def_def)

lemma meaning_in_range: "cand_wf c \<Longrightarrow> meaning (view c) ps s v \<Longrightarrow> unat s < cd_slot_count c"
  using view_outside [of c s] meaning_dead [of "view c" s] by fastforce

lemma NO_OPERAND_dead: "cand_wf c \<Longrightarrow> \<not> meaning (view c) ps NO_OPERAND v"
  using meaning_in_range [of c ps NO_OPERAND v] by (auto simp: cand_wf_def NO_OPERAND_def unat_minus_one_eq)

text \<open>The alias walk of \<open>c\<close> keeps meanings in every view that has the aliases of \<open>c\<close>.\<close>

lemma resolve_loop_meaning:
  assumes "\<And>t. df_kind (view c t) = KAlias \<Longrightarrow> w t = view c t"
  shows "meaning w ps (resolve_loop c k s) v \<longleftrightarrow> meaning w ps s v"
proof (induction k arbitrary: s)
  case (Suc k)
  show ?case
  proof (cases "df_kind (view c s) = KAlias \<and> df_lhs (view c s) \<noteq> NO_OPERAND")
    case True
    then show ?thesis using Suc [of "df_lhs (view c s)"] assms [of s] meaning_alias [of w s] by simp
  qed (auto simp: Let_def)
qed simp

lemma resolve_meaning:
  "(\<And>t. df_kind (view c t) = KAlias \<Longrightarrow> w t = view c t) \<Longrightarrow> meaning w ps (resolve c s) v \<longleftrightarrow> meaning w ps s v"
  unfolding resolve_def by (rule resolve_loop_meaning)

lemmas resolve_meaning_self = resolve_meaning [where w = "view c" and c = c for c, OF refl]

section \<open>The arithmetic of the rules\<close>

lemma s64_word [simp]: "word_of_int (sint (x :: s64)) = x"
  by simp

lemma checked_s64_eq:
  "checked_s64 (sint x + sint y) = Some z \<Longrightarrow> z = x + y"
  "checked_s64 (sint x - sint y) = Some z \<Longrightarrow> z = x - y"
  "checked_s64 (sint x * sint y) = Some z \<Longrightarrow> z = x * y"
  by (auto simp: checked_s64_def wi_hom_syms [symmetric] split: if_splits)

lemma fold_const_eval: "fold_const opc x y = Some v \<Longrightarrow> eval_bin opc x y = Some v"
  by (auto simp: fold_const_def eval_bin_def dest: checked_s64_eq split: if_splits)

lemma smin_commute: "smin x y = smin y x" and smax_commute: "smax x y = smax y x"
  using signed_word_eqI [of x y] by (auto simp: smin_def smax_def)

lemma eval_bin_codes:
  "eval_bin (bin_code SAdd) x y = Some (x + y)" "eval_bin (bin_code SSub) x y = Some (x - y)"
  "eval_bin (bin_code SMul) x y = Some (x * y)" "eval_bin (bin_code SMin) x y = Some (smin x y)"
  "eval_bin (bin_code SMax) x y = Some (smax x y)"
  by (simp_all add: eval_bin_def)

lemma eval_bin_commute:
  assumes "commutative opc"
  shows "eval_bin opc x y = eval_bin opc y x"
proof -
  from assms consider (add) "opc = bin_code SAdd" | (mul) "opc = bin_code SMul" | (min) "opc = bin_code SMin" | (max) "opc = bin_code SMax"
    unfolding commutative_def by blast
  then show ?thesis
  proof cases
    case add
    show ?thesis unfolding add eval_bin_codes by simp
  next
    case mul
    show ?thesis unfolding mul eval_bin_codes by simp
  next
    case min
    show ?thesis unfolding min eval_bin_codes by (subst smin_commute) (rule refl)
  next
    case max
    show ?thesis unfolding max eval_bin_codes by (subst smax_commute) (rule refl)
  qed
qed

section \<open>Soundness of the families\<close>

text \<open>
  A family that rewrites one binary site: it is enough to derive the new definition's meaning from the resolved
  operands, known in the old and in the new view.
\<close>

lemma rewrite_bin:
  assumes site: "df_kind (view c t) = KBin"
    and agree: "\<And>s. s \<noteq> t \<Longrightarrow> w s = view c s \<or> df_kind (view c s) = KDead"
    and rule: "\<And>x y v. meaning (view c) ps (resolve c (df_lhs (view c t))) x \<Longrightarrow>
      meaning (view c) ps (resolve c (df_rhs (view c t))) y \<Longrightarrow> eval_bin (df_opcode (view c t)) x y = Some v \<Longrightarrow>
      meaning w ps (resolve c (df_lhs (view c t))) x \<Longrightarrow> meaning w ps (resolve c (df_rhs (view c t))) y \<Longrightarrow>
      meaning (view c) ps t v \<Longrightarrow> meaning w ps t v"
    and m: "meaning (view c) ps s v"
  shows "meaning w ps s v"
proof (rule meaning_transfer [OF m])
  fix s v
  assume new: "w s \<noteq> view c s" and old: "meaning (view c) ps s v"
    and l: "\<And>u. df_kind (view c s) \<in> {KBin, KUn, KAlias} \<Longrightarrow> meaning (view c) ps (df_lhs (view c s)) u \<Longrightarrow>
      meaning w ps (df_lhs (view c s)) u"
    and r: "\<And>u. df_kind (view c s) = KBin \<Longrightarrow> meaning (view c) ps (df_rhs (view c s)) u \<Longrightarrow>
      meaning w ps (df_rhs (view c s)) u"
  have "s = t" using new agree [of s] old meaning_dead [of "view c" s] by blast
  have al: "w u = view c u" if "df_kind (view c u) = KAlias" for u
    using that agree [of u] site by (cases "u = t") auto
  from old site obtain x y where xy: "meaning (view c) ps (df_lhs (view c t)) x" "meaning (view c) ps (df_rhs (view c t)) y"
      "eval_bin (df_opcode (view c t)) x y = Some v"
    unfolding \<open>s = t\<close> using meaning_bin [of "view c" t] by blast
  have "meaning w ps (df_lhs (view c t)) x" "meaning w ps (df_rhs (view c t)) y"
    using l r xy site unfolding \<open>s = t\<close> by simp_all
  then show "meaning w ps s v" unfolding \<open>s = t\<close>
    using rule [of x y v] xy old [unfolded \<open>s = t\<close>] resolve_meaning [of c w, OF al] resolve_meaning_self [of c] by blast
qed

text \<open>What a family promises: the child is well formed, has the root of its parent, and every meaning of the root.\<close>

definition keeps_root :: "candidate \<Rightarrow> candidate \<Rightarrow> bool" where
  "keeps_root c c' \<longleftrightarrow> cand_wf c' \<and> cd_root c' = cd_root c \<and> cd_base c' = cd_base c \<and>
     cd_slot_count c' \<le> Suc (cd_slot_count c) \<and>
     (\<forall>ps v. meaning (view c) ps (cd_root c) v \<longrightarrow> meaning (view c') ps (cd_root c') v)"

lemma keeps_root_replace:
  assumes "cand_wf c" "unat t < cd_slot_count c" "df_kind (view c t) = KBin"
    and "\<And>ps x y v. meaning (view c) ps (resolve c (df_lhs (view c t))) x \<Longrightarrow>
      meaning (view c) ps (resolve c (df_rhs (view c t))) y \<Longrightarrow> eval_bin (df_opcode (view c t)) x y = Some v \<Longrightarrow>
      meaning (view (push_overlay c (Replace t d))) ps (resolve c (df_lhs (view c t))) x \<Longrightarrow>
      meaning (view (push_overlay c (Replace t d))) ps (resolve c (df_rhs (view c t))) y \<Longrightarrow>
      meaning (view (push_overlay c (Replace t d))) ps t v"
  shows "keeps_root c (push_overlay c (Replace t d))"
  unfolding keeps_root_def
  using assms rewrite_bin [OF assms(3), of "view (push_overlay c (Replace t d))"]
  by (simp add: cand_wf_replace slot_count_push) (metis assms(4) view_push(1))

lemma mutate_identity_sound:
  assumes "cand_wf c" "unat t < cd_slot_count c" "mutate_identity c op u t = Some c'"
    and "\<And>x. eval_bin (bin_code op) u x = Some x" "\<And>x. eval_bin (bin_code op) x u = Some x"
  shows "keeps_root c c'"
proof -
  define d where "d = view c t"
  have site: "df_kind (view c t) = KBin" "df_opcode (view c t) = bin_code op"
    using assms(3) by (auto simp: mutate_identity_def is_bin_def Let_def split: if_splits)
  consider (l) "is_const_val (view c (resolve c (df_lhs (view c t)))) u"
      "c' = push_overlay c (Replace t (alias_def (resolve c (df_rhs (view c t)))))"
    | (r) "is_const_val (view c (resolve c (df_rhs (view c t)))) u"
      "c' = push_overlay c (Replace t (alias_def (resolve c (df_lhs (view c t)))))"
    using assms(3) by (auto simp: mutate_identity_def Let_def split: if_splits)
  then show ?thesis
  proof cases
    case l
    show ?thesis unfolding l(2)
    proof (rule keeps_root_replace [OF assms(1,2) site(1)])
      fix ps x y v
      let ?w = "view (push_overlay c (Replace t (alias_def (resolve c (df_rhs (view c t))))))"
      assume a: "meaning (view c) ps (resolve c (df_lhs (view c t))) x" "eval_bin (df_opcode (view c t)) x y = Some v"
        "meaning (view c) ps (resolve c (df_rhs (view c t))) y" "meaning ?w ps (resolve c (df_rhs (view c t))) y"
      have "x = u" using a(1) l(1) by (simp add: is_const_val_def meaning_const)
      then have "v = y" using a(2) site(2) assms(4) by simp
      moreover have "resolve c (df_rhs (view c t)) \<noteq> NO_OPERAND" using NO_OPERAND_dead [OF assms(1), of ps y] a(3) by auto
      ultimately show "meaning ?w ps t v" using a(4) by (simp add: meaning_alias view_push)
    qed
  next
    case r
    show ?thesis unfolding r(2)
    proof (rule keeps_root_replace [OF assms(1,2) site(1)])
      fix ps x y v
      let ?w = "view (push_overlay c (Replace t (alias_def (resolve c (df_lhs (view c t))))))"
      assume a: "meaning (view c) ps (resolve c (df_lhs (view c t))) x" "eval_bin (df_opcode (view c t)) x y = Some v"
        "meaning (view c) ps (resolve c (df_rhs (view c t))) y" "meaning ?w ps (resolve c (df_lhs (view c t))) x"
      have "y = u" using a(3) r(1) by (simp add: is_const_val_def meaning_const)
      then have "v = x" using a(2) site(2) assms(5) by simp
      moreover have "resolve c (df_lhs (view c t)) \<noteq> NO_OPERAND" using NO_OPERAND_dead [OF assms(1), of ps x] a(1) by auto
      ultimately show "meaning ?w ps t v" using a(4) by (simp add: meaning_alias view_push)
    qed
  qed
qed

lemma mutate_sub_self_sound:
  assumes "cand_wf c" "unat t < cd_slot_count c" "mutate_sub_self c t = Some c'"
  shows "keeps_root c c'"
proof -
  have site: "df_kind (view c t) = KBin" "df_opcode (view c t) = bin_code SSub"
      "resolve c (df_lhs (view c t)) = resolve c (df_rhs (view c t))"
    and c': "c' = push_overlay c (Replace t (const_def 0))"
    using assms(3) by (auto simp: mutate_sub_self_def is_bin_def Let_def split: if_splits)
  show ?thesis unfolding c'
  proof (rule keeps_root_replace [OF assms(1,2) site(1)])
    fix ps x y v
    assume "meaning (view c) ps (resolve c (df_lhs (view c t))) x" "meaning (view c) ps (resolve c (df_rhs (view c t))) y"
      "eval_bin (df_opcode (view c t)) x y = Some v"
    then have "x = y" "eval_bin (bin_code SSub) x y = Some v" using site meaning_det [of "view c" ps] by simp_all
    then have "v = 0" by (simp only: eval_bin_codes) simp
    then show "meaning (view (push_overlay c (Replace t (const_def 0)))) ps t v" by (simp add: meaning_const view_push)
  qed
qed

lemma mutate_const_fold_sound:
  assumes "cand_wf c" "unat t < cd_slot_count c" "mutate_const_fold c t = Some c'"
  shows "keeps_root c c'"
proof -
  let ?l = "view c (resolve c (df_lhs (view c t)))" and ?r = "view c (resolve c (df_rhs (view c t)))"
  obtain k where site: "df_kind (view c t) = KBin" "df_kind ?l = KConst" "df_kind ?r = KConst"
      "fold_const (df_opcode (view c t)) (df_imm ?l) (df_imm ?r) = Some k"
    and c': "c' = push_overlay c (Replace t (const_def k))"
    using assms(3) by (auto simp: mutate_const_fold_def Let_def split: if_splits)
  show ?thesis unfolding c'
  proof (rule keeps_root_replace [OF assms(1,2) site(1)])
    fix ps x y v
    assume "meaning (view c) ps (resolve c (df_lhs (view c t))) x" "meaning (view c) ps (resolve c (df_rhs (view c t))) y"
      "eval_bin (df_opcode (view c t)) x y = Some v"
    then have "v = k" using site fold_const_eval by (simp add: meaning_const)
    then show "meaning (view (push_overlay c (Replace t (const_def k)))) ps t v" by (simp add: meaning_const view_push)
  qed
qed

lemma mutate_commute_sound:
  assumes "cand_wf c" "unat t < cd_slot_count c" "mutate_commute c t = Some c'"
  shows "keeps_root c c'"
proof -
  define d where "d = (view c t)\<lparr>df_lhs := df_rhs (view c t), df_rhs := df_lhs (view c t)\<rparr>"
  have site: "df_kind (view c t) = KBin" "commutative (df_opcode (view c t))"
    and c': "c' = push_overlay c (Replace t d)"
    using assms(3) by (auto simp: mutate_commute_def d_def Let_def split: if_splits)
  show ?thesis unfolding c'
  proof (rule keeps_root_replace [OF assms(1,2) site(1)])
    fix ps x y v
    let ?w = "view (push_overlay c (Replace t d))"
    assume a: "eval_bin (df_opcode (view c t)) x y = Some v"
      "meaning ?w ps (resolve c (df_lhs (view c t))) x" "meaning ?w ps (resolve c (df_rhs (view c t))) y"
    have "?w s = view c s" if "df_kind (view c s) = KAlias" for s using that site by (auto simp: view_push)
    then have "meaning ?w ps (df_lhs (view c t)) x" "meaning ?w ps (df_rhs (view c t)) y"
      using a(2,3) resolve_meaning [of c ?w] by blast+
    moreover have "eval_bin (df_opcode (view c t)) y x = Some v" using a(1) eval_bin_commute [OF site(2)] by metis
    moreover have "?w t = d" "df_kind d = KBin" "df_lhs d = df_rhs (view c t)" "df_rhs d = df_lhs (view c t)"
      "df_opcode d = df_opcode (view c t)" using site by (simp_all add: view_push d_def)
    ultimately show "meaning ?w ps t v" using m_bin [of ?w t ps y x v] by simp
  qed
qed

lemma mutate_reassoc_sound:
  assumes wf: "cand_wf c" "Suc (cd_slot_count c) < 2 ^ 32 - 1" and t: "unat t < cd_slot_count c"
    and run: "mutate_reassoc c t = Some c'"
  shows "keeps_root c c'"
proof -
  let ?l = "resolve c (df_lhs (view c t))" and ?r = "resolve c (df_rhs (view c t))"
  let ?il = "resolve c (df_lhs (view c ?l))" and ?ir = "resolve c (df_rhs (view c ?l))"
  let ?n = "word_of_nat (cd_slot_count c) :: u32"
  have site: "df_kind (view c t) = KBin" "df_opcode (view c t) = bin_code SAdd"
      "df_kind (view c ?l) = KBin" "df_opcode (view c ?l) = bin_code SAdd" and rc: "df_kind (view c ?r) = KConst"
    using run by (auto simp: mutate_reassoc_def is_bin_def Let_def split: if_splits)
  obtain x y k where xy: "(x, y) = (?il, ?ir) \<or> (x, y) = (?ir, ?il)" and yc: "df_kind (view c y) = KConst"
      and k: "checked_s64 (sint (df_imm (view c y)) + sint (df_imm (view c ?r))) = Some k"
      and c': "c' = push_overlay (push_overlay c (Extend (const_def k)))
        (Replace t \<lparr>df_kind = KBin, df_imm = 0, df_opcode = bin_code SAdd, df_lhs = x, df_rhs = ?n\<rparr>)"
    using run by (auto simp: mutate_reassoc_def Let_def slot_count_push simp del: bin_code.simps split: if_splits)
  define w where "w = view c'"
  have nat_n: "unat ?n = cd_slot_count c" using wf by (simp add: unat_of_nat_small)
  then have tn: "t \<noteq> ?n" and dead: "df_kind (view c ?n) = KDead" using t view_outside [OF wf(1), of ?n] by auto
  have w: "w s = (if s = t then \<lparr>df_kind = KBin, df_imm = 0, df_opcode = bin_code SAdd, df_lhs = x, df_rhs = ?n\<rparr>
      else if s = ?n then const_def k else view c s)" for s
    by (simp add: w_def c' view_push)
  have wc: "w s = view c s" if "df_kind (view c s) \<noteq> KDead" "s \<noteq> t" for s using that dead by (auto simp: w)
  have al: "w s = view c s" if "df_kind (view c s) = KAlias" for s using that site(1) by (intro wc) auto
  have "meaning w ps s v" if m: "meaning (view c) ps s v" for ps s v
  proof (rule rewrite_bin [OF site(1) _ _ m])
    fix u v a b
    assume m: "meaning (view c) ps ?l a" "meaning (view c) ps ?r b" "eval_bin (df_opcode (view c t)) a b = Some v"
      "meaning w ps ?l a" "meaning (view c) ps t v"
    show "meaning w ps t v"
    proof (cases "?l = t")
      case True
      then show ?thesis using m(1,4,5) meaning_det by metis
    next
      case False
      then have wl: "w ?l = view c ?l" using site(3) by (intro wc) auto
      then obtain p q where "meaning w ps (df_lhs (view c ?l)) p" "meaning w ps (df_rhs (view c ?l)) q" and a: "Some a = Some (p + q)"
        using m(4) meaning_bin [of w ?l] site(3,4) eval_bin_codes(1) by metis
      then have pq: "meaning w ps ?il p" "meaning w ps ?ir q" using resolve_meaning [of c w, OF al] by blast+
      have "w y = view c y" using yc site(1) by (intro wc) auto
      then have y: "meaning w ps y e \<longleftrightarrow> e = df_imm (view c y)" for e using yc meaning_const [of w y] by simp
      obtain e where e: "meaning w ps x e" "p + q = e + df_imm (view c y)"
        using xy pq y by (auto simp: add.commute)
      have b: "b = df_imm (view c ?r)" using m(2) rc meaning_const [of "view c"] by simp
      have v: "v = a + b" using m(3) site(2) eval_bin_codes(1) by simp
      have n: "meaning w ps ?n k" using tn meaning_const [of w ?n] by (simp add: w)
      have "eval_bin (bin_code SAdd) e k = Some v"
        unfolding eval_bin_codes using v a b e(2) checked_s64_eq(1) [OF k] by (simp add: add.assoc)
      with e(1) n show ?thesis using meaning_bin [of w t] w [of t] by auto
    qed
  qed (use wc dead w in auto)
  moreover have "cand_wf c'" unfolding c'
    using wf t by (intro cand_wf_replace cand_wf_extend) (simp_all add: slot_count_push)
  ultimately show ?thesis unfolding keeps_root_def by (simp add: w_def c' slot_count_push)
qed

text \<open>Common subexpressions.\<close>

lemma first_twins_props:
  "first_twins xs = Some (a, b) \<Longrightarrow> distinct (map snd xs) \<Longrightarrow> \<exists>k. (k, a) \<in> set xs \<and> (k, b) \<in> set xs \<and> a \<noteq> b"
  by (induction xs rule: first_twins.induct) (fastforce split: if_splits)+

lemma live_slots_in_range: "cand_wf c \<Longrightarrow> s \<in> set (live_slots c) \<Longrightarrow> unat s < cd_slot_count c"
  by (auto simp: live_slots_def cand_wf_def unat_of_nat_small)

lemma distinct_slots: "n < 2 ^ 32 \<Longrightarrow> distinct (map word_of_nat [0 ..< n] :: u32 list)"
  by (simp add: distinct_map) (rule inj_on_inverseI [where g = unat], simp add: unat_of_nat_small)

lemma kind_code_inj: "kind_code k = kind_code k' \<Longrightarrow> k = k'"
  by (cases k; cases k') simp_all

lemma mutate_cse_twins:
  assumes "cand_wf c" "mutate_cse c = Some c'"
  shows "\<exists>a b. c' = push_overlay c (Replace b (alias_def a)) \<and> a \<noteq> b \<and> a \<in> set (live_slots c) \<and> b \<in> set (live_slots c) \<and>
    cse_key c a = cse_key c b"
proof -
  let ?defs = "sort_key fst (map (\<lambda>s. (cse_key c s, s)) (live_slots c))"
  obtain a b where ab: "first_twins ?defs = Some (a, b)" "c' = push_overlay c (Replace b (alias_def a))"
    using assms(2) by (auto simp: mutate_cse_def Let_def)
  have "distinct (live_slots c)" using assms(1) distinct_slots [of "cd_slot_count c"] by (simp add: live_slots_def cand_wf_def)
  moreover have "mset (map snd ?defs) = mset (live_slots c)" by (simp add: multiset.map_comp comp_def)
  ultimately have "distinct (map snd ?defs)" using mset_eq_imp_distinct_iff [of "map snd ?defs" "live_slots c"] by simp
  then obtain k where k: "(k, a) \<in> set ?defs" "(k, b) \<in> set ?defs" "a \<noteq> b" using first_twins_props [OF ab(1)] by blast
  then have "a \<in> set (live_slots c)" "b \<in> set (live_slots c)" "cse_key c a = cse_key c b" by auto
  with k(3) ab(2) show ?thesis by blast
qed

lemma mutate_cse_sound:
  assumes wf: "cand_wf c" and run: "mutate_cse c = Some c'"
  shows "keeps_root c c'"
proof -
  obtain a b where c': "c' = push_overlay c (Replace b (alias_def a))" and ab: "a \<noteq> b" "a \<in> set (live_slots c)" "b \<in> set (live_slots c)"
      and key: "cse_key c a = cse_key c b" using mutate_cse_twins [OF assms] by blast
  let ?w = "view c'" and ?a = "view c a" and ?b = "view c b"
  have kinds: "df_kind ?a = df_kind ?b" "df_opcode ?a = df_opcode ?b" "df_imm ?a = df_imm ?b"
    using key by (auto simp: cse_key_def Let_def dest: kind_code_inj signed_word_eqI)
  have live: "df_kind ?b \<noteq> KDead" "df_kind ?b \<noteq> KAlias" using ab by (auto simp: live_slots_def Let_def)
  have wf': "cand_wf c'" unfolding c' using wf live_slots_in_range [OF wf ab(3)] by (rule cand_wf_replace)
  have w: "?w s = (if s = b then alias_def a else view c s)" for s by (simp add: c' view_push)
  have al: "?w s = view c s" if "df_kind (view c s) = KAlias" for s using that live by (auto simp: w)
  have res: "meaning ?w ps x u"
    if "(if x = NO_OPERAND then NO_OPERAND else resolve c x) = (if y = NO_OPERAND then NO_OPERAND else resolve c y)"
      "meaning ?w ps y u" for ps x y u
    using that resolve_meaning [of c ?w, OF al, of ps] NO_OPERAND_dead [OF wf', of ps u] by metis
  have "meaning ?w ps s v" if m: "meaning (view c) ps s v" for ps s v
  proof (rule meaning_transfer [OF m])
    fix s v
    assume s: "?w s \<noteq> view c s" "meaning (view c) ps s v"
      and l: "\<And>u. df_kind (view c s) \<in> {KBin, KUn, KAlias} \<Longrightarrow> meaning (view c) ps (df_lhs (view c s)) u \<Longrightarrow>
        meaning ?w ps (df_lhs (view c s)) u"
      and r: "\<And>u. df_kind (view c s) = KBin \<Longrightarrow> meaning (view c) ps (df_rhs (view c s)) u \<Longrightarrow>
        meaning ?w ps (df_rhs (view c s)) u"
    have sb: "s = b" using s(1) by (auto simp: w split: if_splits)
    have keyl: "\<And>u. meaning ?w ps (df_lhs ?b) u \<Longrightarrow> meaning ?w ps (df_lhs ?a) u"
      and keyr: "\<And>u. meaning ?w ps (df_rhs ?b) u \<Longrightarrow> meaning ?w ps (df_rhs ?a) u"
      using key res by (auto simp: cse_key_def Let_def)
    have wa: "?w a = ?a" using ab(1) by (simp add: w)
    have "meaning ?w ps a v"
    proof (cases "df_kind ?b")
      case KConst
      then show ?thesis using s(2) kinds wa unfolding sb by (simp add: meaning_const)
    next
      case KParam
      then show ?thesis using s(2) kinds wa unfolding sb by (simp add: meaning_param)
    next
      case KBin
      then show ?thesis using s(2) kinds wa l r keyl keyr unfolding sb by (simp add: meaning_bin) blast
    next
      case KUn
      then show ?thesis using s(2) kinds wa l keyl unfolding sb by (simp add: meaning_un) blast
    qed (use live in simp_all)
    moreover have "a \<noteq> NO_OPERAND"
      using live_slots_in_range [OF wf ab(2)] wf by (auto simp: cand_wf_def NO_OPERAND_def unat_minus_one_eq)
    ultimately show "meaning ?w ps s v" unfolding sb by (simp add: meaning_alias w)
  qed
  with wf' show ?thesis unfolding keeps_root_def by (simp add: c' slot_count_push)
qed

text \<open>Dead slots: the marked set contains the resolved root and is closed under the operands of its members.\<close>

lemma length_reach_loop [simp]: "length (reach_loop c bs st) = length bs"
  by (induction c bs st rule: reach_loop.induct) auto

lemma reach_loop_mono: "bs ! i \<Longrightarrow> reach_loop c bs st ! i"
proof (induction c bs st rule: reach_loop.induct)
  case (2 c bs s stack)
  then show ?case by (cases "i = unat s") auto
qed simp

lemma reach_loop_stack:
  "x \<in> set st \<Longrightarrow> x \<noteq> NO_OPERAND \<Longrightarrow> unat x < length bs \<Longrightarrow> reach_loop c bs st ! unat x"
proof (induction c bs st rule: reach_loop.induct)
  case (2 c bs s stack)
  then show ?case
    using reach_loop_mono [of bs "unat s" c stack] reach_loop_mono [of "bs[unat s := True]" "unat s" c "rev (operands c (view c s)) @ stack"]
    by (auto split: if_splits)
qed simp

lemma reach_loop_closed:
  "reach_loop c bs st ! unat s \<Longrightarrow> \<not> bs ! unat s \<Longrightarrow> unat s < length bs \<Longrightarrow> x \<in> set (operands c (view c s)) \<Longrightarrow>
   x \<noteq> NO_OPERAND \<Longrightarrow> unat x < length bs \<Longrightarrow> reach_loop c bs st ! unat x"
proof (induction c bs st rule: reach_loop.induct)
  case (2 c bs t stack)
  show ?case
  proof (cases "t = NO_OPERAND \<or> unat t \<ge> length bs \<or> bs ! unat t")
    case True
    then show ?thesis using 2 by simp
  next
    case False
    show ?thesis
    proof (cases "s = t")
      case True
      then show ?thesis using False "2.prems"
          reach_loop_stack [of x "rev (operands c (view c t)) @ stack" "bs[unat t := True]" c] by simp
    next
      case neq: False
      then have "unat t \<noteq> unat s" by (simp add: word_unat_eq_iff)
      then show ?thesis using False "2.IH"(2) "2.prems" by simp
    qed
  qed
qed simp

lemma reachable_closed:
  assumes wf: "cand_wf c" and R: "reachable_slots c ! unat s" "unat s < cd_slot_count c"
    and x: "x = df_lhs (view c s) \<or> x = df_rhs (view c s)" "meaning (view c) ps x u"
  shows "reachable_slots c ! unat (resolve c x)"
proof -
  have m: "meaning (view c) ps (resolve c x) u" using x(2) by (simp add: resolve_meaning_self)
  then have "resolve c x \<noteq> NO_OPERAND" "unat (resolve c x) < cd_slot_count c"
    using NO_OPERAND_dead [OF wf, of ps u] meaning_in_range [OF wf] by auto
  moreover have "x \<noteq> NO_OPERAND" using x(2) NO_OPERAND_dead [OF wf, of ps u] by auto
  then have "resolve c x \<in> set (operands c (view c s))" using x(1) by (auto simp: operands_def)
  ultimately show ?thesis using R
      reach_loop_closed [of c "replicate (cd_slot_count c) False" "[resolve c (cd_root c)]" s "resolve c x"]
    by (simp add: reachable_slots_def)
qed

lemma root_reachable:
  assumes wf: "cand_wf c" and m: "meaning (view c) ps (cd_root c) v"
  shows "reachable_slots c ! unat (resolve c (cd_root c))"
proof -
  have "meaning (view c) ps (resolve c (cd_root c)) v" using m by (simp add: resolve_meaning_self)
  then have "resolve c (cd_root c) \<noteq> NO_OPERAND" "unat (resolve c (cd_root c)) < cd_slot_count c"
    using NO_OPERAND_dead [OF wf, of ps v] meaning_in_range [OF wf] by auto
  then show ?thesis
    using reach_loop_stack [of "resolve c (cd_root c)" "[resolve c (cd_root c)]" "replicate (cd_slot_count c) False" c]
    unfolding reachable_slots_def by (simp del: reach_loop.simps)
qed

lemma mutate_dce_sound:
  assumes wf: "cand_wf c" and run: "mutate_dce c = Some c'"
  shows "keeps_root c c'"
proof -
  let ?R = "reachable_slots c"
  obtain t where t: "unat t < cd_slot_count c" "\<not> ?R ! unat t" "df_kind (view c t) \<noteq> KAlias"
      and c': "c' = push_overlay c (Replace t dead_def)"
  proof -
    obtain i where "i < cd_slot_count c" "\<not> ?R ! unat (word_of_nat i :: u32)" "df_kind (view c (word_of_nat i)) \<noteq> KAlias"
        "c' = push_overlay c (Replace (word_of_nat i) dead_def)"
      using run by (auto simp: mutate_dce_def Let_def find_Some_iff split: option.splits)
    then show thesis using that [of "word_of_nat i"] wf by (simp add: cand_wf_def unat_of_nat_small)
  qed
  have w: "view c' s = view c s" if "?R ! unat s \<or> df_kind (view c s) = KAlias" for s
    using that t by (auto simp: c' view_push)
  have len: "length ?R = cd_slot_count c" by (simp add: reachable_slots_def)
  note closed = reachable_closed [OF wf]
  have keep: "meaning (view c') ps s v"
    if "meaning (view c) ps s v" "?R ! unat (resolve_loop c k s)" for ps s v k
    using that
  proof (induction arbitrary: k rule: meaning.induct)
    case (m_const s)
    then have "?R ! unat s" by (cases k) (auto simp: Let_def)
    then show ?case using m_const meaning_const [of "view c'" s] w [of s] by simp
  next
    case (m_param s)
    then have "?R ! unat s" by (cases k) (auto simp: Let_def)
    then show ?case using m_param meaning_param [of "view c'" s] w [of s] by simp
  next
    case (m_alias s v)
    then have rng: "unat s < cd_slot_count c" using meaning_in_range [OF wf] meaning.m_alias by blast
    have "\<exists>k. ?R ! unat (resolve_loop c k (df_lhs (view c s)))"
    proof (cases k)
      case 0
      then have "?R ! unat (resolve c (df_lhs (view c s)))" using m_alias rng closed [of s "df_lhs (view c s)" ps v] by simp
      then show ?thesis unfolding resolve_def by blast
    next
      case (Suc k)
      then show ?thesis using m_alias by auto
    qed
    then show ?case using m_alias meaning_alias [of "view c'" s] w [of s] by auto
  next
    case (m_bin s x y v)
    then have rng: "unat s < cd_slot_count c" using meaning_in_range [OF wf] meaning.m_bin by blast
    have R: "?R ! unat s" using m_bin.prems m_bin.hyps(1) by (cases k) (auto simp: Let_def)
    have "meaning (view c') ps (df_lhs (view c s)) x" "meaning (view c') ps (df_rhs (view c s)) y"
      using m_bin.IH m_bin.hyps closed [OF R rng] unfolding resolve_def by blast+
    then show ?case using m_bin.hyps meaning.m_bin [of "view c'" s ps x y v] w [of s] R by simp
  next
    case (m_un s x v)
    then have rng: "unat s < cd_slot_count c" using meaning_in_range [OF wf] meaning.m_un by blast
    have R: "?R ! unat s" using m_un.prems m_un.hyps(1) by (cases k) (auto simp: Let_def)
    have "meaning (view c') ps (df_lhs (view c s)) x"
      using m_un.IH m_un.hyps closed [OF R rng] unfolding resolve_def by blast
    then show ?case using m_un.hyps meaning.m_un [of "view c'" s ps x v] w [of s] R by simp
  qed
  have "meaning (view c') ps (cd_root c) v" if m: "meaning (view c) ps (cd_root c) v" for ps v
  proof (rule keep [OF m])
    have "?R ! unat (resolve c (cd_root c))" by (rule root_reachable [OF wf m])
    then show "?R ! unat (resolve_loop c (cd_slot_count c + 1) (cd_root c))" unfolding resolve_def .
  qed
  moreover have "cand_wf c'" unfolding c' using wf t(1) by (rule cand_wf_replace)
  ultimately show ?thesis unfolding keeps_root_def by (simp add: c' slot_count_push)
qed

section \<open>All families\<close>

lemma rng_below_less: "bound \<noteq> 0 \<Longrightarrow> fst (rng_below s bound) < bound"
  by (simp add: rng_below_def split_beta word_mod_less_divisor word_neq_0_conv [symmetric])

lemma random_live_slot_live:
  assumes "cand_wf c" "random_live_slot c s = (Some slot, s')"
  shows "slot \<in> set (live_slots c)"
proof -
  let ?n = "length (live_slots c)"
  obtain i where i: "live_slots c \<noteq> []" "slot = live_slots c ! unat i" "i = fst (rng_below s (word_of_nat ?n))"
    using assms(2) by (auto simp: random_live_slot_def Let_def split: if_splits prod.splits)
  have "?n \<le> cd_slot_count c" unfolding live_slots_def by (rule order_trans [OF length_filter_le]) simp
  then have n: "unat (word_of_nat ?n :: u64) = ?n" using assms(1) by (simp add: cand_wf_def unat_of_nat_small)
  moreover have "(word_of_nat ?n :: u64) \<noteq> 0"
    using n i(1) by (metis length_0_conv unsigned_0)
  then have "i < word_of_nat ?n" unfolding i(3) by (rule rng_below_less)
  ultimately have "unat i < ?n" by (simp add: word_less_nat_alt)
  then show ?thesis using i(2) by simp
qed

lemma mutate_keeps_root:
  assumes "cand_wf c" "Suc (cd_slot_count c) < 2 ^ 32 - 1" "mutate_apply c f s = (Some c', s')"
  shows "keeps_root c c'"
proof -
  have site: "unat slot < cd_slot_count c" if "random_live_slot c s = (Some slot, t)" for slot t
    using random_live_slot_live [OF assms(1) that] live_slots_in_range [OF assms(1)] by blast
  have one: "eval_bin (bin_code SMul) 1 x = Some x" "eval_bin (bin_code SMul) x 1 = Some x"
      "eval_bin (bin_code SAdd) 0 x = Some x" "eval_bin (bin_code SAdd) x 0 = Some x" for x
    unfolding eval_bin_codes by simp_all
  show ?thesis
  proof (cases f)
    case IdentityAdd
    then show ?thesis using assms(3) site mutate_identity_sound [OF assms(1), of _ SAdd 0] one
      by (auto simp: at_random_def simp del: bin_code.simps split: prod.splits option.splits)
  next
    case IdentityMul
    then show ?thesis using assms(3) site mutate_identity_sound [OF assms(1), of _ SMul 1] one
      by (auto simp: at_random_def simp del: bin_code.simps split: prod.splits option.splits)
  next
    case SubSelf
    then show ?thesis using assms(3) site mutate_sub_self_sound [OF assms(1)]
      by (auto simp: at_random_def split: prod.splits option.splits)
  next
    case ConstFold
    then show ?thesis using assms(3) site mutate_const_fold_sound [OF assms(1)]
      by (auto simp: at_random_def split: prod.splits option.splits)
  next
    case CommuteNorm
    then show ?thesis using assms(3) site mutate_commute_sound [OF assms(1)]
      by (auto simp: at_random_def split: prod.splits option.splits)
  next
    case ReassocAdd
    then show ?thesis using assms(3) site mutate_reassoc_sound [OF assms(1,2)]
      by (auto simp: at_random_def split: prod.splits option.splits)
  next
    case Cse
    then show ?thesis using assms(3) mutate_cse_sound [OF assms(1)] by simp
  next
    case DceFamily
    then show ?thesis using assms(3) mutate_dce_sound [OF assms(1)] by simp
  qed
qed

text \<open>
  C36: the eight mutation families of the superoptimiser are sound. Whatever random state they are called with, a
  child they return has the root of its parent, is well formed again, and for all parameters its root means what
  the parent's root means, in two's complement arithmetic with wrap-around; so constants are folded only where the
  checked and the wrapping operation agree, and a slot is declared dead only when the root does not need it.
\<close>

theorem mutate_apply_sound:
  assumes "cand_wf c" "Suc (cd_slot_count c) < 2 ^ 32 - 1" "mutate_apply c f s = (Some c', s')"
    and "meaning (view c) ps (cd_root c) v"
  shows "cand_wf c' \<and> cd_root c' = cd_root c \<and> cd_slot_count c' \<le> Suc (cd_slot_count c) \<and>
    meaning (view c') ps (cd_root c') v"
  using mutate_keeps_root [OF assms(1-3)] assms(4) unfolding keeps_root_def by blast

text \<open>The program \<open>(p0 + 2) + 3\<close>, reassociated to \<open>p0 + 5\<close> in place.\<close>

definition demo_sum :: candidate where
  "demo_sum = from_program
     \<lparr>pg_arena = \<lparr>sa_kinds = [KParam, KConst, KBin, KConst, KBin], sa_imms = [0, 2, 0, 3, 0], sa_opcodes = [0, 0, 0, 0, 0],
       sa_lhs = [NO_OPERAND, NO_OPERAND, 0, NO_OPERAND, 2], sa_rhs = [NO_OPERAND, NO_OPERAND, 1, NO_OPERAND, 3]\<rparr>, pg_root = 4\<rparr>"

definition demo_sum_child :: candidate where
  "demo_sum_child = demo_sum\<lparr>cd_overlays := [Extend (const_def 5),
     Replace 4 \<lparr>df_kind = KBin, df_imm = 0, df_opcode = 0, df_lhs = 0, df_rhs = 5\<rparr>]\<rparr>"

lemma demo_sum_wf: "cand_wf demo_sum" "Suc (cd_slot_count demo_sum) < 2 ^ 32 - 1"
  by (simp_all add: cand_wf_def demo_sum_def from_program_def cd_slot_count_def base_len_def)

lemma demo_sum_live: "random_live_slot demo_sum 10 = (Some 4, snd (next_u64 10))"
  by code_simp

lemma demo_sum_reassoc: "mutate_reassoc demo_sum 4 = Some demo_sum_child"
  by code_simp

lemma demo_sum_meaning: "meaning (view demo_sum) [7] (cd_root demo_sum) 12"
proof -
  have v: "view demo_sum 0 = \<lparr>df_kind = KParam, df_imm = 0, df_opcode = 0, df_lhs = NO_OPERAND, df_rhs = NO_OPERAND\<rparr>"
    "view demo_sum 1 = const_def 2"
    "view demo_sum 2 = \<lparr>df_kind = KBin, df_imm = 0, df_opcode = 0, df_lhs = 0, df_rhs = 1\<rparr>"
    "view demo_sum 3 = const_def 3"
    "view demo_sum 4 = \<lparr>df_kind = KBin, df_imm = 0, df_opcode = 0, df_lhs = 2, df_rhs = 3\<rparr>"
    "cd_root demo_sum = 4"
    by code_simp+
  have "meaning (view demo_sum) [7] 0 7" "meaning (view demo_sum) [7] 1 2" "meaning (view demo_sum) [7] 3 3"
    using v by (simp_all add: meaning_param meaning_const)
  moreover have "meaning (view demo_sum) [7] 2 9"
    using calculation m_bin [of "view demo_sum" 2 "[7]" 7 2 9] v by (simp add: eval_bin_def)
  ultimately show ?thesis using m_bin [of "view demo_sum" 4 "[7]" 9 3 12] v by (simp add: eval_bin_def)
qed

theorem mutate_apply_sound_witness:
  "mutate_apply demo_sum ReassocAdd 10 = (Some demo_sum_child, snd (next_u64 10)) \<and>
   cand_wf demo_sum_child \<and> meaning (view demo_sum_child) [7] (cd_root demo_sum_child) 12"
proof -
  have run: "mutate_apply demo_sum ReassocAdd 10 = (Some demo_sum_child, snd (next_u64 10))"
    by (simp add: at_random_def demo_sum_live demo_sum_reassoc)
  show ?thesis using run mutate_apply_sound [OF demo_sum_wf run demo_sum_meaning] by blast
qed

end
