(* ===== verification/Mss_Materialize.thy ===== *)
theory Mss_Materialize
  imports Mss_Correct
begin

text \<open>
  Candidates and programs agree: a program that evaluates has that meaning as a candidate, and the program that
  \<^verbatim>\<open>materialize\<close> builds from a candidate evaluates to the meaning of the candidate's root.
\<close>

section \<open>The evaluator computes meanings\<close>

definition sa_wf :: "son_arena \<Rightarrow> bool" where
  "sa_wf a \<longleftrightarrow> length (sa_imms a) = length (sa_kinds a) \<and> length (sa_opcodes a) = length (sa_kinds a) \<and>
     length (sa_lhs a) = length (sa_kinds a) \<and> length (sa_rhs a) = length (sa_kinds a) \<and> length (sa_kinds a) < 2 ^ 32"

lemma view_from_program: "view (from_program p) s = base_def (pg_arena p) s"
  by (simp add: view_def from_program_def)

lemma base_def_in:
  "length (sa_kinds a) < 2 ^ 32 \<Longrightarrow> unat s < length (sa_kinds a) \<Longrightarrow>
   base_def a s = \<lparr>df_kind = sa_kinds a ! unat s, df_imm = sa_imms a ! unat s, df_opcode = sa_opcodes a ! unat s,
     df_lhs = sa_lhs a ! unat s, df_rhs = sa_rhs a ! unat s\<rparr>"
  by (simp add: base_def_def word_less_nat_alt unat_of_nat_small Let_def)

lemma ip_resolve_Some:
  "sa_wf a \<Longrightarrow> ip_resolve a k s = Some t \<Longrightarrow>
   unat t < length (sa_kinds a) \<and> sa_kinds a ! unat t \<noteq> KAlias \<and> (\<forall>v. meaning (base_def a) ps t v \<longrightarrow> meaning (base_def a) ps s v)"
proof (induction k arbitrary: s)
  case 0
  then show ?case by (subst (asm) ip_resolve.simps) (auto simp: nth_opt_Some split: option.splits if_splits)
next
  case (Suc k)
  show ?case
  proof (cases "nth_opt (sa_kinds a) (unat s) = Some KAlias")
    case True
    then have s: "unat s < length (sa_kinds a)" "sa_kinds a ! unat s = KAlias" by (auto simp: nth_opt_Some)
    have r: "ip_resolve a k (sa_lhs a ! unat s) = Some t" "sa_lhs a ! unat s \<noteq> NO_OPERAND"
      using Suc.prems True s ip_resolve.simps [of a "Suc k" s] by (auto simp: nth_opt_Some sa_wf_def split: option.splits if_splits)
    have "base_def a s = \<lparr>df_kind = KAlias, df_imm = sa_imms a ! unat s, df_opcode = sa_opcodes a ! unat s,
        df_lhs = sa_lhs a ! unat s, df_rhs = sa_rhs a ! unat s\<rparr>" using base_def_in [of a s] s Suc.prems(1) by (simp add: sa_wf_def)
    then show ?thesis using Suc.IH [OF Suc.prems(1) r(1)] r(2) meaning_alias [of "base_def a" s] by simp
  next
    case False
    with Suc.prems show ?thesis by (subst (asm) ip_resolve.simps) (auto simp: nth_opt_Some split: option.splits if_splits)
  qed
qed

definition ip_inv :: "son_arena \<Rightarrow> s64 list \<Rightarrow> bool list \<times> s64 list \<Rightarrow> bool" where
  "ip_inv a ps st \<longleftrightarrow> length (fst st) = length (sa_kinds a) \<and> length (snd st) = length (sa_kinds a) \<and>
     (\<forall>s. unat s < length (sa_kinds a) \<longrightarrow> fst st ! unat s \<longrightarrow> meaning (base_def a) ps s (snd st ! unat s))"

lemma ip_lookup_meaning:
  assumes "sa_wf a" "ip_inv a ps (computed, values)" "ip_operand a slot x = Inr l" "ip_lookup computed values l = Inr v"
  shows "meaning (base_def a) ps x v"
proof -
  have "ip_resolve a (length (sa_kinds a)) x = Some l" using assms(3) by (auto simp: ip_operand_def split: option.splits)
  then show ?thesis using ip_resolve_Some [OF assms(1), of _ x l ps] assms(2,4) by (auto simp: ip_lookup_def ip_inv_def split: if_splits)
qed

lemma ip_value_meaning:
  assumes wf: "sa_wf a" and inv: "ip_inv a ps (computed, values)" and s: "unat s < length (sa_kinds a)"
    and run: "ip_value a ps s computed values = Inr (Some v)"
  shows "meaning (base_def a) ps s v"
proof -
  note d = base_def_in [of a s, OF _ s]
  have small: "length (sa_kinds a) < 2 ^ 32" using wf by (simp add: sa_wf_def)
  note op = ip_lookup_meaning [OF wf inv]
  show ?thesis
  proof (cases "sa_kinds a ! unat s")
    case KConst
    then show ?thesis using run d small meaning_const [of "base_def a" s] by (simp add: ip_value_def)
  next
    case KParam
    then show ?thesis using run d small meaning_param [of "base_def a" s]
      by (auto simp: ip_value_def Let_def split: if_splits)
  next
    case KBin
    then show ?thesis using run d small meaning_bin [of "base_def a" s ps v] op
      by (auto simp: ip_value_def Let_def rbind_eq_Inr split: option.splits)
  next
    case KUn
    then show ?thesis using run d small meaning_un [of "base_def a" s ps v] op
      by (auto simp: ip_value_def Let_def rbind_eq_Inr split: option.splits)
  qed (use run in \<open>simp_all add: ip_value_def\<close>)
qed

lemma ip_step_inv:
  assumes "sa_wf (pg_arena p)" "ip_inv (pg_arena p) ps st" "unat s < length (sa_kinds (pg_arena p))" "ip_step p ps s st = Inr st'"
  shows "ip_inv (pg_arena p) ps st'"
proof (cases "st' = st")
  case False
  obtain computed vals where st: "st = (computed, vals)" by (cases st)
  with assms(4) False obtain v where v: "ip_value (pg_arena p) ps s computed vals = Inr (Some v)"
      "st' = (computed[unat s := True], vals[unat s := v])"
    by (auto simp: ip_step_def Let_def rbind_eq_Inr split: if_splits option.splits)
  then show ?thesis using ip_value_meaning [OF assms(1) assms(2) [unfolded st] assms(3) v(1)] assms(2,3)
    by (auto simp: ip_inv_def st nth_list_update simp flip: word_unat_eq_iff)
qed (use assms in simp)

lemma ip_loop_inv:
  "sa_wf (pg_arena p) \<Longrightarrow> ip_inv (pg_arena p) ps st \<Longrightarrow> \<forall>s \<in> set slots. unat s < length (sa_kinds (pg_arena p)) \<Longrightarrow>
   ip_loop p ps slots st = Inr st' \<Longrightarrow> ip_inv (pg_arena p) ps st'"
  by (induction slots arbitrary: st) (auto simp: rbind_eq_Inr dest: ip_step_inv)

lemma evaluate_meaning:
  assumes wf: "sa_wf (pg_arena p)" and run: "ip_evaluate p ps = Inr v"
  shows "meaning (view (from_program p)) ps (pg_root p) v"
proof -
  let ?a = "pg_arena p" and ?n = "length (sa_kinds (pg_arena p))"
  obtain computed vals t where st: "ip_loop p ps (map word_of_nat [0 ..< ?n]) (replicate ?n False, replicate ?n 0) = Inr (computed, vals)"
      and t: "ip_resolve ?a ?n (pg_root p) = Some t" "computed ! unat t" "v = vals ! unat t"
    using run by (auto simp: ip_evaluate_def Let_def rbind_eq_Inr split: option.splits son_kind.splits if_splits)
  have "ip_inv ?a ps (computed, vals)"
    by (rule ip_loop_inv [OF wf _ _ st]) (use wf in \<open>auto simp: ip_inv_def sa_wf_def unat_of_nat_small\<close>)
  then show ?thesis using ip_resolve_Some [OF wf t(1), of ps] t(2,3)
    by (simp add: ip_inv_def view_from_program [abs_def])
qed

section \<open>The alias walk reaches a definition\<close>

lemma resolve_loop_stop: "df_kind (view c s) \<noteq> KAlias \<Longrightarrow> resolve_loop c k s = s"
  by (cases k) (simp_all add: Let_def)

lemma resolve_loop_add: "resolve_loop c (i + j) s = resolve_loop c j (resolve_loop c i s)"
proof (induction i arbitrary: s)
  case (Suc i)
  show ?case
  proof (cases "df_kind (view c s) = KAlias \<and> df_lhs (view c s) \<noteq> NO_OPERAND")
    case False
    then have "resolve_loop c k s = s" for k by (cases k) (auto simp: Let_def)
    then show ?thesis by metis
  qed (simp add: Suc Let_def)
qed simp

lemma meaning_unaliased: "meaning (view c) ps s v \<Longrightarrow> \<exists>k. df_kind (view c (resolve_loop c k s)) \<noteq> KAlias"
proof (induction rule: meaning.induct)
  case (m_alias s v)
  then obtain k where "df_kind (view c (resolve_loop c k (df_lhs (view c s)))) \<noteq> KAlias" by blast
  then show ?case using m_alias.hyps by (intro exI [of _ "Suc k"]) (simp add: Let_def)
qed (force intro: exI [of _ 0])+

lemma walk_bound:
  assumes wf: "cand_wf c" and m: "meaning (view c) ps s v"
  shows "\<exists>k \<le> cd_slot_count c. df_kind (view c (resolve_loop c k s)) \<noteq> KAlias"
proof -
  define k where "k = (LEAST k. df_kind (view c (resolve_loop c k s)) \<noteq> KAlias)"
  have k: "df_kind (view c (resolve_loop c k s)) \<noteq> KAlias" unfolding k_def by (rule LeastI_ex [OF meaning_unaliased [OF m]])
  have least: "df_kind (view c (resolve_loop c i s)) = KAlias" if "i < k" for i using that not_less_Least k_def by blast
  have "inj_on (\<lambda>i. unat (resolve_loop c i s)) {..< k}"
  proof (rule linorder_inj_onI')
    fix i j
    assume ij: "i \<in> {..< k}" "j \<in> {..< k}" "i < j"
    show "unat (resolve_loop c i s) \<noteq> unat (resolve_loop c j s)"
    proof
      assume "unat (resolve_loop c i s) = unat (resolve_loop c j s)"
      then have "resolve_loop c i s = resolve_loop c j s" by (simp flip: word_unat_eq_iff)
      then have "resolve_loop c (i + (k - j)) s = resolve_loop c (j + (k - j)) s" by (simp add: resolve_loop_add)
      moreover have "i + (k - j) < k" using ij by simp
      ultimately show False using least [of "i + (k - j)"] ij k by simp
    qed
  qed
  moreover have "unat (resolve_loop c i s) < cd_slot_count c" for i
    using meaning_in_range [OF wf] resolve_loop_meaning [of c "view c", OF refl] m by blast
  then have "(\<lambda>i. unat (resolve_loop c i s)) ` {..< k} \<subseteq> {..< cd_slot_count c}" by blast
  ultimately have "k \<le> cd_slot_count c" using card_inj_on_le [of _ "{..< k}" "{..< cd_slot_count c}"] by simp
  with k show ?thesis by blast
qed

lemma resolve_definition:
  assumes "cand_wf c" "meaning (view c) ps s v"
  shows "df_kind (view c (resolve c s)) \<noteq> KAlias"
    and "df_kind (view c s) = KAlias \<Longrightarrow> resolve c s = resolve c (df_lhs (view c s))"
proof -
  let ?n = "cd_slot_count c"
  obtain k where k: "k \<le> ?n" "df_kind (view c (resolve_loop c k s)) \<noteq> KAlias" using walk_bound [OF assms] by blast
  have up: "resolve_loop c (k + j) s = resolve_loop c k s" for j
    using resolve_loop_stop [OF k(2)] by (simp add: resolve_loop_add)
  have r: "resolve c s = resolve_loop c k s" "resolve_loop c (Suc (?n + 1)) s = resolve_loop c k s"
    using up [of "?n + 1 - k"] up [of "?n + 2 - k"] k(1) unfolding resolve_def by simp_all
  then show "df_kind (view c (resolve c s)) \<noteq> KAlias" using k(2) by simp
  assume a: "df_kind (view c s) = KAlias"
  then have "df_lhs (view c s) \<noteq> NO_OPERAND" using assms(2) meaning_alias [of "view c" s] by blast
  then have "resolve_loop c (Suc (?n + 1)) s = resolve c (df_lhs (view c s))"
    using a unfolding resolve_def by (subst resolve_loop.simps) (simp add: Let_def)
  then show "resolve c s = resolve c (df_lhs (view c s))" using r by simp
qed

section \<open>Materialization\<close>

text \<open>The slots the root needs all have a meaning, when the root has one.\<close>

lemma tier0_shape:
  assumes "cand_wf c" "tier0_legal c" "unat s < cd_slot_count c"
  shows "df_kind (view c s) \<in> {KConst, KParam} \<Longrightarrow> df_lhs (view c s) = NO_OPERAND \<and> df_rhs (view c s) = NO_OPERAND"
    and "df_kind (view c s) \<in> {KUn, KAlias} \<Longrightarrow> df_rhs (view c s) = NO_OPERAND"
proof -
  have "s \<in> set (map word_of_nat [0 ..< cd_slot_count c])"
    using assms(3) by (auto intro!: image_eqI [of _ _ "unat s"])
  with assms(2) have "slot_legal c s" unfolding tier0_legal_def by (meson list_all_iff)
  then show "df_kind (view c s) \<in> {KConst, KParam} \<Longrightarrow> df_lhs (view c s) = NO_OPERAND \<and> df_rhs (view c s) = NO_OPERAND"
    and "df_kind (view c s) \<in> {KUn, KAlias} \<Longrightarrow> df_rhs (view c s) = NO_OPERAND"
    by (auto simp: slot_legal_def Let_def split: son_kind.splits)
qed

lemma operands_meaning:
  assumes "cand_wf c" "tier0_legal c" "meaning (view c) ps s v" "x \<in> set (operands c (view c s))"
  shows "\<exists>u. meaning (view c) ps x u"
proof -
  have s: "unat s < cd_slot_count c" using meaning_in_range assms(1,3) by blast
  from assms(3) have "\<exists>u. meaning (view c) ps y u"
    if "y = df_lhs (view c s) \<or> y = df_rhs (view c s)" "y \<noteq> NO_OPERAND" for y
    using tier0_shape [OF assms(1,2) s] that by cases auto
  then show ?thesis using assms(4) resolve_meaning_self [of c ps] by (auto simp: operands_def split: if_splits)
qed

lemma reach_loop_sound:
  assumes "\<And>s x. P s \<Longrightarrow> x \<in> set (operands c (view c s)) \<Longrightarrow> P x"
  shows "(\<And>s. unat s < length bs \<Longrightarrow> bs ! unat s \<Longrightarrow> P s) \<Longrightarrow> (\<And>s. s \<in> set st \<Longrightarrow> P s) \<Longrightarrow>
    unat s < length bs \<Longrightarrow> reach_loop c bs st ! unat s \<Longrightarrow> P s"
  using assms
proof (induction c bs st rule: reach_loop.induct)
  case (2 c bs t stack)
  show ?case
  proof (cases "t = NO_OPERAND \<or> unat t \<ge> length bs \<or> bs ! unat t")
    case True
    then show ?thesis using 2 by simp
  next
    case False
    have "P u" if "unat u < length bs" "bs[unat t := True] ! unat u" for u
      using that "2.prems"(1) [of u] "2.prems"(2) [of t] False by (cases "unat u = unat t") (auto simp flip: word_unat_eq_iff)
    moreover have "P u" if "u \<in> set (rev (operands c (view c t)) @ stack)" for u
      using that "2.prems"(2) "2.prems"(5) by auto
    ultimately show ?thesis using "2.IH"(2) "2.prems"(3-5) False by simp
  qed
qed auto

lemma reachable_meaning:
  assumes "cand_wf c" "tier0_legal c" "meaning (view c) ps (cd_root c) v" "unat s < cd_slot_count c" "reachable_slots c ! unat s"
  shows "\<exists>u. meaning (view c) ps s u"
proof -
  have step: "\<exists>u. meaning (view c) ps x u" if "\<exists>u. meaning (view c) ps t u" "x \<in> set (operands c (view c t))" for t x
    using that operands_meaning [OF assms(1,2)] by blast
  have root: "\<exists>u. meaning (view c) ps t u" if "t \<in> set [resolve c (cd_root c)]" for t
    using that assms(3) resolve_meaning_self [of c ps] by auto
  show ?thesis
    by (rule reach_loop_sound [where bs = "replicate (cd_slot_count c) False" and st = "[resolve c (cd_root c)]"])
      (use step root assms(4,5) in \<open>auto simp: reachable_slots_def\<close>)
qed

text \<open>The state of the emission: which slots have an index, and what the arena holds there.\<close>

definition emitted :: "u32 list \<Rightarrow> u32 \<Rightarrow> bool" where
  "emitted ni s \<longleftrightarrow> unat s < length ni \<and> ni ! unat s \<noteq> - 1 \<and> ni ! unat s \<noteq> SKIPPED"

definition pending :: "u32 list \<Rightarrow> nat" where
  "pending ni = length (filter (\<lambda>i. i = - 1) ni)"

definition op_new :: "candidate \<Rightarrow> u32 list \<Rightarrow> u32 \<Rightarrow> u32" where
  "op_new c ni x = (if x = NO_OPERAND then NO_OPERAND else ni ! unat (resolve c x))"

definition op_ready :: "candidate \<Rightarrow> u32 list \<Rightarrow> u32 \<Rightarrow> bool" where
  "op_ready c ni x \<longleftrightarrow> x = NO_OPERAND \<or> emitted ni (resolve c x)"

definition entry_ok :: "candidate \<Rightarrow> u32 list \<Rightarrow> son_arena \<Rightarrow> u32 \<Rightarrow> bool" where
  "entry_ok c ni a s \<longleftrightarrow>
     (let d = view c s; j = unat (ni ! unat s) in
      j < length (sa_kinds a) \<and> df_kind d \<noteq> KDead \<and> df_kind d \<noteq> KAlias \<and> reachable_slots c ! unat s \<and>
      sa_kinds a ! j = df_kind d \<and> sa_imms a ! j = df_imm d \<and> sa_opcodes a ! j = df_opcode d \<and>
      sa_lhs a ! j = op_new c ni (df_lhs d) \<and> sa_rhs a ! j = op_new c ni (df_rhs d) \<and>
      (\<forall>x \<in> {df_lhs d, df_rhs d}. x \<noteq> NO_OPERAND \<longrightarrow> emitted ni (resolve c x) \<and> unat (ni ! unat (resolve c x)) < j))"

definition skip_ok :: "candidate \<Rightarrow> u32 \<Rightarrow> bool" where
  "skip_ok c s \<longleftrightarrow> df_kind (view c s) = KDead \<or> df_kind (view c s) = KAlias \<or> \<not> reachable_slots c ! unat s"

definition mat_inv :: "candidate \<Rightarrow> u32 list \<Rightarrow> son_arena \<Rightarrow> bool" where
  "mat_inv c ni a \<longleftrightarrow> length ni = cd_slot_count c \<and> sa_wf a \<and> length (sa_kinds a) + pending ni \<le> cd_slot_count c \<and>
     (\<forall>s. emitted ni s \<longrightarrow> entry_ok c ni a s) \<and>
     (\<forall>s. unat s < length ni \<longrightarrow> ni ! unat s = SKIPPED \<longrightarrow> skip_ok c s) \<and>
     (\<forall>j < length (sa_kinds a). \<exists>s. emitted ni s \<and> unat (ni ! unat s) = j)"

lemma operand_state_Ready:
  "operand_state c ni x = Ready y \<longleftrightarrow> op_ready c ni x \<and> y = op_new c ni x"
  by (auto simp: operand_state_def op_ready_def op_new_def emitted_def Let_def nth_opt_Some nth_opt_None split: option.splits)

lemma mat_slot_cases:
  obtains (same) "mat_slot c (reachable_slots c) s (ni, a, pr) = (ni, a, pr)"
      "ni ! unat s = - 1 \<Longrightarrow> \<not> skip_ok c s \<and> \<not> (op_ready c ni (df_lhs (view c s)) \<and> op_ready c ni (df_rhs (view c s)))"
  | (skip) "mat_slot c (reachable_slots c) s (ni, a, pr) = (ni[unat s := SKIPPED], a, True)" "ni ! unat s = - 1" "skip_ok c s"
  | (emit) a' where "mat_slot c (reachable_slots c) s (ni, a, pr) = (ni[unat s := sa_last a'], a', True)"
      "a' = sa_push a (df_kind (view c s)) (df_imm (view c s)) (df_opcode (view c s))
        (op_new c ni (df_lhs (view c s))) (op_new c ni (df_rhs (view c s)))"
      "ni ! unat s = - 1" "\<not> skip_ok c s" "op_ready c ni (df_lhs (view c s))" "op_ready c ni (df_rhs (view c s))"
proof -
  let ?l = "operand_state c ni (df_lhs (view c s))" and ?r = "operand_state c ni (df_rhs (view c s))"
  consider (settled) "ni ! unat s \<noteq> - 1" | (skipped) "ni ! unat s = - 1" "skip_ok c s"
    | (waiting) "ni ! unat s = - 1" "\<not> skip_ok c s" by blast
  then show thesis
  proof cases
    case settled
    then show thesis using same by (simp add: mat_slot_def)
  next
    case skipped
    then show thesis using skip by (auto simp: mat_slot_def skip_ok_def Let_def)
  next
    case waiting
    show thesis
    proof (cases "\<exists>l r. ?l = Ready l \<and> ?r = Ready r")
      case True
      then obtain l r where lr: "?l = Ready l" "?r = Ready r" by blast
      then have "mat_slot c (reachable_slots c) s (ni, a, pr) =
          (ni[unat s := sa_last (sa_push a (df_kind (view c s)) (df_imm (view c s)) (df_opcode (view c s)) l r)],
           sa_push a (df_kind (view c s)) (df_imm (view c s)) (df_opcode (view c s)) l r, True)"
        using waiting by (simp add: mat_slot_def skip_ok_def Let_def)
      then show thesis using waiting lr by (intro emit) (simp_all add: operand_state_Ready)
    next
      case False
      then have "mat_slot c (reachable_slots c) s (ni, a, pr) = (ni, a, pr)"
        using waiting by (auto simp: mat_slot_def skip_ok_def Let_def split: operand_state.splits)
      then show thesis using waiting False same by (auto simp: operand_state_Ready)
    qed
  qed
qed

lemma pending_mark: "i < length ni \<Longrightarrow> ni ! i = - 1 \<Longrightarrow> x \<noteq> - 1 \<Longrightarrow> Suc (pending (ni[i := x])) = pending ni"
proof (induction ni arbitrary: i)
  case (Cons y ni)
  then show ?case by (cases i) (auto simp: pending_def)
qed simp

lemma entry_ok_mark:
  assumes "entry_ok c ni a t" "emitted ni t" "ni ! unat s = - 1" "unat s < length ni"
    and "a' = a \<or> (\<exists>k i opc l r. a' = sa_push a k i opc l r)" "sa_wf a"
  shows "entry_ok c (ni[unat s := y]) a' t"
proof -
  have other: "ni[unat s := y] ! unat x = ni ! unat x" if "emitted ni x" for x
    using that assms(3) by (cases "unat x = unat s") (auto simp: emitted_def)
  have em: "emitted (ni[unat s := y]) x" if "emitted ni x" for x
    using that other [OF that] by (simp add: emitted_def)
  have col: "j < length (sa_kinds a) \<Longrightarrow> j < length (sa_kinds a') \<and> sa_kinds a' ! j = sa_kinds a ! j \<and> sa_imms a' ! j = sa_imms a ! j \<and>
      sa_opcodes a' ! j = sa_opcodes a ! j \<and> sa_lhs a' ! j = sa_lhs a ! j \<and> sa_rhs a' ! j = sa_rhs a ! j" for j
    using assms(5,6) by (auto simp: sa_push_def sa_wf_def nth_append)
  have new: "op_new c (ni[unat s := y]) x = op_new c ni x" if "x \<noteq> NO_OPERAND \<longrightarrow> emitted ni (resolve c x)" for x
    using that other by (auto simp: op_new_def)
  show ?thesis using assms(1) col other [OF assms(2)] other em new unfolding entry_ok_def Let_def by simp
qed

lemma mat_slot_inv:
  assumes wf: "cand_wf c" and inv: "mat_inv c ni a" and s: "unat s < cd_slot_count c"
    and run: "mat_slot c (reachable_slots c) s (ni, a, pr) = (ni', a', pr')"
  shows "mat_inv c ni' a' \<and> pending ni' \<le> pending ni \<and> (pr' = pr \<and> ni' = ni \<and> a' = a \<or> pr' \<and> pending ni' < pending ni)"
proof -
  have len: "unat s < length ni" using inv s by (simp add: mat_inv_def)
  have bwd: "t = s \<or> emitted ni t" if "emitted (ni[unat s := y]) t" for t y
    using that by (cases "unat t = unat s") (auto simp: emitted_def simp flip: word_unat_eq_iff)
  have forth: "emitted (ni[unat s := y]) t \<and> ni[unat s := y] ! unat t = ni ! unat t" if "emitted ni t" "ni ! unat s = - 1" for t y
    using that by (cases "unat t = unat s") (auto simp: emitted_def)
  show ?thesis
  proof (cases rule: mat_slot_cases [of c s ni a pr])
    case same
    then show ?thesis using run inv by simp
  next
    case sk: skip
    then have ni': "ni' = ni[unat s := SKIPPED]" "a' = a" "pr'" using run by simp_all
    have p: "Suc (pending ni') = pending ni" unfolding ni' using len sk(2) by (intro pending_mark) (simp_all add: SKIPPED_def)
    have nos: "\<not> emitted ni' s" using len by (simp add: ni' emitted_def)
    have "entry_ok c ni' a t" if "emitted ni' t" for t
    proof -
      have "emitted ni t" using that bwd [of SKIPPED t] nos unfolding ni' by blast
      then show ?thesis using inv sk(2) len unfolding ni' by (intro entry_ok_mark) (auto simp: mat_inv_def)
    qed
    moreover have "skip_ok c t" if "unat t < length ni'" "ni' ! unat t = SKIPPED" for t
      using that inv sk(3) by (cases "unat t = unat s") (auto simp: mat_inv_def ni' simp flip: word_unat_eq_iff)
    moreover have "\<exists>t. emitted ni' t \<and> unat (ni' ! unat t) = j" if "j < length (sa_kinds a)" for j
      using inv that forth [OF _ sk(2)] unfolding mat_inv_def ni' by metis
    ultimately have "mat_inv c ni' a'" using inv p unfolding mat_inv_def ni' by auto
    with p ni'(3) show ?thesis by simp
  next
    case em: (emit b)
    let ?m = "length (sa_kinds a)"
    have ni': "ni' = ni[unat s := word_of_nat ?m]" "a' = b" "pr'" using run em(1,2) by (simp_all add: sa_last_def sa_push_def)
    have "pending ni > 0" using pending_mark [OF len em(3), of 0] by simp
    then have m: "?m < cd_slot_count c" "?m < 2 ^ 32 - 2" using inv wf by (auto simp: mat_inv_def cand_wf_def)
    then have um: "unat (word_of_nat ?m :: u32) = ?m" by (simp add: unat_of_nat_small)
    then have fresh: "(word_of_nat ?m :: u32) \<noteq> - 1" "(word_of_nat ?m :: u32) \<noteq> SKIPPED"
      using m(2) unat_minus_one_eq [where 'a = 32] by (auto simp: SKIPPED_def)
    have p: "Suc (pending ni') = pending ni" unfolding ni' using len em(3) fresh by (intro pending_mark) simp_all
    have b: "length (sa_kinds b) = Suc ?m" "sa_wf b" using inv m by (auto simp: em(2) sa_push_def mat_inv_def sa_wf_def)
    have push: "b = a \<or> (\<exists>k i opc l r. b = sa_push a k i opc l r)" using em(2) by blast
    have old: "entry_ok c ni' b t" if "emitted ni t" for t
      using inv that em(3) len push unfolding ni' by (intro entry_ok_mark [where a = a]) (simp_all add: mat_inv_def)
    have lt: "unat (ni ! unat t) < ?m" if "emitted ni t" for t using inv that by (auto simp: mat_inv_def entry_ok_def Let_def)
    have ops: "op_new c ni' x = op_new c ni x \<and> (x \<noteq> NO_OPERAND \<longrightarrow> emitted ni' (resolve c x) \<and> unat (ni' ! unat (resolve c x)) < ?m)"
      if "op_ready c ni x" for x
      using that forth [OF _ em(3)] lt by (auto simp: op_ready_def op_new_def ni')
    have self: "entry_ok c ni' b s"
      using em(4) ops [OF em(5)] ops [OF em(6)] len um inv
      unfolding entry_ok_def Let_def skip_ok_def
      by (auto simp: ni' em(2) sa_push_def nth_append mat_inv_def sa_wf_def)
    have "entry_ok c ni' b t" if "emitted ni' t" for t
      using that bwd [of "word_of_nat ?m" t] old [of t] self unfolding ni'(1) by blast
    moreover have "skip_ok c t" if "unat t < length ni'" "ni' ! unat t = SKIPPED" for t
      using that inv fresh len by (cases "unat t = unat s") (auto simp: mat_inv_def ni')
    moreover have "\<exists>t. emitted ni' t \<and> unat (ni' ! unat t) = j" if "j < Suc ?m" for j
    proof (cases "j = ?m")
      case True
      then show ?thesis using len fresh um by (intro exI [of _ s]) (simp add: ni' emitted_def)
    next
      case False
      then have "\<exists>t. emitted ni t \<and> unat (ni ! unat t) = j" using inv that by (simp add: mat_inv_def)
      then show ?thesis using forth [OF _ em(3)] unfolding ni' by metis
    qed
    ultimately have "mat_inv c ni' a'" using inv p b unfolding mat_inv_def ni' by auto
    with p ni'(3) show ?thesis by simp
  qed
qed

text \<open>A pass without progress changes nothing and leaves no slot that could be emitted.\<close>

definition mat_stuck :: "candidate \<Rightarrow> u32 list \<Rightarrow> u32 \<Rightarrow> bool" where
  "mat_stuck c ni s \<longleftrightarrow> (ni ! unat s = - 1 \<longrightarrow>
     \<not> skip_ok c s \<and> \<not> (op_ready c ni (df_lhs (view c s)) \<and> op_ready c ni (df_rhs (view c s))))"

lemma mat_pass:
  assumes "cand_wf c" "\<forall>s \<in> set slots. unat s < cd_slot_count c" "mat_inv c ni a"
    and "fold (mat_slot c (reachable_slots c)) slots (ni, a, pr) = (ni', a', pr')"
  shows "mat_inv c ni' a' \<and> pending ni' \<le> pending ni \<and> (pr \<longrightarrow> pr') \<and>
    (if pr' = pr \<and> pending ni' = pending ni then ni' = ni \<and> a' = a \<and> (\<forall>s \<in> set slots. mat_stuck c ni s)
     else pr' \<and> pending ni' < pending ni)"
  using assms(2-4)
proof (induction slots arbitrary: ni a pr)
  case (Cons s slots)
  obtain ni1 a1 pr1 where st: "mat_slot c (reachable_slots c) s (ni, a, pr) = (ni1, a1, pr1)" by (metis prod_cases3)
  have s: "unat s < cd_slot_count c" using Cons.prems(1) by simp
  note one = mat_slot_inv [OF assms(1) Cons.prems(2) s st]
  have rest: "mat_inv c ni' a' \<and> pending ni' \<le> pending ni1 \<and> (pr1 \<longrightarrow> pr') \<and>
    (if pr' = pr1 \<and> pending ni' = pending ni1 then ni' = ni1 \<and> a' = a1 \<and> (\<forall>s \<in> set slots. mat_stuck c ni1 s)
     else pr' \<and> pending ni' < pending ni1)"
    by (rule Cons.IH) (use Cons.prems st one in simp_all)
  show ?case
  proof (cases "pending ni1 < pending ni")
    case True
    then have "pr1" using one by auto
    then show ?thesis using True rest by (auto split: if_splits)
  next
    case False
    then have eq: "pr1 = pr" "ni1 = ni" "a1 = a" using one by auto
    have len: "unat s < length ni" using s Cons.prems(2) by (simp add: mat_inv_def)
    have "mat_stuck c ni s"
    proof (cases rule: mat_slot_cases [of c s ni a pr])
      case same
      then show ?thesis by (simp add: mat_stuck_def)
    next
      case skip
      then have "ni[unat s := SKIPPED] = ni" using st eq by simp
      then show ?thesis using pending_mark [OF len skip(2), of SKIPPED] by (simp add: SKIPPED_def)
    next
      case (emit b)
      then have "length (sa_kinds b) = length (sa_kinds a)" using st eq by simp
      then show ?thesis using emit(2) by (simp add: sa_push_def)
    qed
    then show ?thesis using rest eq by (auto split: if_splits)
  qed
qed (auto split: if_splits)

lemma mat_passes_final:
  assumes "cand_wf c" "mat_inv c ni a" "pending ni < k" "mat_passes c (reachable_slots c) k (ni, a) = (ni', a')"
  shows "mat_inv c ni' a' \<and> (\<forall>s. unat s < cd_slot_count c \<longrightarrow> mat_stuck c ni' s)"
  using assms(2-4)
proof (induction k arbitrary: ni a)
  case (Suc k)
  let ?slots = "map word_of_nat [0 ..< cd_slot_count c] :: u32 list"
  obtain ni1 a1 pr1 where st: "fold (mat_slot c (reachable_slots c)) ?slots (ni, a, False) = (ni1, a1, pr1)" by (metis prod_cases3)
  have slots: "\<forall>s \<in> set ?slots. unat s < cd_slot_count c" using assms(1) by (auto simp: cand_wf_def unat_of_nat_small)
  have all: "s \<in> set ?slots" if "unat s < cd_slot_count c" for s :: u32
    using that by (auto intro!: image_eqI [of _ _ "unat s"])
  note pass = mat_pass [OF assms(1) slots Suc.prems(1) st]
  show ?case
  proof (cases pr1)
    case True
    then have "pending ni1 < k" "mat_inv c ni1 a1" using pass Suc.prems(2) by (auto split: if_splits)
    then show ?thesis using Suc.IH [of ni1 a1] Suc.prems(3) st True by simp
  next
    case False
    then have "ni1 = ni \<and> (\<forall>s \<in> set ?slots. mat_stuck c ni s)" using pass by (auto split: if_splits)
    moreover have "ni' = ni1 \<and> a' = a1" using Suc.prems(3) st False by simp
    ultimately show ?thesis using pass all by blast
  qed
qed simp

text \<open>When the root has a meaning, every definition it needs is emitted.\<close>

lemma settled_emitted:
  assumes wf: "cand_wf c" and inv: "mat_inv c ni a" and stuck: "\<And>s. unat s < cd_slot_count c \<Longrightarrow> mat_stuck c ni s"
    and s: "unat s < cd_slot_count c" "reachable_slots c ! unat s" "df_kind (view c s) \<noteq> KDead" "df_kind (view c s) \<noteq> KAlias"
    and ready: "op_ready c ni (df_lhs (view c s))" "op_ready c ni (df_rhs (view c s))"
  shows "emitted ni s"
  using inv stuck [OF s(1)] s ready by (auto simp: emitted_def mat_inv_def mat_stuck_def skip_ok_def)

lemma needed_emitted:
  assumes wf: "cand_wf c" and legal: "tier0_legal c" and inv: "mat_inv c ni a"
    and stuck: "\<And>s. unat s < cd_slot_count c \<Longrightarrow> mat_stuck c ni s"
  shows "meaning (view c) ps s v \<Longrightarrow> reachable_slots c ! unat (resolve c s) \<Longrightarrow> emitted ni (resolve c s)"
proof (induction rule: meaning.induct)
  case (m_const s)
  have rng: "unat s < cd_slot_count c" using m_const(1) meaning.m_const [of "view c" s ps] meaning_in_range [OF wf] by blast
  have r: "resolve c s = s" using m_const(1) by (simp add: resolve_def resolve_loop_stop del: resolve_loop.simps)
  show ?case unfolding r using tier0_shape(1) [OF wf legal rng] m_const r rng
    by (intro settled_emitted [OF wf inv stuck]) (simp_all add: op_ready_def)
next
  case (m_param s)
  have rng: "unat s < cd_slot_count c" using m_param(1-3) meaning.m_param [of "view c" s ps] meaning_in_range [OF wf] by blast
  have r: "resolve c s = s" using m_param(1) by (simp add: resolve_def resolve_loop_stop del: resolve_loop.simps)
  show ?case unfolding r using tier0_shape(1) [OF wf legal rng] m_param r rng
    by (intro settled_emitted [OF wf inv stuck]) (simp_all add: op_ready_def)
next
  case (m_alias s v)
  then show ?case using resolve_definition(2) [OF wf, of ps s v] meaning.m_alias [of "view c" s ps v] by simp
next
  case (m_bin s x y v)
  have rng: "unat s < cd_slot_count c" using m_bin.hyps meaning.m_bin [of "view c" s ps x y v] meaning_in_range [OF wf] by blast
  have r: "resolve c s = s" using m_bin.hyps(1) by (simp add: resolve_def resolve_loop_stop del: resolve_loop.simps)
  have R: "reachable_slots c ! unat s" using m_bin.prems r by simp
  have "op_ready c ni (df_lhs (view c s))" "op_ready c ni (df_rhs (view c s))"
    using m_bin.IH m_bin.hyps(2,3) reachable_closed [OF wf R rng] unfolding op_ready_def by blast+
  then show ?case unfolding r using settled_emitted [OF wf inv stuck rng R] m_bin.hyps(1) by simp
next
  case (m_un s x v)
  have rng: "unat s < cd_slot_count c" using m_un.hyps meaning.m_un [of "view c" s ps x v] meaning_in_range [OF wf] by blast
  have r: "resolve c s = s" using m_un.hyps(1) by (simp add: resolve_def resolve_loop_stop del: resolve_loop.simps)
  have R: "reachable_slots c ! unat s" using m_un.prems r by simp
  have "op_ready c ni (df_lhs (view c s))"
    using m_un.IH m_un.hyps(2) reachable_closed [OF wf R rng] unfolding op_ready_def by blast
  moreover have "op_ready c ni (df_rhs (view c s))" using tier0_shape(2) [OF wf legal rng] m_un.hyps(1) by (simp add: op_ready_def)
  ultimately show ?case unfolding r using settled_emitted [OF wf inv stuck rng R] m_un.hyps(1) by simp
qed

section \<open>The materialized program evaluates\<close>

text \<open>Every entry of the new arena is the definition of a slot that has a meaning, with its operands before it.\<close>

lemma new_value:
  assumes wf: "cand_wf c" "tier0_legal c" and inv: "mat_inv c ni a" and em: "emitted ni s" and m: "meaning (view c) ps s v"
    and sl: "unat sl = unat (ni ! unat s)"
    and before: "\<And>t u. emitted ni t \<Longrightarrow> unat (ni ! unat t) < unat sl \<Longrightarrow> meaning (view c) ps t u \<Longrightarrow>
      computed ! unat (ni ! unat t) \<and> vals ! unat (ni ! unat t) = u"
    and len: "length vals = length (sa_kinds a)"
  shows "ip_value a ps sl computed vals = Inr (Some v)"
proof -
  let ?d = "view c s" and ?j = "unat (ni ! unat s)"
  have e: "entry_ok c ni a s" using inv em by (simp add: mat_inv_def)
  have rng: "unat s < cd_slot_count c" using meaning_in_range [OF wf(1) m] .
  have op: "ip_operand a sl (op_new c ni x) = Inr (op_new c ni x)" "ip_lookup computed vals (op_new c ni x) = Inr u"
    if x: "x \<in> {df_lhs ?d, df_rhs ?d}" "meaning (view c) ps x u" for x u
  proof -
    have nx: "x \<noteq> NO_OPERAND" using x(2) NO_OPERAND_dead [OF wf(1), of ps u] by auto
    let ?t = "resolve c x"
    have t: "emitted ni ?t" "unat (ni ! unat ?t) < ?j" using e x(1) nx by (auto simp: entry_ok_def Let_def)
    have mt: "meaning (view c) ps ?t u" using x(2) by (simp add: resolve_meaning_self)
    have et: "entry_ok c ni a ?t" using inv t(1) by (simp add: mat_inv_def)
    then have "ip_resolve a k (ni ! unat ?t) = Some (ni ! unat ?t)" for k
      by (subst ip_resolve.simps) (auto simp: entry_ok_def Let_def nth_opt_Some split: option.splits simp: nth_opt_None)
    then show "ip_operand a sl (op_new c ni x) = Inr (op_new c ni x)" "ip_lookup computed vals (op_new c ni x) = Inr u"
      using before [OF t(1) _ mt] t(2) sl et len nx
      by (simp_all add: ip_operand_def ip_lookup_def op_new_def entry_ok_def Let_def)
  qed
  have col: "sa_kinds a ! unat sl = df_kind ?d" "sa_imms a ! unat sl = df_imm ?d" "sa_opcodes a ! unat sl = df_opcode ?d"
      "sa_lhs a ! unat sl = op_new c ni (df_lhs ?d)" "sa_rhs a ! unat sl = op_new c ni (df_rhs ?d)"
      "df_kind ?d \<noteq> KDead" "df_kind ?d \<noteq> KAlias"
    using e sl by (auto simp: entry_ok_def Let_def)
  from m show ?thesis
  proof cases
    case m_const
    then show ?thesis by (simp add: ip_value_def col)
  next
    case m_param
    then show ?thesis by (simp add: ip_value_def col)
  next
    case (m_bin x y)
    then show ?thesis using op [of "df_lhs ?d" x] op [of "df_rhs ?d" y] by (simp add: ip_value_def col)
  next
    case (m_un x)
    then show ?thesis using op [of "df_lhs ?d" x] by (simp add: ip_value_def col)
  qed (use col in simp)
qed

lemma new_loop:
  assumes wf: "cand_wf c" "tier0_legal c" and inv: "mat_inv c ni (pg_arena p)" and root: "meaning (view c) ps (cd_root c) v"
    and k: "k \<le> length (sa_kinds (pg_arena p))"
  shows "\<exists>computed vals. ip_loop p ps (map word_of_nat [0 ..< k])
      (replicate (length (sa_kinds (pg_arena p))) False, replicate (length (sa_kinds (pg_arena p))) 0) = Inr (computed, vals) \<and>
    length computed = length (sa_kinds (pg_arena p)) \<and> length vals = length (sa_kinds (pg_arena p)) \<and>
    (\<forall>t u. emitted ni t \<longrightarrow> unat (ni ! unat t) < k \<longrightarrow> meaning (view c) ps t u \<longrightarrow>
      computed ! unat (ni ! unat t) \<and> vals ! unat (ni ! unat t) = u)"
  using k
proof (induction k)
  case (Suc k)
  let ?a = "pg_arena p" and ?n = "length (sa_kinds (pg_arena p))"
  from Suc obtain computed vals where st: "ip_loop p ps (map word_of_nat [0 ..< k]) (replicate ?n False, replicate ?n 0) = Inr (computed, vals)"
      and len: "length computed = ?n" "length vals = ?n"
      and before: "\<And>t u. emitted ni t \<Longrightarrow> unat (ni ! unat t) < k \<Longrightarrow> meaning (view c) ps t u \<Longrightarrow>
        computed ! unat (ni ! unat t) \<and> vals ! unat (ni ! unat t) = u" by auto
  have small: "?n < 2 ^ 32" using inv by (simp add: mat_inv_def sa_wf_def)
  let ?k = "word_of_nat k :: u32"
  have uk: "unat ?k = k" using small Suc.prems by (simp add: unat_of_nat_small)
  obtain s where s: "emitted ni s" "unat (ni ! unat s) = k" using inv Suc.prems unfolding mat_inv_def by (meson Suc_le_lessD)
  have val: "ip_value ?a ps ?k computed vals = Inr (Some u)" if "emitted ni t" "unat (ni ! unat t) = k" "meaning (view c) ps t u" for t u
    using new_value [OF wf inv that(1,3), of ?k computed vals] that(2) uk before len by simp
  have e: "entry_ok c ni ?a s" using inv s(1) by (simp add: mat_inv_def)
  have rng: "unat s < cd_slot_count c" using s(1) inv by (simp add: emitted_def mat_inv_def)
  obtain u where u: "meaning (view c) ps s u"
    using reachable_meaning [OF wf root rng] e by (auto simp: entry_ok_def Let_def)
  have kind: "sa_kinds ?a ! k \<noteq> KDead" "sa_kinds ?a ! k \<noteq> KAlias" using e s(2) by (auto simp: entry_ok_def Let_def)
  then have "ip_resolve ?a j ?k = Some ?k" for j
    using Suc.prems uk by (subst ip_resolve.simps) (auto simp: nth_opt_Some nth_opt_None split: option.splits)
  then have step: "ip_step p ps ?k (computed, vals) = Inr (computed[k := True], vals[k := u])"
    using kind val [OF s u] by (simp add: ip_step_def uk Let_def)
  have app: "ip_loop p ps (xs @ ys) z = rbind (ip_loop p ps xs z) (ip_loop p ps ys)" for xs ys z
    by (induction xs arbitrary: z) (auto simp: rbind_def split: sum.splits)
  have "ip_loop p ps (map word_of_nat [0 ..< Suc k]) (replicate ?n False, replicate ?n 0) = Inr (computed[k := True], vals[k := u])"
    by (simp add: app st step upt_Suc_append)
  moreover have "computed[k := True] ! unat (ni ! unat t) \<and> vals[k := u] ! unat (ni ! unat t) = w"
    if "emitted ni t" "unat (ni ! unat t) < Suc k" "meaning (view c) ps t w" for t w
  proof (cases "unat (ni ! unat t) = k")
    case True
    then have "w = u" using val [OF that(1) _ that(3)] val [OF s u] by simp
    then show ?thesis using True len Suc.prems by simp
  qed (use before that in auto)
  ultimately show ?case using len
    by (intro exI [of _ "computed[k := True]"] exI [of _ "vals[k := u]"]) (simp del: upt_Suc)
qed simp

lemma materialize_evaluates:
  assumes wf: "cand_wf c" and legal: "tier0_legal c" and m: "meaning (view c) ps (cd_root c) v"
  shows "ip_evaluate (materialize c) ps = Inr v"
proof -
  let ?n = "cd_slot_count c"
  obtain ni a where mat: "mat_passes c (reachable_slots c) (?n + 1) (replicate ?n (- 1), sa_new) = (ni, a)" by (metis surj_pair)
  have "mat_inv c (replicate ?n (- 1)) sa_new"
    by (auto simp: mat_inv_def sa_new_def sa_wf_def pending_def emitted_def SKIPPED_def)
  then have fin: "mat_inv c ni a" "\<And>s. unat s < ?n \<Longrightarrow> mat_stuck c ni s"
    using mat_passes_final [OF wf _ _ mat] by (auto simp: pending_def)
  let ?t = "resolve c (cd_root c)" and ?p = "materialize c"
  have mt: "meaning (view c) ps ?t v" using m by (simp add: resolve_meaning_self)
  have em: "emitted ni ?t" using needed_emitted [OF wf legal fin m] root_reachable [OF wf m] by blast
  have p: "?p = \<lparr>pg_arena = a, pg_root = ni ! unat ?t\<rparr>"
    using em unfolding materialize_def Let_def mat
    by (auto simp: emitted_def nth_opt_Some nth_opt_None split: option.splits)
  have e: "entry_ok c ni a ?t" using fin em by (simp add: mat_inv_def)
  let ?r = "ni ! unat ?t"
  have r: "unat ?r < length (sa_kinds a)" "sa_kinds a ! unat ?r \<noteq> KDead" "sa_kinds a ! unat ?r \<noteq> KAlias"
    using e by (auto simp: entry_ok_def Let_def)
  then have res: "ip_resolve a k ?r = Some ?r" for k
    by (subst ip_resolve.simps) (auto simp: nth_opt_Some nth_opt_None split: option.splits)
  obtain computed vals where "ip_loop ?p ps (map word_of_nat [0 ..< length (sa_kinds a)])
      (replicate (length (sa_kinds a)) False, replicate (length (sa_kinds a)) 0) = Inr (computed, vals)"
      "computed ! unat ?r" "vals ! unat ?r = v"
    using new_loop [OF wf legal, of ni ?p ps v "length (sa_kinds a)"] fin(1) m r(1) em mt by (auto simp: p)
  then show ?thesis using r res
    by (auto simp: ip_evaluate_def p nth_opt_Some nth_opt_None Let_def split: option.splits son_kind.splits)
qed

end
