(* ===== verification/Executor.thy ===== *)
theory Executor
  imports SXLA_Prelude "HOL-Library.Multiset"
begin

text \<open>
  Static partitioning, \<^verbatim>\<open>crates/anvil/src/executor.rs\<close> and \<^verbatim>\<open>pool.rs\<close>: \<^verbatim>\<open>run_partitioned\<close> applies a function to
  every element of a slice and writes the results to an output slice of the same length. The scoped executor gives
  each thread its own output chunk; the pool hands every worker the whole output array, of which it writes the chunks
  with its own residue. The mapped function is total here (a panic in a job is not modelled), and the writes of the
  pool's workers are a sequence whose order is shown not to matter.
\<close>

definition MAX_WORKERS :: nat where "MAX_WORKERS = 64"

datatype exec_error = DequeFull | TooManyWorkers | ZeroWorkers | LengthMismatch

definition check_worker_count :: "nat \<Rightarrow> exec_error + unit" where
  "check_worker_count n =
     (if n = 0 then Inl ZeroWorkers else if n > MAX_WORKERS then Inl TooManyWorkers else Inr ())"

definition div_ceil :: "nat \<Rightarrow> nat \<Rightarrow> nat" where
  "div_ceil a b = (a + b - 1) div b"

section \<open>Scoped threads\<close>

function slice_chunks :: "nat \<Rightarrow> 'a list \<Rightarrow> 'a list list" where
  "slice_chunks k xs = (if k = 0 \<or> xs = [] then [] else take k xs # slice_chunks k (drop k xs))"
  by pat_completeness auto

termination
  by (relation "measure (\<lambda>(k, xs). length xs)") auto

declare slice_chunks.simps [simp del]

text \<open>The body of one scoped thread.\<close>

definition chunk_body :: "('a \<Rightarrow> 'r) \<Rightarrow> 'a list \<Rightarrow> 'r list \<Rightarrow> 'r list" where
  "chunk_body f cin cout = fold (\<lambda>(i, item) out. out[i := f item]) (enumerate 0 cin) cout"

definition run_partitioned_scoped :: "'a list \<Rightarrow> 'r list \<Rightarrow> nat \<Rightarrow> ('a \<Rightarrow> 'r) \<Rightarrow> (exec_error + unit) \<times> 'r list" where
  "run_partitioned_scoped inputs outputs num_workers f =
     (case check_worker_count num_workers of
        Inl e \<Rightarrow> (Inl e, outputs)
      | Inr _ \<Rightarrow>
          if length inputs \<noteq> length outputs then (Inl LengthMismatch, outputs)
          else if inputs = [] then (Inr (), outputs)
          else
            let chunk = div_ceil (length inputs) num_workers in
            (Inr (), concat (map2 (chunk_body f) (slice_chunks chunk inputs) (slice_chunks chunk outputs))))"

section \<open>The pool\<close>

text \<open>
  The writes of one worker: chunk \<open>c\<close>, then every \<open>n\<close>-th chunk after it. A pool has at least one worker, and chunks
  are empty only when there is no input, so the two extra guards are never the reason to stop.
\<close>

function partition_trampoline :: "('a \<Rightarrow> 'r) \<Rightarrow> 'a list \<Rightarrow> nat \<Rightarrow> nat \<Rightarrow> nat \<Rightarrow> (nat \<times> 'r) list" where
  "partition_trampoline f inputs n chunk c =
     (let start = c * chunk in
      if start \<ge> length inputs \<or> n = 0 \<or> chunk = 0 then []
      else
        let fin = min (start + chunk) (length inputs) in
        map (\<lambda>i. (i, f (inputs ! i))) [start ..< fin] @ partition_trampoline f inputs n chunk (c + n))"
  by pat_completeness auto

termination
proof (relation "measure (\<lambda>(f, inputs, n, chunk, c). length inputs - c * chunk)", goal_cases)
  case (2 f inputs n chunk c)
  then have "0 < n * chunk" "c * chunk < length inputs" by auto
  then have "length inputs - (c * chunk + n * chunk) < length inputs - c * chunk" by linarith
  then show ?case by (simp add: add_mult_distrib)
qed simp

declare partition_trampoline.simps [simp del]

definition apply_writes :: "(nat \<times> 'r) list \<Rightarrow> 'r list \<Rightarrow> 'r list" where
  "apply_writes ws out = fold (\<lambda>(i, v) out. out[i := v]) ws out"

definition pool_writes :: "('a \<Rightarrow> 'r) \<Rightarrow> 'a list \<Rightarrow> nat \<Rightarrow> (nat \<times> 'r) list" where
  "pool_writes f inputs n =
     concat (map (partition_trampoline f inputs n (div_ceil (length inputs) n)) [0 ..< n])"

text \<open>\<^verbatim>\<open>Pool::run_partitioned\<close> with \<open>n\<close> workers.\<close>

definition pool_run_partitioned :: "nat \<Rightarrow> 'a list \<Rightarrow> 'r list \<Rightarrow> ('a \<Rightarrow> 'r) \<Rightarrow> (exec_error + unit) \<times> 'r list" where
  "pool_run_partitioned n inputs outputs f =
     (if length inputs \<noteq> length outputs then (Inl LengthMismatch, outputs)
      else (Inr (), apply_writes (pool_writes f inputs n) outputs))"

text \<open>The global pool has \<open>workers\<close> workers; \<open>in_region\<close> is the caller's thread-local flag.\<close>

definition run_partitioned_pooled ::
  "nat \<Rightarrow> bool \<Rightarrow> 'a list \<Rightarrow> 'r list \<Rightarrow> nat \<Rightarrow> ('a \<Rightarrow> 'r) \<Rightarrow> (exec_error + unit) \<times> 'r list" where
  "run_partitioned_pooled workers in_region inputs outputs num_workers f =
     (if \<not> in_region \<and> workers = num_workers then pool_run_partitioned workers inputs outputs f
      else run_partitioned_scoped inputs outputs num_workers f)"

section \<open>Every element is mapped\<close>

lemma chunk_body_length: "length (chunk_body f cin cout) = length cout"
proof -
  have "length (fold (\<lambda>(i, item) out. out[i := f item]) xs cout) = length cout" for xs
    by (induction xs arbitrary: cout) auto
  then show ?thesis by (simp add: chunk_body_def)
qed

lemma chunk_body_prefix:
  "length pre = n \<Longrightarrow> length cin = length cout \<Longrightarrow>
   fold (\<lambda>(i, item) out. out[i := f item]) (enumerate n cin) (pre @ cout) = pre @ map f cin"
proof (induction cin arbitrary: n pre cout)
  case (Cons x cin)
  then obtain y ys where c: "cout = y # ys" by (cases cout) auto
  have "(pre @ y # ys)[n := f x] = (pre @ [f x]) @ ys" using Cons.prems by (simp add: list_update_append)
  then show ?case using Cons.IH [of "pre @ [f x]" "Suc n" ys] Cons.prems by (simp add: c)
qed simp

lemma chunk_body_map: "length cin = length cout \<Longrightarrow> chunk_body f cin cout = map f cin"
  unfolding chunk_body_def using chunk_body_prefix [of "[]" 0 cin cout f] by simp

lemma chunks_map:
  "0 < k \<Longrightarrow> length xs = length ys \<Longrightarrow> concat (map2 (chunk_body f) (slice_chunks k xs) (slice_chunks k ys)) = map f xs"
proof (induction k xs arbitrary: ys rule: slice_chunks.induct)
  case (1 k xs)
  show ?case
  proof (cases "xs = []")
    case True
    then show ?thesis using 1 by (simp add: slice_chunks.simps)
  next
    case False
    then have "slice_chunks k xs = take k xs # slice_chunks k (drop k xs)" "slice_chunks k ys = take k ys # slice_chunks k (drop k ys)"
      using 1 by (subst slice_chunks.simps, auto)+
    then show ?thesis using 1 False chunk_body_map [of "take k xs" "take k ys" f]
      by (simp flip: map_append)
  qed
qed

text \<open>The pool's workers write every index once, so the writes may be applied in any order.\<close>

lemma apply_writes_length [simp]: "length (apply_writes ws out) = length out"
  unfolding apply_writes_def by (induction ws arbitrary: out) auto

lemma apply_writes_nth:
  assumes "\<forall>(i, v) \<in> set ws. v = g i" "i < length out"
  shows "apply_writes ws out ! i = (if i \<in> fst ` set ws then g i else out ! i)"
  using assms
proof (induction ws arbitrary: out)
  case (Cons w ws)
  then show ?case by (cases w) (auto simp: apply_writes_def nth_list_update split: if_splits)
qed (simp add: apply_writes_def)

lemma trampoline_sound:
  "(i, v) \<in> set (partition_trampoline f inputs n chunk c) \<Longrightarrow> i < length inputs \<and> v = f (inputs ! i)"
proof (induction f inputs n chunk c rule: partition_trampoline.induct)
  case (1 f inputs n chunk c)
  then show ?case by (subst (asm) (2) partition_trampoline.simps) (auto simp: Let_def split: if_splits)
qed

lemma trampoline_first:
  assumes "0 < n" "c * chunk \<le> i" "i < (c + 1) * chunk" "i < length inputs"
  shows "i \<in> fst ` set (partition_trampoline f inputs n chunk c)"
  using assms by (subst partition_trampoline.simps) (auto simp: Let_def image_Un image_image add.commute)

lemma div_ceil_bound: "0 < n \<Longrightarrow> a \<le> n * div_ceil a n"
proof -
  assume "0 < n"
  then have "a + n - 1 < n * (Suc ((a + n - 1) div n))"
    by (metis dividend_less_times_div mult_Suc_right add.commute)
  then show ?thesis using \<open>0 < n\<close> by (simp add: div_ceil_def)
qed

lemma pool_writes_cover:
  assumes "0 < n" "i < length inputs"
  shows "i \<in> fst ` set (pool_writes f inputs n)"
proof -
  let ?k = "div_ceil (length inputs) n"
  have b: "length inputs \<le> n * ?k" using div_ceil_bound [OF assms(1)] .
  then have k: "0 < ?k" using assms(2) by (cases "?k = 0") auto
  let ?c = "i div ?k"
  have "?c < n" using b assms(2) k by (simp add: div_less_iff_less_mult)
  moreover have "i \<in> fst ` set (partition_trampoline f inputs n ?k ?c)"
    using assms k by (intro trampoline_first) (simp_all add: div_times_less_eq_dividend dividend_less_div_times add.commute)
  ultimately have "i \<in> (\<Union>c \<in> {0 ..< n}. fst ` set (partition_trampoline f inputs n ?k c))" by auto
  then show ?thesis unfolding pool_writes_def by (simp add: image_UN)
qed

lemma pool_any_order:
  assumes "0 < n" "length inputs = length outputs" "mset ws = mset (pool_writes f inputs n)"
  shows "apply_writes ws outputs = map f inputs"
proof (rule nth_equalityI)
  fix i
  assume i: "i < length (apply_writes ws outputs)"
  have s: "set ws = set (pool_writes f inputs n)" using assms(3) by (metis set_mset_mset)
  then have "\<forall>(i, v) \<in> set ws. v = f (inputs ! i)" by (auto simp: pool_writes_def dest: trampoline_sound)
  then show "apply_writes ws outputs ! i = map f inputs ! i"
    using apply_writes_nth [of ws "\<lambda>i. f (inputs ! i)" i outputs] pool_writes_cover [OF assms(1), of i inputs f] i s assms(2) by simp
qed (use assms in simp)

lemma run_partitioned_ok:
  assumes "0 < workers" "run_partitioned_pooled workers in_region inputs outputs k f = (r, out)"
  shows "case r of Inl _ \<Rightarrow> out = outputs | Inr _ \<Rightarrow> out = map f inputs"
proof -
  have "0 < div_ceil (length inputs) k" if "0 < k" "inputs \<noteq> []" using div_ceil_bound [OF that(1), of "length inputs"] that(2)
    by (cases "div_ceil (length inputs) k = 0") auto
  then show ?thesis using assms pool_any_order [OF assms(1), of inputs outputs "pool_writes f inputs workers" f]
    by (auto simp: run_partitioned_pooled_def pool_run_partitioned_def run_partitioned_scoped_def check_worker_count_def
        chunks_map Let_def split: if_splits sum.splits)
qed

end
