(* ===== verification/Mss_Search.thy ===== *)
theory Mss_Search
  imports Mss_Materialize Executor
begin

text \<open>
  The annealing search, \<^verbatim>\<open>crates/mss/src/search.rs\<close>: four temperature bands run a Metropolis chain of mutations each,
  on the partitioned executor, and a total order on costs selects the winner. The winner is a program with the
  behaviour of the seed that ranks no worse. Floating-point arithmetic of the acceptance test is the parameter \<open>fp\<close>;
  the size of the worker pool and the caller's region flag are parameters too.
\<close>

section \<open>Bands and acceptance\<close>

datatype band = Hot | Warm | Cold | Elite

text \<open>The temperatures 100, 30, 10 and 3 as bit patterns.\<close>

fun temperature :: "band \<Rightarrow> f64" where
  "temperature Hot = 0x4059000000000000"
| "temperature Warm = 0x403E000000000000"
| "temperature Cold = 0x4024000000000000"
| "temperature Elite = 0x4008000000000000"

fun band_index :: "band \<Rightarrow> nat" where
  "band_index Hot = 0"
| "band_index Warm = 1"
| "band_index Cold = 2"
| "band_index Elite = 3"

definition BANDS :: "band list" where "BANDS = [Hot, Warm, Cold, Elite]"

definition ITERS_PER_BAND :: nat where "ITERS_PER_BAND = 400"

text \<open>The order of \<^verbatim>\<open>f64\<close> on bit patterns: sign and magnitude, with no NaN comparable.\<close>

definition f64_key :: "f64 \<Rightarrow> int" where
  "f64_key x = (let m = uint (x AND mask 63) in if bit x 63 then - m else m)"

definition f64_le :: "f64 \<Rightarrow> f64 \<Rightarrow> bool" where
  "f64_le x y \<longleftrightarrow> \<not> f64_is_nan x \<and> \<not> f64_is_nan y \<and> f64_key x \<le> f64_key y"

definition f64_less :: "f64 \<Rightarrow> f64 \<Rightarrow> bool" where
  "f64_less x y \<longleftrightarrow> \<not> f64_is_nan x \<and> \<not> f64_is_nan y \<and> f64_key x < f64_key y"

text \<open>The acceptance test of \<^verbatim>\<open>run_band\<close>; the constant is 1000.\<close>

definition metropolis :: "fp \<Rightarrow> band \<Rightarrow> cost \<Rightarrow> cost \<Rightarrow> rng_state \<Rightarrow> bool \<times> rng_state" where
  "metropolis F band child_cost current_cost rng =
     (let de = fp_sub F (fp_of_u64 F (ct_total child_cost)) (fp_of_u64 F (ct_total current_cost)) in
      if f64_le de 0 then (True, rng)
      else
        let p = fp_exp F (fp_div F (f64_neg de) (temperature band)) in
        case permille rng of (v, rng') \<Rightarrow> (f64_less (fp_of_u64 F v) (fp_mul F p 0x408F400000000000), rng'))"

definition candidate_order_strict :: "cost \<Rightarrow> cost \<Rightarrow> candidate \<Rightarrow> candidate \<Rightarrow> bool" where
  "candidate_order_strict ca cb a b \<longleftrightarrow>
     (if ct_total ca < ct_total cb then True
      else if ct_total ca = ct_total cb \<and> ct_depth ca < ct_depth cb then True
      else if ct_total ca = ct_total cb \<and> ct_depth ca = ct_depth cb then canonical_hash a < canonical_hash b
      else False)"

section \<open>One band\<close>

record band_result =
  br_elite :: candidate
  br_elite_cost :: cost
  br_generated :: u64
  br_accepted :: u64
  br_pruned :: u64
  br_nodes_touched :: u64

record chain = band_result +
  ch_rng :: rng_state
  ch_tt :: transposition_table
  ch_current :: candidate
  ch_current_cost :: cost

definition touch :: "candidate \<Rightarrow> chain \<Rightarrow> chain" where
  "touch c st = st\<lparr>br_nodes_touched := br_nodes_touched st + word_of_nat (cd_slot_count c)\<rparr>"

text \<open>The end of an iteration, for a child that is accepted.\<close>

definition chain_accept :: "candidate \<Rightarrow> cost \<Rightarrow> chain \<Rightarrow> chain" where
  "chain_accept child child_cost st =
     (let st1 = st\<lparr>br_accepted := br_accepted st + 1, ch_current := child, ch_current_cost := child_cost\<rparr> in
      if candidate_order_strict child_cost (br_elite_cost st) child (br_elite st)
      then st1\<lparr>br_elite := child, br_elite_cost := child_cost\<rparr> else st1)"

definition chain_child :: "fp \<Rightarrow> band \<Rightarrow> candidate \<Rightarrow> chain \<Rightarrow> chain" where
  "chain_child F band child st =
     (if \<not> tier0_legal child then st
      else
        let st1 = touch child st; hash = canonical_hash child in
        case probe_and_insert (ch_tt st1) hash of
          (False, tt) \<Rightarrow> st1\<lparr>ch_tt := tt, br_pruned := br_pruned st1 + 1\<rparr>
        | (True, tt) \<Rightarrow>
            let child_cost = cost_evaluate child;
                st2 = (touch child (st1\<lparr>ch_tt := tt\<rparr>))\<lparr>br_generated := br_generated st1 + 1\<rparr>
            in case metropolis F band child_cost (ch_current_cost st2) (ch_rng st2) of
                 (acc, rng) \<Rightarrow>
                   let st3 = st2\<lparr>ch_rng := rng\<rparr> in if acc then chain_accept child child_cost st3 else st3)"

definition band_step :: "fp \<Rightarrow> band \<Rightarrow> chain \<Rightarrow> chain" where
  "band_step F band st =
     (case rng_below (ch_rng st) (word_of_nat (length FAMILIES)) of
        (fi, rng) \<Rightarrow>
          case mutate_apply (ch_current st) (FAMILIES ! unat fi) rng of
            (None, rng') \<Rightarrow> st\<lparr>ch_rng := rng'\<rparr>
          | (Some child, rng') \<Rightarrow>
              chain_child F band child (touch (ch_current st) (touch child (st\<lparr>ch_rng := rng'\<rparr>))))"

definition chain_start :: "candidate \<Rightarrow> band \<Rightarrow> chain" where
  "chain_start seed band =
     \<lparr>br_elite = seed, br_elite_cost = cost_evaluate seed, br_generated = 0, br_accepted = 0, br_pruned = 0, br_nodes_touched = 0,
      ch_rng = rng_new (0x5EED0000 XOR word_of_nat (band_index band + 1)), ch_tt = tt_new,
      ch_current = seed, ch_current_cost = cost_evaluate seed\<rparr>"

definition run_band :: "fp \<Rightarrow> candidate \<Rightarrow> band \<Rightarrow> band_result" where
  "run_band F seed band = band_result.truncate ((band_step F band ^^ ITERS_PER_BAND) (chain_start seed band))"

section \<open>The merge\<close>

record search_outcome =
  so_best :: candidate
  so_best_cost :: cost
  so_generated :: u64
  so_accepted :: u64
  so_pruned :: u64
  so_nodes_touched :: u64

definition merge_best :: "band_result option \<Rightarrow> band_result \<Rightarrow> band_result option" where
  "merge_best best r =
     (case best of
        None \<Rightarrow> Some r
      | Some cur \<Rightarrow>
          if candidate_order_strict (br_elite_cost r) (br_elite_cost cur) (br_elite r) (br_elite cur) then Some r else Some cur)"

definition seed_result :: "candidate \<Rightarrow> band_result" where
  "seed_result seed =
     \<lparr>br_elite = seed, br_elite_cost = cost_evaluate seed, br_generated = 0, br_accepted = 0, br_pruned = 0, br_nodes_touched = 0\<rparr>"

definition search :: "fp \<Rightarrow> nat \<Rightarrow> bool \<Rightarrow> son_program \<Rightarrow> nat \<Rightarrow> search_outcome" where
  "search F pool in_region seed workers =
     (let seed_cand = from_program seed;
          results = snd (run_partitioned_pooled pool in_region [0, 1, 2, 3] (replicate 4 (seed_result seed_cand)) (max workers 1)
                           (\<lambda>bi. run_band F seed_cand (BANDS ! bi)));
          best = (case foldl merge_best None results of Some r \<Rightarrow> r | None \<Rightarrow> seed_result seed_cand)
      in \<lparr>so_best = br_elite best, so_best_cost = br_elite_cost best,
          so_generated = sum_list (map br_generated results), so_accepted = sum_list (map br_accepted results),
          so_pruned = sum_list (map br_pruned results), so_nodes_touched = sum_list (map br_nodes_touched results)\<rparr>)"

section \<open>Programs made by the builder\<close>

inductive built :: "son_arena \<Rightarrow> bool" where
  built_new: "built sa_new"
| built_const: "built a \<Longrightarrow> built (snd (pb_const_i64 a v))"
| built_param: "built a \<Longrightarrow> built (snd (pb_param a i))"
| built_bin: "built a \<Longrightarrow> pb_bin a op l r = Inr (s, a') \<Longrightarrow> built a'"
| built_un: "built a \<Longrightarrow> pb_un a op x = Inr (s, a') \<Longrightarrow> built a'"

definition arena_entry_legal :: "son_arena \<Rightarrow> nat \<Rightarrow> bool" where
  "arena_entry_legal a i \<longleftrightarrow>
     (let l = sa_lhs a ! i; r = sa_rhs a ! i; n = length (sa_kinds a) in
      case sa_kinds a ! i of
        KConst \<Rightarrow> l = NO_OPERAND \<and> r = NO_OPERAND
      | KParam \<Rightarrow> l = NO_OPERAND \<and> r = NO_OPERAND
      | KBin \<Rightarrow> l \<noteq> NO_OPERAND \<and> unat l < n \<and> r \<noteq> NO_OPERAND \<and> unat r < n
      | KUn \<Rightarrow> l \<noteq> NO_OPERAND \<and> unat l < n \<and> r = NO_OPERAND
      | _ \<Rightarrow> False)"

lemma entry_legal_push:
  assumes "length (sa_lhs a) = length (sa_kinds a)" "length (sa_rhs a) = length (sa_kinds a)"
    and "\<forall>i < length (sa_kinds a). arena_entry_legal a i"
    and "arena_entry_legal (sa_push a k imm opc l r) (length (sa_kinds a))"
  shows "\<forall>i < length (sa_kinds (sa_push a k imm opc l r)). arena_entry_legal (sa_push a k imm opc l r) i"
proof (intro allI impI)
  fix i
  assume i: "i < length (sa_kinds (sa_push a k imm opc l r))"
  show "arena_entry_legal (sa_push a k imm opc l r) i"
  proof (cases "i = length (sa_kinds a)")
    case False
    then have "i < length (sa_kinds a)" using i by (simp add: sa_push_def)
    then have "arena_entry_legal a i" using assms(3) by blast
    then show ?thesis using \<open>i < length (sa_kinds a)\<close> assms(1,2)
      by (auto simp: arena_entry_legal_def sa_push_def nth_append Let_def split: son_kind.splits)
  qed (use assms(4) in simp)
qed

lemma built_legal:
  "built a \<Longrightarrow> length (sa_imms a) = length (sa_kinds a) \<and> length (sa_opcodes a) = length (sa_kinds a) \<and>
     length (sa_lhs a) = length (sa_kinds a) \<and> length (sa_rhs a) = length (sa_kinds a) \<and>
     (\<forall>i < length (sa_kinds a). arena_entry_legal a i)"
proof (induction rule: built.induct)
  case built_new
  then show ?case by (simp add: sa_new_def)
next
  case (built_const a v)
  then have "\<forall>i < length (sa_kinds (snd (pb_const_i64 a v))). arena_entry_legal (snd (pb_const_i64 a v)) i"
    unfolding pb_const_i64_def Let_def snd_conv by (intro entry_legal_push) (auto simp: arena_entry_legal_def sa_push_def nth_append)
  with built_const show ?case by (simp add: pb_const_i64_def sa_push_def Let_def)
next
  case (built_param a v)
  then have "\<forall>i < length (sa_kinds (snd (pb_param a v))). arena_entry_legal (snd (pb_param a v)) i"
    unfolding pb_param_def Let_def snd_conv by (intro entry_legal_push) (auto simp: arena_entry_legal_def sa_push_def nth_append)
  with built_param show ?case by (simp add: pb_param_def sa_push_def Let_def)
next
  case (built_bin a op l r s a')
  then have a': "a' = sa_push a KBin 0 (bin_code op) l r" "l \<noteq> NO_OPERAND" "unat l < length (sa_kinds a)" "r \<noteq> NO_OPERAND"
      "unat r < length (sa_kinds a)"
    by (auto simp: pb_bin_def check_operand_def rbind_eq_Inr Let_def split: if_splits)
  have "\<forall>i < length (sa_kinds a'). arena_entry_legal a' i"
    unfolding a'(1) using built_bin.IH a'(2-5) by (intro entry_legal_push) (auto simp: arena_entry_legal_def sa_push_def nth_append)
  with built_bin.IH show ?case by (simp add: a'(1) sa_push_def)
next
  case (built_un a op x s a')
  then have a': "a' = sa_push a KUn 0 (un_code op) x NO_OPERAND" "x \<noteq> NO_OPERAND" "unat x < length (sa_kinds a)"
    by (auto simp: pb_un_def check_operand_def rbind_eq_Inr Let_def split: if_splits)
  have "\<forall>i < length (sa_kinds a'). arena_entry_legal a' i"
    unfolding a'(1) using built_un.IH a'(2-3) by (intro entry_legal_push) (auto simp: arena_entry_legal_def sa_push_def nth_append)
  with built_un.IH show ?case by (simp add: a'(1) sa_push_def)
qed

lemma built_program:
  assumes "built a" "pb_finish a r = Inr p" "length (sa_kinds a) < 2 ^ 32 - 1"
  shows "sa_wf (pg_arena p)" "cand_wf (from_program p)" "tier0_legal (from_program p)"
    "cd_slot_count (from_program p) = length (sa_kinds a)" "cd_root (from_program p) = pg_root p"
proof -
  have p: "p = \<lparr>pg_arena = a, pg_root = r\<rparr>" "unat r < length (sa_kinds a)" using assms(2) by (auto simp: pb_finish_def split: if_splits)
  let ?c = "from_program p" and ?n = "length (sa_kinds a)"
  show sel: "cd_slot_count ?c = ?n" "cd_root ?c = pg_root p" by (simp_all add: from_program_def cd_slot_count_def base_len_def p)
  show "sa_wf (pg_arena p)" using built_legal [OF assms(1)] assms(3) by (simp add: sa_wf_def p)
  show "cand_wf ?c" using sel(1) assms(3) by (simp add: cand_wf_def) (simp add: from_program_def)
  have n: "unat (word_of_nat ?n :: u32) = ?n" using assms(3) by (simp add: unat_of_nat_small)
  have v: "view ?c s = base_def a s" for s by (simp add: view_from_program p)
  have e: "arena_entry_legal a (unat s)" if "unat s < ?n" for s :: u32 using that built_legal [OF assms(1)] by blast
  have "slot_legal ?c s" if "unat s < ?n" for s
    using e [OF that] base_def_in [of a s] that assms(3) n
    by (auto simp: slot_legal_def arena_entry_legal_def v sel(1) Let_def word_less_nat_alt split: son_kind.splits)
  moreover have "df_kind (view ?c r) \<noteq> KDead"
    using e [OF p(2)] base_def_in [of a r] p(2) assms(3) by (auto simp: arena_entry_legal_def v Let_def)
  moreover have "pg_root p = r" by (simp add: p(1))
  ultimately show "tier0_legal ?c" using p(2) n assms(3)
    by (auto simp: tier0_legal_def list_all_iff sel word_less_nat_alt unat_of_nat_small)
qed

section \<open>The search keeps the program\<close>

definition cand_rank :: "candidate \<Rightarrow> u64 \<times> u64 \<times> u64" where
  "cand_rank c = (ct_total (cost_evaluate c), ct_depth (cost_evaluate c), canonical_hash c)"

lemma order_strict_rank:
  "candidate_order_strict (cost_evaluate a) (cost_evaluate b) a b \<longleftrightarrow> cand_rank a < cand_rank b"
  by (auto simp: candidate_order_strict_def cand_rank_def less_prod_def')

definition serves :: "candidate \<Rightarrow> candidate \<Rightarrow> bool" where
  "serves seed c \<longleftrightarrow> cand_wf c \<and> tier0_legal c \<and>
     (\<forall>ps v. meaning (view seed) ps (cd_root seed) v \<longrightarrow> meaning (view c) ps (cd_root c) v)"

definition result_ok :: "candidate \<Rightarrow> 'a band_result_scheme \<Rightarrow> bool" where
  "result_ok seed r \<longleftrightarrow> serves seed (br_elite r) \<and> br_elite_cost r = cost_evaluate (br_elite r) \<and>
     cand_rank (br_elite r) \<le> cand_rank seed"

definition chain_inv :: "candidate \<Rightarrow> nat \<Rightarrow> chain \<Rightarrow> bool" where
  "chain_inv seed n st \<longleftrightarrow> result_ok seed st \<and> serves seed (ch_current st) \<and>
     cd_slot_count (ch_current st) \<le> cd_slot_count seed + n"

lemma chain_child_inv:
  assumes "chain_inv seed n st" "keeps_root (ch_current st) child" "cd_slot_count (ch_current st) \<le> cd_slot_count seed + n"
  shows "chain_inv seed (Suc n) (chain_child F b child st)"
proof (cases "tier0_legal child")
  case True
  then have child: "serves seed child" "cd_slot_count child \<le> cd_slot_count seed + Suc n"
    using assms by (auto simp: chain_inv_def serves_def keeps_root_def)
  have acc: "chain_inv seed (Suc n) (chain_accept child (cost_evaluate child) st')"
    if "result_ok seed st'" for st'
    using that child order_strict_rank [of child "br_elite st'"]
    by (auto simp: chain_accept_def chain_inv_def result_ok_def Let_def)
  show ?thesis
  proof (cases "canonical_hash child \<in> ch_tt st")
    case seen: True
    then have "br_elite (chain_child F b child st) = br_elite st" "br_elite_cost (chain_child F b child st) = br_elite_cost st"
        "ch_current (chain_child F b child st) = ch_current st"
      using True by (simp_all add: chain_child_def probe_and_insert_def touch_def Let_def)
    then show ?thesis using assms(1) by (simp add: chain_inv_def result_ok_def)
  next
    case new: False
    obtain acc rng where m: "metropolis F b (cost_evaluate child) (ch_current_cost st) (ch_rng st) = (acc, rng)" by (metis surj_pair)
    obtain st' where st': "chain_child F b child st = (if acc then chain_accept child (cost_evaluate child) st' else st')"
        "br_elite st' = br_elite st" "br_elite_cost st' = br_elite_cost st" "ch_current st' = ch_current st"
      using True new m by (simp add: chain_child_def probe_and_insert_def touch_def Let_def)
    have "result_ok seed st'" "chain_inv seed (Suc n) st'" using assms(1) st'(2-4) by (simp_all add: chain_inv_def result_ok_def)
    then show ?thesis using st'(1) acc by simp
  qed
next
  case False
  then show ?thesis using assms(1) by (simp add: chain_child_def chain_inv_def)
qed

lemma band_step_inv:
  assumes "chain_inv seed n st" "cd_slot_count seed + Suc n < 2 ^ 32 - 1"
  shows "chain_inv seed (Suc n) (band_step F b st)"
proof -
  obtain fi rng where r: "rng_below (ch_rng st) (word_of_nat (length FAMILIES)) = (fi, rng)" by (metis surj_pair)
  obtain oc rng' where m: "mutate_apply (ch_current st) (FAMILIES ! unat fi) rng = (oc, rng')" by (metis surj_pair)
  show ?thesis
  proof (cases oc)
    case None
    then show ?thesis using assms(1) r m by (simp add: band_step_def chain_inv_def result_ok_def)
  next
    case (Some child)
    have "cand_wf (ch_current st)" "Suc (cd_slot_count (ch_current st)) < 2 ^ 32 - 1"
      using assms by (auto simp: chain_inv_def serves_def)
    then have "keeps_root (ch_current st) child" using mutate_keeps_root m Some by blast
    then show ?thesis using Some r m assms(1) chain_child_inv [of seed n "touch (ch_current st) (touch child (st\<lparr>ch_rng := rng'\<rparr>))" child F b]
      by (simp add: band_step_def chain_inv_def result_ok_def touch_def)
  qed
qed

lemma chain_iterate:
  "chain_inv seed 0 st \<Longrightarrow> cd_slot_count seed + n < 2 ^ 32 - 1 \<Longrightarrow> chain_inv seed n ((band_step F b ^^ n) st)"
  by (induction n) (auto intro: band_step_inv)

lemma run_band_ok:
  assumes "cand_wf seed" "tier0_legal seed" "cd_slot_count seed + ITERS_PER_BAND < 2 ^ 32 - 1"
  shows "result_ok seed (run_band F seed b)"
proof -
  have "chain_inv seed 0 (chain_start seed b)" using assms by (simp add: chain_inv_def chain_start_def result_ok_def serves_def)
  from chain_iterate [OF this assms(3)] show ?thesis
    by (simp add: run_band_def chain_inv_def result_ok_def band_result.defs)
qed

lemma merge_best_ok:
  assumes "\<forall>r \<in> set rs. result_ok seed r" "\<forall>r. best = Some r \<longrightarrow> result_ok seed r"
  shows "\<forall>r. foldl merge_best best rs = Some r \<longrightarrow> result_ok seed r"
  using assms by (induction rs arbitrary: best) (auto simp: merge_best_def split: option.splits)

text \<open>
  C37: the superoptimiser returns an equivalent program that is no worse. For a program made by the builder, and
  whatever the floating-point acceptance test decides, however many workers are asked for and available, the winner's
  materialized program evaluates on every argument list on which the seed evaluates, to the same value; its reported
  cost is its cost; and it does not rank behind the seed in the order of total cost, depth and hash.
\<close>

theorem search_sound:
  assumes "built a" "pb_finish a r = Inr p" "length (sa_kinds a) + ITERS_PER_BAND < 2 ^ 32 - 1" "0 < pool"
  shows "let out = search F pool in_region p workers in
    (\<forall>ps v. ip_evaluate p ps = Inr v \<longrightarrow> ip_evaluate (materialize (so_best out)) ps = Inr v) \<and>
    so_best_cost out = cost_evaluate (so_best out) \<and> cand_rank (so_best out) \<le> cand_rank (from_program p)"
proof -
  let ?seed = "from_program p" and ?f = "\<lambda>bi. run_band F (from_program p) (BANDS ! bi)"
  have small: "length (sa_kinds a) < 2 ^ 32 - 1" using assms(3) by simp
  note prog = built_program [OF assms(1,2) small]
  obtain res results where run: "run_partitioned_pooled pool in_region [0, 1, 2, 3] (replicate 4 (seed_result ?seed)) (max workers 1) ?f = (res, results)"
    by (metis surj_pair)
  have seed: "result_ok ?seed (seed_result ?seed)" using prog by (simp add: result_ok_def seed_result_def serves_def)
  have "results = replicate 4 (seed_result ?seed) \<or> results = map ?f [0, 1, 2, 3]"
    using run_partitioned_ok [OF assms(4) run] by (auto split: sum.splits)
  then have "\<forall>r \<in> set results. result_ok ?seed r"
    using seed run_band_ok [OF prog(2,3), of F] assms(3) prog(4) by auto
  then have best: "result_ok ?seed (case foldl merge_best None results of Some r \<Rightarrow> r | None \<Rightarrow> seed_result ?seed)"
    using merge_best_ok [of results ?seed None] seed by (auto split: option.splits)
  define out where "out = search F pool in_region p workers"
  from best have ok: "serves ?seed (so_best out)" "so_best_cost out = cost_evaluate (so_best out)" "cand_rank (so_best out) \<le> cand_rank ?seed"
    unfolding out_def search_def Let_def run snd_conv result_ok_def by simp_all
  have "ip_evaluate (materialize (so_best out)) ps = Inr v" if "ip_evaluate p ps = Inr v" for ps v
    using evaluate_meaning [OF prog(1) that] ok(1) prog(5) materialize_evaluates [of "so_best out" ps v] by (simp add: serves_def)
  then show ?thesis using ok(2,3) unfolding out_def Let_def by blast
qed

text \<open>The seed \<open>(p0 + 2) + 3\<close> from the builder.\<close>

definition demo_built :: son_arena where
  "demo_built = pg_arena (cd_base demo_sum)"

lemma demo_built_ok: "built demo_built"
proof -
  let ?a1 = "snd (pb_param sa_new 0)" and ?a2 = "snd (pb_const_i64 (snd (pb_param sa_new 0)) 2)"
  have "built ?a2" by (intro built_const built_param built_new)
  moreover obtain a3 where a3: "pb_bin ?a2 SAdd 0 1 = Inr (2, a3)"
      "a3 = \<lparr>sa_kinds = [KParam, KConst, KBin], sa_imms = [0, 2, 0], sa_opcodes = [0, 0, 0],
        sa_lhs = [NO_OPERAND, NO_OPERAND, 0], sa_rhs = [NO_OPERAND, NO_OPERAND, 1]\<rparr>"
    by (simp add: pb_bin_def check_operand_def pb_const_i64_def pb_param_def sa_push_def sa_new_def sa_last_def Let_def NO_OPERAND_def)
  ultimately have "built (snd (pb_const_i64 a3 3))" by (metis built_bin built_const)
  moreover have "pb_bin (snd (pb_const_i64 a3 3)) SAdd 2 3 = Inr (4, demo_built)"
    by (simp add: a3(2) demo_built_def demo_sum_def from_program_def pb_bin_def check_operand_def pb_const_i64_def sa_push_def sa_last_def Let_def NO_OPERAND_def)
  ultimately show ?thesis by (rule built_bin)
qed

definition demo_seed :: son_program where
  "demo_seed = \<lparr>pg_arena = demo_built, pg_root = 4\<rparr>"

lemma demo_seed_value: "ip_evaluate demo_seed [7] = Inr 12"
  by code_simp

theorem search_sound_witness:
  "\<forall>F. ip_evaluate (materialize (so_best (search F 8 False demo_seed 4))) [7] = Inr 12 \<and>
   cand_rank (so_best (search F 8 False demo_seed 4)) \<le> cand_rank (from_program demo_seed)"
proof -
  have fin: "pb_finish demo_built 4 = Inr demo_seed" "length (sa_kinds demo_built) + ITERS_PER_BAND < 2 ^ 32 - 1" "0 < (8 :: nat)"
    by (simp_all add: pb_finish_def demo_seed_def demo_built_def demo_sum_def from_program_def ITERS_PER_BAND_def)
  have "ip_evaluate (materialize (so_best (search F 8 False demo_seed 4))) [7] = Inr 12 \<and>
      cand_rank (so_best (search F 8 False demo_seed 4)) \<le> cand_rank (from_program demo_seed)" for F
    using search_sound [OF demo_built_ok fin, of F False 4] demo_seed_value unfolding Let_def by blast
  then show ?thesis by blast
qed

end
