(* ===== verification/Text.thy ===== *)
theory Text
  imports Arena Target
begin

text \<open>
  The text form of the IR, \<^verbatim>\<open>crates/xir-core/src/text.rs\<close>: printer, lexer and parser. Source text is a list of
  bytes. The parser's token cursor is the list of the tokens still to read. Reading and writing \<^verbatim>\<open>f64\<close> decimals is
  the standard library's and a parameter, as is floating-point arithmetic.

  The lexer's branch that scans on to the next \<^verbatim>\<open>>\<close> when a word ends before a \<^verbatim>\<open><\<close> is not in the model: a word
  never ends there, because \<^verbatim>\<open><\<close> is a word character.
\<close>

text \<open>The formats \<^verbatim>\<open>{}\<close> and \<^verbatim>\<open>{:.1}\<close>, and \<^verbatim>\<open>str::parse::<f64>\<close>.\<close>

record float_text =
  ft_show :: "f64 \<Rightarrow> string"
  ft_show1 :: "f64 \<Rightarrow> string"
  ft_parse :: "string \<Rightarrow> f64 option"

definition MAX_NEST :: nat where "MAX_NEST = 256"

datatype parse_error =
    UnexpectedToken nat
  | UnknownOp nat
  | UnknownType nat
  | BadInt nat
  | BadFloat nat
  | Truncated
  | NestingTooDeep nat
  | ArenaExhausted

section \<open>Decimal numbers\<close>

definition digit_char :: "nat \<Rightarrow> char" where
  "digit_char d = char_of (48 + d)"

definition is_digit :: "char \<Rightarrow> bool" where
  "is_digit c \<longleftrightarrow> 48 \<le> (of_char c :: nat) \<and> (of_char c :: nat) \<le> 57"

definition digit_val :: "char \<Rightarrow> nat" where
  "digit_val c = of_char c - 48"

fun show_nat :: "nat \<Rightarrow> string" where
  "show_nat n = (if n < 10 then [digit_char n] else show_nat (n div 10) @ [digit_char (n mod 10)])"

declare show_nat.simps [simp del]

definition show_int :: "int \<Rightarrow> string" where
  "show_int i = (if i < 0 then ''-'' @ show_nat (nat (- i)) else show_nat (nat i))"

definition digits_val :: "string \<Rightarrow> int" where
  "digits_val s = foldl (\<lambda>n c. 10 * n + int (digit_val c)) 0 s"

text \<open>\<^verbatim>\<open>str::parse::<u32>\<close> on digits, \<^verbatim>\<open>str::parse::<i64>\<close> on an optional sign and digits.\<close>

definition parse_u32 :: "string \<Rightarrow> u32 option" where
  "parse_u32 s = (if s = [] \<or> digits_val s \<ge> 2 ^ 32 then None else Some (word_of_int (digits_val s)))"

definition parse_i64 :: "bool \<Rightarrow> string \<Rightarrow> i64 option" where
  "parse_i64 neg s =
     (let v = (if neg then - digits_val s else digits_val s) in
      if s = [] \<or> \<not> in_i64 v then None else Some v)"

section \<open>Printing\<close>

fun join :: "string \<Rightarrow> string list \<Rightarrow> string" where
  "join sep [] = []"
| "join sep [x] = x"
| "join sep (x # y # xs) = x @ sep @ join sep (y # xs)"

fun monoid_name :: "monoid \<Rightarrow> string" where
  "monoid_name MAdd = ''add''"
| "monoid_name MMul = ''mul''"
| "monoid_name MMax = ''max''"
| "monoid_name MMin = ''min''"
| "monoid_name MAnd = ''and''"
| "monoid_name MOr = ''or''"

fun binary_name :: "binary_op \<Rightarrow> string" where
  "binary_name BAdd = ''add''"
| "binary_name BSub = ''sub''"
| "binary_name BMul = ''mul''"
| "binary_name BDiv = ''div''"
| "binary_name BMax = ''max''"
| "binary_name BMin = ''min''"

fun unary_name :: "unary_op \<Rightarrow> string" where
  "unary_name Relu = ''relu''"
| "unary_name Neg = ''neg''"
| "unary_name Exp = ''exp''"
| "unary_name Log = ''log''"

fun padding_name :: "padding \<Rightarrow> string" where
  "padding_name Valid = ''valid''"
| "padding_name Same = ''same''"

fun dist_name :: "rng_dist \<Rightarrow> string" where
  "dist_name Uniform = ''uniform''"
| "dist_name Normal = ''normal''"

fun space_name :: "address_space \<Rightarrow> string" where
  "space_name Global = ''global''"
| "space_name Shared = ''shared''"
| "space_name Register = ''register''"

definition shape_str :: "shape \<Rightarrow> string" where
  "shape_str s = join '','' (map show_int (shape_as_slice s))"

fun elem_name :: "scalar_type \<Rightarrow> string" where
  "elem_name F64 = ''f64''"
| "elem_name I64 = ''i64''"
| "elem_name F32 = ''f32''"
| "elem_name I32 = ''i32''"
| "elem_name Bool_ty = ''bool''"

fun layout_name :: "layout \<Rightarrow> string" where
  "layout_name RowMajor = ''row''"
| "layout_name ColMajor = ''col''"

definition show_bool :: "bool \<Rightarrow> string" where
  "show_bool b = (if b then ''true'' else ''false'')"

text \<open>The magnitude of a float, and the bounds \<open>2^63\<close> and \<open>10^15\<close> as bit patterns.\<close>

definition f64_magnitude :: "f64 \<Rightarrow> f64" where
  "f64_magnitude v = v AND mask 63"

definition float_str :: "fp \<Rightarrow> float_text \<Rightarrow> f64 \<Rightarrow> string" where
  "float_str F T v =
     (let whole = f64_is_zero (fp_fract F v) in
      if \<not> f64_is_finite v \<or> whole \<and> f64_magnitude v \<ge> 0x43E0000000000000
      then ''const.f64 bits '' @ show_nat (unat (drop_bit 32 v)) @ '' '' @ show_nat (unat (v AND 0xFFFFFFFF))
      else if whole \<and> f64_magnitude v < 0x430C6BF526340000 then ''const.f64 '' @ ft_show1 T v
      else ''const.f64 '' @ ft_show T v)"

fun format_op :: "fp \<Rightarrow> float_text \<Rightarrow> xop \<Rightarrow> string" where
  "format_op F T (ConstI64 v) = ''const.i64 '' @ show_int v"
| "format_op F T (ConstF64 v) = float_str F T v"
| "format_op F T (Param index) = ''param '' @ show_nat (unat index)"
| "format_op F T Dot = ''dot''"
| "format_op F T (Reduce axis m) = ''reduce axis='' @ show_nat (unat axis) @ '' monoid='' @ monoid_name m"
| "format_op F T (Rng dist seed) = ''rng dist='' @ dist_name dist @ '' seed='' @ show_nat (unat seed)"
| "format_op F T (Custom s) = ''custom '' @ show_nat (unat s)"
| "format_op F T OpIf = ''if''"
| "format_op F T (Binary b) = ''binary.'' @ binary_name b"
| "format_op F T (Unary u) = ''unary.'' @ unary_name u"
| "format_op F T (Matmul ta tb) = ''matmul ta='' @ show_bool ta @ '' tb='' @ show_bool tb"
| "format_op F T (Conv p stride) = ''conv padding='' @ padding_name p @ '' stride='' @ show_nat (unat stride)"
| "format_op F T (Broadcast to) = ''broadcast to=['' @ shape_str to @ '']''"
| "format_op F T (Transpose perm rank) =
     ''transpose perm=['' @ join '','' (map (\<lambda>p. show_nat (unat p)) (take (unat rank) perm)) @ '']''"
| "format_op F T FusionCluster = ''fusion.cluster''"
| "format_op F T FusionBarrier = ''fusion.barrier''"
| "format_op F T FusionMaterialize = ''fusion.materialize''"
| "format_op F T (LoopParallel axis) = ''loop.parallel axis='' @ show_nat (unat axis)"
| "format_op F T (LoopAlloc bytes space) = ''loop.alloc bytes='' @ show_nat (unat bytes) @ '' space='' @ space_name space"
| "format_op F T LoopAsyncCopy = ''loop.async_copy''"
| "format_op F T (LoopPipelineStage stage) = ''loop.pipeline_stage stage='' @ show_nat (unat stage)"
| "format_op F T TargetMma = ''target.mma''"
| "format_op F T TargetWarpShuffle = ''target.warp_shuffle''"
| "format_op F T TargetBarrier = ''target.barrier''"

fun format_type :: "ty \<Rightarrow> string" where
  "format_type (Scalar s) = ''scalar<'' @ elem_name s @ ''>''"
| "format_type (Tensor t) =
     ''tensor<'' @ elem_name (tt_elem t) @ ''>['' @ shape_str (tt_shape t) @ ''] '' @ layout_name (tt_layout t)"
| "format_type Token = ''token''"
| "format_type (MemRef t space) =
     ''memref<'' @ elem_name (tt_elem t) @ ''>['' @ shape_str (tt_shape t) @ ''] '' @ layout_name (tt_layout t) @ '' '' @ space_name space"
| "format_type NoneTy = ''none''"

definition newline :: char where "newline = CHR 0x0A"

definition show_ref :: "node_id \<Rightarrow> string" where
  "show_ref x = ''%'' @ show_nat (unat (nid_index x))"

definition show_uses :: "node \<Rightarrow> string" where
  "show_uses n = join '', '' (map (\<lambda>v. show_ref (vid_node v)) (node_uses n))"

text \<open>The nodes of each region slot, in slot order of the nodes.\<close>

definition per_region :: "arena \<Rightarrow> node_id list list" where
  "per_region a =
     map (\<lambda>r. map fst (filter (\<lambda>(x, n). unat (rid_index (nd_region n)) = r) (live_nodes a))) [0 ..< length (region_entries a)]"

definition owned_regions :: "arena \<Rightarrow> node_id \<Rightarrow> region_id list" where
  "owned_regions a x = map fst (filter (\<lambda>(g, r). rg_owner r = x) (region_entries a))"

definition pad :: "nat \<Rightarrow> string" where
  "pad depth = concat (replicate depth ''  '')"

definition print_line :: "fp \<Rightarrow> float_text \<Rightarrow> nat \<Rightarrow> node_id \<Rightarrow> node \<Rightarrow> string" where
  "print_line F T depth x n =
     pad depth @ show_ref x @ '' = '' @ format_op F T (nd_op n) @ '' '' @ show_uses n @ '' : '' @ format_type (nd_ty n)"

function print_region_nodes :: "fp \<Rightarrow> float_text \<Rightarrow> arena \<Rightarrow> region_id \<Rightarrow> nat \<Rightarrow> string list" where
  "print_region_nodes F T a region depth =
     (if depth > MAX_NEST \<or> unat (rid_index region) \<ge> length (per_region a) then []
      else concat (map (\<lambda>x.
        case arena_node a x of
          Inl _ \<Rightarrow> []
        | Inr n \<Rightarrow>
            if nd_op n \<noteq> OpIf then [print_line F T depth x n]
            else
              (case owned_regions a x of
                 [then_r, else_r] \<Rightarrow>
                   [pad depth @ show_ref x @ '' = if '' @ show_uses n @ '' : '' @ format_type (nd_ty n) @ '' {''] @
                   print_region_nodes F T a then_r (depth + 1) @ [pad depth @ ''} else {''] @
                   print_region_nodes F T a else_r (depth + 1) @ [pad depth @ ''}'']
               | owned \<Rightarrow>
                   (pad depth @ show_ref x @ '' = if '' @ show_uses n) #
                   concat (map (\<lambda>g. print_region_nodes F T a g (depth + 1)) owned)))
        (per_region a ! unat (rid_index region))))"
  by pat_completeness auto

termination
  by (relation "measure (\<lambda>(F, T, a, region, depth). MAX_NEST + 1 - depth)") auto

declare print_region_nodes.simps [simp del]

definition print_arena :: "fp \<Rightarrow> float_text \<Rightarrow> arena \<Rightarrow> string" where
  "print_arena F T a =
     ''xir v1 func @main {'' @ [newline] @ join [newline] (print_region_nodes F T a (root_region a) 1) @ [newline] @ ''}'' @ [newline]"

section \<open>The lexer\<close>

datatype tok = Word string | ValueRef u32 | IntTok i64 | FloatTok f64 | BoolTok bool | Sym char | Eol

type_synonym tokens = "(tok \<times> nat) list"

definition is_alpha :: "char \<Rightarrow> bool" where
  "is_alpha c \<longleftrightarrow> (let b = of_char c :: nat in 65 \<le> b \<and> b \<le> 90 \<or> 97 \<le> b \<and> b \<le> 122)"

definition word_start :: "char \<Rightarrow> bool" where
  "word_start c \<longleftrightarrow> is_alpha c \<or> c \<in> set ''_.@''"

definition word_char :: "char \<Rightarrow> bool" where
  "word_char c \<longleftrightarrow> is_alpha c \<or> is_digit c \<or> c \<in> set ''_.@<>''"

definition is_sym :: "char \<Rightarrow> bool" where
  "is_sym c \<longleftrightarrow> c \<in> set ''()[]{},:=;''"

definition word_tok :: "string \<Rightarrow> tok" where
  "word_tok w = (if w = ''true'' then BoolTok True else if w = ''false'' then BoolTok False else Word w)"

lemma dropWhile_shorter: "length (dropWhile P xs) \<le> length xs"
  by (induction xs) auto

lemma dropWhile_tl_shorter: "dropWhile P xs \<noteq> [] \<Longrightarrow> length (dropWhile Q (tl (dropWhile P xs))) < length xs"
proof -
  assume ne: "dropWhile P xs \<noteq> []"
  then have "length (tl (dropWhile P xs)) < length xs" using dropWhile_shorter [of P xs] by (cases "dropWhile P xs") auto
  then show ?thesis using dropWhile_shorter [of Q "tl (dropWhile P xs)"] by linarith
qed

function lex_from :: "float_text \<Rightarrow> nat \<Rightarrow> string \<Rightarrow> parse_error + tokens" where
  "lex_from T i [] = Inr []"
| "lex_from T i (b # cs) =
     (if b = newline then rbind (lex_from T (i + 1) cs) (\<lambda>ts. Inr ((Eol, i) # ts))
      else if b = CHR '' '' \<or> b = CHR 0x09 \<or> b = CHR 0x0D then lex_from T (i + 1) cs
      else if b = CHR ''%'' then
        let ds = takeWhile is_digit cs in
        (case parse_u32 ds of
           None \<Rightarrow> Inl (BadInt i)
         | Some n \<Rightarrow> rbind (lex_from T (i + 1 + length ds) (dropWhile is_digit cs)) (\<lambda>ts. Inr ((ValueRef n, i) # ts)))
      else if b = CHR ''-'' \<or> is_digit b then
        let neg = (b = CHR ''-''); body = (if neg then cs else b # cs);
            ds = takeWhile is_digit body; rest = dropWhile is_digit body; len = (if neg then 1 else 0) + length ds
        in if rest \<noteq> [] \<and> hd rest = CHR ''.''
           then
             let fs = takeWhile is_digit (tl rest) in
             (case ft_parse T ((if neg then ''-'' else []) @ ds @ ''.'' @ fs) of
                None \<Rightarrow> Inl (BadFloat i)
              | Some v \<Rightarrow>
                  rbind (lex_from T (i + len + 1 + length fs) (dropWhile is_digit (tl rest))) (\<lambda>ts. Inr ((FloatTok v, i) # ts)))
           else
             (case parse_i64 neg ds of
                None \<Rightarrow> Inl (BadInt i)
              | Some v \<Rightarrow> rbind (lex_from T (i + len) rest) (\<lambda>ts. Inr ((IntTok v, i) # ts)))
      else if word_start b then
        let w = b # takeWhile word_char cs in
        rbind (lex_from T (i + length w) (dropWhile word_char cs)) (\<lambda>ts. Inr ((word_tok w, i) # ts))
      else if is_sym b then rbind (lex_from T (i + 1) cs) (\<lambda>ts. Inr ((Sym b, i) # ts))
      else Inl (UnexpectedToken i))"
  by pat_completeness auto

termination
proof (relation "measure (\<lambda>(T, i, cs). length cs)", goal_cases)
  case (5 T i b cs)
  then show ?case using dropWhile_tl_shorter [of is_digit "if b = CHR ''-'' then cs else b # cs" is_digit] by (auto split: if_splits)
qed (auto simp: less_Suc_eq_le dropWhile_shorter)

declare lex_from.simps [simp del]

definition lex :: "float_text \<Rightarrow> string \<Rightarrow> parse_error + tokens" where
  "lex T src = lex_from T 0 src"

section \<open>The parser\<close>

definition p_next :: "tokens \<Rightarrow> parse_error + (tok \<times> nat) \<times> tokens" where
  "p_next ts = (case ts of [] \<Rightarrow> Inl Truncated | t # ts' \<Rightarrow> Inr (t, ts'))"

definition peek_is :: "(tok \<Rightarrow> bool) \<Rightarrow> tokens \<Rightarrow> bool" where
  "peek_is P ts = (case ts of [] \<Rightarrow> False | (t, _) # _ \<Rightarrow> P t)"

fun skip_eols :: "tokens \<Rightarrow> tokens" where
  "skip_eols ((Eol, _) # ts) = skip_eols ts"
| "skip_eols ts = ts"

text \<open>\<^verbatim>\<open>expect_word\<close> and \<^verbatim>\<open>expect_sym\<close>, and the frequent \<^verbatim>\<open>name =\<close>.\<close>

definition expect_word :: "string \<Rightarrow> tokens \<Rightarrow> parse_error + tokens" where
  "expect_word w ts = rbind (p_next ts) (\<lambda>((got, off), ts'). case got of Word g \<Rightarrow> if g = w then Inr ts' else Inl (UnexpectedToken off) | _ \<Rightarrow> Inl (UnexpectedToken off))"

definition expect_sym :: "char \<Rightarrow> tokens \<Rightarrow> parse_error + tokens" where
  "expect_sym c ts = rbind (p_next ts) (\<lambda>((got, off), ts'). case got of Sym g \<Rightarrow> if g = c then Inr ts' else Inl (UnexpectedToken off) | _ \<Rightarrow> Inl (UnexpectedToken off))"

definition expect_key :: "string \<Rightarrow> tokens \<Rightarrow> parse_error + tokens" where
  "expect_key w ts = rbind (expect_word w ts) (expect_sym CHR ''='')"

text \<open>An integer token in a range; \<^verbatim>\<open>u8::try_from\<close> and \<^verbatim>\<open>u32::try_from\<close> of an \<^verbatim>\<open>i64\<close>.\<close>

definition p_int :: "int \<Rightarrow> int \<Rightarrow> tokens \<Rightarrow> parse_error + i64 \<times> tokens" where
  "p_int lo hi ts = rbind (p_next ts) (\<lambda>((t, o1), ts').
     case t of IntTok v \<Rightarrow> if lo \<le> v \<and> v < hi then Inr (v, ts') else Inl (BadInt o1) | _ \<Rightarrow> Inl (BadInt o1))"

definition p_i64 :: "tokens \<Rightarrow> parse_error + i64 \<times> tokens" where
  "p_i64 = p_int (- (2 ^ 63)) (2 ^ 63)"

definition p_u8 :: "tokens \<Rightarrow> parse_error + u8 \<times> tokens" where
  "p_u8 ts = rbind (p_int 0 256 ts) (\<lambda>(v, ts'). Inr (word_of_int v, ts'))"

definition p_u32 :: "tokens \<Rightarrow> parse_error + u32 \<times> tokens" where
  "p_u32 ts = rbind (p_int 0 (2 ^ 32) ts) (\<lambda>(v, ts'). Inr (word_of_int v, ts'))"

text \<open>A word out of a table of names; \<open>err\<close> is the error for another word.\<close>

definition p_name :: "(string \<times> 'a) list \<Rightarrow> (nat \<Rightarrow> parse_error) \<Rightarrow> tokens \<Rightarrow> parse_error + 'a \<times> tokens" where
  "p_name names err ts = rbind (p_next ts) (\<lambda>((t, o1), ts').
     case t of Word w \<Rightarrow> (case map_of names w of Some x \<Rightarrow> Inr (x, ts') | None \<Rightarrow> Inl (err o1)) | _ \<Rightarrow> Inl (UnexpectedToken o1))"

definition p_bool :: "tokens \<Rightarrow> parse_error + bool \<times> tokens" where
  "p_bool ts = rbind (p_next ts) (\<lambda>((t, o1), ts'). case t of BoolTok b \<Rightarrow> Inr (b, ts') | _ \<Rightarrow> Inl (UnexpectedToken o1))"

definition monoid_names :: "(string \<times> monoid) list" where
  "monoid_names = [(''add'', MAdd), (''mul'', MMul), (''max'', MMax), (''min'', MMin), (''and'', MAnd), (''or'', MOr)]"

definition dist_names :: "(string \<times> rng_dist) list" where
  "dist_names = [(''uniform'', Uniform), (''normal'', Normal)]"

definition padding_names :: "(string \<times> padding) list" where
  "padding_names = [(''valid'', Valid), (''same'', Same)]"

definition space_names :: "(string \<times> address_space) list" where
  "space_names = [(''global'', Global), (''shared'', Shared), (''register'', Register)]"

text \<open>A comma separated list of integers, up to the first token that is not one.\<close>

fun p_dims :: "tokens \<Rightarrow> i64 list \<times> tokens" where
  "p_dims ((IntTok v, _) # (Sym c, o1) # ts) =
     (if c = CHR '','' then (case p_dims ts of (ds, ts') \<Rightarrow> (v # ds, ts')) else ([v], (Sym c, o1) # ts))"
| "p_dims ((IntTok v, _) # ts) = ([v], ts)"
| "p_dims ts = ([], ts)"

definition o2_of :: "tokens \<Rightarrow> nat" where
  "o2_of ts = (case ts of (_, off) # _ \<Rightarrow> off | [] \<Rightarrow> 0)"

text \<open>The loop over the entries of a permutation; \<open>acc\<close> has at most \<^const>\<open>MAX_RANK\<close> of them.\<close>

fun p_perm :: "nat \<Rightarrow> u8 list \<Rightarrow> tokens \<Rightarrow> parse_error + u8 list \<times> tokens" where
  "p_perm 0 acc ts = rbind (p_next ts) (\<lambda>((_, o1), _). Inl (BadInt o1))"
| "p_perm (Suc k) acc ts = rbind (p_u8 ts) (\<lambda>(v, ts').
     if peek_is (\<lambda>t. t = Sym CHR '','') ts' then p_perm k (acc @ [v]) (tl ts') else Inr (acc @ [v], ts'))"

definition simple_ops :: "(string \<times> xop) list" where
  "simple_ops =
     [(''dot'', Dot), (''if'', OpIf), (''binary.add'', Binary BAdd), (''binary.sub'', Binary BSub), (''binary.mul'', Binary BMul),
      (''binary.div'', Binary BDiv), (''binary.max'', Binary BMax), (''binary.min'', Binary BMin), (''unary.relu'', Unary Relu),
      (''unary.neg'', Unary Neg), (''unary.exp'', Unary Exp), (''unary.log'', Unary Log), (''fusion.cluster'', FusionCluster),
      (''fusion.barrier'', FusionBarrier), (''fusion.materialize'', FusionMaterialize), (''loop.async_copy'', LoopAsyncCopy),
      (''target.mma'', TargetMma), (''target.warp_shuffle'', TargetWarpShuffle), (''target.barrier'', TargetBarrier)]"

definition p_const_f64 :: "fp \<Rightarrow> tokens \<Rightarrow> parse_error + xop \<times> tokens" where
  "p_const_f64 F ts =
     (if peek_is (\<lambda>t. t = Word ''bits'') ts then
        rbind (p_next (tl ts)) (\<lambda>((hi, hi_off), ts1).
        rbind (p_next ts1) (\<lambda>((lo, lo_off), ts2).
          case hi of
            IntTok h \<Rightarrow>
              if \<not> (0 \<le> h \<and> h < 2 ^ 32) then Inl (BadInt hi_off)
              else (case lo of
                IntTok l \<Rightarrow>
                  if \<not> (0 \<le> l \<and> l < 2 ^ 32) then Inl (BadInt lo_off)
                  else Inr (ConstF64 (push_bit 32 (word_of_int h) OR word_of_int l), ts2)
              | _ \<Rightarrow> Inl (BadInt lo_off))
          | _ \<Rightarrow> Inl (BadInt hi_off)))
      else
        rbind (p_next ts) (\<lambda>((t, o1), ts').
          case t of
            FloatTok v \<Rightarrow> Inr (ConstF64 v, ts')
          | IntTok v \<Rightarrow> Inr (ConstF64 (fp_of_i64 F v), ts')
          | _ \<Rightarrow> Inl (BadFloat o1)))"

definition p_broadcast :: "tokens \<Rightarrow> parse_error + xop \<times> tokens" where
  "p_broadcast ts =
     rbind (expect_key ''to'' ts) (\<lambda>ts. rbind (expect_sym CHR ''['' ts) (\<lambda>ts.
       case p_dims ts of
         (dims, ts) \<Rightarrow> rbind (expect_sym CHR '']'' ts) (\<lambda>ts.
           case shape_from_dims dims of Inr shape \<Rightarrow> Inr (Broadcast shape, ts) | Inl _ \<Rightarrow> Inl (UnknownType (o2_of ts)))))"

definition p_transpose :: "tokens \<Rightarrow> parse_error + xop \<times> tokens" where
  "p_transpose ts =
     rbind (expect_key ''perm'' ts) (\<lambda>ts. rbind (expect_sym CHR ''['' ts) (\<lambda>ts.
     rbind (p_perm MAX_RANK [] ts) (\<lambda>(perm, ts). rbind (expect_sym CHR '']'' ts) (\<lambda>ts.
       Inr (Transpose (perm @ replicate (MAX_RANK - length perm) 0) (word_of_nat (length perm)), ts)))))"

definition parse_op :: "fp \<Rightarrow> string \<Rightarrow> nat \<Rightarrow> tokens \<Rightarrow> parse_error + xop \<times> tokens" where
  "parse_op F name off ts =
     (case map_of simple_ops name of
        Some op \<Rightarrow> Inr (op, ts)
      | None \<Rightarrow>
          if name = ''const.i64'' then rbind (p_i64 ts) (\<lambda>(v, ts). Inr (ConstI64 v, ts))
          else if name = ''const.f64'' then p_const_f64 F ts
          else if name = ''param'' then rbind (p_u32 ts) (\<lambda>(v, ts). Inr (Param v, ts))
          else if name = ''reduce'' then
            rbind (expect_key ''axis'' ts) (\<lambda>ts. rbind (p_u8 ts) (\<lambda>(axis, ts).
            rbind (expect_key ''monoid'' ts) (\<lambda>ts. rbind (p_name monoid_names UnknownOp ts) (\<lambda>(m, ts).
              Inr (Reduce axis m, ts)))))
          else if name = ''rng'' then
            rbind (expect_key ''dist'' ts) (\<lambda>ts. rbind (p_name dist_names UnknownOp ts) (\<lambda>(dist, ts).
            rbind (expect_key ''seed'' ts) (\<lambda>ts. rbind (p_i64 ts) (\<lambda>(seed, ts).
              Inr (Rng dist (word_of_int seed), ts)))))
          else if name = ''custom'' then rbind (p_u32 ts) (\<lambda>(v, ts). Inr (Custom v, ts))
          else if name = ''matmul'' then
            rbind (expect_key ''ta'' ts) (\<lambda>ts. rbind (p_bool ts) (\<lambda>(ta, ts).
            rbind (expect_key ''tb'' ts) (\<lambda>ts. rbind (p_bool ts) (\<lambda>(tb, ts).
              Inr (Matmul ta tb, ts)))))
          else if name = ''conv'' then
            rbind (expect_key ''padding'' ts) (\<lambda>ts. rbind (p_name padding_names UnknownOp ts) (\<lambda>(p, ts).
            rbind (expect_key ''stride'' ts) (\<lambda>ts. rbind (p_u8 ts) (\<lambda>(stride, ts).
              Inr (Conv p stride, ts)))))
          else if name = ''broadcast'' then p_broadcast ts
          else if name = ''transpose'' then p_transpose ts
          else if name = ''loop.parallel'' then
            rbind (expect_key ''axis'' ts) (\<lambda>ts. rbind (p_u8 ts) (\<lambda>(axis, ts). Inr (LoopParallel axis, ts)))
          else if name = ''loop.alloc'' then
            rbind (expect_key ''bytes'' ts) (\<lambda>ts. rbind (p_u32 ts) (\<lambda>(bytes, ts).
            rbind (expect_key ''space'' ts) (\<lambda>ts. rbind (p_name space_names UnknownOp ts) (\<lambda>(space, ts).
              Inr (LoopAlloc bytes space, ts)))))
          else if name = ''loop.pipeline_stage'' then
            rbind (expect_key ''stage'' ts) (\<lambda>ts. rbind (p_u32 ts) (\<lambda>(stage, ts). Inr (LoopPipelineStage stage, ts)))
          else Inl (UnknownOp off))"

definition elem_names :: "(string \<times> scalar_type) list" where
  "elem_names = [(''f64'', F64), (''i64'', I64), (''f32'', F32), (''i32'', I32), (''bool'', Bool_ty)]"

definition parse_elem :: "string \<Rightarrow> nat \<Rightarrow> parse_error + scalar_type" where
  "parse_elem s off = (case map_of elem_names s of Some x \<Rightarrow> Inr x | None \<Rightarrow> Inl (UnknownType off))"

definition strip_prefix :: "string \<Rightarrow> string \<Rightarrow> string option" where
  "strip_prefix p s = (if take (length p) s = p then Some (drop (length p) s) else None)"

definition strip_suffix :: "char \<Rightarrow> string \<Rightarrow> string option" where
  "strip_suffix c s = (if s \<noteq> [] \<and> last s = c then Some (butlast s) else None)"

text \<open>
  The text between the first \<^verbatim>\<open><\<close> and the first \<^verbatim>\<open>>\<close> of a word that begins with \<^verbatim>\<open>tensor<\<close> or \<^verbatim>\<open>memref<\<close>, which has
  its first \<^verbatim>\<open><\<close> at index 6.
\<close>

definition elem_text :: "string \<Rightarrow> string option" where
  "elem_text w = (if CHR ''>'' \<in> set w then Some (takeWhile (\<lambda>c. c \<noteq> CHR ''>'') (drop 7 w)) else None)"

definition p_layout :: "tokens \<Rightarrow> layout \<times> tokens" where
  "p_layout ts =
     (if peek_is (\<lambda>t. t = Word ''col'') ts then (ColMajor, tl ts)
      else if peek_is (\<lambda>t. t = Word ''row'') ts then (RowMajor, tl ts) else (RowMajor, ts))"

definition p_space :: "tokens \<Rightarrow> address_space \<times> tokens" where
  "p_space ts =
     (if peek_is (\<lambda>t. t = Word ''shared'') ts then (Shared, tl ts)
      else if peek_is (\<lambda>t. t = Word ''register'') ts then (Register, tl ts) else (Global, ts))"

definition p_shape :: "nat \<Rightarrow> tokens \<Rightarrow> parse_error + shape \<times> tokens" where
  "p_shape off ts =
     rbind (if peek_is (\<lambda>t. t = Sym CHR ''['') ts
            then (case p_dims (tl ts) of (dims, ts') \<Rightarrow> rbind (expect_sym CHR '']'' ts') (\<lambda>ts'. Inr (dims, ts')))
            else Inr ([], ts)) (\<lambda>(dims, ts).
       case shape_from_dims dims of Inr s \<Rightarrow> Inr (s, ts) | Inl _ \<Rightarrow> Inl (UnknownType off))"

definition p_tensor_type :: "string \<Rightarrow> nat \<Rightarrow> tokens \<Rightarrow> parse_error + ty \<times> tokens" where
  "p_tensor_type w off ts =
     (let is_memref = (strip_prefix ''memref<'' w \<noteq> None); is_tensor = (strip_prefix ''tensor<'' w \<noteq> None) in
      if \<not> is_tensor \<and> \<not> is_memref then Inl (UnknownType off)
      else
        case elem_text w of
          None \<Rightarrow> Inl (UnknownType off)
        | Some e \<Rightarrow>
            rbind (parse_elem e off) (\<lambda>sc. rbind (p_shape off ts) (\<lambda>(shape, ts).
              case p_layout ts of
                (layout, ts) \<Rightarrow>
                  let t = \<lparr>tt_elem = sc, tt_shape = shape, tt_layout = layout\<rparr> in
                  if is_memref then (case p_space ts of (space, ts) \<Rightarrow> Inr (MemRef t space, ts)) else Inr (Tensor t, ts))))"

definition parse_type_tokens :: "tokens \<Rightarrow> parse_error + ty \<times> tokens" where
  "parse_type_tokens ts = rbind (p_next ts) (\<lambda>((t, off), ts).
     case t of
       Word w \<Rightarrow>
         if w = ''token'' then Inr (Token, ts)
         else if w = ''none'' then Inr (NoneTy, ts)
         else
           (case strip_prefix ''scalar<'' w of
              Some rest \<Rightarrow>
                (case strip_suffix CHR ''>'' rest of
                   None \<Rightarrow> Inl (UnknownType off)
                 | Some e \<Rightarrow> rbind (parse_elem e off) (\<lambda>sc. Inr (Scalar sc, ts)))
            | None \<Rightarrow> p_tensor_type w off ts)
     | _ \<Rightarrow> Inl (UnknownType off))"

fun infer_type :: "xop \<Rightarrow> ty" where
  "infer_type (ConstI64 _) = Scalar I64"
| "infer_type (ConstF64 _) = Scalar F64"
| "infer_type (Param _) = Scalar F64"
| "infer_type (Binary _) = Scalar F64"
| "infer_type (Unary _) = Scalar F64"
| "infer_type Dot = Scalar F64"
| "infer_type (Matmul _ _) = Scalar F64"
| "infer_type (Reduce _ _) = Scalar F64"
| "infer_type (Broadcast _) = Scalar F64"
| "infer_type (Transpose _ _) = Scalar F64"
| "infer_type (Conv _ _) = Scalar F64"
| "infer_type _ = NoneTy"

section \<open>Statements and blocks\<close>

type_synonym val_table = "(u32 \<times> value_id) list"

definition lookup_val :: "val_table \<Rightarrow> u32 \<Rightarrow> value_id" where
  "lookup_val vals n = foldl (\<lambda>found (k, v). if k = n then v else found) ValueId_NONE vals"

fun p_inputs :: "val_table \<Rightarrow> tokens \<Rightarrow> parse_error + value_id list \<times> tokens" where
  "p_inputs vals ((ValueRef n, o1) # ts) =
     (let v = lookup_val vals n in
      if vid_is_none v then Inl (UnexpectedToken o1)
      else
        case ts of
          (Sym c, o2) # ts' \<Rightarrow>
            if c = CHR '','' then rbind (p_inputs vals ts') (\<lambda>(vs, ts''). Inr (v # vs, ts'')) else Inr ([v], ts)
        | _ \<Rightarrow> Inr ([v], ts))"
| "p_inputs vals ts = Inr ([], ts)"

definition stmt_end :: "nat \<Rightarrow> tokens \<Rightarrow> parse_error + tokens" where
  "stmt_end off ts = (case ts of [] \<Rightarrow> Inr [] | (t, _) # ts' \<Rightarrow> if t = Eol then Inr ts' else Inl (UnexpectedToken off))"

text \<open>The head of a statement, up to its inputs.\<close>

definition p_head :: "fp \<Rightarrow> val_table \<Rightarrow> tokens \<Rightarrow> parse_error + (u32 \<times> nat \<times> nat \<times> xop \<times> value_id list) \<times> tokens" where
  "p_head F vals ts =
     rbind (p_next ts) (\<lambda>((t, off), ts).
       case t of
         ValueRef n \<Rightarrow>
           rbind (expect_sym CHR ''='' ts) (\<lambda>ts. rbind (p_next ts) (\<lambda>((w, woff), ts).
             case w of
               Word name \<Rightarrow>
                 rbind (parse_op F name woff ts) (\<lambda>(op, ts). rbind (p_inputs vals ts) (\<lambda>(inputs, ts).
                   Inr ((n, off, woff, op, inputs), ts)))
             | _ \<Rightarrow> Inl (UnexpectedToken woff)))
       | _ \<Rightarrow> Inl (UnexpectedToken off))"

definition add_node :: "arena \<Rightarrow> region_id \<Rightarrow> xop \<Rightarrow> value_id list \<Rightarrow> ty \<Rightarrow> parse_error + node_id \<times> value_id \<times> arena" where
  "add_node a region op inputs t =
     (case insert_node a region (node_new op region inputs t) of
        (Inl _, _) \<Rightarrow> Inl ArenaExhausted
      | (Inr x, a') \<Rightarrow> (case value_of a' x 0 of Inl _ \<Rightarrow> Inl ArenaExhausted | Inr v \<Rightarrow> Inr (x, v, a')))"

definition add_region :: "arena \<Rightarrow> region_id \<Rightarrow> node_id \<Rightarrow> parse_error + region_id \<times> arena" where
  "add_region a parent owner =
     (case new_region a parent owner of (Inl _, _) \<Rightarrow> Inl ArenaExhausted | (Inr g, a') \<Rightarrow> Inr (g, a'))"

text \<open>A statement that is not an \<^verbatim>\<open>if\<close>.\<close>

definition p_plain :: "arena \<Rightarrow> val_table \<Rightarrow> region_id \<Rightarrow> u32 \<times> nat \<times> nat \<times> xop \<times> value_id list \<Rightarrow> tokens \<Rightarrow>
    parse_error + arena \<times> val_table \<times> tokens" where
  "p_plain a vals region = (\<lambda>(n, off, woff, op, inputs) ts.
     rbind (if peek_is (\<lambda>t. t = Sym CHR '':'') ts then parse_type_tokens (tl ts) else Inr (infer_type op, ts)) (\<lambda>(t, ts).
     rbind (add_node a region op inputs t) (\<lambda>(x, v, a).
     rbind (stmt_end off ts) (\<lambda>ts. Inr (a, vals @ [(n, v)], ts)))))"

text \<open>The start of an \<^verbatim>\<open>if\<close>, up to the opening brace.\<close>

definition p_if_start :: "arena \<Rightarrow> val_table \<Rightarrow> region_id \<Rightarrow> u32 \<times> nat \<times> nat \<times> xop \<times> value_id list \<Rightarrow> tokens \<Rightarrow>
    parse_error + node_id \<times> region_id \<times> arena \<times> val_table \<times> tokens" where
  "p_if_start a vals region = (\<lambda>(n, off, woff, op, inputs) ts.
     rbind (expect_sym CHR '':'' ts) (\<lambda>ts. rbind (parse_type_tokens ts) (\<lambda>(t, ts).
     rbind (add_node a region op inputs t) (\<lambda>(x, v, a).
     rbind (expect_sym CHR ''{'' ts) (\<lambda>ts. rbind (add_region a region x) (\<lambda>(g, a).
       Inr (x, g, a, vals @ [(n, v)], ts)))))))"

text \<open>
  Blocks nest, so the recursion is bounded by fuel; running out of it is \<open>None\<close>. A block is the loop over its
  statements behind the depth check, and an \<^verbatim>\<open>if\<close> statement parses two blocks: both take the loop as an argument.
\<close>

type_synonym parse_state = "(parse_error + arena \<times> val_table \<times> tokens) option"

definition fbind :: "('e + 'a) option \<Rightarrow> ('a \<Rightarrow> ('e + 'b) option) \<Rightarrow> ('e + 'b) option" where
  "fbind m f = (case m of None \<Rightarrow> None | Some (Inl e) \<Rightarrow> Some (Inl e) | Some (Inr x) \<Rightarrow> f x)"

type_synonym block_parser = "arena \<Rightarrow> val_table \<Rightarrow> region_id \<Rightarrow> nat \<Rightarrow> tokens \<Rightarrow> parse_state"

definition parse_block :: "block_parser \<Rightarrow> block_parser" where
  "parse_block loop a vals region depth ts =
     (if depth > MAX_NEST then Some (Inl (NestingTooDeep (case ts of [] \<Rightarrow> 2 ^ 64 - 1 | (_, o1) # _ \<Rightarrow> o1)))
      else loop a vals region depth ts)"

definition p_if :: "block_parser \<Rightarrow> arena \<Rightarrow> val_table \<Rightarrow> region_id \<Rightarrow> nat \<Rightarrow> u32 \<times> nat \<times> nat \<times> xop \<times> value_id list \<Rightarrow> tokens \<Rightarrow> parse_state" where
  "p_if loop a vals region depth h ts =
     fbind (Some (p_if_start a vals region h ts)) (\<lambda>(x, then_r, a, vals, ts).
     fbind (parse_block loop a vals then_r (depth + 1) ts) (\<lambda>(a, vals, ts).
     fbind (Some (rbind (expect_word ''else'' ts) (expect_sym CHR ''{''))) (\<lambda>ts.
     fbind (Some (add_region a region x)) (\<lambda>(else_r, a).
     fbind (parse_block loop a vals else_r (depth + 1) ts) (\<lambda>(a, vals, ts).
     fbind (Some (stmt_end (fst (snd (snd h))) ts)) (\<lambda>ts. Some (Inr (a, vals, ts))))))))"

definition parse_statement :: "fp \<Rightarrow> block_parser \<Rightarrow> block_parser" where
  "parse_statement F loop a vals region depth ts =
     fbind (Some (p_head F vals ts)) (\<lambda>(h, ts).
       if op_eq (fst (snd (snd (snd h)))) OpIf then p_if loop a vals region depth h ts
       else Some (p_plain a vals region h ts))"

primrec parse_loop :: "fp \<Rightarrow> nat \<Rightarrow> block_parser" where
  "parse_loop F 0 = (\<lambda>a vals region depth ts. None)"
| "parse_loop F (Suc k) = (\<lambda>a vals region depth ts.
     let ts = skip_eols ts in
     if peek_is (\<lambda>t. t = Sym CHR ''}'') ts then Some (Inr (a, vals, tl ts))
     else if ts = [] then Some (Inl Truncated)
     else fbind (parse_statement F (parse_loop F k) a vals region depth ts)
       (\<lambda>(a, vals, ts). parse_loop F k a vals region depth ts))"

definition p_header :: "tokens \<Rightarrow> parse_error + tokens" where
  "p_header ts =
     rbind (expect_word ''xir'' ts) (\<lambda>ts. rbind (expect_word ''v1'' ts) (\<lambda>ts. rbind (expect_word ''func'' ts) (\<lambda>ts.
       expect_sym CHR ''{'' (if peek_is (\<lambda>t. case t of Word w \<Rightarrow> w \<noteq> [] \<and> hd w = CHR ''@'' | _ \<Rightarrow> False) ts then tl ts else ts))))"

definition parse_tokens :: "fp \<Rightarrow> nat \<Rightarrow> tokens \<Rightarrow> (parse_error + arena) option" where
  "parse_tokens F node_capacity ts =
     fbind (Some (p_header ts)) (\<lambda>ts.
       let a = with_capacity node_capacity (node_capacity div 2 + 8) in
       fbind (parse_block (parse_loop F (length ts + 1)) a [] (root_region a) 0 ts) (\<lambda>(a, _, ts).
         case skip_eols ts of [] \<Rightarrow> Some (Inr a) | (_, off) # _ \<Rightarrow> Some (Inl (UnexpectedToken off))))"

definition parse_arena :: "fp \<Rightarrow> float_text \<Rightarrow> string \<Rightarrow> nat \<Rightarrow> (parse_error + arena) option" where
  "parse_arena F T src node_capacity = fbind (Some (lex T src)) (parse_tokens F node_capacity)"

end
