(* ===== verification/Text_Lex.thy ===== *)
theory Text_Lex
  imports Text
begin

text \<open>
  What the lexer makes of printed text. \<open>lexes T s toks\<close> says that \<open>s\<close>, followed by anything a word or a number cannot
  run into, becomes the tokens \<open>toks\<close>; \<open>lexesC\<close> says so of \<open>s\<close> followed by anything. Token offsets are left open: they
  only appear in error messages.
\<close>

section \<open>Decimal numbers read back\<close>

lemma digit_char_val: "d < 10 \<Longrightarrow> is_digit (digit_char d) \<and> digit_val (digit_char d) = d"
  by (simp add: is_digit_def digit_val_def digit_char_def)

lemma show_nat_digits: "list_all is_digit (show_nat n) \<and> show_nat n \<noteq> []"
proof (induction n rule: show_nat.induct)
  case (1 n)
  then show ?case by (subst (1 2) show_nat.simps) (auto simp: digit_char_val)
qed

lemma digits_val_snoc: "digits_val (s @ [c]) = 10 * digits_val s + int (digit_val c)"
  by (simp add: digits_val_def)

lemma digits_val_show: "digits_val (show_nat n) = int n"
proof (induction n rule: show_nat.induct)
  case (1 n)
  show ?case
  proof (cases "n < 10")
    case True
    then show ?thesis by (subst show_nat.simps) (simp add: digits_val_def digit_char_val)
  next
    case False
    then have "digits_val (show_nat n) = 10 * int (n div 10) + int (n mod 10)"
      using 1 by (subst show_nat.simps) (simp add: digits_val_snoc digit_char_val)
    then show ?thesis by presburger
  qed
qed

section \<open>Lexing relations\<close>

definition brk :: "string \<Rightarrow> bool" where
  "brk s \<longleftrightarrow> s = [] \<or> \<not> word_char (hd s)"

definition lexes_at :: "float_text \<Rightarrow> string \<Rightarrow> tok list \<Rightarrow> string \<Rightarrow> bool" where
  "lexes_at T s toks rest \<longleftrightarrow>
     (\<forall>i. \<exists>ts. map fst ts = toks \<and> lex_from T i (s @ rest) = rbind (lex_from T (i + length s) rest) (\<lambda>ts'. Inr (ts @ ts')))"

definition lexes :: "float_text \<Rightarrow> string \<Rightarrow> tok list \<Rightarrow> bool" where
  "lexes T s toks \<longleftrightarrow> (\<forall>rest. brk rest \<longrightarrow> lexes_at T s toks rest)"

definition lexesC :: "float_text \<Rightarrow> string \<Rightarrow> tok list \<Rightarrow> bool" where
  "lexesC T s toks \<longleftrightarrow> (\<forall>rest. lexes_at T s toks rest)"

lemma lexes_at_append:
  assumes "lexes_at T s toks (s' @ rest)" "lexes_at T s' toks' rest"
  shows "lexes_at T (s @ s') (toks @ toks') rest"
  unfolding lexes_at_def
proof
  fix i
  obtain ts where ts: "map fst ts = toks"
      "lex_from T i (s @ s' @ rest) = rbind (lex_from T (i + length s) (s' @ rest)) (\<lambda>ts'. Inr (ts @ ts'))"
    using assms(1) unfolding lexes_at_def by blast
  obtain us where us: "map fst us = toks'"
      "lex_from T (i + length s) (s' @ rest) = rbind (lex_from T (i + length s + length s') rest) (\<lambda>ts'. Inr (us @ ts'))"
    using assms(2) unfolding lexes_at_def by blast
  have "lex_from T i ((s @ s') @ rest) = rbind (lex_from T (i + length (s @ s')) rest) (\<lambda>ts'. Inr ((ts @ us) @ ts'))"
    using ts(2) us(2) by (cases "lex_from T (i + length s + length s') rest") (simp_all add: add.assoc)
  then show "\<exists>vs. map fst vs = toks @ toks' \<and>
      lex_from T i ((s @ s') @ rest) = rbind (lex_from T (i + length (s @ s')) rest) (\<lambda>ts'. Inr (vs @ ts'))"
    using ts(1) us(1) by (intro exI [of _ "ts @ us"]) simp
qed

lemma brk_append: "brk s \<Longrightarrow> s \<noteq> [] \<Longrightarrow> brk (s @ rest)"
  by (simp add: brk_def)

lemma lexes_append: "lexes T s toks \<Longrightarrow> lexes T s' toks' \<Longrightarrow> brk s' \<Longrightarrow> lexes T (s @ s') (toks @ toks')"
  unfolding lexes_def by (metis append_Nil brk_append lexes_at_append)

lemma lexesC_append: "lexesC T s toks \<Longrightarrow> lexesC T s' toks' \<Longrightarrow> lexesC T (s @ s') (toks @ toks')"
  unfolding lexesC_def by (blast intro: lexes_at_append)

lemma lexesC_lexes: "lexesC T s toks \<Longrightarrow> lexes T s' toks' \<Longrightarrow> lexes T (s @ s') (toks @ toks')"
  unfolding lexesC_def lexes_def by (blast intro: lexes_at_append)

lemma lexes_lexesC: "lexes T s toks \<Longrightarrow> lexesC T s' toks' \<Longrightarrow> brk s' \<Longrightarrow> s' \<noteq> [] \<Longrightarrow> lexesC T (s @ s') (toks @ toks')"
  unfolding lexesC_def lexes_def by (metis brk_append lexes_at_append)

lemma lexesC_imp: "lexesC T s toks \<Longrightarrow> lexes T s toks"
  by (simp add: lexesC_def lexes_def)

lemma lexes_Nil: "lexesC T [] []"
  by (auto simp: lexesC_def lexes_at_def rbind_def split: sum.splits)

section \<open>Single tokens\<close>

lemma lexesC_one:
  assumes "\<And>i rest. lex_from T i (c # rest) = rbind (lex_from T (i + 1) rest) (\<lambda>ts. Inr (map (\<lambda>t. (t, i)) toks @ ts))"
  shows "lexesC T [c] toks"
  unfolding lexesC_def lexes_at_def
proof (intro allI)
  fix rest i
  show "\<exists>ts. map fst ts = toks \<and> lex_from T i ([c] @ rest) = rbind (lex_from T (i + length [c]) rest) (\<lambda>ts'. Inr (ts @ ts'))"
    using assms [of i rest] by (intro exI [of _ "map (\<lambda>t. (t, i)) toks"]) (simp add: comp_def)
qed

lemma lexes_space: "lexesC T '' '' []"
proof (rule lexesC_one)
  show "lex_from T i (CHR '' '' # rest) = rbind (lex_from T (i + 1) rest) (\<lambda>ts. Inr (map (\<lambda>t. (t, i)) [] @ ts))" for i rest
    by (cases "lex_from T (i + 1) rest") (simp_all add: lex_from.simps newline_def)
qed

lemma lexes_newline: "lexesC T [newline] [Eol]"
  by (rule lexesC_one) (simp add: lex_from.simps)

lemma is_sym_cases: "is_sym c \<Longrightarrow> c \<noteq> newline \<and> c \<noteq> CHR '' '' \<and> c \<noteq> CHR 0x09 \<and> c \<noteq> CHR 0x0D \<and> c \<noteq> CHR ''%'' \<and> c \<noteq> CHR ''-'' \<and>
  \<not> is_digit c \<and> \<not> word_start c \<and> \<not> word_char c"
  by (auto simp: is_sym_def newline_def is_digit_def word_start_def word_char_def is_alpha_def Let_def)

lemma lexes_sym: "is_sym c \<Longrightarrow> lexesC T [c] [Sym c]"
  using is_sym_cases [of c] by (intro lexesC_one) (simp add: lex_from.simps)

lemma word_start_cases: "word_start c \<Longrightarrow> c \<noteq> newline \<and> c \<noteq> CHR '' '' \<and> c \<noteq> CHR 0x09 \<and> c \<noteq> CHR 0x0D \<and> c \<noteq> CHR ''%'' \<and>
  c \<noteq> CHR ''-'' \<and> \<not> is_digit c \<and> word_char c"
  by (auto simp: newline_def is_digit_def word_start_def word_char_def is_alpha_def Let_def)

lemma is_digit_cases: "is_digit c \<Longrightarrow> c \<noteq> newline \<and> c \<noteq> CHR '' '' \<and> c \<noteq> CHR 0x09 \<and> c \<noteq> CHR 0x0D \<and> c \<noteq> CHR ''%'' \<and>
  c \<noteq> CHR ''-'' \<and> word_char c"
  by (auto simp: newline_def is_digit_def word_char_def)

lemma takeWhile_brk:
  assumes "list_all P cs" "brk rest" "\<And>c. P c \<Longrightarrow> word_char c"
  shows "takeWhile P (cs @ rest) = cs" "dropWhile P (cs @ rest) = rest"
  using assms by (induction cs) (auto simp: brk_def intro!: takeWhile_eq_Nil_iff [THEN iffD2] dropWhile_eq_self_iff [THEN iffD2])

lemma lexes_one:
  assumes "\<And>i rest. brk rest \<Longrightarrow> lex_from T i (s @ rest) = rbind (lex_from T (i + length s) rest) (\<lambda>ts. Inr ((t, i) # ts))"
  shows "lexes T s [t]"
  unfolding lexes_def lexes_at_def
proof (intro allI impI)
  fix rest i
  assume "brk rest"
  then show "\<exists>ts. map fst ts = [t] \<and> lex_from T i (s @ rest) = rbind (lex_from T (i + length s) rest) (\<lambda>ts'. Inr (ts @ ts'))"
    using assms [of rest i] by (intro exI [of _ "[(t, i)]"]) simp
qed

lemma lexes_word:
  assumes "w \<noteq> []" "word_start (hd w)" "list_all word_char w"
  shows "lexes T w [word_tok w]"
proof (rule lexes_one)
  fix i rest
  assume b: "brk rest"
  obtain c cs where w: "w = c # cs" using assms(1) by (cases w) auto
  have "list_all word_char cs" using assms(3) w by simp
  from takeWhile_brk [OF this b] word_start_cases [of c] assms(2) w
  show "lex_from T i (w @ rest) = rbind (lex_from T (i + length w) rest) (\<lambda>ts. Inr ((word_tok w, i) # ts))"
    by (simp add: lex_from.simps)
qed

lemma digits_split: "list_all is_digit ds \<Longrightarrow> brk rest \<Longrightarrow> takeWhile is_digit (ds @ rest) = ds \<and> dropWhile is_digit (ds @ rest) = rest"
  using takeWhile_brk [of is_digit ds rest] is_digit_cases by blast

lemma brk_not_dot: "brk rest \<Longrightarrow> \<not> (rest \<noteq> [] \<and> hd rest = CHR ''.'')"
  by (auto simp: brk_def word_char_def)

lemma lexes_digits:
  assumes ds: "ds \<noteq> []" "list_all is_digit ds" and v: "in_i64 (if neg then - digits_val ds else digits_val ds)"
  shows "lexes T ((if neg then ''-'' else []) @ ds) [IntTok (if neg then - digits_val ds else digits_val ds)]"
proof (rule lexes_one)
  fix i rest
  assume b: "brk rest"
  obtain c cs where c: "ds = c # cs" "is_digit c" using ds by (cases ds) auto
  note sp = digits_split [OF ds(2) b] and nd = brk_not_dot [OF b] and cc = is_digit_cases [OF c(2)]
  show "lex_from T i (((if neg then ''-'' else []) @ ds) @ rest) =
      rbind (lex_from T (i + length ((if neg then ''-'' else []) @ ds)) rest)
        (\<lambda>ts. Inr ((IntTok (if neg then - digits_val ds else digits_val ds), i) # ts))"
  proof (cases neg)
    case True
    then show ?thesis using sp nd v ds(1)
      by (auto simp: lex_from.simps(2) [of T i "CHR ''-''"] newline_def parse_i64_def is_digit_def Let_def
          simp del: dropWhile_eq_Nil_conv)
  next
    case False
    have "lex_from T i (c # cs @ rest) = rbind (lex_from T (i + length ds) rest) (\<lambda>ts. Inr ((IntTok (digits_val ds), i) # ts))"
      using sp nd v ds(1) False cc c by (subst lex_from.simps) (auto simp: parse_i64_def Let_def simp del: dropWhile_eq_Nil_conv)
    then show ?thesis using False c(1) by simp
  qed
qed

lemma lexes_nat: "int n < 2 ^ 63 \<Longrightarrow> lexes T (show_nat n) [IntTok (int n)]"
  using lexes_digits [of "show_nat n" False T] show_nat_digits [of n]
  by (simp add: digits_val_show in_i64_def i64_min_def i64_max_def)

lemma lexes_int: "in_i64 v \<Longrightarrow> lexes T (show_int v) [IntTok v]"
  using lexes_digits [of "show_nat (nat (if v < 0 then - v else v))" "v < 0" T] show_nat_digits
  by (auto simp: show_int_def digits_val_show)

lemma lexes_ref:
  fixes r :: u32
  shows "lexes T (''%'' @ show_nat (unat r)) [ValueRef r]"
proof (rule lexes_one)
  fix i rest
  assume b: "brk rest"
  note d = show_nat_digits [of "unat r"]
  have "int (unat r) < 2 ^ 32" using unsigned_less [of r, where ?'a = int] by simp
  then have "parse_u32 (show_nat (unat r)) = Some r" using d by (simp add: parse_u32_def digits_val_show)
  then show "lex_from T i ((''%'' @ show_nat (unat r)) @ rest) =
      rbind (lex_from T (i + length (''%'' @ show_nat (unat r))) rest) (\<lambda>ts. Inr ((ValueRef r, i) # ts))"
    using digits_split [OF _ b] d by (simp add: lex_from.simps(2) newline_def Let_def)
qed

lemma lexes_float:
  assumes "ds \<noteq> []" "list_all is_digit ds" "list_all is_digit fs"
    and "ft_parse T ((if neg then ''-'' else []) @ ds @ ''.'' @ fs) = Some v"
  shows "lexes T ((if neg then ''-'' else []) @ ds @ ''.'' @ fs) [FloatTok v]"
proof (rule lexes_one)
  fix i rest
  assume b: "brk rest"
  obtain c cs where c: "ds = c # cs" "is_digit c" using assms(1,2) by (cases ds) auto
  have dot: "\<not> is_digit CHR ''.''" by (simp add: is_digit_def)
  have sp: "takeWhile is_digit (ds @ CHR ''.'' # fs @ rest) = ds" "dropWhile is_digit (ds @ CHR ''.'' # fs @ rest) = CHR ''.'' # fs @ rest"
    using assms(2) dot by (simp_all add: list_all_iff)
  note fp = digits_split [OF assms(3) b] and cc = is_digit_cases [OF c(2)]
  show "lex_from T i (((if neg then ''-'' else []) @ ds @ ''.'' @ fs) @ rest) =
      rbind (lex_from T (i + length ((if neg then ''-'' else []) @ ds @ ''.'' @ fs)) rest) (\<lambda>ts. Inr ((FloatTok v, i) # ts))"
  proof (cases neg)
    case True
    have "lex_from T i (CHR ''-'' # ds @ CHR ''.'' # fs @ rest) =
        rbind (lex_from T (i + (2 + length ds + length fs)) rest) (\<lambda>ts. Inr ((FloatTok v, i) # ts))"
      using sp fp assms(4) True by (subst lex_from.simps) (simp add: newline_def Let_def add.assoc del: dropWhile_eq_Nil_conv)
    then show ?thesis using True by simp
  next
    case False
    have "lex_from T i (c # cs @ CHR ''.'' # fs @ rest) =
        rbind (lex_from T (i + (1 + length ds + length fs)) rest) (\<lambda>ts. Inr ((FloatTok v, i) # ts))"
      using sp fp assms(4) False cc c by (subst lex_from.simps) (simp add: Let_def add.assoc del: dropWhile_eq_Nil_conv)
    then show ?thesis using False c(1) by simp
  qed
qed

section \<open>Sequences\<close>

lemma lexes_seq:
  "lexes T w ts \<Longrightarrow> lexesC T sep us \<Longrightarrow> brk sep \<Longrightarrow> sep \<noteq> [] \<Longrightarrow> lexes T rest vs \<Longrightarrow> lexes T (w @ sep @ rest) (ts @ us @ vs)"
  using lexesC_lexes [of T "w @ sep" "ts @ us" rest vs] lexes_lexesC [of T w ts sep us] by simp

lemma lexesC_sep:
  "lexesC T '' '' []" "lexesC T ''='' [Sym CHR ''='']" "lexesC T '','' [Sym CHR '','']"
  "lexesC T ''['' [Sym CHR ''['']" "lexesC T '']'' [Sym CHR '']'']"
  by (rule lexes_space, rule lexes_sym, simp add: is_sym_def, rule lexes_sym, simp add: is_sym_def,
      rule lexes_sym, simp add: is_sym_def, rule lexes_sym, simp add: is_sym_def)

lemma lexesC_pair:
  "lexesC T ''=['' [Sym CHR ''='', Sym CHR ''['']" "lexesC T ''] '' [Sym CHR '']'']"
  "lexesC T '', '' [Sym CHR '','']" "lexesC T '' : '' [Sym CHR '':'']" "lexesC T '' = '' [Sym CHR ''='']"
proof -
  have c: "lexesC T '':'' [Sym CHR '':'']" by (rule lexes_sym) (simp add: is_sym_def)
  show "lexesC T ''=['' [Sym CHR ''='', Sym CHR ''['']" using lexesC_append [OF lexesC_sep(2,4)] by simp
  show "lexesC T ''] '' [Sym CHR '']'']" using lexesC_append [OF lexesC_sep(5,1)] by simp
  show "lexesC T '', '' [Sym CHR '','']" using lexesC_append [OF lexesC_sep(3,1)] by simp
  show "lexesC T '' : '' [Sym CHR '':'']"
    using lexesC_append [OF lexesC_sep(1) lexesC_append [OF c lexesC_sep(1)]] by simp
  show "lexesC T '' = '' [Sym CHR ''='']"
    using lexesC_append [OF lexesC_sep(1) lexesC_append [OF lexesC_sep(2) lexesC_sep(1)]] by simp
qed

lemma brk_sep: "brk '' ''" "brk ''=''" "brk '',''" "brk ''[''" "brk '']''" "brk ''=[''" "brk ''] ''" "brk '', ''" "brk '' : ''" "brk '' = ''"
  by (simp_all add: brk_def word_char_def is_digit_def is_alpha_def Let_def)

fun int_toks :: "int list \<Rightarrow> tok list" where
  "int_toks [] = []"
| "int_toks [d] = [IntTok d]"
| "int_toks (d # e # ds) = [IntTok d] @ [Sym CHR '',''] @ int_toks (e # ds)"

lemma lexes_ints: "list_all in_i64 ds \<Longrightarrow> lexes T (join '','' (map show_int ds)) (int_toks ds)"
proof (induction ds rule: int_toks.induct)
  case 1
  then show ?case using lexesC_imp [OF lexes_Nil] by simp
next
  case (2 d)
  then show ?case by (simp add: lexes_int)
next
  case (3 d e ds)
  then show ?case using lexes_seq [OF lexes_int lexesC_sep(3) brk_sep(3)] by simp
qed

lemma show_nat_int: "show_nat n = show_int (int n)"
  by (simp add: show_int_def)

end
