(* ===== verification/Text_Ops.thy ===== *)
theory Text_Ops
  imports Text_Lex
begin

text \<open>
  The printed form of one operation and of one type parses back to it. \<open>reads p toks x\<close> says that the parser \<open>p\<close> consumes
  exactly the tokens \<open>toks\<close>, whatever follows them, and returns \<open>x\<close>.
\<close>

section \<open>What can be printed\<close>

text \<open>
  The decimal text of a float: an optional sign and digits with a fraction that \<^verbatim>\<open>parse::<f64>\<close> reads back, or the digits
  of an integer whose conversion is the float. The standard library documents that \<^verbatim>\<open>{}\<close> prints the shortest decimal
  that reads back and never an exponent, and the text \<^verbatim>\<open>{:.1}\<close> of a whole number below \<open>10^15\<close> is exact.
\<close>

definition sign_str :: "bool \<Rightarrow> string" where
  "sign_str neg = (if neg then ''-'' else [])"

definition decimal_ok :: "fp \<Rightarrow> float_text \<Rightarrow> f64 \<Rightarrow> string \<Rightarrow> bool" where
  "decimal_ok F T v s \<longleftrightarrow>
     (\<exists>neg ds fs. ds \<noteq> [] \<and> list_all is_digit ds \<and> list_all is_digit fs \<and> s = sign_str neg @ ds @ ''.'' @ fs \<and> ft_parse T s = Some v) \<or>
     (\<exists>i. in_i64 i \<and> s = show_int i \<and> fp_of_i64 F i = v)"

definition float_text_ok :: "fp \<Rightarrow> float_text \<Rightarrow> bool" where
  "float_text_ok F T \<longleftrightarrow>
     (\<forall>v. f64_is_finite v \<longrightarrow>
        (if f64_is_zero (fp_fract F v) \<and> f64_magnitude v < 0x430C6BF526340000 then decimal_ok F T v (ft_show1 T v)
         else f64_is_zero (fp_fract F v) \<and> f64_magnitude v \<ge> 0x43E0000000000000 \<or> decimal_ok F T v (ft_show T v)))"

definition shape_ok :: "shape \<Rightarrow> bool" where
  "shape_ok s \<longleftrightarrow> shape_wf s \<and> list_all in_i64 (shape_as_slice s)"

text \<open>
  The payloads the text form can carry: an \<^verbatim>\<open>i64\<close> in range, an \<^verbatim>\<open>Rng\<close> seed below \<open>2^63\<close> (the lexer reads an \<^verbatim>\<open>i64\<close>), a
  permutation of at least one entry with the unused entries zero.
\<close>

fun op_ok :: "xop \<Rightarrow> bool" where
  "op_ok (ConstI64 v) \<longleftrightarrow> in_i64 v"
| "op_ok (Rng dist seed) \<longleftrightarrow> unat seed < 2 ^ 63"
| "op_ok (Broadcast to) \<longleftrightarrow> shape_ok to"
| "op_ok (Transpose perm rank) \<longleftrightarrow> 0 < unat rank \<and> unat rank \<le> MAX_RANK \<and>
     length perm = MAX_RANK \<and> drop (unat rank) perm = replicate (MAX_RANK - unat rank) 0"
| "op_ok _ \<longleftrightarrow> True"

text \<open>The parser never consumes the space name \<^verbatim>\<open>global\<close> of a printed memory reference.\<close>

fun ty_ok :: "ty \<Rightarrow> bool" where
  "ty_ok (Tensor t) \<longleftrightarrow> shape_ok (tt_shape t)"
| "ty_ok (MemRef t space) \<longleftrightarrow> shape_ok (tt_shape t) \<and> space \<noteq> Global"
| "ty_ok _ \<longleftrightarrow> True"

section \<open>Parsers that read given tokens\<close>

definition reads :: "(tokens \<Rightarrow> parse_error + 'a \<times> tokens) \<Rightarrow> tok list \<Rightarrow> 'a \<Rightarrow> bool" where
  "reads p toks x \<longleftrightarrow> (\<forall>us rest. map fst us = toks \<longrightarrow> p (us @ rest) = Inr (x, rest))"

lemma p_next_Cons [simp]: "p_next (t # ts) = Inr (t, ts)"
  by (simp add: p_next_def)

lemma expect_word_Cons [simp]: "expect_word w ((Word w, o1) # ts) = Inr ts"
  by (simp add: expect_word_def)

lemma expect_sym_Cons [simp]: "expect_sym c ((Sym c, o1) # ts) = Inr ts"
  by (simp add: expect_sym_def)

lemma expect_key_Cons [simp]: "expect_key w ((Word w, o1) # (Sym CHR ''='', o2) # ts) = Inr ts"
  by (simp add: expect_key_def)

lemma peek_is_Cons [simp]: "peek_is P ((t, o1) # ts) \<longleftrightarrow> P t"
  by (simp add: peek_is_def)

lemma p_i64_Cons [simp]: "in_i64 v \<Longrightarrow> p_i64 ((IntTok v, o1) # ts) = Inr (v, ts)"
  by (simp add: p_i64_def p_int_def in_i64_def i64_min_def i64_max_def)

lemma p_u8_Cons [simp]: "p_u8 ((IntTok (uint v), o1) # ts) = Inr (v, ts)"
  using unsigned_less [of v, where ?'a = int] by (simp add: p_u8_def p_int_def)

lemma p_u32_Cons [simp]: "p_u32 ((IntTok (uint v), o1) # ts) = Inr (v, ts)"
  using unsigned_less [of v, where ?'a = int] by (simp add: p_u32_def p_int_def)

lemma p_bool_Cons [simp]: "p_bool ((BoolTok b, o1) # ts) = Inr (b, ts)"
  by (simp add: p_bool_def)

lemma p_name_Cons [simp]:
  "p_name monoid_names e ((Word (monoid_name m), o1) # ts) = Inr (m, ts)"
  "p_name dist_names e ((Word (dist_name d), o1) # ts) = Inr (d, ts)"
  "p_name padding_names e ((Word (padding_name p), o1) # ts) = Inr (p, ts)"
  "p_name space_names e ((Word (space_name s), o1) # ts) = Inr (s, ts)"
proof -
  show "p_name monoid_names e ((Word (monoid_name m), o1) # ts) = Inr (m, ts)" by (cases m) (simp_all add: p_name_def monoid_names_def)
  show "p_name dist_names e ((Word (dist_name d), o1) # ts) = Inr (d, ts)" by (cases d) (simp_all add: p_name_def dist_names_def)
  show "p_name padding_names e ((Word (padding_name p), o1) # ts) = Inr (p, ts)" by (cases p) (simp_all add: p_name_def padding_names_def)
  show "p_name space_names e ((Word (space_name s), o1) # ts) = Inr (s, ts)" by (cases s) (simp_all add: p_name_def space_names_def)
qed

lemma p_dims_ints:
  assumes "map fst us = int_toks ds" "c \<noteq> CHR '',''"
  shows "p_dims (us @ (Sym c, o1) # rest) = (ds, (Sym c, o1) # rest)"
  using assms
proof (induction ds arbitrary: us rule: int_toks.induct)
  case (3 d e ds)
  then obtain o2 o3 vs where "us = (IntTok d, o2) # (Sym CHR '','', o3) # vs" "map fst vs = int_toks (e # ds)"
    by (auto simp: map_eq_Cons_conv)
  then show ?case using 3 by simp
qed (use assms(2) in \<open>auto simp: map_eq_Cons_conv\<close>)

lemma p_perm_ints:
  assumes "map fst us = int_toks (map (\<lambda>p. uint p) ps)" "ps \<noteq> []" "length ps \<le> k"
  shows "p_perm k acc (us @ (Sym CHR '']'', o1) # rest) = Inr (acc @ ps, (Sym CHR '']'', o1) # rest)"
  using assms
proof (induction ps arbitrary: us acc k rule: induct_list012)
  case (2 p)
  then show ?case by (cases k) (auto simp: map_eq_Cons_conv)
next
  case (3 p q ps)
  then obtain o2 o3 vs where us: "us = (IntTok (uint p), o2) # (Sym CHR '','', o3) # vs"
      "map fst vs = int_toks (map (\<lambda>p. uint p) (q # ps))"
    by (auto simp: map_eq_Cons_conv)
  obtain k' where k: "k = Suc k'" "length (q # ps) \<le> k'" using 3(5) by (cases k) auto
  then show ?case using 3(2) [OF us(2) _ k(2), of "acc @ [p]"] us(1) by simp
qed simp

section \<open>Words\<close>

definition is_word :: "string \<Rightarrow> bool" where
  "is_word w \<longleftrightarrow> w \<noteq> [] \<and> word_start (hd w) \<and> list_all word_char w \<and> w \<noteq> ''true'' \<and> w \<noteq> ''false''"

lemmas word_defs = is_word_def word_start_def word_char_def is_alpha_def is_digit_def Let_def

lemma lexes_name: "is_word w \<Longrightarrow> lexes T w [Word w]"
  using lexes_word [of w T] by (simp add: is_word_def word_tok_def)

lemma lexes_arg: "is_word w \<Longrightarrow> lexes T s toks \<Longrightarrow> lexes T (w @ '' '' @ s) (Word w # toks)"
  using lexes_seq [OF lexes_name lexesC_sep(1) brk_sep(1)] by simp

lemma lexes_key: "is_word w \<Longrightarrow> lexes T s toks \<Longrightarrow> lexes T (w @ ''='' @ s) (Word w # Sym CHR ''='' # toks)"
  using lexes_seq [OF lexes_name lexesC_sep(2) brk_sep(2)] by simp

lemma lexes_then: "lexes T s [t] \<Longrightarrow> lexes T s' toks \<Longrightarrow> lexes T (s @ '' '' @ s') (t # toks)"
  using lexes_seq [OF _ lexesC_sep(1) brk_sep(1), of T s "[t]" s' toks] by simp

lemma lexes_bool: "lexes T (show_bool b) [BoolTok b]"
  using lexes_word [of "show_bool b" T] by (cases b) (simp_all add: show_bool_def word_tok_def word_defs)

lemma is_word_names:
  "is_word (monoid_name m)" "is_word (dist_name d)" "is_word (padding_name p)" "is_word (space_name s)"
  "is_word (binary_name b)" "is_word (unary_name u)" "is_word (elem_name e)" "is_word (layout_name l)"
proof -
  show "is_word (monoid_name m)" by (cases m) (simp_all add: word_defs)
  show "is_word (dist_name d)" by (cases d) (simp_all add: word_defs)
  show "is_word (padding_name p)" by (cases p) (simp_all add: word_defs)
  show "is_word (space_name s)" by (cases s) (simp_all add: word_defs)
  show "is_word (binary_name b)" by (cases b) (simp_all add: word_defs)
  show "is_word (unary_name u)" by (cases u) (simp_all add: word_defs)
  show "is_word (elem_name e)" by (cases e) (simp_all add: word_defs)
  show "is_word (layout_name l)" by (cases l) (simp_all add: word_defs)
qed

lemma lexes_u8: "lexes T (show_nat (unat (v :: u8))) [IntTok (uint v)]"
  using lexes_nat [of "unat v" T] unsigned_less [of v, where ?'a = int] by simp

lemma lexes_u32: "lexes T (show_nat (unat (v :: u32))) [IntTok (uint v)]"
  using lexes_nat [of "unat v" T] unsigned_less [of v, where ?'a = int] by simp

section \<open>Operations\<close>

definition op_reads :: "fp \<Rightarrow> float_text \<Rightarrow> xop \<Rightarrow> bool" where
  "op_reads F T op \<longleftrightarrow> (\<exists>name toks. lexes T (format_op F T op) (Word name # toks) \<and> (\<forall>off. reads (parse_op F name off) toks op))"

lemma op_readsI:
  assumes "lexes T s (Word name # toks)" "format_op F T op = s"
    and "\<And>us off rest. map fst us = toks \<Longrightarrow> parse_op F name off (us @ rest) = Inr (op, rest)"
  shows "op_reads F T op"
  unfolding op_reads_def reads_def using assms by blast

lemmas parse_op_simps = parse_op_def simple_ops_def map_eq_Cons_conv

lemma op_reads_simple:
  assumes "map_of simple_ops (format_op F T op) = Some op" "is_word (format_op F T op)"
  shows "op_reads F T op"
  by (rule op_readsI [OF lexes_name [OF assms(2)] refl]) (simp add: parse_op_def assms(1))

lemma op_reads_plain:
  "op_reads F T Dot" "op_reads F T OpIf" "op_reads F T (Binary b)" "op_reads F T (Unary u)" "op_reads F T FusionCluster"
  "op_reads F T FusionBarrier" "op_reads F T FusionMaterialize" "op_reads F T LoopAsyncCopy" "op_reads F T TargetMma"
  "op_reads F T TargetWarpShuffle" "op_reads F T TargetBarrier"
proof -
  show "op_reads F T (Binary b)" by (rule op_reads_simple; cases b) (simp_all add: simple_ops_def word_defs)
  show "op_reads F T (Unary u)" by (rule op_reads_simple; cases u) (simp_all add: simple_ops_def word_defs)
qed (rule op_reads_simple; simp add: simple_ops_def word_defs)+

lemma op_reads_int:
  "in_i64 i \<Longrightarrow> op_reads F T (ConstI64 i)" "op_reads F T (Param n)" "op_reads F T (Custom n)"
proof -
  assume i: "in_i64 i"
  have w: "is_word ''const.i64''" by (simp add: word_defs)
  show "op_reads F T (ConstI64 i)"
    by (rule op_readsI [OF lexes_arg [OF w lexes_int [OF i]]]) (use i in \<open>auto simp: parse_op_simps\<close>)
next
  show "op_reads F T (Param n)"
    by (rule op_readsI [OF lexes_arg [OF _ lexes_u32, of "''param''"]]) (auto simp: word_defs parse_op_simps)
  show "op_reads F T (Custom n)"
    by (rule op_readsI [OF lexes_arg [OF _ lexes_u32, of "''custom''"]]) (auto simp: word_defs parse_op_simps)
qed

lemma lexes_op1:
  assumes "lexes T s [t]" "is_word w" "is_word k"
  shows "lexes T (w @ '' '' @ k @ ''='' @ s) [Word w, Word k, Sym CHR ''='', t]"
  using lexes_arg [OF assms(2) lexes_key [OF assms(3,1)]] by simp

lemma lexes_op2:
  assumes "lexes T s [t]" "lexes T s' [t']" "is_word w" "is_word k" "is_word k'"
  shows "lexes T (w @ '' '' @ k @ ''='' @ s @ '' '' @ k' @ ''='' @ s') [Word w, Word k, Sym CHR ''='', t, Word k', Sym CHR ''='', t']"
  using lexes_arg [OF assms(3) lexes_key [OF assms(4) lexes_then [OF assms(1) lexes_key [OF assms(5,2)]]]] by simp

lemma op_reads_loop:
  "op_reads F T (LoopParallel axis)" "op_reads F T (LoopPipelineStage n)" "op_reads F T (LoopAlloc n space)"
proof -
  show "op_reads F T (LoopParallel axis)"
    by (rule op_readsI [OF lexes_op1 [OF lexes_u8, of "''loop.parallel''" "''axis''"]]) (auto simp: word_defs parse_op_simps)
  show "op_reads F T (LoopPipelineStage n)"
    by (rule op_readsI [OF lexes_op1 [OF lexes_u32, of "''loop.pipeline_stage''" "''stage''"]]) (auto simp: word_defs parse_op_simps)
  show "op_reads F T (LoopAlloc n space)"
    by (rule op_readsI [OF lexes_op2 [OF lexes_u32 lexes_name [OF is_word_names(4)], of "''loop.alloc''" "''bytes''" "''space''"]])
      (auto simp: word_defs parse_op_simps)
qed

lemma uint_in_i64: "uint w < 2 ^ 63 \<Longrightarrow> in_i64 (uint w)"
proof -
  assume "uint w < 2 ^ 63"
  then show ?thesis using uint_ge_0 [of w] unfolding in_i64_def i64_min_def i64_max_def by linarith
qed

lemma op_reads_keys:
  "op_reads F T (Reduce axis m)" "op_reads F T (Matmul ta tb)" "op_reads F T (Conv p stride)"
  "unat seed < 2 ^ 63 \<Longrightarrow> op_reads F T (Rng d seed)"
proof -
  show "op_reads F T (Reduce axis m)"
    by (rule op_readsI [OF lexes_op2 [OF lexes_u8 lexes_name [OF is_word_names(1)], of "''reduce''" "''axis''" "''monoid''"]])
      (auto simp: word_defs parse_op_simps)
  show "op_reads F T (Matmul ta tb)"
    by (rule op_readsI [OF lexes_op2 [OF lexes_bool lexes_bool, of "''matmul''" "''ta''" "''tb''"]])
      (auto simp: word_defs parse_op_simps)
  show "op_reads F T (Conv p stride)"
    by (rule op_readsI [OF lexes_op2 [OF lexes_name [OF is_word_names(3)] lexes_u8, of "''conv''" "''padding''" "''stride''"]])
      (auto simp: word_defs parse_op_simps)
  assume "unat seed < 2 ^ 63"
  then have "int (unat seed) < int (2 ^ 63)" by (simp only: of_nat_less_iff)
  then have s: "uint seed < 2 ^ 63" by (simp only: uint_nat of_nat_power of_nat_numeral)
  then have "lexes T (show_nat (unat seed)) [IntTok (uint seed)]" "in_i64 (uint seed)"
    using lexes_nat [of "unat seed" T] by (simp_all add: uint_in_i64)
  note lx = lexes_op2 [OF lexes_name [OF is_word_names(2)] this(1), of "''rng''" "''dist''" "''seed''"] and this(2)
  show "op_reads F T (Rng d seed)"
    by (rule op_readsI [OF lx(1)]) (use \<open>in_i64 (uint seed)\<close> in \<open>auto simp: word_defs parse_op_simps\<close>)
qed

text \<open>Bracketed lists.\<close>

lemma lexes_list:
  assumes "lexes T s toks" "is_word w" "is_word k"
  shows "lexes T (w @ '' '' @ k @ ''=['' @ s @ '']'') (Word w # Word k # Sym CHR ''='' # Sym CHR ''['' # toks @ [Sym CHR '']''])"
proof -
  have "lexes T (s @ '']'') (toks @ [Sym CHR '']''])" using lexes_append [OF assms(1) lexesC_imp [OF lexesC_sep(5)] brk_sep(5)] .
  then show ?thesis using lexes_arg [OF assms(2) lexes_seq [OF lexes_name [OF assms(3)] lexesC_pair(1) brk_sep(6)]] by simp
qed

lemma op_reads_broadcast: "shape_ok to \<Longrightarrow> op_reads F T (Broadcast to)"
proof -
  assume ok: "shape_ok to"
  then have "lexes T (shape_str to) (int_toks (shape_as_slice to))" by (simp add: shape_ok_def shape_str_def lexes_ints)
  then have l: "lexes T (''broadcast to=['' @ shape_str to @ '']'')
      (Word ''broadcast'' # Word ''to'' # Sym CHR ''='' # Sym CHR ''['' # int_toks (shape_as_slice to) @ [Sym CHR '']''])"
    using lexes_list [of T "shape_str to" _ "''broadcast''" "''to''"] by (simp add: word_defs)
  have s: "shape_from_dims (shape_as_slice to) = Inr to" using ok by (simp add: shape_ok_def shape_from_dims_of_slice)
  show ?thesis
    by (rule op_readsI [OF l]) (auto simp: parse_op_simps map_eq_append_conv p_broadcast_def p_dims_ints [OF sym] s)
qed

lemma u8_in_i64: "in_i64 (uint (w :: u8))"
  using unsigned_less [of w, where ?'a = int] by (intro uint_in_i64) simp

lemma op_reads_transpose:
  assumes "op_ok (Transpose perm rank)"
  shows "op_reads F T (Transpose perm rank)"
proof -
  let ?ps = "take (unat rank) perm"
  have ps: "?ps \<noteq> []" "length ?ps \<le> MAX_RANK" "length ?ps = unat rank" "perm = ?ps @ replicate (MAX_RANK - unat rank) 0"
    using assms append_take_drop_id [of "unat rank" perm] by (auto simp: MAX_RANK_def)
  have m: "map (\<lambda>p. show_nat (unat p)) ?ps = map show_int (map uint ?ps)" by (simp add: show_nat_int)
  have "list_all in_i64 (map uint ?ps)"
    by (simp add: list_all_iff u8_in_i64)
  from lexes_list [OF lexes_ints [OF this], of "''transpose''" "''perm''" T]
  have l: "lexes T (''transpose perm=['' @ join '','' (map (\<lambda>p. show_nat (unat p)) ?ps) @ '']'')
      (Word ''transpose'' # Word ''perm'' # Sym CHR ''='' # Sym CHR ''['' # int_toks (map uint ?ps) @ [Sym CHR '']''])"
    unfolding m by (simp add: word_defs)
  show ?thesis
    by (rule op_readsI [OF l])
      (use ps in \<open>auto simp: parse_op_simps map_eq_append_conv p_transpose_def p_perm_ints [OF sym] simp del: length_take\<close>)
qed

lemma f64_halves:
  fixes v :: f64
  shows "uint (drop_bit 32 v) < 2 ^ 32" "uint (v AND 0xFFFFFFFF) < 2 ^ 32" "push_bit 32 (drop_bit 32 v) OR (v AND 0xFFFFFFFF) = v"
proof -
  have m: "(0xFFFFFFFF :: u64) = mask 32" by (simp add: mask_eq_exp_minus_1)
  have "drop_bit 32 v = take_bit 32 (drop_bit 32 v)" by (rule bit_word_eqI) (auto simp: bit_simps dest: bit_imp_le_length)
  then have "uint (drop_bit 32 v) = take_bit 32 (uint (drop_bit 32 v))" by (metis unsigned_take_bit_eq)
  then show "uint (drop_bit 32 v) < 2 ^ 32" by (metis take_bit_int_less_exp)
  have "uint (v AND 0xFFFFFFFF) = take_bit 32 (uint v)" unfolding m by (simp add: unsigned_and_eq flip: take_bit_eq_mask unsigned_take_bit_eq)
  then show "uint (v AND 0xFFFFFFFF) < 2 ^ 32" by (metis take_bit_int_less_exp)
  show "push_bit 32 (drop_bit 32 v) OR (v AND 0xFFFFFFFF) = v" unfolding m by (rule bit_word_eqI) (auto simp: bit_simps)
qed

lemma op_reads_float: "float_text_ok F T \<Longrightarrow> op_reads F T (ConstF64 v)"
proof -
  assume ok: "float_text_ok F T"
  let ?whole = "f64_is_zero (fp_fract F v)"
  have w: "is_word ''const.f64''" "is_word ''bits''" by (simp_all add: word_defs)
  show ?thesis
  proof (cases "\<not> f64_is_finite v \<or> ?whole \<and> f64_magnitude v \<ge> 0x43E0000000000000")
    case True
    let ?hi = "drop_bit 32 v" and ?lo = "v AND 0xFFFFFFFF"
    have f: "format_op F T (ConstF64 v) = ''const.f64'' @ '' '' @ ''bits'' @ '' '' @ show_nat (unat ?hi) @ '' '' @ show_nat (unat ?lo)"
      using True by (simp add: float_str_def)
    have b: "uint ?hi < 2 ^ 32" "uint ?lo < 2 ^ 32" using f64_halves [of v] by simp_all
    then have l: "lexes T (show_nat (unat ?hi)) [IntTok (uint ?hi)]" "lexes T (show_nat (unat ?lo)) [IntTok (uint ?lo)]"
      using lexes_nat [of "unat ?hi" T] lexes_nat [of "unat ?lo" T] by simp_all
    show ?thesis
      by (rule op_readsI [OF lexes_arg [OF w(1) lexes_arg [OF w(2) lexes_then [OF l]]] f])
        (use b f64_halves(3) [of v] in \<open>auto simp: parse_op_simps p_const_f64_def\<close>)
  next
    case False
    let ?s = "if ?whole \<and> f64_magnitude v < 0x430C6BF526340000 then ft_show1 T v else ft_show T v"
    have "decimal_ok F T v ?s" using False ok [unfolded float_text_ok_def, rule_format, of v] by (auto split: if_splits)
    moreover have "format_op F T (ConstF64 v) = ''const.f64'' @ '' '' @ ?s" using False by (auto simp: float_str_def Let_def)
    ultimately obtain s where s: "decimal_ok F T v s" "format_op F T (ConstF64 v) = ''const.f64'' @ '' '' @ s" by blast
    then consider (float) neg ds fs where "ds \<noteq> []" "list_all is_digit ds" "list_all is_digit fs" "s = sign_str neg @ ds @ ''.'' @ fs" "ft_parse T s = Some v"
      | (int) i where "in_i64 i" "s = show_int i" "fp_of_i64 F i = v"
      by (auto simp: decimal_ok_def)
    then show ?thesis
    proof cases
      case float
      then have "lexes T s [FloatTok v]" using lexes_float [of ds fs T neg v] by (simp add: sign_str_def)
      then show ?thesis
        by (intro op_readsI [OF lexes_arg [OF w(1)] s(2)]) (auto simp: parse_op_simps p_const_f64_def)
    next
      case int
      then have "lexes T s [IntTok i]" by (simp add: lexes_int)
      then show ?thesis
        by (intro op_readsI [OF lexes_arg [OF w(1)] s(2)]) (use int(3) in \<open>auto simp: parse_op_simps p_const_f64_def\<close>)
    qed
  qed
qed

lemma op_reads_ok:
  assumes "float_text_ok F T" "op_ok op"
  shows "op_reads F T op"
  using assms
  by (cases op) (auto simp: op_reads_plain op_reads_int op_reads_loop op_reads_keys op_reads_broadcast op_reads_float intro: op_reads_transpose)

section \<open>Types\<close>

definition ty_reads :: "float_text \<Rightarrow> ty \<Rightarrow> bool" where
  "ty_reads T t \<longleftrightarrow> (\<exists>toks. lexes T (format_type t) toks \<and> reads parse_type_tokens toks t)"

lemma ty_readsI:
  assumes "lexes T s toks" "format_type t = s" "\<And>us rest. map fst us = toks \<Longrightarrow> parse_type_tokens (us @ rest) = Inr (t, rest)"
  shows "ty_reads T t"
  unfolding ty_reads_def reads_def using assms by blast

lemma parse_elem_name: "parse_elem (elem_name e) off = Inr e"
  by (cases e) (simp_all add: parse_elem_def elem_names_def)

lemma ty_reads_word: "ty_reads T Token" "ty_reads T NoneTy" "ty_reads T (Scalar e)"
proof -
  show "ty_reads T Token" by (rule ty_readsI [OF lexes_name]) (auto simp: word_defs parse_type_tokens_def map_eq_Cons_conv)
  show "ty_reads T NoneTy" by (rule ty_readsI [OF lexes_name]) (auto simp: word_defs parse_type_tokens_def map_eq_Cons_conv)
  have "is_word (''scalar<'' @ elem_name e @ ''>'')" by (cases e) (simp_all add: word_defs)
  then show "ty_reads T (Scalar e)"
    by (rule ty_readsI [OF lexes_name])
      (auto simp: parse_type_tokens_def map_eq_Cons_conv strip_prefix_def strip_suffix_def butlast_append parse_elem_name)
qed

text \<open>The element word, the bracketed dimensions and the layout that tensors and memory references share.\<close>

definition tensor_toks :: "string \<Rightarrow> tensor_type \<Rightarrow> tok list" where
  "tensor_toks w t =
     Word (w @ ''<'' @ elem_name (tt_elem t) @ ''>'') # Sym CHR ''['' # int_toks (shape_as_slice (tt_shape t)) @
     [Sym CHR '']'', Word (layout_name (tt_layout t))]"

lemma lexes_tensor:
  assumes "shape_ok (tt_shape t)" "w = ''tensor'' \<or> w = ''memref''"
  shows "lexes T (w @ ''<'' @ elem_name (tt_elem t) @ ''>['' @ shape_str (tt_shape t) @ ''] '' @ layout_name (tt_layout t)) (tensor_toks w t)"
proof -
  have w: "is_word (w @ ''<'' @ elem_name (tt_elem t) @ ''>'')" using assms(2) by (cases "tt_elem t") (auto simp: word_defs)
  have s: "lexes T (shape_str (tt_shape t)) (int_toks (shape_as_slice (tt_shape t)))"
    using assms(1) by (simp add: shape_ok_def shape_str_def lexes_ints)
  from lexes_seq [OF lexes_name [OF w] lexesC_sep(4) brk_sep(4) _
      lexes_seq [OF s lexesC_pair(2) brk_sep(7) _ lexes_name [OF is_word_names(8) [of "tt_layout t"]]]]
  show ?thesis by (simp add: tensor_toks_def)
qed

lemma elem_text_name: "w = ''tensor'' \<or> w = ''memref'' \<Longrightarrow> elem_text (w @ ''<'' @ elem_name e @ ''>'') = Some (elem_name e)"
  by (cases e) (auto simp: elem_text_def)

lemma p_layout_name [simp]: "p_layout ((Word (layout_name l), o1) # ts) = (l, ts)"
  by (cases l) (simp_all add: p_layout_def)

lemma p_shape_ints:
  assumes "shape_ok s" "map fst us = int_toks (shape_as_slice s)"
  shows "p_shape off ((Sym CHR ''['', o1) # us @ (Sym CHR '']'', o2) # ts) = Inr (s, ts)"
  using assms by (simp add: p_shape_def p_dims_ints shape_ok_def shape_from_dims_of_slice)

lemma ty_reads_tensor:
  assumes "shape_ok (tt_shape t)"
  shows "ty_reads T (Tensor t)"
proof (rule ty_readsI [OF lexes_tensor [OF assms]])
  fix us rest :: tokens
  assume "map fst us = tensor_toks ''tensor'' t"
  then obtain o1 o2 vs o3 o4 where us: "us = (Word (''tensor'' @ ''<'' @ elem_name (tt_elem t) @ ''>''), o1) # (Sym CHR ''['', o2) # vs @
      [(Sym CHR '']'', o3), (Word (layout_name (tt_layout t)), o4)]" "map fst vs = int_toks (shape_as_slice (tt_shape t))"
    by (auto simp: tensor_toks_def map_eq_Cons_conv map_eq_append_conv)
  show "parse_type_tokens (us @ rest) = Inr (Tensor t, rest)"
    using us(1) p_shape_ints [OF assms us(2)] elem_text_name [of "''tensor''" "tt_elem t"]
    by (simp add: parse_type_tokens_def p_tensor_type_def strip_prefix_def parse_elem_name)
qed simp_all

lemma ty_reads_memref:
  assumes "shape_ok (tt_shape t)" "space \<noteq> Global"
  shows "ty_reads T (MemRef t space)"
proof (rule ty_readsI)
  have "lexes T (''memref'' @ ''<'' @ elem_name (tt_elem t) @ ''>['' @ shape_str (tt_shape t) @ ''] '' @ layout_name (tt_layout t)) (tensor_toks ''memref'' t)"
    by (rule lexes_tensor [OF assms(1)]) simp
  from lexes_seq [OF this lexesC_sep(1) brk_sep(1) _ lexes_name [OF is_word_names(4) [of space]]]
  show "lexes T (format_type (MemRef t space)) (tensor_toks ''memref'' t @ [Word (space_name space)])" by simp
next
  fix us rest :: tokens
  assume "map fst us = tensor_toks ''memref'' t @ [Word (space_name space)]"
  then obtain o1 o2 vs o3 o4 o5 where us: "us = (Word (''memref'' @ ''<'' @ elem_name (tt_elem t) @ ''>''), o1) # (Sym CHR ''['', o2) # vs @
      [(Sym CHR '']'', o3), (Word (layout_name (tt_layout t)), o4), (Word (space_name space), o5)]"
      "map fst vs = int_toks (shape_as_slice (tt_shape t))"
    by (auto simp: tensor_toks_def map_eq_Cons_conv map_eq_append_conv)
  have sp: "p_space ((Word (space_name space), o5) # rest) = (space, rest)" using assms(2) by (cases space) (simp_all add: p_space_def)
  show "parse_type_tokens (us @ rest) = Inr (MemRef t space, rest)"
    using us(1) p_shape_ints [OF assms(1) us(2)] elem_text_name [of "''memref''" "tt_elem t"] sp
    by (simp add: parse_type_tokens_def p_tensor_type_def strip_prefix_def parse_elem_name)
qed simp

lemma ty_reads_ok: "ty_ok t \<Longrightarrow> ty_reads T t"
  by (cases t) (simp_all add: ty_reads_word ty_reads_tensor ty_reads_memref)

end
