(* ===== verification/Text_Round.thy ===== *)
theory Text_Round
  imports Text_Ops Arena_Spec
begin

text \<open>
  Whole programs: an arena that straight-line insertions into the root region built prints to text that parses back to
  exactly that arena, handles, links and generations included.
\<close>

section \<open>Straight-line arenas\<close>

inductive built :: "nat \<Rightarrow> arena \<Rightarrow> bool" for cap where
  start: "built cap (with_capacity cap (cap div 2 + 8))"
| node: "built cap a \<Longrightarrow> op_ok op \<Longrightarrow> op \<noteq> OpIf \<Longrightarrow> ty_ok t \<Longrightarrow> length inputs \<le> MAX_INPUTS \<Longrightarrow>
    list_all (\<lambda>v. \<exists>x \<in> set (live_ids a). value_of a x 0 = Inr v) inputs \<Longrightarrow>
    insert_node a (root_region a) (node_new op (root_region a) inputs t) = (Inr x, b) \<Longrightarrow> built cap b"

definition flat :: "arena \<Rightarrow> bool" where
  "flat a \<longleftrightarrow> arena_inv a \<and> ar_free a = [] \<and> length (ar_regions a) = 1 \<and> ar_root a = rid_pack 0 0 \<and>
     list_all (\<lambda>n. nd_region n = rid_pack 0 0 \<and> nd_op n \<noteq> OpIf) (ar_nodes a)"

lemma flat_start: "cap \<le> 2 ^ 32 \<Longrightarrow> flat (with_capacity cap (cap div 2 + 8)) \<and> ar_nodes (with_capacity cap (cap div 2 + 8)) = []"
  using arena_inv_with_capacity [of cap "cap div 2 + 8"]
  by (simp add: flat_def) (simp add: with_capacity_def new_region_def)

lemma flat_root: "flat a \<Longrightarrow> root_region a = rid_pack 0 0 \<and> rid_pack 0 0 \<in> set (region_ids a)"
  using region_ids_slot [of a 0] by (simp add: flat_def root_region_def arena_inv_wf)

lemma flat_insert:
  assumes "flat a" "nd_op n \<noteq> OpIf" "node_wf n" "insert_node a (root_region a) n = (Inr x, b)"
  shows "flat b" "ar_nodes b = ar_nodes a @ [n\<lparr>nd_next := rg_first (ar_regions a ! 0), nd_region := rid_pack 0 0\<rparr>]"
    "x = slot_handle b (length (ar_nodes a))" "\<And>i. i < length (ar_nodes a) \<Longrightarrow> slot_handle b i = slot_handle a i"
proof -
  have inv: "arena_inv a" and wf: "arena_wf a" using assms(1) by (simp_all add: flat_def arena_inv_wf)
  have ns: "next_slot a = length (ar_nodes a)" using assms(1) by (simp add: next_slot_def flat_def)
  note rt = flat_root [OF assms(1)]
  have "insert_node a (rid_pack (word_of_nat 0) 0) n = (Inr x, b)" using assms(4) rt by simp
  moreover have "0 < length (ar_regions a)" using assms(1) by (simp add: flat_def)
  ultimately have b: "b = put_node a 0 n" "x = slot_handle b (next_slot a)"
    using insert_node_eq [OF wf, of 0 n] put_node_new(2) [OF wf, of 0 n] by (auto split: if_splits)
  show nodes: "ar_nodes b = ar_nodes a @ [n\<lparr>nd_next := rg_first (ar_regions a ! 0), nd_region := rid_pack 0 0\<rparr>]"
    using b ns by (simp add: list_put_def)
  show "x = slot_handle b (length (ar_nodes a))" using b ns by simp
  show "slot_handle b i = slot_handle a i" if "i < length (ar_nodes a)" for i
    using put_node_old(2) [OF wf that] b assms(1) by (simp add: slot_live_def flat_def)
  have "arena_inv b" using arena_inv_insert [OF inv _ assms(3), of "root_region a"] rt assms(4) by simp
  then show "flat b" using assms(1,2) b nodes by (simp add: flat_def)
qed

lemma node_new_sel [simp]: "nd_op (node_new op g ins t) = op" "nd_ty (node_new op g ins t) = t" "nd_ty1 (node_new op g ins t) = NoneTy"
  by (simp_all add: node_new_def)

lemma flat_built: "built cap a \<Longrightarrow> cap \<le> 2 ^ 32 \<Longrightarrow> flat a"
proof (induction rule: built.induct)
  case (node a op t inputs x b)
  then show ?case using flat_insert(1) [of a "node_new op (root_region a) inputs t" x b] by (simp add: node_wf_new)
qed (simp add: flat_start)

section \<open>The printed lines\<close>

definition lines :: "fp \<Rightarrow> float_text \<Rightarrow> arena \<Rightarrow> string list" where
  "lines F T a = map (\<lambda>i. print_line F T 1 (slot_handle a i) (ar_nodes a ! i)) [0 ..< length (ar_nodes a)]"

lemma flat_live: "flat a \<Longrightarrow> live_nodes a = map (\<lambda>i. (slot_handle a i, ar_nodes a ! i)) [0 ..< length (ar_nodes a)]"
  by (simp add: live_nodes_def flat_def slot_live_def)

lemma flat_per_region:
  assumes "flat a" shows "per_region a = [map (slot_handle a) [0 ..< length (ar_nodes a)]]"
proof -
  have "length (region_entries a) = 1" using assms by (simp add: flat_def region_entries_def)
  moreover have "filter (\<lambda>(x, n). unat (rid_index (nd_region n)) = 0) (live_nodes a) = live_nodes a"
    using assms by (auto simp: flat_live filter_id_conv flat_def list_all_length)
  ultimately show ?thesis by (simp add: per_region_def flat_live [OF assms] comp_def)
qed

lemma concat_map_single: "(\<And>i. i \<in> set is \<Longrightarrow> g (h i) = [f i]) \<Longrightarrow> concat (map g (map h is)) = map f is"
  by (induction "is") auto

lemma flat_print:
  assumes "flat a" shows "print_region_nodes F T a (root_region a) 1 = lines F T a"
proof -
  have wf: "arena_wf a" using assms by (simp add: flat_def arena_inv_wf)
  note pr = flat_per_region [OF assms] and rt = flat_root [OF assms, THEN conjunct1]
  have c: "\<not> (MAX_NEST < 1 \<or> length (per_region a) \<le> unat (rid_index (root_region a)))"
    by (simp add: rt pr MAX_NEST_def)
  have p: "per_region a ! unat (rid_index (root_region a)) = map (slot_handle a) [0 ..< length (ar_nodes a)]" by (simp add: rt pr)
  show ?thesis
    unfolding print_region_nodes.simps [of F T a "root_region a" 1] if_not_P [OF c] p lines_def
    by (rule concat_map_single) (use assms in \<open>simp add: arena_node_handle [OF wf] flat_def list_all_length\<close>)
qed

lemma lines_insert:
  assumes "flat a" "nd_op n \<noteq> OpIf" "node_wf n" "insert_node a (root_region a) n = (Inr x, b)"
  shows "lines F T b = lines F T a @ [print_line F T 1 x (n\<lparr>nd_next := rg_first (ar_regions a ! 0), nd_region := rid_pack 0 0\<rparr>)]"
  using flat_insert [OF assms] by (simp add: lines_def nth_append)

section \<open>One statement\<close>

fun ref_toks :: "u32 list \<Rightarrow> tok list" where
  "ref_toks [] = []"
| "ref_toks [r] = [ValueRef r]"
| "ref_toks (r # q # rs) = [ValueRef r] @ [Sym CHR '',''] @ ref_toks (q # rs)"

lemma lexes_refs: "lexes T (join '', '' (map (\<lambda>r. ''%'' @ show_nat (unat r)) rs)) (ref_toks rs)"
proof (induction rs rule: ref_toks.induct)
  case 1
  then show ?case using lexesC_imp [OF lexes_Nil] by simp
next
  case (2 r)
  then show ?case using lexes_ref [of T r] by simp
next
  case (3 r q rs)
  then show ?case using lexes_seq [OF lexes_ref [of T r] lexesC_pair(3) brk_sep(8) _ 3] by simp
qed

lemma p_inputs_refs:
  assumes "map fst us = ref_toks (map k vs)" "\<And>v. v \<in> set vs \<Longrightarrow> lookup_val vals (k v) = v \<and> \<not> vid_is_none v"
  shows "p_inputs vals (us @ (Sym CHR '':'', o1) # rest) = Inr (vs, (Sym CHR '':'', o1) # rest)"
  using assms
proof (induction vs arbitrary: us rule: induct_list012)
  case 1
  then show ?case by simp
next
  case (2 v)
  then obtain o2 where "us = [(ValueRef (k v), o2)]" by (auto simp: map_eq_Cons_conv)
  then show ?case using 2(2) [of v] by simp
next
  case (3 v w vs)
  then obtain o2 o3 us' where "us = (ValueRef (k v), o2) # (Sym CHR '','', o3) # us'" "map fst us' = ref_toks (map k (w # vs))"
    by (auto simp: map_eq_Cons_conv)
  then show ?case using 3(2) [of us'] 3(4) by simp
qed

definition use_index :: "value_id \<Rightarrow> u32" where
  "use_index v = nid_index (vid_node v)"

text \<open>The tokens of a printed line, between those of its operation and of its type.\<close>

definition line_toks :: "u32 \<Rightarrow> string \<Rightarrow> tok list \<Rightarrow> value_id list \<Rightarrow> tok list \<Rightarrow> tok list" where
  "line_toks i name optoks uses tytoks =
     [ValueRef i, Sym CHR ''=''] @ (Word name # optoks) @ ref_toks (map use_index uses) @ [Sym CHR '':''] @ tytoks"

lemma lexes_pad: "lexesC T (pad d) []"
proof (induction d)
  case 0
  then show ?case using lexes_Nil by (simp add: pad_def)
next
  case (Suc d)
  then show ?case using lexesC_append [OF lexesC_append [OF lexes_space lexes_space] Suc] by (simp add: pad_def)
qed

lemma lexes_line:
  assumes "lexes T (format_op F T (nd_op n)) (Word name # optoks)" "lexes T (format_type (nd_ty n)) tytoks"
  shows "lexes T (print_line F T d x n) (line_toks (nid_index x) name optoks (node_uses n) tytoks)"
proof -
  have uses: "lexes T (show_uses n) (ref_toks (map use_index (node_uses n)))"
    using lexes_refs [of T "map use_index (node_uses n)"] by (simp add: show_uses_def show_ref_def use_index_def comp_def)
  have "lexes T (show_ref x @ '' = '' @ (format_op F T (nd_op n) @ '' '' @ (show_uses n @ '' : '' @ format_type (nd_ty n))))
      ([ValueRef (nid_index x)] @ [Sym CHR ''=''] @ ((Word name # optoks) @ [] @ (ref_toks (map use_index (node_uses n)) @ [Sym CHR '':''] @ tytoks)))"
    unfolding show_ref_def
    by (intro lexes_seq lexes_ref lexesC_pair lexesC_sep brk_sep uses assms) simp_all
  from lexesC_lexes [OF lexes_pad this, of d] show ?thesis by (simp add: print_line_def line_toks_def)
qed

lemma p_head_line:
  assumes op: "\<And>off. reads (parse_op F name off) optoks op"
    and vals: "\<And>v. v \<in> set uses \<Longrightarrow> lookup_val vals (use_index v) = v \<and> \<not> vid_is_none v"
    and us: "map fst us = line_toks i name optoks uses tytoks"
  obtains off woff o1 us' where "map fst us' = tytoks" "\<And>rest. p_head F vals (us @ rest) = Inr ((i, off, woff, op, uses), (Sym CHR '':'', o1) # us' @ rest)"
proof -
  obtain off o2 woff xs ys o1 us' where u: "us = (ValueRef i, off) # (Sym CHR ''='', o2) # (Word name, woff) # xs @ ys @ (Sym CHR '':'', o1) # us'"
      "map fst xs = optoks" "map fst ys = ref_toks (map use_index uses)" "map fst us' = tytoks"
    using us by (auto simp: line_toks_def map_eq_Cons_conv map_eq_append_conv append_eq_map_conv Cons_eq_map_conv)
  have "parse_op F name woff (xs @ rest) = Inr (op, rest)" for rest using op [of woff] u(2) by (simp add: reads_def)
  then have "p_head F vals (us @ rest) = Inr ((i, off, woff, op, uses), (Sym CHR '':'', o1) # us' @ rest)" for rest
    using p_inputs_refs [OF u(3) vals] u(1) by (simp add: p_head_def)
  with u(4) that show thesis by blast
qed

lemma op_eq_OpIf: "op_eq op OpIf \<longleftrightarrow> op = OpIf"
  by (cases op) simp_all

lemma fbind_simps [simp]: "fbind (Some (Inr x)) f = f x" "fbind (Some (Inl e)) f = Some (Inl e)" "fbind None f = None"
  by (simp_all add: fbind_def)

lemma parse_statement_line:
  assumes op: "\<And>off. reads (parse_op F name off) optoks op" "op \<noteq> OpIf"
    and vals: "\<And>v. v \<in> set uses \<Longrightarrow> lookup_val vals (use_index v) = v \<and> \<not> vid_is_none v"
    and ty: "reads parse_type_tokens tytoks t"
    and ins: "add_node a g op uses t = Inr (x, v, b)"
    and us: "map fst us = line_toks i name optoks uses tytoks"
  shows "parse_statement F loop a vals g d (us @ (Eol, o1) # rest) = Some (Inr (b, vals @ [(i, v)], rest))"
proof -
  obtain off woff o2 us' where u: "map fst us' = tytoks"
      "p_head F vals (us @ (Eol, o1) # rest) = Inr ((i, off, woff, op, uses), (Sym CHR '':'', o2) # us' @ (Eol, o1) # rest)"
    using p_head_line [OF op(1) vals us] by metis
  then show ?thesis using op(2) ty ins by (simp add: parse_statement_def op_eq_OpIf p_plain_def reads_def stmt_end_def)
qed

lemma parse_loop_line:
  assumes "map fst us = line_toks i name optoks uses tytoks"
    and "parse_statement F (parse_loop F k) a vals g d (us @ rest) = Some (Inr (b, vals', rest'))"
  shows "parse_loop F (Suc k) a vals g d (us @ rest) = parse_loop F k b vals' g d rest'"
proof -
  obtain off us' where "us = (ValueRef i, off) # us'" using assms(1) by (auto simp: line_toks_def map_eq_Cons_conv)
  then show ?thesis using assms(2) by simp
qed

section \<open>The table of values\<close>

definition vals_of :: "arena \<Rightarrow> val_table" where
  "vals_of a = map (\<lambda>i. (word_of_nat i, vid_from_node (slot_handle a i) 0)) [0 ..< length (ar_nodes a)]"

lemma lookup_val_in:
  assumes "distinct (map fst vals)" "(k, v) \<in> set vals"
  shows "lookup_val vals k = v"
  using assms
proof (induction vals rule: rev_induct)
  case (snoc kv vals)
  then show ?case by (cases kv) (auto simp: lookup_val_def image_iff)
qed simp

lemma vals_of_lookup:
  assumes "flat a" "x \<in> set (live_ids a)" "value_of a x 0 = Inr v"
  shows "lookup_val (vals_of a) (use_index v) = v \<and> \<not> vid_is_none v"
proof -
  have wf: "arena_wf a" using assms(1) by (simp add: flat_def arena_inv_wf)
  obtain i where i: "i < length (ar_nodes a)" "x = slot_handle a i" using assms(1,2) by (auto simp: live_ids_def flat_live)
  have v: "v = vid_from_node x 0" using assms(3) by (auto simp: value_of_def rbind_eq_Inr split: if_splits)
  have "use_index v = word_of_nat i" by (simp add: v i use_index_def slot_handle_def)
  moreover have "(word_of_nat i, v) \<in> set (vals_of a)" using i v by (auto simp: vals_of_def)
  moreover have "distinct (map fst (vals_of a))"
    using wf word_of_nat_u32_inj by (auto simp: vals_of_def distinct_map inj_on_def arena_wf_def)
  moreover have "\<not> vid_is_none v"
  proof
    assume "vid_is_none v"
    then have "vid_slot v = 0xF" by (simp add: vid_is_none_iff ValueId_NONE_def vid_slot_def mask_eq_exp_minus_1)
    then show False using vid_slot_pack [of 0] by (simp add: v i slot_handle_def)
  qed
  ultimately show ?thesis using lookup_val_in by simp
qed

lemma vals_of_insert:
  assumes "flat a" "nd_op n \<noteq> OpIf" "node_wf n" "insert_node a (root_region a) n = (Inr x, b)"
  shows "vals_of b = vals_of a @ [(nid_index x, vid_from_node x 0)]"
  using flat_insert [OF assms] by (simp add: vals_of_def)

section \<open>All statements\<close>

definition line_text :: "string list \<Rightarrow> string" where
  "line_text ls = concat (map (\<lambda>l. l @ [newline]) ls)"

lemma brk_newline: "brk [newline]"
  by (simp add: brk_def newline_def word_char_def is_alpha_def is_digit_def)

lemma add_node_insert:
  assumes "insert_node a g (node_new op g inputs t) = (Inr x, b)" "arena_node b x = Inr n" 
  shows "add_node a g op inputs t = Inr (x, vid_from_node x 0, b)"
  using assms by (simp add: add_node_def value_of_def MAX_OUTPUTS_def)

definition lines_read :: "fp \<Rightarrow> float_text \<Rightarrow> nat \<Rightarrow> arena \<Rightarrow> tok list \<Rightarrow> bool" where
  "lines_read F T cap a toks \<longleftrightarrow>
     lexesC T (line_text (lines F T a)) toks \<and> length (ar_nodes a) \<le> length toks \<and>
     (\<forall>us k rest. map fst us = toks \<longrightarrow>
        parse_loop F (length (ar_nodes a) + k) (with_capacity cap (cap div 2 + 8)) [] (rid_pack 0 0) 0 (us @ rest) =
        parse_loop F k a (vals_of a) (rid_pack 0 0) 0 rest)"

lemma lines_read_start: "cap \<le> 2 ^ 32 \<Longrightarrow> lines_read F T cap (with_capacity cap (cap div 2 + 8)) []"
  using flat_start [of cap] lexes_Nil by (simp add: lines_read_def lines_def line_text_def vals_of_def)

lemma lines_read_node:
  assumes fl: "flat a" and IH: "lines_read F T cap a toks"
    and op: "op_reads F T op" "op \<noteq> OpIf" and ty: "ty_reads T t"
    and ins: "length inputs \<le> MAX_INPUTS" "list_all (\<lambda>v. \<exists>x \<in> set (live_ids a). value_of a x 0 = Inr v) inputs"
      "insert_node a (root_region a) (node_new op (root_region a) inputs t) = (Inr x, b)"
  shows "\<exists>toks. lines_read F T cap b toks"
proof -
  let ?g = "rid_pack 0 0" and ?n = "node_new op (root_region a) inputs t"
  have g: "root_region a = ?g" using flat_root [OF fl] by simp
  have wfn: "nd_op ?n \<noteq> OpIf" "node_wf ?n" using op(2) by (simp_all add: node_wf_new)
  note fi = flat_insert [OF fl wfn ins(3)]
  obtain name optoks where o: "lexes T (format_op F T op) (Word name # optoks)" "\<And>off. reads (parse_op F name off) optoks op"
    using op(1) by (auto simp: op_reads_def)
  obtain tytoks where t: "lexes T (format_type t) tytoks" "reads parse_type_tokens tytoks t" using ty by (auto simp: ty_reads_def)
  let ?n' = "?n\<lparr>nd_next := rg_first (ar_regions a ! 0), nd_region := ?g\<rparr>" and ?lt = "line_toks (nid_index x) name optoks inputs tytoks"
  have uses: "node_uses ?n' = inputs" using node_uses_new [OF ins(1)] by (simp add: node_uses_def)
  have "lexes T (print_line F T 1 x ?n') ?lt" using lexes_line [of T F ?n' name optoks tytoks 1 x] o(1) t(1) uses by simp
  from lexes_lexesC [OF this lexes_newline brk_newline] have l: "lexesC T (print_line F T 1 x ?n' @ [newline]) (?lt @ [Eol])" by simp
  have lx: "lexesC T (line_text (lines F T b)) (toks @ ?lt @ [Eol])"
    using lexesC_append [OF _ l, of "line_text (lines F T a)" toks] IH lines_insert [OF fl wfn ins(3), of F T]
    by (simp add: lines_read_def line_text_def)
  have vals: "lookup_val (vals_of a) (use_index v) = v \<and> \<not> vid_is_none v" if "v \<in> set inputs" for v
    using vals_of_lookup [OF fl] ins(2) that by (auto simp: list_all_iff)
  have "arena_wf b" using fi(1) by (simp add: flat_def arena_inv_wf)
  then have "add_node a ?g op inputs t = Inr (x, vid_from_node x 0, b)"
    using add_node_insert [OF ins(3) [unfolded g]] arena_node_handle [of b "length (ar_nodes a)"] fi(2,3) by simp
  then have step: "parse_loop F (Suc k) a (vals_of a) ?g 0 (us @ (Eol, o1) # rest) = parse_loop F k b (vals_of b) ?g 0 rest"
    if "map fst us = ?lt" for us k o1 rest
    using parse_loop_line [OF that parse_statement_line [OF o(2) op(2) vals t(2) _ that]] vals_of_insert [OF fl wfn ins(3)] by simp
  have "parse_loop F (length (ar_nodes b) + k) (with_capacity cap (cap div 2 + 8)) [] ?g 0 (us @ rest) = parse_loop F k b (vals_of b) ?g 0 rest"
    if h: "map fst us = toks @ ?lt @ [Eol]" for us k rest
  proof -
    obtain us1 us2 o1 where u: "us = us1 @ us2 @ [(Eol, o1)]" "map fst us1 = toks" "map fst us2 = ?lt"
      using h by (auto simp: map_eq_append_conv append_eq_map_conv map_eq_Cons_conv)
    have "parse_loop F (length (ar_nodes a) + Suc k) (with_capacity cap (cap div 2 + 8)) [] ?g 0 (us1 @ us2 @ (Eol, o1) # rest) =
        parse_loop F (Suc k) a (vals_of a) ?g 0 (us2 @ (Eol, o1) # rest)"
      using IH u(2) unfolding lines_read_def by blast
    then show ?thesis using step [OF u(3)] u(1) fi(2) by simp
  qed
  then have "lines_read F T cap b (toks @ ?lt @ [Eol])" using lx IH fi(2) by (simp add: lines_read_def)
  then show ?thesis ..
qed

lemma lines_read_built:
  assumes "built cap a" "cap \<le> 2 ^ 32" "float_text_ok F T"
  shows "\<exists>toks. lines_read F T cap a toks"
  using assms(1)
proof (induction rule: built.induct)
  case start
  then show ?case using lines_read_start [OF assms(2)] by blast
next
  case (node a op t inputs x b)
  then show ?case
    using lines_read_node [OF flat_built [OF node(1) assms(2)]] op_reads_ok [OF assms(3)] ty_reads_ok by blast
qed

section \<open>The whole text\<close>

lemma join_newline: "ls \<noteq> [] \<Longrightarrow> join [newline] ls @ [newline] = line_text ls"
  by (induction ls rule: induct_list012) (simp_all add: line_text_def)

lemma lexesC_lex: "lexesC T s toks \<Longrightarrow> \<exists>ts. lex T s = Inr ts \<and> map fst ts = toks"
proof -
  assume "lexesC T s toks"
  then obtain ts where "map fst ts = toks" "lex_from T 0 (s @ []) = rbind (lex_from T (0 + length s) []) (\<lambda>ts'. Inr (ts @ ts'))"
    unfolding lexesC_def lexes_at_def by blast
  then show ?thesis by (simp add: lex_def lex_from.simps)
qed

lemma lexes_header:
  "lexesC T (''xir v1 func @main {'' @ [newline]) [Word ''xir'', Word ''v1'', Word ''func'', Word ''@main'', Sym CHR ''{'', Eol]"
proof -
  have w: "is_word ''xir''" "is_word ''v1''" "is_word ''func''" "is_word ''@main''" by (simp_all add: word_defs)
  have "lexesC T ''{'' [Sym CHR ''{'']" by (rule lexes_sym) (simp add: is_sym_def)
  from lexesC_append [OF lexesC_append [OF lexes_space this] lexes_newline]
  have b: "lexesC T ('' {'' @ [newline]) [Sym CHR ''{'', Eol]" by simp
  have "lexes T (''xir'' @ '' '' @ ''v1'' @ '' '' @ ''func'' @ '' '' @ ''@main'') [Word ''xir'', Word ''v1'', Word ''func'', Word ''@main'']"
    by (intro lexes_arg lexes_name w)
  from lexes_lexesC [OF this b] show ?thesis by (simp add: brk_def word_defs)
qed

lemma lexes_footer: "lexesC T (''}'' @ [newline]) [Sym CHR ''}'', Eol]"
proof -
  have "lexesC T ''}'' [Sym CHR ''}'']" by (rule lexes_sym) (simp add: is_sym_def)
  from lexesC_append [OF this lexes_newline] show ?thesis by simp
qed

lemma skip_eol_loop: "parse_loop F (Suc k) a vals g d ((Eol, o1) # ts) = parse_loop F (Suc k) a vals g d ts"
  by simp

text \<open>Reading the statements of \<open>a\<close>, with the blank line the printer writes when there is none.\<close>

lemma lines_body:
  assumes "lines_read F T cap a toks"
  obtains eols where "lexesC T (join [newline] (lines F T a) @ [newline]) (eols @ toks)" "set eols \<subseteq> {Eol}"
proof (cases "lines F T a = []")
  case True
  then have "lexesC T [] toks" using assms by (simp add: lines_read_def line_text_def)
  then have "toks = []" using lexesC_lex [of T "[]" toks] by (simp add: lex_def lex_from.simps)
  then show ?thesis using that [of "[Eol]"] lexes_newline True by simp
next
  case False
  then show ?thesis using that [of "[]"] assms by (simp add: lines_read_def join_newline)
qed

lemma parse_loop_eols: "set (map fst es) \<subseteq> {Eol} \<Longrightarrow> parse_loop F (Suc k) a vals g d (es @ ts) = parse_loop F (Suc k) a vals g d ts"
proof (induction es)
  case (Cons e es)
  then show ?case using skip_eol_loop [of F k a vals g d "snd e" "es @ ts"] by (cases e) (simp del: parse_loop.simps)
qed simp

lemma parse_tokens_built:
  assumes lr: "lines_read F T cap a toks" and fl: "flat (with_capacity cap (cap div 2 + 8))" and eols: "set eols \<subseteq> {Eol}"
    and ts: "map fst ts = [Word ''xir'', Word ''v1'', Word ''func'', Word ''@main'', Sym CHR ''{'', Eol] @ (eols @ toks) @ [Sym CHR ''}'', Eol]"
  shows "parse_tokens F cap ts = Some (Inr a)"
proof -
  let ?a0 = "with_capacity cap (cap div 2 + 8)" and ?g = "rid_pack 0 0"
  obtain o1 o2 o3 o4 o5 o6 es us o7 o8 where t: "ts = (Word ''xir'', o1) # (Word ''v1'', o2) # (Word ''func'', o3) # (Word ''@main'', o4) #
      (Sym CHR ''{'', o5) # ((Eol, o6) # es) @ us @ [(Sym CHR ''}'', o7), (Eol, o8)]" "map fst es = eols" "map fst us = toks"
    using ts by (auto simp: map_eq_append_conv append_eq_map_conv map_eq_Cons_conv)
  let ?body = "((Eol, o6) # es) @ us @ [(Sym CHR ''}'', o7), (Eol, o8)]"
  have hd: "p_header ts = Inr ?body" by (simp add: p_header_def t(1))
  obtain k where k: "length ?body + 1 = length (ar_nodes a) + Suc (Suc k)"
    using lr t(3) by (intro that [of "length ?body + 1 - length (ar_nodes a) - 2"]) (auto simp: lines_read_def)
  have "parse_loop F (length ?body + 1) ?a0 [] ?g 0 ?body =
      parse_loop F (length (ar_nodes a) + Suc (Suc k)) ?a0 [] ?g 0 (us @ [(Sym CHR ''}'', o7), (Eol, o8)])"
    using parse_loop_eols [of "(Eol, o6) # es" F "length (ar_nodes a) + Suc k"] eols t(2) unfolding k by simp
  also have "\<dots> = parse_loop F (Suc (Suc k)) a (vals_of a) ?g 0 [(Sym CHR ''}'', o7), (Eol, o8)]"
    using lr t(3) unfolding lines_read_def by blast
  also have "\<dots> = Some (Inr (a, vals_of a, [(Eol, o8)]))" by simp
  finally have "parse_block (parse_loop F (length ?body + 1)) ?a0 [] ?g 0 ?body = Some (Inr (a, vals_of a, [(Eol, o8)]))"
    by (simp only: parse_block_def MAX_NEST_def) simp
  then show ?thesis using flat_root [OF fl] by (simp only: parse_tokens_def hd fbind_simps Let_def) simp
qed

text \<open>
  C39: printing and parsing are inverse on straight-line programs. An arena that \<^verbatim>\<open>with_capacity\<close> and any sequence of
  insertions into its root region built, with operations and types the text form can carry and inputs that are earlier
  results, prints to a text whose parse succeeds and gives back the same arena: every node, handle, link and generation.
\<close>

theorem text_roundtrip:
  assumes "built cap a" "cap \<le> 2 ^ 32" "float_text_ok F T"
  shows "parse_arena F T (print_arena F T a) cap = Some (Inr a)"
proof -
  obtain toks where lr: "lines_read F T cap a toks" using lines_read_built [OF assms] by blast
  obtain eols where e: "lexesC T (join [newline] (lines F T a) @ [newline]) (eols @ toks)" "set eols \<subseteq> {Eol}" using lr by (rule lines_body)
  have "print_arena F T a = (''xir v1 func @main {'' @ [newline]) @ (join [newline] (lines F T a) @ [newline]) @ (''}'' @ [newline])"
    using flat_print [OF flat_built [OF assms(1,2)]] by (simp add: print_arena_def)
  then obtain ts where ts: "lex T (print_arena F T a) = Inr ts"
      "map fst ts = [Word ''xir'', Word ''v1'', Word ''func'', Word ''@main'', Sym CHR ''{'', Eol] @ (eols @ toks) @ [Sym CHR ''}'', Eol]"
    using lexesC_lex [OF lexesC_append [OF lexes_header lexesC_append [OF e(1) lexes_footer]]] by (metis append_assoc)
  have "flat (with_capacity cap (cap div 2 + 8))" using flat_start [OF assms(2)] by blast
  from parse_tokens_built [OF lr this e(2) ts(2)] show ?thesis by (simp add: parse_arena_def ts(1))
qed

definition demo_text_fp :: fp where
  "demo_text_fp = \<lparr>fp_add = (+), fp_sub = (-), fp_mul = (*), fp_div = (\<lambda>x y. x), fp_max = max, fp_min = min,
     fp_exp = id, fp_ln = id, fp_sqrt = id, fp_cos = id, fp_fract = (\<lambda>_. 0), fp_of_i64 = word_of_int,
     fp_of_u64 = id, fp_to_i64 = sint\<rparr>"

definition demo_float_text :: float_text where
  "demo_float_text = \<lparr>ft_show = (\<lambda>v. show_nat (unat v) @ ''.0''), ft_show1 = (\<lambda>v. show_nat (unat v) @ ''.0''),
     ft_parse = (\<lambda>s. Some (word_of_int (digits_val (takeWhile is_digit s))))\<rparr>"

lemma demo_float_text_ok: "float_text_ok demo_text_fp demo_float_text"
proof -
  have d: "decimal_ok demo_text_fp demo_float_text v (show_nat (unat v) @ ''.0'')" for v :: f64
  proof -
    have "\<not> is_digit CHR ''.''" "is_digit CHR ''0''" by (simp_all add: is_digit_def)
    then have "takeWhile is_digit (show_nat (unat v) @ ''.0'') = show_nat (unat v)"
      using show_nat_digits [of "unat v"] by (simp add: list_all_iff)
    then have "ft_parse demo_float_text (show_nat (unat v) @ ''.0'') = Some v" by (simp add: demo_float_text_def digits_val_show)
    then show ?thesis unfolding decimal_ok_def using show_nat_digits [of "unat v"] \<open>is_digit CHR ''0''\<close>
      by (intro disjI1 exI [of _ False] exI [of _ "show_nat (unat v)"] exI [of _ "''0''"]) (simp add: sign_str_def)
  qed
  then show ?thesis by (simp add: float_text_ok_def demo_float_text_def)
qed

text \<open>\<^verbatim>\<open>%0 = param 3 : tensor<f32>[2,5] row\<close> and \<^verbatim>\<open>%1 = binary.add %0, %0 : scalar<f64>\<close>\<close>

definition demo_text_start :: arena where
  "demo_text_start = with_capacity 4 10"

definition demo_text_type :: ty where
  "demo_text_type = Tensor \<lparr>tt_elem = F32, tt_shape = \<lparr>sh_dims = [2, 5, 0, 0], sh_rank = 2\<rparr>, tt_layout = RowMajor\<rparr>"

definition demo_text_one :: arena where
  "demo_text_one = snd (insert_node demo_text_start (root_region demo_text_start)
     (node_new (Param 3) (root_region demo_text_start) [] demo_text_type))"

definition demo_text :: arena where
  "demo_text = snd (insert_node demo_text_one (root_region demo_text_one)
     (node_new (Binary BAdd) (root_region demo_text_one) [ValueId 0, ValueId 0] (Scalar F64)))"

lemma demo_text_built: "built 4 demo_text"
proof -
  have s: "built 4 demo_text_start" using built.start [of 4] by (simp add: demo_text_start_def)
  have one: "built 4 demo_text_one"
  proof (rule built.node [OF s])
    show "insert_node demo_text_start (root_region demo_text_start) (node_new (Param 3) (root_region demo_text_start) [] demo_text_type) =
        (Inr (NodeId 0), demo_text_one)"
      by code_simp
    show "ty_ok demo_text_type" by code_simp
  qed simp_all
  show ?thesis
  proof (rule built.node [OF one])
    show "insert_node demo_text_one (root_region demo_text_one)
        (node_new (Binary BAdd) (root_region demo_text_one) [ValueId 0, ValueId 0] (Scalar F64)) = (Inr (NodeId 1), demo_text)"
      by code_simp
    show "list_all (\<lambda>v. \<exists>x \<in> set (live_ids demo_text_one). value_of demo_text_one x 0 = Inr v) [ValueId 0, ValueId 0]" by code_simp
  qed (simp_all add: MAX_INPUTS_def)
qed

lemma demo_text_count: "node_count demo_text = 2"
  by code_simp

theorem text_roundtrip_witness:
  "parse_arena demo_text_fp demo_float_text (print_arena demo_text_fp demo_float_text demo_text) 4 = Some (Inr demo_text) \<and>
   node_count demo_text = 2"
  using text_roundtrip [OF demo_text_built _ demo_float_text_ok] demo_text_count by simp

section \<open>What does not read back\<close>

text \<open>
  A memory reference in global memory prints a space name that the type parser leaves in the input, and a statement
  ends with a line break: such a printed program is rejected.
\<close>

lemma memref_global_left:
  assumes "shape_ok (tt_shape t)" "map fst us = tensor_toks ''memref'' t"
  shows "parse_type_tokens (us @ (Word (space_name Global), o1) # rest) = Inr (MemRef t Global, (Word ''global'', o1) # rest)"
    "stmt_end off ((Word ''global'', o1) # rest) = Inl (UnexpectedToken off)"
proof -
  obtain o2 o3 vs o4 o5 where us: "us = (Word (''memref'' @ ''<'' @ elem_name (tt_elem t) @ ''>''), o2) # (Sym CHR ''['', o3) # vs @
      [(Sym CHR '']'', o4), (Word (layout_name (tt_layout t)), o5)]" "map fst vs = int_toks (shape_as_slice (tt_shape t))"
    using assms(2) by (auto simp: tensor_toks_def map_eq_Cons_conv map_eq_append_conv)
  show "parse_type_tokens (us @ (Word (space_name Global), o1) # rest) = Inr (MemRef t Global, (Word ''global'', o1) # rest)"
    using us(1) p_shape_ints [OF assms(1) us(2)] elem_text_name [of "''memref''" "tt_elem t"]
    by (simp add: parse_type_tokens_def p_tensor_type_def strip_prefix_def parse_elem_name p_space_def)
  show "stmt_end off ((Word ''global'', o1) # rest) = Inl (UnexpectedToken off)" by (simp add: stmt_end_def)
qed

text \<open>A seed of \<open>2^63\<close> or more is printed as a \<^verbatim>\<open>u64\<close> and lexed as an \<^verbatim>\<open>i64\<close>.\<close>

lemma big_seed_not_lexed:
  assumes "2 ^ 63 \<le> n" "brk rest"
  shows "lex_from T i (show_nat n @ rest) = Inl (BadInt i)"
proof -
  note d = show_nat_digits [of n]
  obtain c cs where c: "show_nat n = c # cs" "is_digit c" using d by (cases "show_nat n") auto
  have "parse_i64 False (show_nat n) = None"
    using assms(1) by (simp add: parse_i64_def digits_val_show in_i64_def i64_max_def)
  then have "lex_from T i (c # cs @ rest) = Inl (BadInt i)"
    using digits_split [OF _ assms(2), of "show_nat n"] brk_not_dot [OF assms(2)] is_digit_cases [OF c(2)] d c
    by (subst lex_from.simps) (auto simp: Let_def simp del: dropWhile_eq_Nil_conv)
  then show ?thesis using c by simp
qed

text \<open>A transpose of rank zero prints an empty permutation, which the parser rejects.\<close>

lemma empty_perm_rejected:
  "parse_op F ''transpose'' off ((Word ''perm'', o1) # (Sym CHR ''='', o2) # (Sym CHR ''['', o3) # (Sym CHR '']'', o4) # rest) = Inl (BadInt o4)"
  by (simp add: parse_op_def simple_ops_def p_transpose_def MAX_RANK_def numeral_eq_Suc p_u8_def p_int_def)

end
