(* ===== verification/Text_Total.thy ===== *)
theory Text_Total
  imports Text
begin

text \<open>
  The parser always ends: every parsing function consumes tokens or leaves them as they are, a statement consumes at least
  one, and nested blocks are parsed on what is left. So the fuel \<open>length ts + 1\<close> of the statement loop is always enough.
\<close>

section \<open>How many tokens the parsers leave\<close>

text \<open>A result leaves at most \<open>n\<close> tokens; for parsers that return a value with the tokens, and for those that return only these.\<close>

definition leaves :: "nat \<Rightarrow> parse_error + 'a \<times> tokens \<Rightarrow> bool" where
  "leaves n r \<longleftrightarrow> (\<forall>x ts. r = Inr (x, ts) \<longrightarrow> length ts \<le> n)"

definition leavesT :: "nat \<Rightarrow> parse_error + tokens \<Rightarrow> bool" where
  "leavesT n r \<longleftrightarrow> (\<forall>ts. r = Inr ts \<longrightarrow> length ts \<le> n)"

named_theorems leave

lemma leaves_Inl [leave]: "leaves n (Inl e)" "leavesT n (Inl e)"
  by (simp_all add: leaves_def leavesT_def)

lemma leaves_Inr [leave]: "length ts \<le> n \<Longrightarrow> leaves n (Inr (x, ts))" "length ts \<le> n \<Longrightarrow> leavesT n (Inr ts)"
  by (simp_all add: leaves_def leavesT_def)

lemma leaves_bind [leave]: "leaves n r \<Longrightarrow> (\<And>x ts. length ts \<le> n \<Longrightarrow> leaves n (f (x, ts))) \<Longrightarrow> leaves n (rbind r f)"
  by (auto simp: leaves_def rbind_eq_Inr)

lemma leaves_bindT [leave]: "leavesT n r \<Longrightarrow> (\<And>ts. length ts \<le> n \<Longrightarrow> leaves n (f ts)) \<Longrightarrow> leaves n (rbind r f)"
  by (auto simp: leaves_def leavesT_def rbind_eq_Inr)

lemma leavesT_bind [leave]: "leaves n r \<Longrightarrow> (\<And>x ts. length ts \<le> n \<Longrightarrow> leavesT n (f (x, ts))) \<Longrightarrow> leavesT n (rbind r f)"
  by (auto simp: leaves_def leavesT_def rbind_eq_Inr)

lemma leavesT_bindT [leave]: "leavesT n r \<Longrightarrow> (\<And>ts. length ts \<le> n \<Longrightarrow> leavesT n (f ts)) \<Longrightarrow> leavesT n (rbind r f)"
  by (auto simp: leavesT_def rbind_eq_Inr)

lemma leaves_case: "leaves n r \<Longrightarrow> (\<And>x ts. length ts \<le> n \<Longrightarrow> leaves n (f x ts)) \<Longrightarrow> leaves n (rbind r (\<lambda>(x, ts). f x ts))"
  by (auto simp: leaves_def rbind_eq_Inr)

lemma leaves_if: "leaves n x \<Longrightarrow> leaves n y \<Longrightarrow> leaves n (if b then x else y)"
  by simp

lemma leaves_option: "(\<And>x. leaves n (f x)) \<Longrightarrow> leaves n y \<Longrightarrow> leaves n (case v of Some x \<Rightarrow> f x | None \<Rightarrow> y)"
  by (cases v) simp_all

lemma p_next_leaves [leave]: "length ts \<le> n \<Longrightarrow> leaves n (p_next ts)"
  by (cases ts) (auto simp: p_next_def leaves_def)

lemma expect_leaves [leave]:
  "length ts \<le> n \<Longrightarrow> leavesT n (expect_word w ts)" "length ts \<le> n \<Longrightarrow> leavesT n (expect_sym c ts)"
  unfolding expect_word_def expect_sym_def by (auto intro!: leave split: tok.split)

lemma expect_key_leaves [leave]: "length ts \<le> n \<Longrightarrow> leavesT n (expect_key w ts)"
  unfolding expect_key_def by (auto intro!: leave)

lemma p_int_leaves [leave]: "length ts \<le> n \<Longrightarrow> leaves n (p_int lo hi ts)"
  unfolding p_int_def by (auto intro!: leave split: tok.split)

lemma p_num_leaves [leave]:
  "length ts \<le> n \<Longrightarrow> leaves n (p_i64 ts)" "length ts \<le> n \<Longrightarrow> leaves n (p_u8 ts)" "length ts \<le> n \<Longrightarrow> leaves n (p_u32 ts)"
  unfolding p_i64_def p_u8_def p_u32_def by (auto intro!: leave)

lemma p_word_leaves [leave]:
  "length ts \<le> n \<Longrightarrow> leaves n (p_name names err ts)" "length ts \<le> n \<Longrightarrow> leaves n (p_bool ts)"
  unfolding p_name_def p_bool_def by (auto intro!: leave split: tok.split option.split)

lemma p_dims_len: "p_dims ts = (ds, ts') \<Longrightarrow> length ts' \<le> length ts"
  by (induction ts arbitrary: ds ts' rule: p_dims.induct) (fastforce split: if_splits prod.splits)+

lemma p_perm_leaves [leave]: "length ts \<le> n \<Longrightarrow> leaves n (p_perm k acc ts)"
  by (induction k arbitrary: acc ts) (auto intro!: leave)

lemma p_const_f64_leaves [leave]: "length ts \<le> n \<Longrightarrow> leaves n (p_const_f64 F ts)"
  unfolding p_const_f64_def by (auto intro!: leave split: tok.split)

lemma p_broadcast_leaves [leave]: "length ts \<le> n \<Longrightarrow> leaves n (p_broadcast ts)"
  unfolding p_broadcast_def by (auto intro!: leave dest!: p_dims_len split: prod.split sum.split)

lemma p_transpose_leaves [leave]: "length ts \<le> n \<Longrightarrow> leaves n (p_transpose ts)"
  unfolding p_transpose_def by (auto intro!: leave)

lemma parse_op_leaves [leave]: "length ts \<le> n \<Longrightarrow> leaves n (parse_op F name off ts)"
  unfolding parse_op_def
  by (intro leaves_option leaves_if leaves_case leaves_bindT leaves_Inl leaves_Inr expect_key_leaves p_num_leaves p_word_leaves
      p_const_f64_leaves p_broadcast_leaves p_transpose_leaves; assumption)

lemma parse_elem_leaves [leave]: "(\<And>s. leaves n (f s)) \<Longrightarrow> leaves n (rbind (parse_elem e off) f)"
  by (auto simp: leaves_def rbind_eq_Inr)

lemma p_layout_len: "p_layout ts = (l, ts') \<Longrightarrow> length ts' \<le> length ts"
  by (auto simp: p_layout_def split: if_splits)

lemma p_space_len: "p_space ts = (l, ts') \<Longrightarrow> length ts' \<le> length ts"
  by (auto simp: p_space_def split: if_splits)

lemma p_shape_leaves [leave]: "length ts \<le> n \<Longrightarrow> leaves n (p_shape off ts)"
  unfolding p_shape_def by (auto intro!: leave dest!: p_dims_len split: prod.split sum.split)

lemma p_tensor_type_leaves [leave]: "length ts \<le> n \<Longrightarrow> leaves n (p_tensor_type w off ts)"
  unfolding p_tensor_type_def Let_def
  by (auto intro!: leave parse_elem_leaves dest!: p_layout_len p_space_len split: prod.split option.split)

lemma parse_type_leaves [leave]: "length ts \<le> n \<Longrightarrow> leaves n (parse_type_tokens ts)"
  unfolding parse_type_tokens_def by (auto intro!: leave parse_elem_leaves split: tok.split option.split)

lemma p_inputs_leaves [leave]: "length ts \<le> n \<Longrightarrow> leaves n (p_inputs vals ts)"
  by (induction vals ts rule: p_inputs.induct) (auto intro!: leave simp: Let_def split: list.split tok.split)

lemma stmt_end_leaves [leave]: "length ts \<le> n \<Longrightarrow> leavesT n (stmt_end off ts)"
  unfolding stmt_end_def by (auto intro!: leave split: list.split)

lemma p_head_leaves: "ts \<noteq> [] \<Longrightarrow> leaves (length ts - 1) (p_head F vals ts)"
  unfolding p_head_def by (cases ts) (auto intro!: leave simp: p_next_def [of "_ # _"] split: tok.split)

lemma skip_eols_len: "length (skip_eols ts) \<le> length ts"
  by (induction ts rule: skip_eols.induct) auto

section \<open>The statement loop\<close>

text \<open>A run of the loop that returns, and leaves at most \<open>n\<close> tokens when it succeeds.\<close>

definition returns :: "nat \<Rightarrow> parse_state \<Rightarrow> bool" where
  "returns n s \<longleftrightarrow> (\<exists>r. s = Some r \<and> (\<forall>a vals ts. r = Inr (a, vals, ts) \<longrightarrow> length ts \<le> n))"

lemma returns_mono: "returns m s \<Longrightarrow> m \<le> n \<Longrightarrow> returns n s"
  unfolding returns_def using le_trans by blast

lemma returns_bind: "returns m s \<Longrightarrow> (\<And>a vals ts. length ts \<le> m \<Longrightarrow> returns n (f a vals ts)) \<Longrightarrow> returns n (fbind s (\<lambda>(a, vals, ts). f a vals ts))"
  unfolding returns_def fbind_def by (force split: sum.split)

lemma returns_bind_leaves: "leaves m r \<Longrightarrow> (\<And>x ts. length ts \<le> m \<Longrightarrow> returns n (f x ts)) \<Longrightarrow> returns n (fbind (Some r) (\<lambda>(x, ts). f x ts))"
  unfolding returns_def leaves_def fbind_def by (force split: sum.split)

lemma returns_bind_tokens: "leavesT m r \<Longrightarrow> (\<And>ts. length ts \<le> m \<Longrightarrow> returns n (f ts)) \<Longrightarrow> returns n (fbind (Some r) f)"
  unfolding returns_def leavesT_def fbind_def by (auto split: sum.split)

lemma returns_bind_any: "(\<And>x. returns n (f x)) \<Longrightarrow> returns n (fbind (Some r) f)"
  unfolding returns_def fbind_def by (auto split: sum.split)

lemma parse_type_len: "parse_type_tokens ts = Inr (t, ts') \<Longrightarrow> length ts' \<le> length ts"
  using parse_type_leaves [of ts "length ts"] by (auto simp: leaves_def)

lemma stmt_end_len: "stmt_end off ts = Inr ts' \<Longrightarrow> length ts' \<le> length ts"
  using stmt_end_leaves [of ts "length ts"] by (auto simp: leavesT_def)

lemma expect_sym_len: "expect_sym c ts = Inr ts' \<Longrightarrow> length ts' \<le> length ts"
  using expect_leaves(2) [of ts "length ts"] by (auto simp: leavesT_def)

lemma p_plain_returns:
  assumes "length ts \<le> n" shows "returns n (Some (p_plain a vals g h ts))"
proof -
  have "length us \<le> length ts" if "p_plain a vals g h ts = Inr (a', vals', us)" for a' vals' us
    using that by (cases h) (auto simp: p_plain_def rbind_eq_Inr dest!: parse_type_len stmt_end_len split: if_split_asm)
  then show ?thesis using assms by (simp add: returns_def) (meson le_trans)
qed

lemma p_if_start_len: "p_if_start a vals g h ts = Inr (x, g', a', vals', us) \<Longrightarrow> length us \<le> length ts"
  by (cases h) (auto simp: p_if_start_def rbind_eq_Inr dest!: parse_type_len expect_sym_len)

lemma returns_block:
  "(depth \<le> MAX_NEST \<Longrightarrow> returns n (loop a vals g depth ts)) \<Longrightarrow> returns n (parse_block loop a vals g depth ts)"
  by (simp add: parse_block_def returns_def split: list.split)

lemma returns_bind_start:
  assumes "length ts \<le> n" "\<And>x g' a' vals' us. length us \<le> n \<Longrightarrow> returns m (f x g' a' vals' us)"
  shows "returns m (fbind (Some (p_if_start a vals g h ts)) (\<lambda>(x, g', a', vals', us). f x g' a' vals' us))"
proof (cases "p_if_start a vals g h ts")
  case (Inl e)
  then show ?thesis by (simp add: fbind_def returns_def)
next
  case (Inr r)
  obtain x g' a' vals' us where r: "r = (x, g', a', vals', us)" by (cases r) auto
  then have "length us \<le> n" using p_if_start_len Inr assms(1) le_trans by blast
  then show ?thesis using assms(2) by (simp add: fbind_def Inr r)
qed

lemma else_returns:
  assumes loop: "\<And>a vals g d us. length us \<le> n \<Longrightarrow> returns n (loop a vals g d us)" and ts: "length ts \<le> n"
  shows "returns n (fbind (Some r) (\<lambda>(else_r, a). fbind (parse_block loop a vals else_r d ts) (\<lambda>(a, vals, ts).
     fbind (Some (stmt_end off ts)) (\<lambda>ts. Some (Inr (a, vals, ts))))))"
proof (rule returns_bind_any, clarify, rule returns_bind)
  show "returns n (parse_block loop a vals else_r d ts)" for a else_r by (rule returns_block) (rule loop [OF ts])
  show "returns n (fbind (Some (stmt_end off us)) (\<lambda>ts. Some (Inr (a, vals, ts))))" if "length us \<le> n" for a vals us
    by (rule returns_bind_tokens [OF stmt_end_leaves [OF that]]) (simp add: returns_def)
qed

lemma p_if_returns:
  assumes loop: "\<And>a vals g d us. length us \<le> n \<Longrightarrow> returns n (loop a vals g d us)" and ts: "length ts \<le> n"
  shows "returns n (p_if loop a vals g d h ts)"
  unfolding p_if_def
proof (rule returns_bind_start [OF ts])
  fix x then_r a vals and us :: tokens
  assume us: "length us \<le> n"
  have e: "leavesT n (rbind (expect_word ''else'' us) (expect_sym c))" if "length us \<le> n" for us c
    using that by (auto intro!: leave)
  show "returns n (fbind (parse_block loop a vals then_r (d + 1) us) (\<lambda>(a, vals, ts).
     fbind (Some (rbind (expect_word ''else'' ts) (expect_sym CHR ''{''))) (\<lambda>ts.
     fbind (Some (add_region a g x)) (\<lambda>(else_r, a).
     fbind (parse_block loop a vals else_r (d + 1) ts) (\<lambda>(a, vals, ts).
     fbind (Some (stmt_end (fst (snd (snd h))) ts)) (\<lambda>ts. Some (Inr (a, vals, ts))))))))"
  proof (rule returns_bind)
    show "returns n (parse_block loop a vals then_r (d + 1) us)" by (rule returns_block) (rule loop [OF us])
  next
    fix a vals and vs :: tokens
    assume "length vs \<le> n"
    then show "returns n (fbind (Some (rbind (expect_word ''else'' vs) (expect_sym CHR ''{''))) (\<lambda>ts.
       fbind (Some (add_region a g x)) (\<lambda>(else_r, a).
       fbind (parse_block loop a vals else_r (d + 1) ts) (\<lambda>(a, vals, ts).
       fbind (Some (stmt_end (fst (snd (snd h))) ts)) (\<lambda>ts. Some (Inr (a, vals, ts)))))))"
      by (intro returns_bind_tokens [OF e] else_returns loop)
  qed
qed

lemma parse_statement_returns:
  assumes loop: "\<And>a vals g d us. length us < length ts \<Longrightarrow> returns (length us) (loop a vals g d us)" and ts: "ts \<noteq> []"
  shows "returns (length ts - 1) (parse_statement F loop a vals g d ts)"
proof -
  have "returns (length ts - 1) (loop a vals g d us)" if "length us \<le> length ts - 1" for a vals g d us
    using loop [of us a vals g d] that ts returns_mono by (cases ts) auto
  then show ?thesis
    unfolding parse_statement_def
    by (intro returns_bind_leaves [OF p_head_leaves [OF ts]]) (simp add: p_if_returns p_plain_returns)
qed

lemma parse_loop_returns: "length ts < k \<Longrightarrow> returns (length ts) (parse_loop F k a vals g d ts)"
proof (induction k arbitrary: a vals g d ts)
  case (Suc k)
  let ?us = "skip_eols ts"
  have le: "length ?us \<le> length ts" by (rule skip_eols_len)
  show ?case
  proof (cases "peek_is (\<lambda>t. t = Sym CHR ''}'') ?us \<or> ?us = []")
    case True
    then show ?thesis using le by (auto simp: returns_def Let_def)
  next
    case False
    then have "returns (length ?us - 1) (parse_statement F (parse_loop F k) a vals g d ?us)"
      using Suc le by (intro parse_statement_returns) auto
    then have "returns (length ts) (fbind (parse_statement F (parse_loop F k) a vals g d ?us) (\<lambda>(a, vals, ts). parse_loop F k a vals g d ts))"
    proof (rule returns_bind)
      fix a vals and vs :: tokens
      assume "length vs \<le> length ?us - 1"
      then have "length vs < k" "length vs \<le> length ts" using le Suc.prems False by (cases ?us; simp)+
      then show "returns (length ts) (parse_loop F k a vals g d vs)" using Suc.IH returns_mono by blast
    qed
    then show ?thesis using False by (simp add: Let_def)
  qed
qed simp


end
