(* ===== verification/Ebr.thy ===== *)
theory Ebr
  imports SXLA_Prelude
begin

text \<open>
  Epoch-based reclamation, \<^verbatim>\<open>crates/anvil/src/ebr.rs\<close>: the operations of the collector as functions. A retired allocation
  is a value of the type \<open>'a\<close>, and freeing it appends it to the list \<open>co_freed\<close>, whose length is \<^verbatim>\<open>freed_count\<close>.
  \<^theory_text>\<open>Ebr_Conc\<close> interleaves the operations at their atomic accesses.
\<close>

type_synonym addr = nat

definition MAX_EBR_SLOTS :: nat where "MAX_EBR_SLOTS = 68"

definition EBR_RETIRE_THRESHOLD :: nat where "EBR_RETIRE_THRESHOLD = 64"

datatype ebr_error = SlotsExhausted | NotRegistered

text \<open>The garbage list has its head first; an entry is an address and its epoch.\<close>

record 'a collector =
  co_epoch :: u64
  co_slots :: "u64 list"
  co_next_slot :: nat
  co_garbage :: "('a \<times> u64) list"
  co_retires :: nat
  co_freed :: "'a list"

section \<open>Operations\<close>

definition collector_new :: "'a collector" where
  "collector_new = \<lparr>co_epoch = 0, co_slots = replicate MAX_EBR_SLOTS 0, co_next_slot = 0, co_garbage = [], co_retires = 0, co_freed = []\<rparr>"

definition ebr_register :: "'a collector \<Rightarrow> (ebr_error + nat) \<times> 'a collector" where
  "ebr_register c =
     (let slot = co_next_slot c; c' = c\<lparr>co_next_slot := slot + 1\<rparr> in
      if slot < MAX_EBR_SLOTS then (Inr slot, c') else (Inl SlotsExhausted, c'))"

definition ebr_pin :: "'a collector \<Rightarrow> nat \<Rightarrow> ebr_error + 'a collector" where
  "ebr_pin c slot =
     (if slot \<ge> length (co_slots c) then Inl NotRegistered
      else Inr (c\<lparr>co_slots := (co_slots c)[slot := co_epoch c + 1]\<rparr>))"

text \<open>\<^verbatim>\<open>Drop for Guard\<close>\<close>

definition ebr_unpin :: "'a collector \<Rightarrow> nat \<Rightarrow> 'a collector" where
  "ebr_unpin c slot = c\<lparr>co_slots := (co_slots c)[slot := 0]\<rparr>"

definition slot_allows :: "u64 \<Rightarrow> u64 \<Rightarrow> bool" where
  "slot_allows g v \<longleftrightarrow> v = 0 \<or> v = g + 1"

definition is_old :: "u64 \<Rightarrow> 'a \<times> u64 \<Rightarrow> bool" where
  "is_old now = (\<lambda>(_, stamp). now \<ge> stamp + 2)"

text \<open>The entries that stay are pushed back one by one, which reverses their order.\<close>

definition ebr_collect :: "'a collector \<Rightarrow> 'a collector" where
  "ebr_collect c =
     (let g = co_epoch c;
          now = (if list_all (slot_allows g) (co_slots c) then g + 1 else g)
      in c\<lparr>co_epoch := now, co_garbage := rev (filter (\<lambda>e. \<not> is_old now e) (co_garbage c)),
           co_freed := co_freed c @ map fst (filter (is_old now) (co_garbage c))\<rparr>)"

definition ebr_retire :: "'a collector \<Rightarrow> 'a \<Rightarrow> 'a collector" where
  "ebr_retire c x =
     (let c1 = c\<lparr>co_garbage := (x, co_epoch c) # co_garbage c\<rparr>; n = co_retires c + 1 in
      if n \<ge> EBR_RETIRE_THRESHOLD then (ebr_collect c1)\<lparr>co_retires := 0\<rparr> else c1\<lparr>co_retires := n\<rparr>)"

text \<open>\<^verbatim>\<open>Drop for Collector\<close>: everything left is freed.\<close>

definition ebr_drop :: "'a collector \<Rightarrow> 'a collector" where
  "ebr_drop c = c\<lparr>co_garbage := [], co_freed := co_freed c @ map fst (co_garbage c)\<rparr>"

text \<open>Nothing is lost: an address is in the garbage list or freed, once for every time it was retired.\<close>

definition held_addrs :: "'a collector \<Rightarrow> 'a list" where
  "held_addrs c = map fst (co_garbage c) @ co_freed c"

lemma count_split: "count_list (map f (filter P xs)) y + count_list (map f (filter (\<lambda>x. \<not> P x) xs)) y = count_list (map f xs) y"
  by (induction xs) auto

lemma count_rev_map: "count_list (map f (rev xs)) y = count_list (map f xs) y"
  by (metis count_list_rev rev_map)

lemma collect_keeps: "count_list (held_addrs (ebr_collect c)) x = count_list (held_addrs c) x"
  using count_split [of fst "is_old (co_epoch (ebr_collect c))" "co_garbage c" x]
  by (simp add: ebr_collect_def held_addrs_def Let_def count_rev_map)

lemma retire_keeps: "count_list (held_addrs (ebr_retire c x)) y = count_list (held_addrs c) y + (if x = y then 1 else 0)"
proof -
  have "held_addrs (c\<lparr>co_garbage := g, co_retires := n\<rparr>) = held_addrs (c\<lparr>co_garbage := g\<rparr>)" "held_addrs (c\<lparr>co_retires := n\<rparr>) = held_addrs c" for c g n
    by (simp_all add: held_addrs_def)
  then show ?thesis
    using collect_keeps [of "c\<lparr>co_garbage := (x, co_epoch c) # co_garbage c\<rparr>" y]
    by (auto simp: ebr_retire_def Let_def) (auto simp: held_addrs_def)
qed

text \<open>
  With no reader pinned every collection advances the epoch, so what was retired before two collections is freed by them.
\<close>

lemma collect_advances:
  assumes "list_all (\<lambda>v. v = 0) (co_slots c)"
  shows "co_epoch (ebr_collect c) = co_epoch c + 1" "co_slots (ebr_collect c) = co_slots c"
  using assms by (auto simp: ebr_collect_def Let_def list_all_iff slot_allows_def)

lemma collect_quiescent:
  assumes "list_all (\<lambda>v. v = 0) (co_slots c)" "unat (co_epoch c) < 2 ^ 64 - 2" "\<forall>(x, e) \<in> set (co_garbage c). e \<le> co_epoch c"
  shows "co_garbage (ebr_collect (ebr_collect c)) = []"
proof -
  have ep: "co_epoch (ebr_collect (ebr_collect c)) = co_epoch c + 2"
    using collect_advances [OF assms(1)] collect_advances [of "ebr_collect c"] assms(1) by simp
  have "is_old (co_epoch c + 2) e" if "e \<in> set (co_garbage c)" for e
  proof -
    have "snd e \<le> co_epoch c" using assms(3) that by auto
    then have "unat (snd e) + 2 \<le> unat (co_epoch c) + 2" by (simp add: word_le_nat_alt)
    moreover have "unat (w + 2) = unat w + 2" if "unat w < 2 ^ 64 - 2" for w :: u64
      using that by (subst unat_word_ariths) simp
    ultimately show ?thesis using assms(2) \<open>snd e \<le> co_epoch c\<close>
      by (cases e) (simp add: is_old_def word_le_nat_alt)
  qed
  then show ?thesis using ep by (auto simp: ebr_collect_def [of "ebr_collect c"] Let_def filter_empty_conv) (auto simp: ebr_collect_def Let_def)
qed

end
