(* ===== verification/Ebr_Conc.thy ===== *)
theory Ebr_Conc
  imports Ebr
begin

text \<open>
  The collector under concurrency. Readers own one slot each; retiring threads first unlink an allocation, then load the
  epoch, then push the entry; collecting threads scan the slots one by one, try to advance the epoch, and sweep. The
  allocations are those of some shared structure: a reader can only get hold of a linked one, and only while pinned.
\<close>

section \<open>The interleavings\<close>

text \<open>\<open>R_pinned at held\<close>: the epoch when the slot was stored, which the code does not keep, and the allocations the reader holds.\<close>

datatype reader =
    R_idle
  | R_loaded u64                     \<comment> \<open>epoch loaded (line 196)\<close>
  | R_pinned nat "addr set"          \<comment> \<open>slot stored (line 198)\<close>

datatype retirer =
    W_idle
  | W_unlinked addr                  \<comment> \<open>the caller has taken the pointer out of the structure\<close>
  | W_stamped addr u64               \<comment> \<open>epoch loaded (line 245)\<close>

datatype gc =
    G_idle
  | G_scan u64 nat                   \<comment> \<open>epoch loaded (line 290), the slots below the index seen\<close>
  | G_advance u64                    \<comment> \<open>all slots seen (line 299)\<close>
  | G_load                           \<comment> \<open>before the second load (line 308)\<close>
  | G_now u64                        \<comment> \<open>epoch loaded again\<close>
  | G_sweep u64 "(addr \<times> u64) list" "(addr \<times> u64) list"  \<comment> \<open>the list taken (line 311): still to look at, to keep\<close>
  | G_keep "(addr \<times> u64) list"       \<comment> \<open>entries to push back (line 337)\<close>

record ebr_state =
  es_epoch :: u64
  es_slots :: "nat \<Rightarrow> u64"
  es_garbage :: "(addr \<times> u64) list"
  es_freed :: "addr set"
  es_linked :: "addr set"
  es_born :: "addr set"
  es_reader :: "nat \<Rightarrow> reader"
  es_retirer :: "nat \<Rightarrow> retirer"
  es_gc :: "nat \<Rightarrow> gc"

definition ebr_init :: ebr_state where
  "ebr_init = \<lparr>es_epoch = 0, es_slots = (\<lambda>_. 0), es_garbage = [], es_freed = {}, es_linked = {}, es_born = {},
     es_reader = (\<lambda>_. R_idle), es_retirer = (\<lambda>_. W_idle), es_gc = (\<lambda>_. G_idle)\<rparr>"

inductive ebr_step :: "ebr_state \<Rightarrow> ebr_state \<Rightarrow> bool" where
  link: "x \<notin> es_born s \<Longrightarrow> ebr_step s (s\<lparr>es_linked := insert x (es_linked s), es_born := insert x (es_born s)\<rparr>)"
| pin_load: "r < MAX_EBR_SLOTS \<Longrightarrow> es_reader s r = R_idle \<Longrightarrow> ebr_step s (s\<lparr>es_reader := (es_reader s)(r := R_loaded (es_epoch s))\<rparr>)"
| pin_store: "es_reader s r = R_loaded e \<Longrightarrow>
    ebr_step s (s\<lparr>es_reader := (es_reader s)(r := R_pinned (unat (es_epoch s)) {}), es_slots := (es_slots s)(r := e + 1)\<rparr>)"
| read: "es_reader s r = R_pinned at held \<Longrightarrow> x \<in> es_linked s \<Longrightarrow>
    ebr_step s (s\<lparr>es_reader := (es_reader s)(r := R_pinned at (insert x held))\<rparr>)"
| unpin: "es_reader s r = R_pinned at held \<Longrightarrow>
    ebr_step s (s\<lparr>es_reader := (es_reader s)(r := R_idle), es_slots := (es_slots s)(r := 0)\<rparr>)"
| unlink: "es_retirer s w = W_idle \<Longrightarrow> x \<in> es_linked s \<Longrightarrow>
    ebr_step s (s\<lparr>es_retirer := (es_retirer s)(w := W_unlinked x), es_linked := es_linked s - {x}\<rparr>)"
| stamp: "es_retirer s w = W_unlinked x \<Longrightarrow> ebr_step s (s\<lparr>es_retirer := (es_retirer s)(w := W_stamped x (es_epoch s))\<rparr>)"
| retire: "es_retirer s w = W_stamped x e \<Longrightarrow>
    ebr_step s (s\<lparr>es_retirer := (es_retirer s)(w := W_idle), es_garbage := (x, e) # es_garbage s\<rparr>)"
| gc_load: "es_gc s t = G_idle \<Longrightarrow> ebr_step s (s\<lparr>es_gc := (es_gc s)(t := G_scan (es_epoch s) 0)\<rparr>)"
| gc_slot: "es_gc s t = G_scan g i \<Longrightarrow> i < MAX_EBR_SLOTS \<Longrightarrow> slot_allows g (es_slots s i) \<Longrightarrow>
    ebr_step s (s\<lparr>es_gc := (es_gc s)(t := G_scan g (i + 1))\<rparr>)"
| gc_blocked: "es_gc s t = G_scan g i \<Longrightarrow> i < MAX_EBR_SLOTS \<Longrightarrow> \<not> slot_allows g (es_slots s i) \<Longrightarrow>
    ebr_step s (s\<lparr>es_gc := (es_gc s)(t := G_load)\<rparr>)"
| gc_scanned: "es_gc s t = G_scan g i \<Longrightarrow> \<not> i < MAX_EBR_SLOTS \<Longrightarrow> ebr_step s (s\<lparr>es_gc := (es_gc s)(t := G_advance g)\<rparr>)"
| gc_cas: "es_gc s t = G_advance g \<Longrightarrow>
    ebr_step s (s\<lparr>es_gc := (es_gc s)(t := G_load), es_epoch := (if es_epoch s = g then g + 1 else es_epoch s)\<rparr>)"
| gc_now: "es_gc s t = G_load \<Longrightarrow> ebr_step s (s\<lparr>es_gc := (es_gc s)(t := G_now (es_epoch s))\<rparr>)"
| gc_take: "es_gc s t = G_now now \<Longrightarrow>
    ebr_step s (s\<lparr>es_gc := (es_gc s)(t := G_sweep now (es_garbage s) []), es_garbage := []\<rparr>)"
| gc_free: "es_gc s t = G_sweep now ((x, e) # todo) keep \<Longrightarrow> is_old now (x, e) \<Longrightarrow>
    ebr_step s (s\<lparr>es_gc := (es_gc s)(t := G_sweep now todo keep), es_freed := insert x (es_freed s)\<rparr>)"
| gc_young: "es_gc s t = G_sweep now ((x, e) # todo) keep \<Longrightarrow> \<not> is_old now (x, e) \<Longrightarrow>
    ebr_step s (s\<lparr>es_gc := (es_gc s)(t := G_sweep now todo (keep @ [(x, e)]))\<rparr>)"
| gc_swept: "es_gc s t = G_sweep now [] keep \<Longrightarrow> ebr_step s (s\<lparr>es_gc := (es_gc s)(t := G_keep keep)\<rparr>)"
| gc_push: "es_gc s t = G_keep (n # keep) \<Longrightarrow>
    ebr_step s (s\<lparr>es_gc := (es_gc s)(t := G_keep keep), es_garbage := n # es_garbage s\<rparr>)"
| gc_end: "es_gc s t = G_keep [] \<Longrightarrow> ebr_step s (s\<lparr>es_gc := (es_gc s)(t := G_idle)\<rparr>)"

inductive ebr_reach :: "nat \<Rightarrow> ebr_state \<Rightarrow> bool" where
  start: "ebr_reach 0 ebr_init"
| step: "ebr_reach n s \<Longrightarrow> ebr_step s s' \<Longrightarrow> ebr_reach (Suc n) s'"

section \<open>Invariants\<close>

text \<open>The entries some thread or the list has, with their stamps.\<close>

fun gc_entries :: "gc \<Rightarrow> (addr \<times> u64) set" where
  "gc_entries (G_sweep now todo keep) = set todo \<union> set keep"
| "gc_entries (G_keep keep) = set keep"
| "gc_entries _ = {}"

definition entries :: "ebr_state \<Rightarrow> (addr \<times> u64) set" where
  "entries s = set (es_garbage s) \<union> {(x, e). \<exists>w. es_retirer s w = W_stamped x e} \<union> (\<Union>t. gc_entries (es_gc s t))"

definition pending :: "ebr_state \<Rightarrow> addr set" where
  "pending s = {x. \<exists>w. es_retirer s w = W_unlinked x}"

text \<open>Where an allocation can be: a linked one is nowhere else.\<close>

definition away :: "ebr_state \<Rightarrow> addr set" where
  "away s = pending s \<union> fst ` entries s \<union> es_freed s"

definition place_inv :: "ebr_state \<Rightarrow> bool" where
  "place_inv s \<longleftrightarrow> es_linked s \<inter> away s = {} \<and> es_linked s \<union> away s \<subseteq> es_born s"

text \<open>No counter is ahead of the epoch.\<close>

fun gc_epoch_ok :: "nat \<Rightarrow> gc \<Rightarrow> bool" where
  "gc_epoch_ok n (G_scan g i) \<longleftrightarrow> unat g \<le> n"
| "gc_epoch_ok n (G_advance g) \<longleftrightarrow> unat g \<le> n"
| "gc_epoch_ok n (G_now now) \<longleftrightarrow> unat now \<le> n"
| "gc_epoch_ok n (G_sweep now todo keep) \<longleftrightarrow> unat now \<le> n"
| "gc_epoch_ok n _ \<longleftrightarrow> True"

fun reader_ok :: "nat \<Rightarrow> u64 \<Rightarrow> reader \<Rightarrow> bool" where
  "reader_ok n v (R_loaded e) \<longleftrightarrow> unat e \<le> n"
| "reader_ok n v (R_pinned at held) \<longleftrightarrow> v \<noteq> 0 \<and> unat v \<le> at + 1 \<and> at \<le> n \<and> n \<le> at + 1"
| "reader_ok n v R_idle \<longleftrightarrow> True"

definition epoch_inv :: "ebr_state \<Rightarrow> bool" where
  "epoch_inv s \<longleftrightarrow> (\<forall>t. gc_epoch_ok (unat (es_epoch s)) (es_gc s t)) \<and>
     (\<forall>r. reader_ok (unat (es_epoch s)) (es_slots s r) (es_reader s r)) \<and> (\<forall>r \<ge> MAX_EBR_SLOTS. es_reader s r = R_idle)"

text \<open>A scan that loaded the epoch after a reader was pinned and one advance happened stops at that reader's slot.\<close>

fun scan_ok :: "gc \<Rightarrow> nat \<Rightarrow> reader \<Rightarrow> bool" where
  "scan_ok (G_scan g i) r (R_pinned at held) \<longleftrightarrow> (unat g = at + 1 \<longrightarrow> i \<le> r)"
| "scan_ok (G_advance g) r (R_pinned at held) \<longleftrightarrow> unat g \<noteq> at + 1"
| "scan_ok _ _ _ \<longleftrightarrow> True"

definition scan_inv :: "ebr_state \<Rightarrow> bool" where
  "scan_inv s \<longleftrightarrow> (\<forall>t r. scan_ok (es_gc s t) r (es_reader s r))"

text \<open>What a reader holds is not freed, and when it was retired, it was after the reader was pinned.\<close>

definition held_inv :: "ebr_state \<Rightarrow> bool" where
  "held_inv s \<longleftrightarrow> (\<forall>r at held x. es_reader s r = R_pinned at held \<longrightarrow> x \<in> held \<longrightarrow>
     x \<notin> es_freed s \<and> x \<in> es_born s \<and> (\<forall>e. (x, e) \<in> entries s \<longrightarrow> at \<le> unat e))"

lemma unat_epoch_step: "unat (w :: u64) < 2 ^ 64 - 2 \<Longrightarrow> unat (w + 1) = unat w + 1 \<and> unat (w + 2) = unat w + 2"
  by (subst (1 2) unat_word_ariths) simp

lemma entries_simps [simp]:
  "entries (s\<lparr>es_linked := l, es_born := b\<rparr>) = entries s" "pending (s\<lparr>es_linked := l, es_born := b\<rparr>) = pending s"
  by (simp_all add: entries_def pending_def)

lemma away_entry: "(x, e) \<in> entries s \<Longrightarrow> x \<in> away s"
  by (force simp: away_def)

lemma away_other: "x \<in> pending s \<Longrightarrow> x \<in> away s" "x \<in> es_freed s \<Longrightarrow> x \<in> away s"
  by (simp_all add: away_def)

lemma entries_iff:
  "(x, e) \<in> entries s \<longleftrightarrow> (x, e) \<in> set (es_garbage s) \<or> (\<exists>w. es_retirer s w = W_stamped x e) \<or> (\<exists>t. (x, e) \<in> gc_entries (es_gc s t))"
  by (auto simp: entries_def)

lemma entry_of_gc: "(x, e) \<in> gc_entries (es_gc s t) \<Longrightarrow> (x, e) \<in> entries s"
  by (auto simp: entries_iff)

text \<open>Only the steps of retiring threads and the load of the epoch make an entry; the other steps move or drop entries.\<close>

lemma step_entries: "ebr_step s s' \<Longrightarrow> (x, e) \<in> entries s' \<Longrightarrow> (x, e) \<in> entries s \<or> x \<in> pending s \<and> e = es_epoch s"
proof (induction rule: ebr_step.induct)
  case (stamp s w y)
  then show ?case by (auto simp: entries_iff pending_def split: if_splits)
next
  case (retire s w y d)
  then show ?case by (auto simp: entries_iff split: if_splits)
next
  case (gc_free s t now y d todo keep)
  then show ?case using entry_of_gc [of _ _ s t] by (auto simp: entries_iff split: if_splits)
next
  case (gc_young s t now y d todo keep)
  then show ?case using entry_of_gc [of _ _ s t] by (auto simp: entries_iff split: if_splits)
next
  case (gc_swept s t now keep)
  then show ?case using entry_of_gc [of _ _ s t] by (auto simp: entries_iff split: if_splits)
next
  case (gc_push s t n keep)
  then show ?case using entry_of_gc [of _ _ s t] by (auto simp: entries_iff split: if_splits)
qed (auto simp: entries_iff split: if_splits)

lemma step_pending: "ebr_step s s' \<Longrightarrow> x \<in> pending s' \<Longrightarrow> x \<in> pending s \<or> x \<in> es_linked s \<and> es_linked s' = es_linked s - {x} \<and> es_born s' = es_born s"
  by (induction rule: ebr_step.induct) (auto simp: pending_def split: if_splits)

lemma step_freed:
  "ebr_step s s' \<Longrightarrow> x \<in> es_freed s' \<Longrightarrow> x \<in> es_freed s \<or> (\<exists>t now e todo keep. es_gc s t = G_sweep now ((x, e) # todo) keep \<and> is_old now (x, e))"
proof (induction rule: ebr_step.induct)
  case (gc_free s t now y e todo keep)
  then show ?case by (cases "x = y") (blast, simp)
qed auto

lemma step_linked:
  "ebr_step s s' \<Longrightarrow> es_linked s' \<subseteq> es_linked s \<and> es_born s' = es_born s \<or>
     (\<exists>x. x \<notin> es_born s \<and> es_linked s' = insert x (es_linked s) \<and> es_born s' = insert x (es_born s) \<and> away s' = away s)"
  by (induction rule: ebr_step.induct) (auto simp: away_def)

lemma place_step:
  assumes "ebr_step s s'" "place_inv s"
  shows "place_inv s'"
proof -
  have ent: "x \<in> away s" if "(x, e) \<in> entries s'" for x e using step_entries [OF assms(1) that] by (auto intro: away_entry away_other)
  have fr: "x \<in> away s" if "x \<in> es_freed s'" for x
  proof -
    from step_freed [OF assms(1) that] consider "x \<in> es_freed s" | t now e todo keep where "es_gc s t = G_sweep now ((x, e) # todo) keep" by blast
    then show ?thesis
    proof cases
      case (2 t now e todo keep)
      then have "(x, e) \<in> gc_entries (es_gc s t)" by simp
      then show ?thesis by (intro away_entry entry_of_gc)
    qed (rule away_other)
  qed
  have new: "x \<in> away s \<or> x \<in> es_linked s \<and> es_linked s' = es_linked s - {x} \<and> es_born s' = es_born s" if "x \<in> away s'" for x
  proof -
    from that consider "x \<in> pending s'" | e where "(x, e) \<in> entries s'" | "x \<in> es_freed s'" by (auto simp: away_def)
    then show ?thesis using ent fr step_pending [OF assms(1)] away_other(1) by cases blast+
  qed
  show ?thesis
    using step_linked [OF assms(1)] new assms(2) unfolding place_inv_def by (elim disjE exE conjE) (auto; blast)+
qed

lemma step_epoch: "ebr_step s s' \<Longrightarrow> es_epoch s' = es_epoch s \<or> (\<exists>t. es_gc s t = G_advance (es_epoch s) \<and> es_epoch s' = es_epoch s + 1 \<and>
    es_reader s' = es_reader s \<and> es_slots s' = es_slots s \<and> es_gc s' = (es_gc s)(t := G_load))"
  by (induction rule: ebr_step.induct) auto

lemma gc_ok_mono: "gc_epoch_ok n c \<Longrightarrow> n \<le> m \<Longrightarrow> gc_epoch_ok m c"
  by (cases c) auto

text \<open>An advance finds no reader that was pinned before the last one.\<close>

lemma advance_ok:
  assumes "scan_inv s" "epoch_inv s" "es_gc s t = G_advance (es_epoch s)"
  shows "reader_ok (unat (es_epoch s) + 1) (es_slots s r) (es_reader s r)"
proof -
  have "scan_ok (G_advance (es_epoch s)) r (es_reader s r)" using assms(1,3) unfolding scan_inv_def by metis
  moreover have "reader_ok (unat (es_epoch s)) (es_slots s r) (es_reader s r)" using assms(2) by (simp add: epoch_inv_def)
  ultimately show ?thesis by (cases "es_reader s r") auto
qed

lemma epoch_step:
  assumes "ebr_step s s'" "scan_inv s" "epoch_inv s" "unat (es_epoch s) < 2 ^ 64 - 2"
  shows "epoch_inv s'"
  using assms
proof (induction rule: ebr_step.induct)
  case (pin_store s r e)
  have "unat e \<le> unat (es_epoch s)" using pin_store(1,3) unfolding epoch_inv_def by (metis reader_ok.simps(1))
  then have "unat (e + 1) = unat e + 1" "unat (e + 1) \<le> unat (es_epoch s) + 1" using unat_epoch_step [of e] pin_store(4) by auto
  moreover have "e + 1 \<noteq> 0" using calculation(1) by auto
  moreover have "r < MAX_EBR_SLOTS" using pin_store(1,3) unfolding epoch_inv_def by (metis linorder_not_less reader.distinct(1))
  ultimately show ?case using pin_store(3) by (auto simp: epoch_inv_def)
next
  case (read s r at held x)
  then have "reader_ok (unat (es_epoch s)) (es_slots s r) (R_pinned at held)" unfolding epoch_inv_def by metis
  moreover have "r < MAX_EBR_SLOTS" using read(1,4) unfolding epoch_inv_def by (metis linorder_not_less reader.distinct(3))
  ultimately show ?case using read(4) by (auto simp: epoch_inv_def)
next
  case (gc_cas s t g)
  show ?case
  proof (cases "es_epoch s = g")
    case True
    then have u: "unat (g + 1) = unat (es_epoch s) + 1" using unat_epoch_step gc_cas(4) by simp
    have "\<And>r. reader_ok (unat (es_epoch s) + 1) (es_slots s r) (es_reader s r)" using advance_ok [OF gc_cas(2,3)] gc_cas(1) True by simp
    then show ?thesis using gc_cas(3) True u by (auto simp: epoch_inv_def intro: gc_ok_mono)
  next
    case False
    then show ?thesis using gc_cas(3) by (auto simp: epoch_inv_def)
  qed
next
  case (gc_slot s t g i)
  then have "gc_epoch_ok (unat (es_epoch s)) (G_scan g i)" unfolding epoch_inv_def by metis
  then show ?case using gc_slot(5) by (auto simp: epoch_inv_def)
next
  case (gc_scanned s t g i)
  then have "gc_epoch_ok (unat (es_epoch s)) (G_scan g i)" unfolding epoch_inv_def by metis
  then show ?case using gc_scanned(4) by (auto simp: epoch_inv_def)
next
  case (gc_take s t now)
  then have "gc_epoch_ok (unat (es_epoch s)) (G_now now)" unfolding epoch_inv_def by metis
  then show ?case using gc_take(3) by (auto simp: epoch_inv_def)
next
  case (gc_free s t now x e todo keep)
  then have "gc_epoch_ok (unat (es_epoch s)) (G_sweep now ((x, e) # todo) keep)" unfolding epoch_inv_def by metis
  then show ?case using gc_free(4) by (auto simp: epoch_inv_def)
next
  case (gc_young s t now x e todo keep)
  then have "gc_epoch_ok (unat (es_epoch s)) (G_sweep now ((x, e) # todo) keep)" unfolding epoch_inv_def by metis
  then show ?case using gc_young(4) by (auto simp: epoch_inv_def)
qed (auto simp: epoch_inv_def)

lemma pinned_facts:
  assumes "epoch_inv s" "es_reader s r = R_pinned at held"
  shows "es_slots s r \<noteq> 0" "unat (es_slots s r) \<le> at + 1" "at \<le> unat (es_epoch s)" "unat (es_epoch s) \<le> at + 1" "r < MAX_EBR_SLOTS"
proof -
  have "reader_ok (unat (es_epoch s)) (es_slots s r) (R_pinned at held)" using assms unfolding epoch_inv_def by metis
  then show "es_slots s r \<noteq> 0" "unat (es_slots s r) \<le> at + 1" "at \<le> unat (es_epoch s)" "unat (es_epoch s) \<le> at + 1" by simp_all
  show "r < MAX_EBR_SLOTS" using assms unfolding epoch_inv_def by (metis linorder_not_less reader.distinct(3))
qed

lemma scan_inv_gc:
  assumes "scan_inv s" "\<And>r at held. es_reader s r = R_pinned at held \<Longrightarrow> scan_ok c r (R_pinned at held)"
  shows "scan_inv (s\<lparr>es_gc := (es_gc s)(t := c)\<rparr>)"
proof -
  have "scan_ok c r (es_reader s r)" for r using assms(2) [of r] by (cases "es_reader s r"; cases c) auto
  then show ?thesis using assms(1) by (auto simp: scan_inv_def)
qed

lemma scan_ok_other: "(\<And>g i. c \<noteq> G_scan g i) \<Longrightarrow> (\<And>g. c \<noteq> G_advance g) \<Longrightarrow> scan_ok c r rd"
  by (cases c) auto

lemma scan_step:
  assumes "ebr_step s s'" "scan_inv s" "epoch_inv s" "unat (es_epoch s) < 2 ^ 64 - 2"
  shows "scan_inv s'"
  using assms
proof (induction rule: ebr_step.induct)
  case (pin_store s r e)
  have "scan_ok (es_gc s t) r (R_pinned (unat (es_epoch s)) {})" for t
  proof -
    have "gc_epoch_ok (unat (es_epoch s)) (es_gc s t)" using pin_store(3) by (simp add: epoch_inv_def)
    then show ?thesis by (cases "es_gc s t") auto
  qed
  then show ?case using pin_store(2) by (simp add: scan_inv_def)
next
  case (read s r at held x)
  have "scan_ok (es_gc s t) r (R_pinned at (insert x held))" for t
  proof -
    have "scan_ok (es_gc s t) r (R_pinned at held)" using read(1,3) unfolding scan_inv_def by metis
    then show ?thesis by (cases "es_gc s t") auto
  qed
  then show ?case using read(3) by (simp add: scan_inv_def)
next
  case (gc_load s t)
  then show ?case by (intro scan_inv_gc) auto
next
  case (gc_slot s t g i)
  show ?case
  proof (rule scan_inv_gc [OF gc_slot(4)])
    fix r at held
    assume r: "es_reader s r = R_pinned at held"
    note pf = pinned_facts [OF gc_slot(5) r]
    have "scan_ok (G_scan g i) r (R_pinned at held)" using gc_slot(1,4) r unfolding scan_inv_def by metis
    moreover have "i \<noteq> r" if g: "unat g = at + 1"
    proof
      assume "i = r"
      then have "es_slots s r = g + 1" using gc_slot(3) pf(1) by (simp add: slot_allows_def)
      moreover have "unat g < 2 ^ 64 - 2" using g pf(3) gc_slot(1,5,6) unfolding epoch_inv_def by (metis gc_epoch_ok.simps(1) order_le_less_trans)
      ultimately show False using unat_epoch_step [of g] pf(2) g by simp
    qed
    ultimately show "scan_ok (G_scan g (i + 1)) r (R_pinned at held)" by auto
  qed
next
  case (gc_scanned s t g i)
  show ?case
  proof (rule scan_inv_gc [OF gc_scanned(3)])
    fix r at held
    assume r: "es_reader s r = R_pinned at held"
    have "scan_ok (G_scan g i) r (R_pinned at held)" using gc_scanned(1,3) r unfolding scan_inv_def by metis
    then show "scan_ok (G_advance g) r (R_pinned at held)" using pinned_facts(5) [OF gc_scanned(4) r] gc_scanned(2) by auto
  qed
qed (auto simp: scan_inv_def scan_ok_other)

definition stamp_inv :: "ebr_state \<Rightarrow> bool" where
  "stamp_inv s \<longleftrightarrow> (\<forall>x e. (x, e) \<in> entries s \<longrightarrow> unat e \<le> unat (es_epoch s))"

lemma epoch_mono: "ebr_step s s' \<Longrightarrow> unat (es_epoch s) < 2 ^ 64 - 2 \<Longrightarrow> unat (es_epoch s) \<le> unat (es_epoch s') \<and> unat (es_epoch s') \<le> unat (es_epoch s) + 1"
  using step_epoch unat_epoch_step by fastforce

lemma stamp_step:
  assumes "ebr_step s s'" "stamp_inv s" "unat (es_epoch s) < 2 ^ 64 - 2"
  shows "stamp_inv s'"
  unfolding stamp_inv_def
proof (intro allI impI)
  fix x e
  assume "(x, e) \<in> entries s'"
  then have "unat e \<le> unat (es_epoch s)" using step_entries [OF assms(1)] assms(2) by (auto simp: stamp_inv_def)
  then show "unat e \<le> unat (es_epoch s')" using epoch_mono [OF assms(1,3)] by simp
qed

lemma step_reader:
  "ebr_step s s' \<Longrightarrow> es_reader s' r = R_pinned at held \<Longrightarrow>
     es_reader s r = R_pinned at held \<or> held = {} \<or>
     (\<exists>h y. es_reader s r = R_pinned at h \<and> held = insert y h \<and> y \<in> es_linked s)"
  by (induction rule: ebr_step.induct) (auto split: if_splits)

lemma step_born: "ebr_step s s' \<Longrightarrow> es_born s \<subseteq> es_born s'"
  by (induction rule: ebr_step.induct) auto

text \<open>The entries of a held allocation are too young for every sweep.\<close>

lemma held_not_swept:
  assumes "epoch_inv s" "stamp_inv s" "unat (es_epoch s) < 2 ^ 64 - 2" "es_reader s r = R_pinned at held"
    and gc: "es_gc s t = G_sweep now ((x, e) # todo) keep" and e: "at \<le> unat e"
  shows "\<not> is_old now (x, e)"
proof
  assume "is_old now (x, e)"
  then have old: "unat (e + 2) \<le> unat now" by (simp add: is_old_def word_le_nat_alt)
  have "(x, e) \<in> entries s" using gc by (intro entry_of_gc [of _ _ s t]) simp
  then have "unat e < 2 ^ 64 - 2" using assms(2,3) unfolding stamp_inv_def by (meson order_le_less_trans)
  then have "unat e + 2 \<le> unat now" using old unat_epoch_step [of e] by simp
  moreover have "unat now \<le> unat (es_epoch s)" using assms(1) gc unfolding epoch_inv_def by (metis gc_epoch_ok.simps(4))
  ultimately show False using pinned_facts(4) [OF assms(1,4)] e by simp
qed

lemma linked_not_away: "place_inv s \<Longrightarrow> y \<in> es_linked s \<Longrightarrow> y \<notin> es_freed s \<and> y \<in> es_born s \<and> (\<forall>e. (y, e) \<notin> entries s)"
  using away_entry [of y _ s] away_other(2) [of y s] by (auto simp: place_inv_def)

lemma held_step:
  assumes st: "ebr_step s s'" and inv: "held_inv s" "place_inv s" "epoch_inv s" "stamp_inv s" and b: "unat (es_epoch s) < 2 ^ 64 - 2"
  shows "held_inv s'"
  unfolding held_inv_def
proof (intro allI impI)
  fix r at held x
  assume r': "es_reader s' r = R_pinned at held" and x: "x \<in> held"
  obtain h where h: "es_reader s r = R_pinned at h" using step_reader [OF st r'] x by auto
  have old: "x \<notin> es_freed s \<and> x \<in> es_born s \<and> (\<forall>e. (x, e) \<in> entries s \<longrightarrow> at \<le> unat e)"
    using step_reader [OF st r'] inv(1) x linked_not_away [OF inv(2), of x] unfolding held_inv_def by (metis empty_iff insert_iff)
  have "x \<notin> es_freed s'"
  proof
    assume "x \<in> es_freed s'"
    then obtain t now e todo keep where g: "es_gc s t = G_sweep now ((x, e) # todo) keep" "is_old now (x, e)"
      using step_freed [OF st] old by blast
    then have "(x, e) \<in> entries s" by (intro entry_of_gc [of _ _ s t]) simp
    then show False using held_not_swept [OF inv(3,4) b h g(1)] old g(2) by blast
  qed
  moreover have "at \<le> unat e" if "(x, e) \<in> entries s'" for e
    using step_entries [OF st that] old pinned_facts(3) [OF inv(3) h] by auto
  ultimately show "x \<notin> es_freed s' \<and> x \<in> es_born s' \<and> (\<forall>e. (x, e) \<in> entries s' \<longrightarrow> at \<le> unat e)"
    using old step_born [OF st] by blast
qed

definition ebr_inv :: "ebr_state \<Rightarrow> bool" where
  "ebr_inv s \<longleftrightarrow> place_inv s \<and> epoch_inv s \<and> scan_inv s \<and> stamp_inv s \<and> held_inv s"

lemma ebr_inv_init: "ebr_inv ebr_init"
  by (simp add: ebr_inv_def ebr_init_def place_inv_def away_def pending_def entries_def epoch_inv_def scan_inv_def stamp_inv_def held_inv_def)

lemma ebr_inv_step: "ebr_inv s \<Longrightarrow> ebr_step s s' \<Longrightarrow> unat (es_epoch s) < 2 ^ 64 - 2 \<Longrightarrow> ebr_inv s'"
  unfolding ebr_inv_def using place_step epoch_step scan_step stamp_step held_step by blast

lemma ebr_reach_inv: "ebr_reach n s \<Longrightarrow> n < 2 ^ 64 - 2 \<Longrightarrow> ebr_inv s \<and> unat (es_epoch s) \<le> n"
proof (induction rule: ebr_reach.induct)
  case start
  then show ?case using ebr_inv_init by (simp add: ebr_init_def)
next
  case (step n s s')
  then have "ebr_inv s" "unat (es_epoch s) < 2 ^ 64 - 2" "unat (es_epoch s) \<le> n" by auto
  then show ?case using ebr_inv_step [OF _ step(2)] epoch_mono [OF step(2)] by simp
qed


text \<open>A reader holds the allocation 7 that another thread has taken out of the structure and stamped meanwhile.\<close>

definition demo_pinned :: ebr_state where
  "demo_pinned = ebr_init\<lparr>es_born := {7}, es_slots := (\<lambda>_. 0)(0 := 1),
     es_reader := (\<lambda>_. R_idle)(0 := R_pinned 0 {7}), es_retirer := (\<lambda>_. W_idle)(0 := W_stamped 7 0)\<rparr>"

lemma demo_pinned_reach: "ebr_reach 6 demo_pinned"
proof -
  let ?s1 = "ebr_init\<lparr>es_linked := {7}, es_born := {7}\<rparr>"
  let ?s2 = "?s1\<lparr>es_reader := (\<lambda>_. R_idle)(0 := R_loaded 0)\<rparr>"
  let ?s3 = "?s1\<lparr>es_reader := (\<lambda>_. R_idle)(0 := R_pinned 0 {}), es_slots := (\<lambda>_. 0)(0 := 1)\<rparr>"
  let ?s4 = "?s1\<lparr>es_reader := (\<lambda>_. R_idle)(0 := R_pinned 0 {7}), es_slots := (\<lambda>_. 0)(0 := 1)\<rparr>"
  let ?s5 = "?s4\<lparr>es_retirer := (\<lambda>_. W_idle)(0 := W_unlinked 7), es_linked := {}\<rparr>"
  have "ebr_step ebr_init ?s1" using ebr_step.link [of 7 ebr_init] by (simp add: ebr_init_def)
  moreover have "ebr_step ?s1 ?s2" using ebr_step.pin_load [of 0 ?s1] by (simp add: ebr_init_def MAX_EBR_SLOTS_def)
  moreover have "ebr_step ?s2 ?s3" using ebr_step.pin_store [of ?s2 0 0] by (simp add: ebr_init_def)
  moreover have "ebr_step ?s3 ?s4" using ebr_step.read [of ?s3 0 0 "{}" 7] by (simp add: ebr_init_def)
  moreover have "ebr_step ?s4 ?s5" using ebr_step.unlink [of ?s4 0 7] by (simp add: ebr_init_def)
  moreover have "ebr_step ?s5 demo_pinned" using ebr_step.stamp [of ?s5 0 7] by (simp add: ebr_init_def demo_pinned_def)
  ultimately have "ebr_reach (Suc (Suc (Suc (Suc (Suc (Suc 0)))))) demo_pinned" by (blast intro: ebr_reach.intros)
  then show ?thesis by (simp add: numeral_eq_Suc)
qed


end
