(* ===== verification/Sharded.thy ===== *)
theory Sharded
  imports SXLA_Prelude
begin

text \<open>
  The sharded hash map, \<^verbatim>\<open>crates/anvil/src/sharded.rs\<close>: open addressing with linear probing and tombstones, a table per
  shard that doubles when it is full, a writer lock per shard. The operations are modelled one at a time: a slot's value
  pointer is an option, and the boxes an operation hands to the collector are the list of its retirements. The lock is
  free whenever an operation begins, and the error branches for undecodable slot states do not arise, since a slot state is
  a datatype here.
\<close>

section \<open>Model\<close>

definition SHARD_COUNT :: nat where "SHARD_COUNT = 64"

datatype shard_error = Busy | TableCorrupted | InvalidCapacity

datatype slot_state = S_Empty | S_Reserved | S_Full | S_Tombstone

record 'v slot =
  sl_state :: slot_state
  sl_key :: u64
  sl_value :: "'v option"

record 'v table =
  tb_slots :: "'v slot list"
  tb_mask :: nat
  tb_used :: nat

record 'v shard =
  sd_table :: "'v table"
  sd_lock :: bool

record 'v sharded_map =
  sm_shards :: "'v shard list"
  sm_len :: nat

datatype 'v retired = RetValue 'v | RetTable "'v table"

definition is_power_of_two :: "nat \<Rightarrow> bool" where
  "is_power_of_two n \<longleftrightarrow> n \<noteq> 0 \<and> n AND (n - 1) = 0"

definition table_new :: "nat \<Rightarrow> shard_error + 'v table" where
  "table_new capacity =
     (if \<not> is_power_of_two capacity \<or> capacity < 8 then Inl InvalidCapacity
      else Inr \<lparr>tb_slots = replicate capacity \<lparr>sl_state = S_Empty, sl_key = 0, sl_value = None\<rparr>, tb_mask = capacity - 1, tb_used = 0\<rparr>)"

definition sm_new :: "nat \<Rightarrow> shard_error + 'v sharded_map" where
  "sm_new capacity =
     (if \<not> is_power_of_two capacity \<or> capacity < 8 then Inl InvalidCapacity
      else rbind (table_new capacity) (\<lambda>t.
        Inr \<lparr>sm_shards = replicate SHARD_COUNT \<lparr>sd_table = t, sd_lock = False\<rparr>, sm_len = 0\<rparr>))"

definition shard_of :: "u64 \<Rightarrow> nat" where
  "shard_of key = unat key AND (SHARD_COUNT - 1)"

text \<open>The indices a probe visits: \<open>n\<close> of them from \<open>i\<close>, each time one further under the mask.\<close>

fun probe_path :: "nat \<Rightarrow> nat \<Rightarrow> nat \<Rightarrow> nat list" where
  "probe_path m i 0 = []"
| "probe_path m i (Suc n) = i # probe_path m ((i + 1) AND m) n"

definition probes :: "'v table \<Rightarrow> u64 \<Rightarrow> nat list" where
  "probes t key = probe_path (tb_mask t) (unat key AND tb_mask t) (tb_mask t + 1)"

fun get_loop :: "'v table \<Rightarrow> u64 \<Rightarrow> nat list \<Rightarrow> 'v option" where
  "get_loop t key [] = None"
| "get_loop t key (i # is) =
     (let s = tb_slots t ! i in
      case sl_state s of
        S_Empty \<Rightarrow> None
      | S_Full \<Rightarrow> if sl_key s = key then sl_value s else get_loop t key is
      | _ \<Rightarrow> get_loop t key is)"

definition slots_get :: "'v table \<Rightarrow> u64 \<Rightarrow> 'v option" where
  "slots_get t key = get_loop t key (probes t key)"

definition sm_get :: "'v sharded_map \<Rightarrow> u64 \<Rightarrow> 'v option" where
  "sm_get m key = slots_get (sd_table (sm_shards m ! shard_of key)) key"

text \<open>What the probe of an insertion ends with.\<close>

datatype probe_end = P_corrupt | P_slot nat | P_key nat | P_full "nat option"

fun insert_loop :: "'v table \<Rightarrow> u64 \<Rightarrow> nat list \<Rightarrow> nat option \<Rightarrow> probe_end" where
  "insert_loop t key [] tomb = P_full tomb"
| "insert_loop t key (i # is) tomb =
     (let s = tb_slots t ! i in
      case sl_state s of
        S_Empty \<Rightarrow> P_slot (case tomb of Some j \<Rightarrow> j | None \<Rightarrow> i)
      | S_Full \<Rightarrow> if sl_key s = key then P_key i else insert_loop t key is tomb
      | S_Tombstone \<Rightarrow> insert_loop t key is (case tomb of None \<Rightarrow> Some i | Some j \<Rightarrow> Some j)
      | S_Reserved \<Rightarrow> P_corrupt)"

text \<open>A result with the number of entries added, the table and the retired boxes.\<close>

type_synonym 'v table_result = "(shard_error + nat) \<times> 'v table \<times> 'v retired list"

definition set_slot :: "'v table \<Rightarrow> nat \<Rightarrow> 'v slot \<Rightarrow> 'v table" where
  "set_slot t i s = t\<lparr>tb_slots := (tb_slots t)[i := s]\<rparr>"

definition occupy_slot :: "'v table \<Rightarrow> nat \<Rightarrow> u64 \<Rightarrow> 'v \<Rightarrow> 'v table_result" where
  "occupy_slot t i key v =
     (if sl_state (tb_slots t ! i) \<noteq> S_Empty \<and> sl_state (tb_slots t ! i) \<noteq> S_Tombstone then (Inl TableCorrupted, t, [])
      else (Inr 1, (set_slot t i \<lparr>sl_state = S_Full, sl_key = key, sl_value = Some v\<rparr>)\<lparr>tb_used := tb_used t + 1\<rparr>, []))"

fun first_empty :: "'v table \<Rightarrow> nat list \<Rightarrow> nat option" where
  "first_empty t [] = None"
| "first_empty t (i # is) = (if sl_state (tb_slots t ! i) = S_Empty then Some i else first_empty t is)"

definition move_slot :: "'v slot \<Rightarrow> 'v table \<Rightarrow> 'v table" where
  "move_slot s t =
     (if sl_state s \<noteq> S_Full then t
      else case sl_value s of
        None \<Rightarrow> t
      | Some p \<Rightarrow>
          (case first_empty t (probes t (sl_key s)) of
             None \<Rightarrow> t
           | Some i \<Rightarrow> (set_slot t i \<lparr>sl_state = S_Full, sl_key = sl_key s, sl_value = Some p\<rparr>)\<lparr>tb_used := tb_used t + 1\<rparr>))"

definition drained :: "'v table \<Rightarrow> 'v table" where
  "drained t = t\<lparr>tb_slots := map (\<lambda>s. if sl_state s = S_Full then s\<lparr>sl_value := None\<rparr> else s) (tb_slots t)\<rparr>"

definition resize_locked :: "'v table \<Rightarrow> (shard_error + unit) \<times> 'v table \<times> 'v retired list" where
  "resize_locked t =
     (case table_new ((tb_mask t + 1) * 2) of
        Inl e \<Rightarrow> (Inl e, t, [])
      | Inr nt \<Rightarrow> (Inr (), fold move_slot (tb_slots t) nt, [RetTable (drained t)]))"

partial_function (option) insert_locked :: "'v table \<Rightarrow> u64 \<Rightarrow> 'v \<Rightarrow> 'v table_result option" where
  "insert_locked t key v =
     (case insert_loop t key (probes t key) None of
        P_corrupt \<Rightarrow> Some (Inl TableCorrupted, t, [])
      | P_slot i \<Rightarrow> Some (occupy_slot t i key v)
      | P_key i \<Rightarrow>
          (let s = tb_slots t ! i in
           Some (Inr 0, set_slot t i (s\<lparr>sl_value := Some v\<rparr>), (case sl_value s of None \<Rightarrow> [] | Some old \<Rightarrow> [RetValue old])))
      | P_full (Some i) \<Rightarrow> Some (occupy_slot t i key v)
      | P_full None \<Rightarrow>
          (case resize_locked t of
             (Inl e, t', rs) \<Rightarrow> Some (Inl e, t', rs)
           | (Inr _, t', rs) \<Rightarrow>
               Option.bind (insert_locked t' key v) (\<lambda>(r, t'', rs'). Some (r, t'', rs @ rs'))))"

type_synonym 'v map_result = "(shard_error + unit) \<times> 'v sharded_map \<times> 'v retired list"

definition put_table :: "'v sharded_map \<Rightarrow> nat \<Rightarrow> 'v table \<Rightarrow> 'v sharded_map" where
  "put_table m i t = m\<lparr>sm_shards := (sm_shards m)[i := (sm_shards m ! i)\<lparr>sd_table := t, sd_lock := False\<rparr>]\<rparr>"

definition sm_insert :: "'v sharded_map \<Rightarrow> u64 \<Rightarrow> 'v \<Rightarrow> 'v map_result option" where
  "sm_insert m key v =
     (let i = shard_of key; sh = sm_shards m ! i in
      if sd_lock sh then Some (Inl Busy, m, [])
      else Option.bind (insert_locked (sd_table sh) key v) (\<lambda>(r, t, rs).
        Some (case r of
          Inl e \<Rightarrow> (Inl e, put_table m i t, rs)
        | Inr added \<Rightarrow> (Inr (), (put_table m i t)\<lparr>sm_len := sm_len m + added\<rparr>, rs))))"

fun remove_loop :: "'v table \<Rightarrow> u64 \<Rightarrow> nat list \<Rightarrow> nat option" where
  "remove_loop t key [] = None"
| "remove_loop t key (i # is) =
     (let s = tb_slots t ! i in
      if sl_state s = S_Empty then None
      else if sl_state s = S_Full \<and> sl_key s = key then Some i else remove_loop t key is)"

definition table_remove :: "'v table \<Rightarrow> u64 \<Rightarrow> nat \<times> 'v table \<times> 'v retired list" where
  "table_remove t key =
     (case remove_loop t key (probes t key) of
        None \<Rightarrow> (0, t, [])
      | Some i \<Rightarrow>
          (let s = tb_slots t ! i in
           (1, (set_slot t i (s\<lparr>sl_state := S_Tombstone, sl_value := None\<rparr>))\<lparr>tb_used := tb_used t - 1\<rparr>,
            (case sl_value s of None \<Rightarrow> [] | Some old \<Rightarrow> [RetValue old]))))"

definition sm_remove :: "'v sharded_map \<Rightarrow> u64 \<Rightarrow> 'v map_result" where
  "sm_remove m key =
     (let i = shard_of key; sh = sm_shards m ! i in
      if sd_lock sh then (Inl Busy, m, [])
      else case table_remove (sd_table sh) key of
        (gone, t, rs) \<Rightarrow> (Inr (), (put_table m i t)\<lparr>sm_len := sm_len m - gone\<rparr>, rs))"

definition sm_is_empty :: "'v sharded_map \<Rightarrow> bool" where
  "sm_is_empty m \<longleftrightarrow> sm_len m = 0"

section \<open>Probe paths\<close>

lemma and_mask_mod: "n AND (2 ^ k - 1) = n mod (2 :: nat) ^ k"
  by (metis mask_eq_exp_minus_1 take_bit_eq_mask take_bit_eq_mod)

lemmas and_mask_Suc = and_mask_mod [unfolded One_nat_def]

lemma power_of_two_iff: "is_power_of_two (2 ^ k)"
  by (simp add: is_power_of_two_def and_mask_Suc)

lemma probe_path_eq: "probe_path (2 ^ k - 1) (i mod 2 ^ k) n = map (\<lambda>d. (i + d) mod 2 ^ k) [0 ..< n]"
proof (induction n arbitrary: i)
  case (Suc n)
  have "(i mod 2 ^ k + 1) AND (2 ^ k - 1) = (i + 1) mod 2 ^ k" unfolding and_mask_mod by (simp add: mod_Suc_eq)
  then have "probe_path (2 ^ k - 1) (i mod 2 ^ k) (Suc n) = i mod 2 ^ k # map (\<lambda>d. (i + Suc d) mod 2 ^ k) [0 ..< n]"
    using Suc [of "i + 1"] by (simp del: upt_Suc)
  then show ?case unfolding map_upt_Suc by simp
qed simp

lemma mod_shift_inj:
  assumes "(h + a) mod n = (h + b) mod n" "a < n" "b < (n :: nat)"
  shows "a = b"
proof -
  have "b = a" if "a \<le> b" "(h + b) mod n = (h + a) mod n" "b < n" for a b
  proof -
    have "n dvd b - a" using that mod_eq_dvd_iff_nat [of "h + a" "h + b" n] by simp
    then show ?thesis using that by (auto dest: dvd_imp_le)
  qed
  then show ?thesis using assms by (cases "a \<le> b") (metis, metis nat_le_linear)
qed

text \<open>The shape of a table: a power of two of slots.\<close>

definition table_shape :: "'v table \<Rightarrow> nat \<Rightarrow> bool" where
  "table_shape t k \<longleftrightarrow> 3 \<le> k \<and> length (tb_slots t) = 2 ^ k \<and> tb_mask t = 2 ^ k - 1"

lemma set_probes:
  assumes "table_shape t k"
  shows "set (probes t key) = {..< length (tb_slots t)}"
proof -
  let ?n = "2 ^ k :: nat" and ?h = "unat key"
  have "probes t key = map (\<lambda>d. (?h + d) mod ?n) [0 ..< ?n]"
    using assms probe_path_eq [of k ?h ?n] by (simp add: probes_def table_shape_def and_mask_Suc)
  moreover have "(\<lambda>d. (?h + d) mod ?n) ` {..< ?n} = {..< ?n}"
  proof -
    have "inj_on (\<lambda>d. (?h + d) mod ?n) {..< ?n}"
      by (rule inj_onI) (metis lessThan_iff mod_shift_inj)
    then show ?thesis by (intro endo_inj_surj) auto
  qed
  ultimately show ?thesis using assms by (simp add: table_shape_def atLeast0LessThan)
qed

section \<open>Well-formed tables\<close>

definition nonempty_at :: "'v table \<Rightarrow> nat \<Rightarrow> bool" where
  "nonempty_at t i \<longleftrightarrow> sl_state (tb_slots t ! i) \<noteq> S_Empty"

definition full_at :: "'v table \<Rightarrow> nat \<Rightarrow> u64 \<Rightarrow> bool" where
  "full_at t i key \<longleftrightarrow> i < length (tb_slots t) \<and> sl_state (tb_slots t ! i) = S_Full \<and> sl_key (tb_slots t ! i) = key"

text \<open>The part of a key's probe path before the first empty slot: where the key can be.\<close>

definition run :: "'v table \<Rightarrow> u64 \<Rightarrow> nat list" where
  "run t key = takeWhile (nonempty_at t) (probes t key)"

definition full_slots :: "'v table \<Rightarrow> nat set" where
  "full_slots t = {i. \<exists>key. full_at t i key}"

definition slots_wf :: "'v table \<Rightarrow> bool" where
  "slots_wf t \<longleftrightarrow> (\<exists>k. table_shape t k) \<and>
     (\<forall>s \<in> set (tb_slots t). sl_state s \<noteq> S_Reserved \<and> (sl_state s = S_Full \<longrightarrow> sl_value s \<noteq> None)) \<and>
     (\<forall>i j key. full_at t i key \<longrightarrow> full_at t j key \<longrightarrow> i = j) \<and>
     (\<forall>i key. full_at t i key \<longrightarrow> i \<in> set (run t key)) \<and>
     tb_used t = card (full_slots t)"

lemma slots_wf_probes: "slots_wf t \<Longrightarrow> set (probes t key) = {..< length (tb_slots t)}"
  using set_probes unfolding slots_wf_def by blast

lemma run_bound: "slots_wf t \<Longrightarrow> i \<in> set (run t key) \<Longrightarrow> i < length (tb_slots t) \<and> nonempty_at t i"
  using slots_wf_probes [of t key] unfolding run_def by (auto dest: set_takeWhileD)

lemma wf_slot: "slots_wf t \<Longrightarrow> i < length (tb_slots t) \<Longrightarrow> sl_state (tb_slots t ! i) \<noteq> S_Reserved"
  unfolding slots_wf_def by (meson nth_mem)

lemma wf_value: "slots_wf t \<Longrightarrow> full_at t i key \<Longrightarrow> \<exists>v. sl_value (tb_slots t ! i) = Some v"
  unfolding slots_wf_def full_at_def by (metis nth_mem option.exhaust)

text \<open>The loops of \<^verbatim>\<open>get\<close> and \<^verbatim>\<open>remove\<close> find the slot of the key, if it has one.\<close>

lemma remove_loop_find:
  "remove_loop t key is = find (\<lambda>i. sl_state (tb_slots t ! i) = S_Full \<and> sl_key (tb_slots t ! i) = key) (takeWhile (nonempty_at t) is)"
  by (induction "is") (auto simp: nonempty_at_def Let_def)

lemma get_loop_find: "get_loop t key is = Option.bind (remove_loop t key is) (\<lambda>i. sl_value (tb_slots t ! i))"
  by (induction "is") (auto simp: Let_def split: slot_state.split)

lemma remove_loop_wf:
  assumes "slots_wf t"
  shows "remove_loop t key (probes t key) = Some i \<longleftrightarrow> full_at t i key"
    "remove_loop t key (probes t key) = None \<longleftrightarrow> (\<forall>i. \<not> full_at t i key)"
proof -
  let ?P = "\<lambda>i. sl_state (tb_slots t ! i) = S_Full \<and> sl_key (tb_slots t ! i) = key"
  have r: "remove_loop t key (probes t key) = find ?P (run t key)" by (simp add: remove_loop_find run_def)
  have f: "full_at t i key \<longleftrightarrow> i \<in> set (run t key) \<and> ?P i" for i
    using run_bound [OF assms] assms unfolding full_at_def slots_wf_def by blast
  show none: "remove_loop t key (probes t key) = None \<longleftrightarrow> (\<forall>i. \<not> full_at t i key)" unfolding r find_None_iff f by blast
  have uniq: "full_at t i key \<Longrightarrow> full_at t j key \<Longrightarrow> i = j" for i j using assms unfolding slots_wf_def by blast
  have some: "full_at t j key" if "remove_loop t key (probes t key) = Some j" for j
    using that unfolding r find_Some_iff f by (metis nth_mem)
  show "remove_loop t key (probes t key) = Some i \<longleftrightarrow> full_at t i key"
    using none some uniq by (cases "remove_loop t key (probes t key)") auto
qed

lemma slots_get_wf:
  assumes "slots_wf t"
  shows "slots_get t key = Some v \<longleftrightarrow> (\<exists>i. full_at t i key \<and> sl_value (tb_slots t ! i) = Some v)"
  unfolding slots_get_def get_loop_find Option.bind_eq_Some_conv using remove_loop_wf(1) [OF assms] by auto

lemma slots_get_None:
  assumes "slots_wf t"
  shows "slots_get t key = None \<longleftrightarrow> (\<forall>i. \<not> full_at t i key)"
  using slots_get_wf [OF assms, of key] wf_value [OF assms, of _ key] by (metis option.distinct(1) option.exhaust)

section \<open>Insertion and removal in one table\<close>

definition tomb_at :: "'v table \<Rightarrow> nat \<Rightarrow> bool" where
  "tomb_at t i \<longleftrightarrow> sl_state (tb_slots t ! i) = S_Tombstone"

text \<open>The insertion loop in terms of the run of the key: the key's slot, else the first tombstone, else the first empty slot.\<close>

lemma insert_loop_eq:
  assumes "\<forall>i \<in> set is. sl_state (tb_slots t ! i) \<noteq> S_Reserved"
  shows "insert_loop t key is tomb =
    (case remove_loop t key is of
       Some i \<Rightarrow> P_key i
     | None \<Rightarrow>
         (let tm = (case tomb of Some j \<Rightarrow> Some j | None \<Rightarrow> find (tomb_at t) (takeWhile (nonempty_at t) is)) in
          if \<forall>i \<in> set is. nonempty_at t i then P_full tm
          else P_slot (case tm of Some j \<Rightarrow> j | None \<Rightarrow> hd (dropWhile (nonempty_at t) is))))"
  using assms
proof (induction "is" arbitrary: tomb)
  case (Cons i "is")
  show ?case
  proof (cases "sl_state (tb_slots t ! i)")
    case S_Empty
    then show ?thesis by (simp add: nonempty_at_def Let_def split: option.split)
  next
    case S_Reserved
    then show ?thesis using Cons.prems by simp
  next
    case S_Full
    then show ?thesis using Cons by (simp add: nonempty_at_def tomb_at_def Let_def cong: option.case_cong)
  next
    case S_Tombstone
    then show ?thesis using Cons by (cases tomb) (simp_all add: nonempty_at_def tomb_at_def Let_def cong: option.case_cong)
  qed
qed (simp split: option.split)

lemma set_slot_sel [simp]:
  "length (tb_slots (set_slot t i s)) = length (tb_slots t)" "tb_mask (set_slot t i s) = tb_mask t" "tb_used (set_slot t i s) = tb_used t"
  "i < length (tb_slots t) \<Longrightarrow> tb_slots (set_slot t i s) ! j = (if j = i then s else tb_slots t ! j)"
  by (auto simp: set_slot_def nth_list_update)

lemma probes_cong: "tb_mask t' = tb_mask t \<Longrightarrow> probes t' key = probes t key"
  by (simp add: probes_def)

lemma takeWhile_mono: "(\<And>x. P x \<Longrightarrow> Q x) \<Longrightarrow> set (takeWhile P xs) \<subseteq> set (takeWhile Q xs)"
  by (induction xs) auto

lemma full_slots_finite: "finite (full_slots t)"
  by (rule finite_subset [of _ "{..< length (tb_slots t)}"]) (auto simp: full_slots_def full_at_def)

lemma fill_slot:
  assumes wf: "slots_wf t" and new: "\<And>j. \<not> full_at t j key" and i: "i < length (tb_slots t)" "sl_state (tb_slots t ! i) \<noteq> S_Full"
    and on: "i \<in> set (takeWhile (\<lambda>j. nonempty_at t j \<or> j = i) (probes t key))"
    and t': "t' = (set_slot t i \<lparr>sl_state = S_Full, sl_key = key, sl_value = Some v\<rparr>)\<lparr>tb_used := tb_used t + 1\<rparr>"
  shows "slots_wf t'" "slots_get t' = (slots_get t)(key \<mapsto> v)" "length (tb_slots t') = length (tb_slots t)" "card (full_slots t') = card (full_slots t) + 1"
proof -
  let ?s = "\<lparr>sl_state = S_Full, sl_key = key, sl_value = Some v\<rparr>"
  have nth: "tb_slots t' ! j = (if j = i then ?s else tb_slots t ! j)" for j using i(1) by (simp add: t')
  have len: "length (tb_slots t') = length (tb_slots t)" and mask: "tb_mask t' = tb_mask t" by (simp_all add: t')
  show "length (tb_slots t') = length (tb_slots t)" by (rule len)
  have full: "full_at t' j key' \<longleftrightarrow> (if j = i then key' = key else full_at t j key')" for j key'
    using i(1) by (auto simp: full_at_def nth len)
  have ne: "nonempty_at t' = (\<lambda>j. nonempty_at t j \<or> j = i)" by (auto simp: nonempty_at_def nth fun_eq_iff)
  have ni: "i \<notin> full_slots t" using i(2) by (simp add: full_slots_def full_at_def)
  have "full_slots t' = insert i (full_slots t)" by (auto simp: full_slots_def full)
  then show card: "card (full_slots t') = card (full_slots t) + 1" using ni full_slots_finite [of t] by simp
  have run: "set (run t key') \<subseteq> set (run t' key')" for key'
    unfolding run_def ne probes_cong [OF mask] by (rule takeWhile_mono) simp
  have "set (tb_slots t') \<subseteq> insert ?s (set (tb_slots t))" using set_update_subset_insert by (simp add: t' set_slot_def)
  then have slots: "\<forall>s \<in> set (tb_slots t'). sl_state s \<noteq> S_Reserved \<and> (sl_state s = S_Full \<longrightarrow> sl_value s \<noteq> None)"
    using wf unfolding slots_wf_def by auto
  have shape: "\<exists>k. table_shape t' k" using wf by (auto simp: slots_wf_def table_shape_def len mask)
  have uniq: "j = l" if "full_at t' j key'" "full_at t' l key'" for j l key'
    using that new wf unfolding full slots_wf_def by (auto split: if_splits)
  have onrun: "j \<in> set (run t' key')" if "full_at t' j key'" for j key'
  proof (cases "j = i")
    case True
    then show ?thesis using that on unfolding full run_def ne probes_cong [OF mask] by simp
  next
    case False
    then have "full_at t j key'" using that by (simp add: full)
    then show ?thesis using wf run [of key'] unfolding slots_wf_def by blast
  qed
  have used: "tb_used t' = card (full_slots t')" using wf card by (simp add: t' slots_wf_def)
  show wf': "slots_wf t'" unfolding slots_wf_def using shape slots uniq onrun used by blast
  have "slots_get t' key' = Some w \<longleftrightarrow> ((slots_get t)(key \<mapsto> v)) key' = Some w" for key' w
  proof (cases "key' = key")
    case True
    then show ?thesis unfolding slots_get_wf [OF wf'] full nth using new by auto
  next
    case False
    then have "full_at t' j key' \<and> sl_value (tb_slots t' ! j) = Some w \<longleftrightarrow> full_at t j key' \<and> sl_value (tb_slots t ! j) = Some w" for j
      using ni by (auto simp: full nth full_slots_def)
    then show ?thesis using False slots_get_wf [OF wf] slots_get_wf [OF wf'] by simp
  qed
  then show "slots_get t' = (slots_get t)(key \<mapsto> v)" by (intro ext) (metis option.exhaust)
qed

text \<open>Changing a full slot in place: a new value for its key, or a tombstone.\<close>

lemma change_slot:
  assumes wf: "slots_wf t" and at: "full_at t i key"
    and t': "t' = (set_slot t i s)\<lparr>tb_used := u\<rparr>" and s: "sl_key s = key"
    and st: "sl_state s = S_Full \<and> sl_value s = Some v \<and> u = tb_used t \<or> sl_state s = S_Tombstone \<and> u = tb_used t - 1"
  shows "slots_wf t'" "slots_get t' = (slots_get t)(key := if sl_state s = S_Full then Some v else None)"
    "length (tb_slots t') = length (tb_slots t)" "card (full_slots t') = (if sl_state s = S_Full then card (full_slots t) else card (full_slots t) - 1)"
proof -
  have i: "i < length (tb_slots t)" "sl_state (tb_slots t ! i) = S_Full" "sl_key (tb_slots t ! i) = key" using at by (simp_all add: full_at_def)
  have nth: "tb_slots t' ! j = (if j = i then s else tb_slots t ! j)" for j using i(1) by (simp add: t')
  have len: "length (tb_slots t') = length (tb_slots t)" and mask: "tb_mask t' = tb_mask t" by (simp_all add: t')
  show "length (tb_slots t') = length (tb_slots t)" by (rule len)
  have full: "full_at t' j key' \<longleftrightarrow> full_at t j key' \<and> (j = i \<longrightarrow> sl_state s = S_Full)" for j key'
    using i s by (auto simp: full_at_def nth len)
  have ne: "nonempty_at t' = nonempty_at t" using i(2) st by (auto simp: nonempty_at_def nth fun_eq_iff)
  have run: "run t' key' = run t key'" for key' unfolding run_def ne probes_cong [OF mask] by (rule refl)
  have fi: "i \<in> full_slots t" using at by (auto simp: full_slots_def)
  have "full_slots t' = (if sl_state s = S_Full then full_slots t else full_slots t - {i})" by (auto simp: full_slots_def full)
  then show card: "card (full_slots t') = (if sl_state s = S_Full then card (full_slots t) else card (full_slots t) - 1)"
    using fi full_slots_finite [of t] by simp
  have "set (tb_slots t') \<subseteq> insert s (set (tb_slots t))" using set_update_subset_insert by (simp add: t' set_slot_def)
  then have slots: "\<forall>s \<in> set (tb_slots t'). sl_state s \<noteq> S_Reserved \<and> (sl_state s = S_Full \<longrightarrow> sl_value s \<noteq> None)"
    using wf st unfolding slots_wf_def by auto
  have shape: "\<exists>k. table_shape t' k" using wf by (auto simp: slots_wf_def table_shape_def len mask)
  have uniq: "j = l" if "full_at t' j key'" "full_at t' l key'" for j l key' using that wf unfolding full slots_wf_def by blast
  have onrun: "j \<in> set (run t' key')" if "full_at t' j key'" for j key' using that wf unfolding full run slots_wf_def by blast
  have used: "tb_used t' = card (full_slots t')" using wf card st by (auto simp: t' slots_wf_def)
  show wf': "slots_wf t'" unfolding slots_wf_def using shape slots uniq onrun used by blast
  have only: "full_at t j key \<longleftrightarrow> j = i" for j using at wf unfolding slots_wf_def by blast
  have other: "key' = key" if "full_at t i key'" for key' using that i by (simp add: full_at_def)
  have "slots_get t' key' = Some w \<longleftrightarrow> ((slots_get t)(key := if sl_state s = S_Full then Some v else None)) key' = Some w" for key' w
  proof (cases "key' = key")
    case True
    then show ?thesis unfolding slots_get_wf [OF wf'] full nth using only st by auto
  next
    case False
    then have "full_at t' j key' \<and> sl_value (tb_slots t' ! j) = Some w \<longleftrightarrow> full_at t j key' \<and> sl_value (tb_slots t ! j) = Some w" for j
      using other by (auto simp: full nth)
    then show ?thesis using False slots_get_wf [OF wf] slots_get_wf [OF wf'] by simp
  qed
  then show "slots_get t' = (slots_get t)(key := if sl_state s = S_Full then Some v else None)" by (intro ext) (metis option.exhaust)
qed

lemma table_remove_wf:
  assumes wf: "slots_wf t" and r: "table_remove t key = (gone, t', rs)"
  shows "slots_wf t'" "slots_get t' = (slots_get t)(key := None)" "gone = (if slots_get t key = None then 0 else 1)"
proof -
  have "slots_wf t' \<and> slots_get t' = (slots_get t)(key := None) \<and> gone = (if slots_get t key = None then 0 else 1)"
  proof (cases "remove_loop t key (probes t key)")
    case None
    then have "slots_get t key = None" by (simp add: slots_get_def get_loop_find)
    then show ?thesis using r wf None by (auto simp: table_remove_def)
  next
    case (Some i)
    then have at: "full_at t i key" using remove_loop_wf(1) [OF wf] by blast
    have t': "t' = (set_slot t i ((tb_slots t ! i)\<lparr>sl_state := S_Tombstone, sl_value := None\<rparr>))\<lparr>tb_used := tb_used t - 1\<rparr>" "gone = 1"
      using r Some by (auto simp: table_remove_def Let_def)
    then show ?thesis using change_slot(1,2) [OF wf at t'(1)] at t'(2) slots_get_None [OF wf, of key] by (auto simp: full_at_def)
  qed
  then show "slots_wf t'" "slots_get t' = (slots_get t)(key := None)" "gone = (if slots_get t key = None then 0 else 1)" by simp_all
qed

section \<open>Growing\<close>

lemma table_new_wf:
  assumes "3 \<le> k"
  shows "\<exists>t. table_new (2 ^ k) = Inr t \<and> slots_wf t \<and> slots_get t = Map.empty \<and> full_slots t = {} \<and>
    length (tb_slots t) = 2 ^ k \<and> list_all (\<lambda>s. sl_state s \<noteq> S_Tombstone) (tb_slots t)"
proof -
  let ?e = "\<lparr>sl_state = S_Empty, sl_key = 0, sl_value = None\<rparr> :: 'a slot"
  let ?t = "\<lparr>tb_slots = replicate (2 ^ k) ?e, tb_mask = 2 ^ k - 1, tb_used = 0\<rparr>"
  have "(2 :: nat) ^ 3 \<le> 2 ^ k" using assms by (intro power_increasing) simp_all
  then have "table_new (2 ^ k) = Inr ?t" by (simp add: table_new_def power_of_two_iff)
  moreover have nf: "\<not> full_at ?t i key" for i key by (auto simp: full_at_def)
  then have fs: "full_slots ?t = {}" by (simp add: full_slots_def)
  have wf: "slots_wf ?t" using assms nf fs by (auto simp: slots_wf_def table_shape_def)
  have "slots_get ?t key = None" for key using slots_get_wf [OF wf, of key] nf by (metis option.exhaust)
  then have "slots_get ?t = Map.empty" by auto
  ultimately show ?thesis using wf fs by (intro exI [of _ ?t]) (simp add: list_all_iff)
qed

lemma first_empty_eq: "first_empty t is = (case dropWhile (nonempty_at t) is of [] \<Rightarrow> None | i # _ \<Rightarrow> Some i)"
  by (induction "is") (auto simp: nonempty_at_def)

lemma dropWhile_on_path: "dropWhile P xs = i # rest \<Longrightarrow> i \<in> set (takeWhile (\<lambda>j. P j \<or> j = i) xs)"
  by (induction xs) (auto split: if_splits)

lemma card_full_dom:
  assumes "slots_wf t" shows "card (full_slots t) = card (dom (slots_get t))"
proof -
  let ?k = "\<lambda>i. sl_key (tb_slots t ! i)"
  have "inj_on ?k (full_slots t)"
  proof (rule inj_onI)
    fix i j assume "i \<in> full_slots t" "j \<in> full_slots t" "?k i = ?k j"
    then have "full_at t i (?k i)" "full_at t j (?k i)" by (auto simp: full_slots_def full_at_def)
    then show "i = j" using assms unfolding slots_wf_def by blast
  qed
  moreover have "?k ` full_slots t = dom (slots_get t)"
  proof (intro equalityI subsetI)
    fix key assume "key \<in> ?k ` full_slots t"
    then obtain i where i: "full_at t i key" by (auto simp: full_slots_def full_at_def)
    then show "key \<in> dom (slots_get t)" using wf_value [OF assms i] slots_get_wf [OF assms, of key] by blast
  next
    fix key assume "key \<in> dom (slots_get t)"
    then obtain i where "full_at t i key" using slots_get_wf [OF assms, of key] by blast
    then show "key \<in> ?k ` full_slots t" by (intro image_eqI [of _ _ i]) (auto simp: full_slots_def full_at_def)
  qed
  ultimately show ?thesis by (metis card_image)
qed

definition no_tombs :: "'v table \<Rightarrow> bool" where
  "no_tombs t \<longleftrightarrow> list_all (\<lambda>s. sl_state s \<noteq> S_Tombstone) (tb_slots t)"

lemma has_empty:
  assumes wf: "slots_wf t" and nt: "no_tombs t" and room: "card (full_slots t) < length (tb_slots t)"
  obtains i where "i < length (tb_slots t)" "\<not> nonempty_at t i"
proof -
  have "\<exists>i < length (tb_slots t). i \<notin> full_slots t"
  proof (rule ccontr)
    assume "\<not> ?thesis"
    then have "{..< length (tb_slots t)} \<subseteq> full_slots t" by auto
    then have "card {..< length (tb_slots t)} \<le> card (full_slots t)" by (rule card_mono [OF full_slots_finite])
    then show False using room by simp
  qed
  then obtain i where i: "i < length (tb_slots t)" "i \<notin> full_slots t" by blast
  then have "sl_state (tb_slots t ! i) \<noteq> S_Full" by (auto simp: full_slots_def full_at_def)
  then have "sl_state (tb_slots t ! i) = S_Empty"
    using wf_slot [OF wf i(1)] nt i(1) by (cases "sl_state (tb_slots t ! i)") (auto simp: no_tombs_def list_all_length)
  then show thesis using i(1) that by (simp add: nonempty_at_def)
qed

text \<open>The new table has what the first \<open>m\<close> slots of the old one had.\<close>

definition moved :: "'v table \<Rightarrow> nat \<Rightarrow> 'v table \<Rightarrow> bool" where
  "moved t m nt \<longleftrightarrow> slots_wf nt \<and> no_tombs nt \<and> length (tb_slots nt) = 2 * length (tb_slots t) \<and> card (full_slots nt) \<le> m \<and>
     (\<forall>key v. slots_get nt key = Some v \<longleftrightarrow> (\<exists>i < m. full_at t i key \<and> sl_value (tb_slots t ! i) = Some v))"

lemma moved_step:
  assumes wf: "slots_wf t" and mv: "moved t m nt" and m: "m < length (tb_slots t)"
  shows "moved t (Suc m) (move_slot (tb_slots t ! m) nt)"
proof (cases "sl_state (tb_slots t ! m) = S_Full")
  case False
  then have nf: "\<not> full_at t m key" for key by (simp add: full_at_def)
  have "(\<exists>i < Suc m. full_at t i key \<and> sl_value (tb_slots t ! i) = Some v) \<longleftrightarrow> (\<exists>i < m. full_at t i key \<and> sl_value (tb_slots t ! i) = Some v)" for key v
    using nf less_Suc_eq by metis
  then show ?thesis using mv False by (simp add: moved_def move_slot_def)
next
  case True
  define key where "key = sl_key (tb_slots t ! m)"
  have at: "full_at t m key" using True m by (simp add: full_at_def key_def)
  then obtain p where p: "sl_value (tb_slots t ! m) = Some p" using wf_value [OF wf] by blast
  have only: "full_at t i key \<longleftrightarrow> i = m" for i using at wf unfolding slots_wf_def by blast
  have keys: "key' = key" if "full_at t m key'" for key' using that by (simp add: full_at_def key_def)
  have nwf: "slots_wf nt" and nn: "no_tombs nt" using mv by (simp_all add: moved_def)
  have "slots_get nt key = None" using mv only unfolding moved_def by (metis less_irrefl option.exhaust)
  then have new: "\<not> full_at nt j key" for j using wf_value [OF nwf] slots_get_wf [OF nwf, of key] by fastforce
  obtain e where e: "e < length (tb_slots nt)" "\<not> nonempty_at nt e" 
  proof (rule has_empty [OF nwf nn])
    show "card (full_slots nt) < length (tb_slots nt)" using mv m by (simp add: moved_def)
  qed
  then have "dropWhile (nonempty_at nt) (probes nt key) \<noteq> []" using slots_wf_probes [OF nwf, of key] by (simp only: dropWhile_eq_Nil_conv) auto
  then obtain i rest where dw: "dropWhile (nonempty_at nt) (probes nt key) = i # rest" by (meson neq_Nil_conv)
  then have "i \<in> set (probes nt key)" "\<not> nonempty_at nt i" by (metis list.set_intros(1) set_dropWhileD, metis hd_dropWhile list.distinct(1) list.sel(1))
  then have i: "i < length (tb_slots nt)" "sl_state (tb_slots nt ! i) = S_Empty" using slots_wf_probes [OF nwf, of key] by (auto simp: nonempty_at_def)
  let ?nt = "(set_slot nt i \<lparr>sl_state = S_Full, sl_key = key, sl_value = Some p\<rparr>)\<lparr>tb_used := tb_used nt + 1\<rparr>"
  have mvs: "move_slot (tb_slots t ! m) nt = ?nt" using True p dw by (simp add: move_slot_def first_empty_eq key_def)
  note fs = fill_slot [OF nwf new i(1) _ dropWhile_on_path [OF dw] refl, of p]
  have st: "sl_state (tb_slots nt ! i) \<noteq> S_Full" using i(2) by simp
  have "no_tombs ?nt" using nn i(1) by (auto simp: no_tombs_def list_all_length nth_list_update set_slot_def)
  moreover have "slots_get ?nt key' = Some v \<longleftrightarrow> (\<exists>i < Suc m. full_at t i key' \<and> sl_value (tb_slots t ! i) = Some v)" for key' v
  proof (cases "key' = key")
    case True
    then show ?thesis using fs(2) [OF st] only p by auto
  next
    case False
    then have "\<not> full_at t m key'" using keys by blast
    then have "(\<exists>i < Suc m. full_at t i key' \<and> sl_value (tb_slots t ! i) = Some v) \<longleftrightarrow> (\<exists>i < m. full_at t i key' \<and> sl_value (tb_slots t ! i) = Some v)"
      using less_Suc_eq by metis
    moreover have "slots_get ?nt key' = slots_get nt key'" using fs(2) [OF st] False by simp
    ultimately show ?thesis using mv unfolding moved_def by simp
  qed
  ultimately show ?thesis using fs(1,3,4) [OF st] mv unfolding mvs moved_def by simp
qed

lemma resize_wf:
  assumes wf: "slots_wf t"
  obtains nt rs where "resize_locked t = (Inr (), nt, rs)" "slots_wf nt" "slots_get nt = slots_get t" "\<exists>i < length (tb_slots nt). \<not> nonempty_at nt i"
proof -
  obtain k where k: "table_shape t k" using wf unfolding slots_wf_def by blast
  have cap: "(tb_mask t + 1) * 2 = 2 ^ (k + 1)" using k by (simp add: table_shape_def)
  obtain t0 :: "'a table" where t0: "table_new (2 ^ (k + 1)) = Inr t0" "slots_wf t0" "slots_get t0 = Map.empty" "full_slots t0 = {}"
      "length (tb_slots t0) = 2 ^ (k + 1)" "list_all (\<lambda>s. sl_state s \<noteq> S_Tombstone) (tb_slots t0)"
    using table_new_wf [of "k + 1"] k by (auto simp: table_shape_def)
  have "moved t 0 t0" using t0 k by (simp add: moved_def no_tombs_def table_shape_def)
  then have mv: "m \<le> length (tb_slots t) \<Longrightarrow> moved t m (fold move_slot (take m (tb_slots t)) t0)" for m
    by (induction m) (simp_all add: take_Suc_conv_app_nth moved_step [OF wf])
  let ?nt = "fold move_slot (tb_slots t) t0"
  have mn: "moved t (length (tb_slots t)) ?nt" using mv [of "length (tb_slots t)"] by simp
  have r: "resize_locked t = (Inr (), ?nt, [RetTable (drained t)])" using t0(1) cap by (simp add: resize_locked_def)
  have "slots_get ?nt key = Some v \<longleftrightarrow> slots_get t key = Some v" for key v
    using mn slots_get_wf [OF wf, of key v] by (auto simp: moved_def full_at_def)
  then have g: "slots_get ?nt = slots_get t" by (intro ext) (metis option.exhaust)
  have "0 < length (tb_slots t)" using k by (simp add: table_shape_def)
  then obtain i where "i < length (tb_slots ?nt)" "\<not> nonempty_at ?nt i"
    using has_empty [of ?nt] mn unfolding moved_def by (metis le_eq_less_or_eq less_add_same_cancel1 mult_2 order_le_less_trans)
  then show thesis using that [OF r _ g] mn by (auto simp: moved_def)
qed

section \<open>Insertion\<close>

definition inserted :: "'v table \<Rightarrow> u64 \<Rightarrow> 'v \<Rightarrow> 'v table_result option \<Rightarrow> bool" where
  "inserted t key v r \<longleftrightarrow> (\<exists>added t' rs. r = Some (Inr added, t', rs) \<and> slots_wf t' \<and> slots_get t' = (slots_get t)(key \<mapsto> v) \<and>
    added = (if slots_get t key = None then 1 else 0))"

lemma occupy_inserted:
  assumes wf: "slots_wf t" and new: "\<And>j. \<not> full_at t j key" and i: "i < length (tb_slots t)" "\<not> nonempty_at t i \<or> tomb_at t i"
    and on: "i \<in> set (takeWhile (\<lambda>j. nonempty_at t j \<or> j = i) (probes t key))"
  shows "inserted t key v (Some (occupy_slot t i key v))"
  using fill_slot(1,2) [OF wf new i(1) _ on refl, of v] i(2) slots_get_None [OF wf, of key] new unfolding inserted_def
  by (auto simp: occupy_slot_def nonempty_at_def tomb_at_def)

lemma insert_direct:
  assumes wf: "slots_wf t" and room: "insert_loop t key (probes t key) None \<noteq> P_full None"
  shows "inserted t key v (insert_locked t key v)"
proof (cases "remove_loop t key (probes t key)")
  case (Some i)
  have nr: "\<forall>i \<in> set (probes t key). sl_state (tb_slots t ! i) \<noteq> S_Reserved" using wf_slot [OF wf] slots_wf_probes [OF wf, of key] by auto
  have l: "insert_loop t key (probes t key) None = P_key i" using insert_loop_eq [OF nr, of key None] Some by simp
  have at: "full_at t i key" using Some remove_loop_wf(1) [OF wf] by blast
  let ?t = "set_slot t i ((tb_slots t ! i)\<lparr>sl_value := Some v\<rparr>)"
  have "?t = ?t\<lparr>tb_used := tb_used t\<rparr>" by (simp add: set_slot_def)
  note c = change_slot(1,2) [OF wf at this, of v]
  have "slots_get t key \<noteq> None" using slots_get_None [OF wf, of key] at by blast
  then show ?thesis using c at l
    unfolding inserted_def by (subst (1) insert_locked.simps) (simp add: full_at_def Let_def)
next
  case None
  have nr: "\<forall>i \<in> set (probes t key). sl_state (tb_slots t ! i) \<noteq> S_Reserved" using wf_slot [OF wf] slots_wf_probes [OF wf, of key] by auto
  have new: "\<not> full_at t j key" for j using None remove_loop_wf(2) [OF wf] by blast
  let ?tm = "find (tomb_at t) (run t key)"
  have l: "insert_loop t key (probes t key) None =
      (if \<forall>i \<in> set (probes t key). nonempty_at t i then P_full ?tm
       else P_slot (case ?tm of Some j \<Rightarrow> j | None \<Rightarrow> hd (dropWhile (nonempty_at t) (probes t key))))"
    using insert_loop_eq [OF nr, of key None] None by (simp add: Let_def run_def)
  show ?thesis
  proof (cases ?tm)
    case (Some j)
    then have j: "j \<in> set (run t key)" "tomb_at t j" by (auto simp: find_Some_iff)
    have "set (run t key) \<subseteq> set (takeWhile (\<lambda>i. nonempty_at t i \<or> i = j) (probes t key))" unfolding run_def by (rule takeWhile_mono) simp
    then have "inserted t key v (Some (occupy_slot t j key v))"
      using j run_bound [OF wf j(1)] by (intro occupy_inserted [OF wf new]) auto
    then show ?thesis using l Some by (subst insert_locked.simps) (simp split: if_split)
  next
    case tm: None
    then have ne: "\<not> (\<forall>i \<in> set (probes t key). nonempty_at t i)" using l room by (auto split: if_splits)
    then have "dropWhile (nonempty_at t) (probes t key) \<noteq> []" by (simp only: dropWhile_eq_Nil_conv) blast
    then obtain i rest where dw: "dropWhile (nonempty_at t) (probes t key) = i # rest" by (meson neq_Nil_conv)
    then have i: "i \<in> set (probes t key)" "\<not> nonempty_at t i" by (metis list.set_intros(1) set_dropWhileD, metis hd_dropWhile list.distinct(1) list.sel(1))
    then have "inserted t key v (Some (occupy_slot t i key v))"
      using slots_wf_probes [OF wf, of key] dropWhile_on_path [OF dw] by (intro occupy_inserted [OF wf new]) auto
    moreover have "insert_loop t key (probes t key) None = P_slot i" using l ne tm dw by simp
    ultimately show ?thesis by (subst insert_locked.simps) simp
  qed
qed

lemma insert_locked_inserted:
  assumes wf: "slots_wf t" shows "inserted t key v (insert_locked t key v)"
proof (cases "insert_loop t key (probes t key) None = P_full None")
  case False
  then show ?thesis by (rule insert_direct [OF wf])
next
  case True
  obtain nt rs where r: "resize_locked t = (Inr (), nt, rs)" "slots_wf nt" "slots_get nt = slots_get t" "\<exists>i < length (tb_slots nt). \<not> nonempty_at nt i"
    using resize_wf [OF wf] by blast
  have nr: "\<forall>i \<in> set (probes nt key). sl_state (tb_slots nt ! i) \<noteq> S_Reserved" using wf_slot [OF r(2)] slots_wf_probes [OF r(2), of key] by auto
  have "\<not> (\<forall>i \<in> set (probes nt key). nonempty_at nt i)" using r(4) slots_wf_probes [OF r(2), of key] by auto
  then have "insert_loop nt key (probes nt key) None \<noteq> P_full None"
    unfolding insert_loop_eq [OF nr] Let_def by (simp only: if_False split: option.split) simp
  then have "inserted nt key v (insert_locked nt key v)" by (rule insert_direct [OF r(2)])
  then show ?thesis using r(3) True unfolding inserted_def by (subst (1) insert_locked.simps) (auto simp: r(1))
qed

section \<open>The map over its shards\<close>

definition shard_tables :: "'v sharded_map \<Rightarrow> 'v table list" where
  "shard_tables m = map sd_table (sm_shards m)"

definition sm_wf :: "'v sharded_map \<Rightarrow> bool" where
  "sm_wf m \<longleftrightarrow> length (sm_shards m) = SHARD_COUNT \<and> (\<forall>sh \<in> set (sm_shards m). \<not> sd_lock sh \<and> slots_wf (sd_table sh))"

lemma shard_of_less: "shard_of key < SHARD_COUNT"
  using and_mask_mod [of "unat key" 6] by (simp add: shard_of_def SHARD_COUNT_def)

lemma sm_wf_shard:
  assumes "sm_wf m"
  shows "shard_of key < length (sm_shards m)" "\<not> sd_lock (sm_shards m ! shard_of key)" "slots_wf (sd_table (sm_shards m ! shard_of key))"
proof -
  show i: "shard_of key < length (sm_shards m)" using assms shard_of_less by (simp add: sm_wf_def)
  show "\<not> sd_lock (sm_shards m ! shard_of key)" "slots_wf (sd_table (sm_shards m ! shard_of key))"
    using assms nth_mem [OF i] by (auto simp: sm_wf_def)
qed

lemma put_table_wf:
  assumes "sm_wf m" "slots_wf t" "slots_get t = (slots_get (sd_table (sm_shards m ! shard_of key)))(key := x)"
  shows "sm_wf ((put_table m (shard_of key) t)\<lparr>sm_len := n\<rparr>)" "sm_get ((put_table m (shard_of key) t)\<lparr>sm_len := n\<rparr>) = (sm_get m)(key := x)"
proof -
  note i = sm_wf_shard(1) [OF assms(1), of key]
  have "set ((sm_shards m)[shard_of key := (sm_shards m ! shard_of key)\<lparr>sd_table := t, sd_lock := False\<rparr>]) \<subseteq>
      insert ((sm_shards m ! shard_of key)\<lparr>sd_table := t, sd_lock := False\<rparr>) (set (sm_shards m))" by (rule set_update_subset_insert)
  then show "sm_wf ((put_table m (shard_of key) t)\<lparr>sm_len := n\<rparr>)" using assms(1,2) by (auto simp: sm_wf_def put_table_def)
  show "sm_get ((put_table m (shard_of key) t)\<lparr>sm_len := n\<rparr>) = (sm_get m)(key := x)"
    using i assms(3) by (auto simp: sm_get_def put_table_def fun_eq_iff nth_list_update)
qed

lemma sm_insert_ok:
  assumes "sm_wf m"
  obtains m' rs where "sm_insert m key v = Some (Inr (), m', rs)" "sm_wf m'" "sm_get m' = (sm_get m)(key \<mapsto> v)"
    "sm_len m' = sm_len m + (if sm_get m key = None then 1 else 0)"
proof -
  note sh = sm_wf_shard [OF assms, of key]
  obtain added t' rs where r: "insert_locked (sd_table (sm_shards m ! shard_of key)) key v = Some (Inr added, t', rs)" "slots_wf t'"
      "slots_get t' = (slots_get (sd_table (sm_shards m ! shard_of key)))(key \<mapsto> v)" "added = (if sm_get m key = None then 1 else 0)"
    using insert_locked_inserted [OF sh(3)] unfolding inserted_def sm_get_def by blast
  then show thesis using that [of "(put_table m (shard_of key) t')\<lparr>sm_len := sm_len m + added\<rparr>" rs] put_table_wf [OF assms r(2,3)] sh(2)
    by (simp add: sm_insert_def Let_def)
qed

lemma sm_remove_ok:
  assumes "sm_wf m"
  obtains m' rs where "sm_remove m key = (Inr (), m', rs)" "sm_wf m'" "sm_get m' = (sm_get m)(key := None)"
    "sm_len m' = sm_len m - (if sm_get m key = None then 0 else 1)"
proof -
  note sh = sm_wf_shard [OF assms, of key]
  obtain gone t' rs where r: "table_remove (sd_table (sm_shards m ! shard_of key)) key = (gone, t', rs)" by (metis prod_cases3)
  note t = table_remove_wf [OF sh(3) r]
  show thesis using that [of "(put_table m (shard_of key) t')\<lparr>sm_len := sm_len m - gone\<rparr>" rs] put_table_wf [OF assms t(1,2)] sh(2) r t(3)
    by (simp add: sm_remove_def sm_get_def Let_def)
qed

text \<open>A fresh map is well formed and empty.\<close>

lemma sm_new_eq:
  assumes "3 \<le> k"
  shows "sm_new (2 ^ k) = rbind (table_new (2 ^ k)) (\<lambda>t. Inr \<lparr>sm_shards = replicate SHARD_COUNT \<lparr>sd_table = t, sd_lock = False\<rparr>, sm_len = 0\<rparr>)"
  using power_of_two_iff [of k] power_increasing [OF assms, of "2 :: nat"] by (simp add: sm_new_def)

lemma sm_new_ok:
  assumes "3 \<le> k"
  shows "\<exists>m. sm_new (2 ^ k) = Inr (m :: 'v sharded_map)"
proof -
  obtain t :: "'v table" where "table_new (2 ^ k) = Inr t" using table_new_wf [OF assms] by blast
  then show ?thesis using assms by (simp add: sm_new_eq)
qed

lemma sm_new_wf:
  assumes "3 \<le> k" "sm_new (2 ^ k) = Inr (m :: 'v sharded_map)"
  shows "sm_wf m" "sm_get m = Map.empty" "sm_len m = 0"
proof -
  obtain t :: "'v table" where t: "table_new (2 ^ k) = Inr t" "slots_wf t" "slots_get t = Map.empty" using table_new_wf [OF assms(1)] by blast
  then have m: "m = \<lparr>sm_shards = replicate SHARD_COUNT \<lparr>sd_table = t, sd_lock = False\<rparr>, sm_len = 0\<rparr>" using assms by (simp add: sm_new_eq)
  show "sm_wf m" "sm_len m = 0" using t(2) by (simp_all add: m sm_wf_def)
  show "sm_get m = Map.empty" using shard_of_less t(3) by (auto simp: m sm_get_def)
qed

section \<open>The interface: a finite map\<close>

datatype 'v command = Put u64 'v | Del u64

primrec map_command :: "'v command \<Rightarrow> (u64 \<rightharpoonup> 'v) \<Rightarrow> (u64 \<rightharpoonup> 'v)" where
  "map_command (Put key v) m = m(key \<mapsto> v)"
| "map_command (Del key) m = m(key := None)"

text \<open>
  The contract a client relies on: a store with an invariant, whose operations succeed, act on its contents as on a finite
  map, and keep its length the number of entries.
\<close>

locale key_value_store =
  fixes inv :: "'s \<Rightarrow> bool"
    and contents :: "'s \<Rightarrow> u64 \<Rightarrow> 'v option"
    and count :: "'s \<Rightarrow> nat"
    and exec :: "'s \<Rightarrow> 'v command \<Rightarrow> 's option"
  assumes count_ok: "inv s \<Longrightarrow> count s = card (dom (contents s))"
    and exec_ok: "inv s \<Longrightarrow> \<exists>s'. exec s c = Some s' \<and> inv s' \<and> contents s' = map_command c (contents s)"
begin

primrec execs :: "'s \<Rightarrow> 'v command list \<Rightarrow> 's option" where
  "execs s [] = Some s"
| "execs s (c # cs) = Option.bind (exec s c) (\<lambda>s'. execs s' cs)"

lemma execs_ok:
  assumes "inv s"
  shows "\<exists>s'. execs s cs = Some s' \<and> inv s' \<and> contents s' = fold map_command cs (contents s) \<and> count s' = card (dom (contents s'))"
  using assms
proof (induction cs arbitrary: s)
  case (Cons c cs)
  obtain s' where s': "exec s c = Some s'" "inv s'" "contents s' = map_command c (contents s)" using exec_ok [OF Cons.prems] by blast
  then show ?case using Cons.IH [OF s'(2)] by simp
qed (simp add: count_ok)

end

text \<open>The invariant of the map with its entry counter.\<close>

definition sm_inv :: "'v sharded_map \<Rightarrow> bool" where
  "sm_inv m \<longleftrightarrow> sm_wf m \<and> finite (dom (sm_get m)) \<and> sm_len m = card (dom (sm_get m))"

lemma card_dom_upd:
  "finite (dom f) \<Longrightarrow> card (dom (f(x \<mapsto> v))) = card (dom f) + (if f x = None then 1 else 0)"
  "finite (dom f) \<Longrightarrow> card (dom (f(x := None))) = card (dom f) - (if f x = None then 0 else 1)"
  by (auto simp: card_insert_if card_Diff_singleton_if domIff)

lemma sm_insert_inv:
  assumes "sm_inv m"
  obtains m' rs where "sm_insert m key v = Some (Inr (), m', rs)" "sm_inv m'" "sm_get m' = (sm_get m)(key \<mapsto> v)"
proof -
  have m: "sm_wf m" "finite (dom (sm_get m))" "sm_len m = card (dom (sm_get m))" using assms by (simp_all add: sm_inv_def)
  from sm_insert_ok [OF m(1), of key v] obtain m' rs where i: "sm_insert m key v = Some (Inr (), m', rs)" "sm_wf m'"
      "sm_get m' = (sm_get m)(key \<mapsto> v)" "sm_len m' = sm_len m + (if sm_get m key = None then 1 else 0)" .
  have "sm_len m' = card (dom (sm_get m'))" unfolding i(3) card_dom_upd(1) [OF m(2)] i(4) m(3) by (rule refl)
  moreover have "finite (dom (sm_get m'))" using m(2) by (simp add: i(3))
  ultimately show thesis using that [OF i(1)] i(2,3) by (simp add: sm_inv_def)
qed

lemma sm_remove_inv:
  assumes "sm_inv m"
  obtains m' rs where "sm_remove m key = (Inr (), m', rs)" "sm_inv m'" "sm_get m' = (sm_get m)(key := None)"
proof -
  have m: "sm_wf m" "finite (dom (sm_get m))" "sm_len m = card (dom (sm_get m))" using assms by (simp_all add: sm_inv_def)
  from sm_remove_ok [OF m(1), of key] obtain m' rs where i: "sm_remove m key = (Inr (), m', rs)" "sm_wf m'"
      "sm_get m' = (sm_get m)(key := None)" "sm_len m' = sm_len m - (if sm_get m key = None then 0 else 1)" .
  have "sm_len m' = card (dom (sm_get m'))" unfolding i(3) card_dom_upd(2) [OF m(2)] i(4) m(3) by (rule refl)
  moreover have "finite (dom (sm_get m'))" using m(2) by (simp add: i(3))
  ultimately show thesis using that [OF i(1)] i(2,3) by (simp add: sm_inv_def)
qed

lemma sm_new_inv: "3 \<le> k \<Longrightarrow> sm_new (2 ^ k) = Inr m \<Longrightarrow> sm_inv m"
  using sm_new_wf [of k m] by (simp add: sm_inv_def)

text \<open>A command of a client, run on the sharded map; an error is \<open>None\<close>.\<close>

definition sm_exec :: "'v sharded_map \<Rightarrow> 'v command \<Rightarrow> 'v sharded_map option" where
  "sm_exec m c =
     (case c of
        Put key v \<Rightarrow> (case sm_insert m key v of Some (Inr _, m', _) \<Rightarrow> Some m' | _ \<Rightarrow> None)
      | Del key \<Rightarrow> (case sm_remove m key of (Inr _, m', _) \<Rightarrow> Some m' | _ \<Rightarrow> None))"

primrec sm_execs :: "'v sharded_map \<Rightarrow> 'v command list \<Rightarrow> 'v sharded_map option" where
  "sm_execs m [] = Some m"
| "sm_execs m (c # cs) = Option.bind (sm_exec m c) (\<lambda>m'. sm_execs m' cs)"

interpretation kv: key_value_store "sm_inv :: 'v sharded_map \<Rightarrow> bool" sm_get sm_len sm_exec
proof
  fix m :: "'v sharded_map" and c
  assume inv: "sm_inv m"
  then show "sm_len m = card (dom (sm_get m))" by (simp add: sm_inv_def)
  show "\<exists>m'. sm_exec m c = Some m' \<and> sm_inv m' \<and> sm_get m' = map_command c (sm_get m)"
  proof (cases c)
    case (Put key v)
    obtain m' rs where "sm_insert m key v = Some (Inr (), m', rs)" "sm_inv m'" "sm_get m' = (sm_get m)(key \<mapsto> v)" by (rule sm_insert_inv [OF inv])
    then show ?thesis using Put by (simp add: sm_exec_def)
  next
    case (Del key)
    obtain m' rs where "sm_remove m key = (Inr (), m', rs)" "sm_inv m'" "sm_get m' = (sm_get m)(key := None)" by (rule sm_remove_inv [OF inv])
    then show ?thesis using Del by (simp add: sm_exec_def)
  qed
qed

lemma sm_execs_eq: "sm_execs m cs = kv.execs m cs"
  by (induction cs arbitrary: m) simp_all

text \<open>
  \<^bold>\<open>C28\<close> (refinement). The sharded map implements a finite map: from a map created with a legal capacity, every sequence
  of insertions and removals succeeds, whatever collisions, tombstones and table resizes it goes through; afterwards a
  lookup of any key returns what the abstract map holds for it, and the length is the number of its entries.
\<close>

theorem sharded_map_refines_map:
  assumes "3 \<le> k" "sm_new (2 ^ k) = Inr m"
  shows "\<exists>m'. sm_execs m cs = Some m' \<and> sm_get m' = fold map_command cs Map.empty \<and> sm_len m' = card (dom (sm_get m'))"
  using kv.execs_ok [OF sm_new_inv [OF assms], of cs] by (auto simp: sm_execs_eq sm_new_wf(2) [OF assms])

text \<open>Two keys of one shard that collide in its table, one removed: the probe goes past the tombstone.\<close>

theorem sharded_map_refines_map_witness:
  "\<exists>m m'. sm_new 8 = Inr m \<and> sm_execs m [Put 0 ''a'', Put 512 ''b'', Del 0] = Some m' \<and> sm_get m' 512 = Some ''b'' \<and> sm_get m' 0 = None"
proof -
  obtain m :: "string sharded_map" where m: "sm_new (2 ^ 3) = Inr m" using sm_new_ok [of 3] by blast
  show ?thesis using sharded_map_refines_map [OF _ m, of "[Put 0 ''a'', Put 512 ''b'', Del 0]"] m by auto
qed

end
