(* ===== verification/Jit_Cache.thy ===== *)
theory Jit_Cache
  imports Sharded Ebr Levels Telemetry
begin

text \<open>
  The kernel cache of the JIT, \<^verbatim>\<open>crates/jit/src/cache.rs\<close>: a sharded map of kernels, bounded by a capacity, whose replaced
  and removed entries go to the cache's own collector. An operation pins a slot of the collector, works on the map, and
  unpins when its guard is dropped.
\<close>

section \<open>Model\<close>

datatype jit_cache_error = CacheShard shard_error | CacheEbr ebr_error | CacheCapacity

record kernel_entry =
  ke_program :: target_program
  ke_tier :: tier
  ke_results :: "u32 list"
  ke_buffers :: "(u32 \<times> u32 \<times> address_space) list"

record jit_cache =
  jc_map :: "kernel_entry sharded_map"
  jc_collector :: "kernel_entry retired collector"
  jc_capacity :: nat

definition jc_new :: "nat \<Rightarrow> jit_cache_error + jit_cache" where
  "jc_new capacity =
     (case sm_new 64 of
        Inl e \<Rightarrow> Inl (CacheShard e)
      | Inr m \<Rightarrow> Inr \<lparr>jc_map = m, jc_collector = collector_new, jc_capacity = capacity\<rparr>)"

definition jc_register_reader :: "jit_cache \<Rightarrow> (jit_cache_error + nat) \<times> jit_cache" where
  "jc_register_reader c =
     (case ebr_register (jc_collector c) of
        (Inl e, col) \<Rightarrow> (Inl (CacheEbr e), c\<lparr>jc_collector := col\<rparr>)
      | (Inr slot, col) \<Rightarrow> (Inr slot, c\<lparr>jc_collector := col\<rparr>))"

text \<open>What an operation does under a guard: its result, the new map and the boxes it retires.\<close>

definition under_guard ::
  "jit_cache \<Rightarrow> nat \<Rightarrow> ('r \<times> kernel_entry sharded_map \<times> kernel_entry retired list) option \<Rightarrow> ((jit_cache_error + 'r) \<times> jit_cache) option" where
  "under_guard c slot body =
     (case ebr_pin (jc_collector c) slot of
        Inl e \<Rightarrow> Some (Inl (CacheEbr e), c)
      | Inr col \<Rightarrow>
          Option.bind body (\<lambda>(r, m, rs).
            Some (Inr r, c\<lparr>jc_map := m, jc_collector := ebr_unpin (fold (\<lambda>x col. ebr_retire col x) rs col) slot\<rparr>)))"

text \<open>\<^verbatim>\<open>map_err(JitCacheError::Shard)\<close>\<close>

definition shard_result :: "((jit_cache_error + (shard_error + unit)) \<times> jit_cache) \<Rightarrow> (jit_cache_error + unit) \<times> jit_cache" where
  "shard_result = (\<lambda>(r, c). (case r of Inl e \<Rightarrow> Inl e | Inr (Inl e) \<Rightarrow> Inl (CacheShard e) | Inr (Inr u) \<Rightarrow> Inr u, c))"

definition jc_get :: "jit_cache \<Rightarrow> u64 \<Rightarrow> kernel_entry option" where
  "jc_get c key = sm_get (jc_map c) key"

definition jc_lookup :: "jit_cache \<Rightarrow> u64 \<Rightarrow> nat \<Rightarrow> ((jit_cache_error + kernel_entry option) \<times> jit_cache) option" where
  "jc_lookup c key slot = under_guard c slot (Some (sm_get (jc_map c) key, jc_map c, []))"

definition jc_len :: "jit_cache \<Rightarrow> nat" where
  "jc_len c = sm_len (jc_map c)"

definition jc_insert :: "jit_cache \<Rightarrow> u64 \<Rightarrow> kernel_entry \<Rightarrow> nat \<Rightarrow> ((jit_cache_error + unit) \<times> jit_cache) option" where
  "jc_insert c key entry slot =
     (if jc_len c \<ge> jc_capacity c then Some (Inl CacheCapacity, c)
      else map_option shard_result (under_guard c slot (sm_insert (jc_map c) key entry)))"

definition jc_remove :: "jit_cache \<Rightarrow> u64 \<Rightarrow> nat \<Rightarrow> ((jit_cache_error + unit) \<times> jit_cache) option" where
  "jc_remove c key slot = map_option shard_result (under_guard c slot (Some (sm_remove (jc_map c) key)))"

definition jc_is_empty :: "jit_cache \<Rightarrow> bool" where
  "jc_is_empty c \<longleftrightarrow> jc_len c = 0"

definition cache_key :: "u64 \<Rightarrow> shape list \<Rightarrow> tier \<Rightarrow> u64" where
  "cache_key fingerprint param_shapes t =
     (let h = write_u64 fnv_new fingerprint;
          h = fold (\<lambda>s h. fold (\<lambda>d h. write_i64 h d) (shape_as_slice s) h) param_shapes h
      in fnv_finish (write_u64 h (tier_code t)))"

section \<open>The cache under its invariant\<close>

definition jc_inv :: "jit_cache \<Rightarrow> bool" where
  "jc_inv c \<longleftrightarrow> sm_inv (jc_map c) \<and> length (co_slots (jc_collector c)) = MAX_EBR_SLOTS"

lemma retire_slots: "co_slots (ebr_retire col x) = co_slots col"
  by (simp add: ebr_retire_def ebr_collect_def Let_def)

lemma retires_slots: "co_slots (fold (\<lambda>x col. ebr_retire col x) rs col) = co_slots col"
  by (induction rs arbitrary: col) (simp_all add: retire_slots)

lemma under_guard_ok:
  assumes "jc_inv c" "slot < MAX_EBR_SLOTS" "sm_inv m"
  obtains c' where "under_guard c slot (Some (r, m, rs)) = Some (Inr r, c')" "jc_inv c'" "jc_map c' = m" "jc_capacity c' = jc_capacity c"
  using assms that [of "c\<lparr>jc_map := m, jc_collector := ebr_unpin (fold (\<lambda>x col. ebr_retire col x) rs
      ((jc_collector c)\<lparr>co_slots := (co_slots (jc_collector c))[slot := co_epoch (jc_collector c) + 1]\<rparr>)) slot\<rparr>"]
  by (simp add: under_guard_def ebr_pin_def jc_inv_def ebr_unpin_def retires_slots)

lemma jc_lookup_ok:
  assumes "jc_inv c" "slot < MAX_EBR_SLOTS"
  obtains c' where "jc_lookup c key slot = Some (Inr (jc_get c key), c')" "jc_inv c'" "jc_map c' = jc_map c" "jc_capacity c' = jc_capacity c"
  using under_guard_ok [OF assms, of "jc_map c" "jc_get c key" "[]"] assms(1) by (auto simp: jc_lookup_def jc_get_def jc_inv_def)

text \<open>A cache behaves as a finite map that refuses every insertion once it holds as many entries as its capacity.\<close>

primrec bounded_command :: "nat \<Rightarrow> kernel_entry command \<Rightarrow> (u64 \<rightharpoonup> kernel_entry) \<Rightarrow> (jit_cache_error + unit) \<times> (u64 \<rightharpoonup> kernel_entry)" where
  "bounded_command cap (Put key e) f = (if card (dom f) \<ge> cap then (Inl CacheCapacity, f) else (Inr (), f(key \<mapsto> e)))"
| "bounded_command cap (Del key) f = (Inr (), f(key := None))"

primrec bounded_commands :: "nat \<Rightarrow> kernel_entry command list \<Rightarrow> (u64 \<rightharpoonup> kernel_entry) \<Rightarrow> (jit_cache_error + unit) list \<times> (u64 \<rightharpoonup> kernel_entry)" where
  "bounded_commands cap [] f = ([], f)"
| "bounded_commands cap (c # cs) f =
     (case bounded_command cap c f of (r, f') \<Rightarrow> case bounded_commands cap cs f' of (rs, f'') \<Rightarrow> (r # rs, f''))"

definition jc_exec :: "nat \<Rightarrow> kernel_entry command \<Rightarrow> jit_cache \<Rightarrow> ((jit_cache_error + unit) \<times> jit_cache) option" where
  "jc_exec slot cmd c = (case cmd of Put key e \<Rightarrow> jc_insert c key e slot | Del key \<Rightarrow> jc_remove c key slot)"

primrec jc_execs :: "nat \<Rightarrow> kernel_entry command list \<Rightarrow> jit_cache \<Rightarrow> ((jit_cache_error + unit) list \<times> jit_cache) option" where
  "jc_execs slot [] c = Some ([], c)"
| "jc_execs slot (cmd # cmds) c =
     Option.bind (jc_exec slot cmd c) (\<lambda>(r, c'). Option.bind (jc_execs slot cmds c') (\<lambda>(rs, c''). Some (r # rs, c'')))"

lemma jc_exec_ok:
  assumes inv: "jc_inv c" and slot: "slot < MAX_EBR_SLOTS" and spec: "bounded_command (jc_capacity c) cmd (jc_get c) = (r, f)"
  obtains c' where "jc_exec slot cmd c = Some (r, c')" "jc_inv c'" "jc_get c' = f" "jc_capacity c' = jc_capacity c"
proof (cases cmd)
  case (Del key)
  have m: "sm_inv (jc_map c)" using inv by (simp add: jc_inv_def)
  obtain m' rs where m': "sm_remove (jc_map c) key = (Inr (), m', rs)" "sm_inv m'" "sm_get m' = (sm_get (jc_map c))(key := None)"
    by (rule sm_remove_inv [OF m])
  obtain c' where c': "under_guard c slot (Some (Inr () :: shard_error + unit, m', rs)) = Some (Inr (Inr ()), c')" "jc_inv c'" "jc_map c' = m'" "jc_capacity c' = jc_capacity c"
    by (rule under_guard_ok [OF inv slot m'(2)])
  then have "jc_exec slot cmd c = Some (shard_result (Inr (Inr ()), c'))" using m'(1) Del by (simp add: jc_exec_def jc_remove_def)
  then have "jc_exec slot cmd c = Some (Inr (), c')" by (simp add: shard_result_def)
  then show thesis using that c' m'(3) spec Del by (auto simp: jc_get_def [abs_def])
next
  case (Put key e)
  have m: "sm_inv (jc_map c)" using inv by (simp add: jc_inv_def)
  then have len: "jc_len c = card (dom (jc_get c))" by (simp add: jc_len_def jc_get_def [abs_def] sm_inv_def)
  show thesis
  proof (cases "jc_capacity c \<le> jc_len c")
    case True
    then show thesis using that [of c] inv spec Put len by (simp add: jc_exec_def jc_insert_def)
  next
    case False
    obtain m' rs where m': "sm_insert (jc_map c) key e = Some (Inr (), m', rs)" "sm_inv m'" "sm_get m' = (sm_get (jc_map c))(key \<mapsto> e)"
      by (rule sm_insert_inv [OF m])
    obtain c' where c': "under_guard c slot (Some (Inr () :: shard_error + unit, m', rs)) = Some (Inr (Inr ()), c')" "jc_inv c'" "jc_map c' = m'" "jc_capacity c' = jc_capacity c"
      by (rule under_guard_ok [OF inv slot m'(2)])
    then have "jc_exec slot cmd c = Some (shard_result (Inr (Inr ()), c'))" using m'(1) Put False by (simp add: jc_exec_def jc_insert_def)
    then have "jc_exec slot cmd c = Some (Inr (), c')" by (simp add: shard_result_def)
    then show thesis using that c' m'(3) spec Put False len by (auto simp: jc_get_def [abs_def])
  qed
qed

lemma jc_execs_ok:
  assumes "jc_inv c" "slot < MAX_EBR_SLOTS"
  shows "\<exists>c'. jc_execs slot cmds c = Some (fst (bounded_commands (jc_capacity c) cmds (jc_get c)), c') \<and> jc_inv c' \<and>
    jc_get c' = snd (bounded_commands (jc_capacity c) cmds (jc_get c)) \<and> jc_capacity c' = jc_capacity c"
  using assms(1)
proof (induction cmds arbitrary: c)
  case (Cons cmd cmds)
  obtain r f where s: "bounded_command (jc_capacity c) cmd (jc_get c) = (r, f)" by fastforce
  obtain c1 where c1: "jc_exec slot cmd c = Some (r, c1)" "jc_inv c1" "jc_get c1 = f" "jc_capacity c1 = jc_capacity c"
    by (rule jc_exec_ok [OF Cons.prems assms(2) s])
  show ?case using Cons.IH [OF c1(2)] c1 s by (auto split: prod.split)
qed simp

lemma bounded_commands_card:
  "finite (dom f) \<Longrightarrow> card (dom f) \<le> cap \<Longrightarrow> card (dom (snd (bounded_commands cap cmds f))) \<le> cap"
proof (induction cmds arbitrary: f)
  case (Cons cmd cmds)
  obtain r f' where c: "bounded_command cap cmd f = (r, f')" by fastforce
  have "finite (dom (snd (bounded_command cap cmd f))) \<and> card (dom (snd (bounded_command cap cmd f))) \<le> cap"
    using Cons.prems card_dom_upd [OF Cons.prems(1)] by (cases cmd) (auto simp del: dom_fun_upd)
  then have "card (dom (snd (bounded_commands cap cmds f'))) \<le> cap" using Cons.IH [of f'] c by simp
  then show ?case using c by (auto split: prod.split)
qed simp

lemma jc_new_ok: "\<exists>c. jc_new cap = Inr c"
proof -
  obtain m :: "kernel_entry sharded_map" where "sm_new (2 ^ 6) = Inr m" using sm_new_ok [of 6] by auto
  then show ?thesis by (simp add: jc_new_def)
qed

lemma jc_new_inv:
  assumes "jc_new cap = Inr c"
  shows "jc_inv c" "jc_get c = Map.empty" "jc_capacity c = cap"
proof -
  obtain m where m: "sm_new (2 ^ 6) = Inr m" "c = \<lparr>jc_map = m, jc_collector = collector_new, jc_capacity = cap\<rparr>"
    using assms by (auto simp: jc_new_def split: sum.splits)
  show "jc_inv c" using sm_new_inv [OF _ m(1)] m(2) by (simp add: jc_inv_def collector_new_def)
  show "jc_get c = Map.empty" using sm_new_wf(2) [OF _ m(1)] m(2) by (simp add: jc_get_def fun_eq_iff)
  show "jc_capacity c = cap" using m(2) by simp
qed

section \<open>The cache key\<close>

text \<open>Kernels of different tiers have different keys; shapes enter the key only through the sequence of their dimensions.\<close>

lemma tier_code_bytes: "le_bytes (tier_code t) = (ucast (tier_code t) :: u8) # replicate 7 0"
proof (rule nth_equalityI)
  fix i assume "i < length (le_bytes (tier_code t))"
  then have i: "i < 8" by simp
  have high: "drop_bit 8 (tier_code t) = 0" by (cases t) simp_all
  have "le_byte i (tier_code t) = (if i = 0 then ucast (tier_code t) else 0)"
  proof (cases i)
    case (Suc j)
    have "drop_bit (8 * i) (tier_code t) = drop_bit (8 * j) (drop_bit 8 (tier_code t))" by (simp add: Suc add.commute)
    then show ?thesis using Suc high by (simp add: le_byte_def)
  qed (simp add: le_byte_def)
  then show "le_bytes (tier_code t) ! i = (ucast (tier_code t) # replicate 7 0) ! i"
    using i by (cases i) (simp_all add: le_bytes_def)
qed simp

lemma cache_key_tier: "cache_key fp shapes t1 = cache_key fp shapes t2 \<longleftrightarrow> t1 = t2"
proof -
  have "(ucast (tier_code t1) :: u8) = ucast (tier_code t2) \<longleftrightarrow> t1 = t2" by (cases t1; cases t2) simp_all
  then show ?thesis
    by (simp add: cache_key_def Let_def fnv_finish_def write_u64_def tier_code_bytes write_bytes_state_inj write_byte_byte_inj)
qed

lemma cache_key_dims:
  "concat (map shape_as_slice xs) = concat (map shape_as_slice ys) \<Longrightarrow> cache_key fp xs t = cache_key fp ys t"
proof -
  have "fold (\<lambda>s h. fold (\<lambda>d h. write_i64 h d) (shape_as_slice s) h) xs h = fold (\<lambda>d h. write_i64 h d) (concat (map shape_as_slice xs)) h" for xs h
    by (induction xs arbitrary: h) simp_all
  then show "concat (map shape_as_slice xs) = concat (map shape_as_slice ys) \<Longrightarrow> cache_key fp xs t = cache_key fp ys t"
    by (simp add: cache_key_def)
qed

section \<open>The contract\<close>

text \<open>
  \<^bold>\<open>C9\<close> (refinement). For a writer with a legal slot the cache is a finite map of bounded size: every insertion and
  removal answers as the bounded map does (an insertion into a full cache is refused with \<open>CacheCapacity\<close>, also when it would
  replace an entry), a lookup then returns what the bounded map holds, and there are never more entries than the capacity,
  whatever goes on in the shards and the collector.
\<close>

theorem jit_cache_refines_bounded_map:
  assumes "jc_new cap = Inr c" "slot < MAX_EBR_SLOTS" "bounded_commands cap cmds Map.empty = (rs, f)"
  shows "\<exists>c'. jc_execs slot cmds c = Some (rs, c') \<and> (\<exists>c''. jc_lookup c' key slot = Some (Inr (f key), c'')) \<and> jc_len c' = card (dom f) \<and> jc_len c' \<le> cap"
proof -
  note n = jc_new_inv [OF assms(1)]
  obtain c' where c': "jc_execs slot cmds c = Some (rs, c')" "jc_inv c'" "jc_get c' = f" using jc_execs_ok [OF n(1) assms(2), of cmds] n(2,3) assms(3) by auto
  have len: "jc_len c' = card (dom f)" using c'(2,3) by (auto simp: jc_len_def jc_inv_def sm_inv_def jc_get_def [abs_def])
  moreover have "card (dom f) \<le> cap" using bounded_commands_card [of Map.empty cap cmds] assms(3) by simp
  moreover obtain c'' where "jc_lookup c' key slot = Some (Inr (f key), c'')" using jc_lookup_ok [OF c'(2) assms(2), of key] c'(3) by auto
  ultimately show ?thesis using c'(1) by auto
qed

theorem jit_cache_refines_bounded_map_witness:
  "\<forall>e e'. \<exists>c c'. jc_new 1 = Inr c \<and> jc_execs 0 [Put 7 e, Put 7 e', Del 7, Put 8 e'] c = Some ([Inr (), Inl CacheCapacity, Inr (), Inr ()], c') \<and> jc_len c' = 1"
proof (intro allI)
  fix e e'
  obtain c where c: "jc_new 1 = Inr c" using jc_new_ok by blast
  have "bounded_commands 1 [Put 7 e, Put 7 e', Del 7, Put 8 e'] Map.empty = ([Inr (), Inl CacheCapacity, Inr (), Inr ()], [8 \<mapsto> e'])"
    by (auto simp: fun_eq_iff)
  from jit_cache_refines_bounded_map [OF c _ this, of 0] c show "\<exists>c c'. jc_new 1 = Inr c \<and>
      jc_execs 0 [Put 7 e, Put 7 e', Del 7, Put 8 e'] c = Some ([Inr (), Inl CacheCapacity, Inr (), Inr ()], c') \<and> jc_len c' = 1"
    by (auto simp: MAX_EBR_SLOTS_def)
qed

end
