(* ===== verification/Rules.thy ===== *)
theory Rules
  imports EGraph Target
begin

text \<open>
  The rewrite rules of the e-graph, \<^verbatim>\<open>crates/egraph/src/rules.rs\<close>: what a rule yields for one e-node, given the classes of its
  operands and what is known of their constants. Every rule is sound for programs whose integer operations compute exactly.
\<close>

section \<open>Model\<close>

datatype const_val = CI i64 | CF f64

record rewrite =
  rw_op :: xop
  rw_children :: "u32 list"
  rw_n_children :: u8

fun fold_binary :: "fp \<Rightarrow> binary_op \<Rightarrow> const_val \<Rightarrow> const_val \<Rightarrow> xop option" where
  "fold_binary F b (CI a) (CI c) =
     map_option ConstI64 (case b of
        BAdd \<Rightarrow> checked_i64 (a + c)
      | BSub \<Rightarrow> checked_i64 (a - c)
      | BMul \<Rightarrow> checked_i64 (a * c)
      | BDiv \<Rightarrow> if c = 0 then None else checked_div_i64 a c
      | BMax \<Rightarrow> Some (max a c)
      | BMin \<Rightarrow> Some (min a c))"
| "fold_binary F b (CF a) (CF c) =
     map_option ConstF64 (case b of
        BAdd \<Rightarrow> Some (fp_add F a c)
      | BSub \<Rightarrow> Some (fp_sub F a c)
      | BMul \<Rightarrow> Some (fp_mul F a c)
      | BDiv \<Rightarrow> if f64_is_zero c then None else Some (fp_div F a c)
      | BMax \<Rightarrow> Some (fp_max F a c)
      | BMin \<Rightarrow> Some (fp_min F a c))"
| "fold_binary F b _ _ = None"

definition is_zero_int :: "const_val option \<Rightarrow> bool" where
  "is_zero_int v \<longleftrightarrow> v = Some (CI 0)"

definition is_one :: "const_val option \<Rightarrow> bool" where
  "is_one v = (case v of Some (CI i) \<Rightarrow> i = 1 | _ \<Rightarrow> False)"

text \<open>The operation that marks a pass-through to the first child.\<close>

definition PASS_THROUGH :: xop where
  "PASS_THROUGH = Param 0xFFFFFFFF"

definition local_rules :: "fp \<Rightarrow> xop \<Rightarrow> u32 list \<Rightarrow> const_val option list \<Rightarrow> scalar_type option \<Rightarrow> rewrite option" where
  "local_rules F op children consts elem =
     (let is_int = (elem = None \<or> elem = Some I64) in
      case op of
        Binary b \<Rightarrow>
          (let a = children ! 0; c = children ! 1; ca = consts ! 0; cc = consts ! 1;
               zero = \<lparr>rw_op = ConstI64 0, rw_children = [0, 0, 0, 0], rw_n_children = 0\<rparr>
           in
           case (case (ca, cc) of (Some x, Some y) \<Rightarrow> fold_binary F b x y | _ \<Rightarrow> None) of
             Some folded \<Rightarrow> Some \<lparr>rw_op = folded, rw_children = [0, 0, 0, 0], rw_n_children = 0\<rparr>
           | None \<Rightarrow>
               (let use_child =
                  (if \<not> is_int then None
                   else if b = BAdd \<and> (is_zero_int cc \<or> is_zero_int ca) then Some (if is_zero_int cc then a else c)
                   else if b = BMul \<and> is_one cc then Some a
                   else if b = BSub \<and> is_zero_int cc then Some a
                   else None)
                in
                case use_child of
                  Some ch \<Rightarrow> Some \<lparr>rw_op = PASS_THROUGH, rw_children = [ch, 0, 0, 0], rw_n_children = 1\<rparr>
                | None \<Rightarrow>
                    if \<not> is_int then None
                    else if b = BSub \<and> a = c then Some zero
                    else if b = BMul \<and> (is_zero_int cc \<or> is_zero_int ca) then Some zero
                    else None))
      | _ \<Rightarrow> None)"

definition commutative :: "xop \<Rightarrow> scalar_type option \<Rightarrow> bool" where
  "commutative op elem =
     (let int_only = (elem = None \<or> elem = Some I64 \<or> elem = Some I32) in
      case op of
        Binary b \<Rightarrow> b \<in> {BAdd, BMul, BMax, BMin} \<and> int_only
      | Reduce _ md \<Rightarrow> md \<in> {MMax, MMin, MAnd, MOr}
      | _ \<Rightarrow> False)"

section \<open>What operations mean\<close>

text \<open>
  An interpretation of the operations on runtime values in which constants are themselves, arithmetic on integers is exact
  whenever the exact result is in range, is commutative where the mathematical operation is, and arithmetic on floats is the
  one the folder uses.
\<close>

fun exact_i64 :: "binary_op \<Rightarrow> int \<Rightarrow> int \<Rightarrow> int option" where
  "exact_i64 BAdd x y = Some (x + y)"
| "exact_i64 BSub x y = Some (x - y)"
| "exact_i64 BMul x y = Some (x * y)"
| "exact_i64 BDiv x y = (if y = 0 then None else Some (trunc_div x y))"
| "exact_i64 BMax x y = Some (max x y)"
| "exact_i64 BMin x y = Some (min x y)"

fun exact_f64 :: "fp \<Rightarrow> binary_op \<Rightarrow> f64 \<Rightarrow> f64 \<Rightarrow> f64" where
  "exact_f64 F BAdd x y = fp_add F x y"
| "exact_f64 F BSub x y = fp_sub F x y"
| "exact_f64 F BMul x y = fp_mul F x y"
| "exact_f64 F BDiv x y = fp_div F x y"
| "exact_f64 F BMax x y = fp_max F x y"
| "exact_f64 F BMin x y = fp_min F x y"

definition arithmetic :: "fp \<Rightarrow> (xop \<Rightarrow> rvalue list \<Rightarrow> rvalue) \<Rightarrow> bool" where
  "arithmetic F I \<longleftrightarrow>
     (\<forall>k vs. I (ConstI64 k) vs = VI64 k) \<and> (\<forall>c vs. I (ConstF64 c) vs = VF64 c) \<and>
     (\<forall>b x y z. exact_i64 b x y = Some z \<and> in_i64 z \<longrightarrow> I (Binary b) [VI64 x, VI64 y] = VI64 z) \<and>
     (\<forall>b x y. b \<in> {BAdd, BMul, BMax, BMin} \<longrightarrow> I (Binary b) [VI64 x, VI64 y] = I (Binary b) [VI64 y, VI64 x]) \<and>
     (\<forall>b x y. b \<noteq> BDiv \<or> \<not> f64_is_zero y \<longrightarrow> I (Binary b) [VF64 x, VF64 y] = VF64 (exact_f64 F b x y))"

lemma arithmeticD:
  assumes "arithmetic F I"
  shows "I (ConstI64 k) vs = VI64 k" "I (ConstF64 c) vs = VF64 c"
    "exact_i64 b x y = Some z \<Longrightarrow> in_i64 z \<Longrightarrow> I (Binary b) [VI64 x, VI64 y] = VI64 z"
    "b \<in> {BAdd, BMul, BMax, BMin} \<Longrightarrow> I (Binary b) [VI64 x, VI64 y] = I (Binary b) [VI64 y, VI64 x]"
    "b \<noteq> BDiv \<or> \<not> f64_is_zero w \<Longrightarrow> I (Binary b) [VF64 v, VF64 w] = VF64 (exact_f64 F b v w)"
proof -
  note a = assms [unfolded arithmetic_def]
  show "I (ConstI64 k) vs = VI64 k" using conjunct1 [OF a] by simp
  show "I (ConstF64 c) vs = VF64 c" using conjunct1 [OF conjunct2 [OF a]] by simp
  show "I (Binary b) [VI64 x, VI64 y] = VI64 z" if "exact_i64 b x y = Some z" "in_i64 z"
    using conjunct1 [OF conjunct2 [OF conjunct2 [OF a]]] that by blast
  show "I (Binary b) [VI64 x, VI64 y] = I (Binary b) [VI64 y, VI64 x]" if "b \<in> {BAdd, BMul, BMax, BMin}"
    using conjunct1 [OF conjunct2 [OF conjunct2 [OF conjunct2 [OF a]]]] that by blast
  show "I (Binary b) [VF64 v, VF64 w] = VF64 (exact_f64 F b v w)" if "b \<noteq> BDiv \<or> \<not> f64_is_zero w"
    using conjunct2 [OF conjunct2 [OF conjunct2 [OF conjunct2 [OF a]]]] that by blast
qed

fun const_value :: "const_val \<Rightarrow> rvalue" where
  "const_value (CI k) = VI64 k"
| "const_value (CF c) = VF64 c"

definition is_i64 :: "rvalue \<Rightarrow> bool" where
  "is_i64 v \<longleftrightarrow> (\<exists>k. v = VI64 k \<and> in_i64 k)"

text \<open>The element types under which the rules treat an operation as integer arithmetic.\<close>

definition int_elem :: "scalar_type option \<Rightarrow> bool" where
  "int_elem elem \<longleftrightarrow> elem = None \<or> elem = Some I64 \<or> elem = Some I32"

section \<open>Soundness\<close>

lemma fold_binary_sound:
  assumes "arithmetic F I" "fold_binary F b x y = Some op" "\<And>k. x = CI k \<Longrightarrow> in_i64 k" "\<And>k. y = CI k \<Longrightarrow> in_i64 k"
  shows "I (Binary b) [const_value x, const_value y] = I op []"
proof -
  note d = arithmeticD [OF assms(1)]
  show ?thesis
  proof (cases x)
    case (CI m)
    then obtain n where y: "y = CI n" using assms(2) by (cases y) auto
    then have "in_i64 m" "in_i64 n" using CI assms(3,4) by auto
    then have "\<exists>z. op = ConstI64 z \<and> exact_i64 b m n = Some z \<and> in_i64 z" using assms(2) CI y
      by (cases b; auto simp: checked_i64_def checked_div_i64_def max_def min_def split: if_split_asm)
    then obtain z where z: "op = ConstI64 z" "exact_i64 b m n = Some z" "in_i64 z" by blast
    show ?thesis using CI y d(1) [of z] d(3) [OF z(2,3)] z(1) by simp
  next
    case (CF v)
    then obtain w where w: "y = CF w" using assms(2) by (cases y) auto
    then have "op = ConstF64 (exact_f64 F b v w)" "b \<noteq> BDiv \<or> \<not> f64_is_zero w" using assms(2) CF by (cases b; auto split: if_splits)+
    then show ?thesis using CF w d(2) d(5) [of b w v] by simp
  qed
qed

text \<open>
  The value of a node that a rule fires on: \<open>V\<close> gives the values of the operand classes, and what is known of a constant is
  true.
\<close>

lemma fold_binary_const:
  assumes "fold_binary F b x y = Some op" "\<And>k. x = CI k \<Longrightarrow> in_i64 k" "\<And>k. y = CI k \<Longrightarrow> in_i64 k"
  shows "(\<exists>k. op = ConstI64 k \<and> in_i64 k) \<or> (\<exists>c. op = ConstF64 c)"
  using assms by (cases x; cases y; cases b) (auto simp: checked_i64_Some checked_div_i64_def max_def min_def split: if_splits)

definition const_rewrite :: "rewrite \<Rightarrow> bool" where
  "const_rewrite rw \<longleftrightarrow> rw_n_children rw = 0 \<and> ((\<exists>k. rw_op rw = ConstI64 k \<and> in_i64 k) \<or> (\<exists>c. rw_op rw = ConstF64 c))"

definition pass_rewrite :: "u32 list \<Rightarrow> rewrite \<Rightarrow> bool" where
  "pass_rewrite children rw \<longleftrightarrow> rw_n_children rw = 1 \<and> rw_op rw = PASS_THROUGH \<and> rw_children rw ! 0 \<in> {children ! 0, children ! 1}"

lemma local_rules_sound:
  assumes I: "arithmetic F I" and r: "local_rules F op children consts elem = Some rw"
    and int: "\<And>b. op = Binary b \<Longrightarrow> int_elem elem \<Longrightarrow> is_i64 (V (children ! 0)) \<and> is_i64 (V (children ! 1))"
    and c: "\<And>k i. i < 2 \<Longrightarrow> consts ! i = Some k \<Longrightarrow> V (children ! i) = const_value k \<and> (\<forall>m. k = CI m \<longrightarrow> in_i64 m)"
  shows "const_rewrite rw \<and> I op [V (children ! 0), V (children ! 1)] = I (rw_op rw) [] \<or>
    pass_rewrite children rw \<and> I op [V (children ! 0), V (children ! 1)] = V (rw_children rw ! 0)"
proof -
  obtain b where op: "op = Binary b" using r by (cases op) (simp_all add: local_rules_def)
  note d = arithmeticD [OF I]
  have c0: "V (children ! 0) = const_value k" "\<And>m. k = CI m \<Longrightarrow> in_i64 m" if "consts ! 0 = Some k" for k using c [of 0 k] that by auto
  have c1: "V (children ! 1) = const_value k" "\<And>m. k = CI m \<Longrightarrow> in_i64 m" if "consts ! 1 = Some k" for k using c [of 1 k] that by auto
  let ?fold = "case (consts ! 0, consts ! 1) of (Some x, Some y) \<Rightarrow> fold_binary F b x y | _ \<Rightarrow> None"
  show ?thesis
  proof (cases ?fold)
    case (Some folded)
    then obtain x y where xy: "consts ! 0 = Some x" "consts ! 1 = Some y" "fold_binary F b x y = Some folded" by (auto split: option.splits)
    have "rw = \<lparr>rw_op = folded, rw_children = [0, 0, 0, 0], rw_n_children = 0\<rparr>" using r op Some by (simp add: local_rules_def Let_def)
    then show ?thesis
      using fold_binary_sound [OF I xy(3) c0(2) [OF xy(1)] c1(2) [OF xy(2)]] fold_binary_const [OF xy(3) c0(2) [OF xy(1)] c1(2) [OF xy(2)]]
        c0(1) [OF xy(1)] c1(1) [OF xy(2)] op by (simp add: const_rewrite_def)
  next
    case None
    have e: "elem = None \<or> elem = Some I64" using r op None by (auto simp: local_rules_def Let_def split: if_splits)
    then obtain x y where v: "V (children ! 0) = VI64 x" "V (children ! 1) = VI64 y" "in_i64 x" "in_i64 y"
      using int [OF op] by (auto simp: int_elem_def is_i64_def)
    have z0: "x = 0" if "is_zero_int (consts ! 0)" using c0(1) that v(1) by (simp add: is_zero_int_def)
    have z1: "y = 0" if "is_zero_int (consts ! 1)" using c1(1) that v(2) by (simp add: is_zero_int_def)
    have o1: "y = 1" if "is_one (consts ! 1)" using c1(1) that v(2) by (auto simp: is_one_def split: option.splits const_val.splits)
    have same: "x = y" if "children ! 0 = children ! 1" using v(1,2) that by simp
    have i0: "in_i64 0" by (simp add: in_i64_def i64_min_def i64_max_def)
    have v2: "V (children ! Suc 0) = VI64 y" using v(2) by simp
    show ?thesis using r None e v(3,4) z0 z1 o1 i0 same
      unfolding op v(1,2)
      by (auto simp: local_rules_def Let_def const_rewrite_def pass_rewrite_def d(1) v(1) v2 intro!: d(3) split: if_splits)
  qed
qed

lemma commutative_sound:
  assumes "arithmetic F I" "commutative op elem" "\<forall>k m. op \<noteq> Reduce k m"
    "\<And>b. op = Binary b \<Longrightarrow> int_elem elem \<Longrightarrow> is_i64 v \<and> is_i64 w"
  shows "I op [v, w] = I op [w, v]"
proof -
  obtain b where op: "op = Binary b" "b \<in> {BAdd, BMul, BMax, BMin}" "int_elem elem"
    using assms(2,3) by (cases op) (auto simp: commutative_def int_elem_def)
  obtain x y where "v = VI64 x" "w = VI64 y" using assms(4) [OF op(1,3)] by (auto simp: is_i64_def)
  then show ?thesis using arithmeticD(4) [OF assms(1) op(2)] op(1) by simp
qed

end
