(* ===== verification/Saturate.thy ===== *)
theory Saturate
  imports Rules EGraph_Rebuild Executor Compile_Correct
begin

text \<open>
  Equality saturation, \<^verbatim>\<open>crates/egraph/src/lift.rs\<close> and \<^verbatim>\<open>saturate.rs\<close>: the pure part of an arena is lifted to an e-graph,
  and a bounded number of rounds applies the rewrite rules, the commuted forms and the congruence rebuild. The rules of a
  round run on the worker pool, whose size is a parameter.
\<close>

section \<open>Lifting\<close>

record lift_record =
  lr_node :: node_id
  lr_op :: xop
  lr_children :: "u32 list"
  lr_n_children :: u8
  lr_elem :: "scalar_type option"

record lifted =
  lg_g :: egraph
  lg_recs :: "lift_record list"
  lg_node_class :: "u32 option list"
  lg_xir_of :: "node_id option list"
  lg_class_const :: "const_val option list"

fun lift_elem_of :: "ty \<Rightarrow> scalar_type option" where
  "lift_elem_of (Scalar s) = Some s"
| "lift_elem_of (Tensor t) = Some (tt_elem t)"
| "lift_elem_of (MemRef t _) = Some (tt_elem t)"
| "lift_elem_of _ = None"

fun const_of_op :: "xop \<Rightarrow> const_val option" where
  "const_of_op (ConstI64 v) = Some (CI v)"
| "const_of_op (ConstF64 v) = Some (CF v)"
| "const_of_op _ = None"

definition liftable :: "arena \<Rightarrow> node_id list" where
  "liftable a =
     map fst (filter (\<lambda>(_, n). is_pure (nd_op n) \<and>
       list_all (\<lambda>v. nid_is_none (vid_node v) \<or>
         (case arena_node a (vid_node v) of Inr p \<Rightarrow> is_pure (nd_op p) | Inl _ \<Rightarrow> False)) (node_uses n)) (live_nodes a))"

text \<open>The classes of the operands, if all are lifted and there are at most four.\<close>

fun lift_children :: "u32 option list \<Rightarrow> value_id list \<Rightarrow> u32 list \<Rightarrow> u32 list option" where
  "lift_children node_class [] children = Some children"
| "lift_children node_class (v # vs) children =
     (if nid_is_none (vid_node v) then lift_children node_class vs children
      else case slot_get node_class (vid_node v) of
        Some c \<Rightarrow> if length children < 4 then lift_children node_class vs (children @ [c]) else None
      | None \<Rightarrow> None)"

text \<open>A write to \<^verbatim>\<open>class_const\<close>; out of its range nothing is written.\<close>

definition note_const :: "const_val option \<Rightarrow> u32 \<Rightarrow> lifted \<Rightarrow> lifted" where
  "note_const k c lg = (case k of None \<Rightarrow> lg | Some v \<Rightarrow> lg\<lparr>lg_class_const := (lg_class_const lg)[unat c := Some v]\<rparr>)"

text \<open>\<^verbatim>\<open>g.add\<close> with the bookkeeping of \<^verbatim>\<open>xir_of\<close>: one entry for every node that the e-graph really created.\<close>

definition lg_add :: "lifted \<Rightarrow> xop \<Rightarrow> u32 list \<Rightarrow> node_id option \<Rightarrow> (egraph_error, u32 \<times> lifted) outcome" where
  "lg_add lg op children origin =
     obind (eg_add (lg_g lg) op children) (\<lambda>(c, g').
       Ok (c, lg\<lparr>lg_g := g',
         lg_xir_of := (if eg_node_count g' > eg_node_count (lg_g lg) then lg_xir_of lg @ [origin] else lg_xir_of lg)\<rparr>))"

definition lift_node :: "arena \<Rightarrow> node_id \<Rightarrow> lifted \<times> node_id list \<times> bool \<Rightarrow> (egraph_error, lifted \<times> node_id list \<times> bool) outcome" where
  "lift_node a x = (\<lambda>(lg, later, progressed).
     case arena_node a x of
       Inl _ \<Rightarrow> Err BadClass
     | Inr n \<Rightarrow>
         (case lift_children (lg_node_class lg) (node_uses n) [] of
            None \<Rightarrow> Ok (lg, later @ [x], progressed)
          | Some children \<Rightarrow>
              obind (lg_add lg (nd_op n) children (Some x)) (\<lambda>(c, lg1).
                Ok (note_const (const_of_op (nd_op n)) c
                      (lg1\<lparr>lg_node_class := (lg_node_class lg1)[unat (nid_index x) := Some c],
                           lg_recs := lg_recs lg1 @ [\<lparr>lr_node = x, lr_op = nd_op n,
                             lr_children = children @ replicate (4 - length children) 0,
                             lr_n_children = word_of_nat (length children), lr_elem = lift_elem_of (nd_ty n)\<rparr>]\<rparr>),
                    later, True))))"

primrec lift_pass :: "arena \<Rightarrow> node_id list \<Rightarrow> lifted \<times> node_id list \<times> bool \<Rightarrow> (egraph_error, lifted \<times> node_id list \<times> bool) outcome" where
  "lift_pass a [] st = Ok st"
| "lift_pass a (x # xs) st = obind (lift_node a x st) (lift_pass a xs)"

text \<open>The passes over what is not lifted yet; the number is the source's own bound.\<close>

primrec lift_passes :: "nat \<Rightarrow> arena \<Rightarrow> node_id list \<Rightarrow> lifted \<Rightarrow> (egraph_error, lifted) outcome" where
  "lift_passes 0 a remaining lg = Ok lg"
| "lift_passes (Suc k) a remaining lg =
     (if remaining = [] then Ok lg
      else obind (lift_pass a remaining (lg, [], False)) (\<lambda>(lg', later, progressed).
        if progressed then lift_passes k a later lg' else Ok lg'))"

definition lift_new :: "arena \<Rightarrow> nat \<Rightarrow> lifted" where
  "lift_new a budget =
     \<lparr>lg_g = egraph_new budget, lg_recs = [], lg_node_class = replicate (slot_count a) None, lg_xir_of = [],
      lg_class_const = replicate (budget + 1) None\<rparr>"

definition lift :: "arena \<Rightarrow> nat \<Rightarrow> (egraph_error, lifted) outcome" where
  "lift a budget = lift_passes (slot_count a + 2) a (liftable a) (lift_new a budget)"

section \<open>Rounds\<close>

definition MAX_ROUNDS :: nat where "MAX_ROUNDS = 4"

definition class_const_get :: "lifted \<Rightarrow> u32 \<Rightarrow> const_val option" where
  "class_const_get lg c = (case nth_opt (lg_class_const lg) (unat c) of Some k \<Rightarrow> k | None \<Rightarrow> None)"

definition propagate_const :: "u32 \<Rightarrow> u32 \<Rightarrow> lifted \<Rightarrow> lifted" where
  "propagate_const winner loser lg =
     (if class_const_get lg winner = None then note_const (class_const_get lg loser) winner lg else lg)"

record rule_snap =
  rs_op :: xop
  rs_children :: "u32 list"
  rs_consts :: "const_val option list"
  rs_elem :: "scalar_type option"

definition lg_canon :: "lifted \<Rightarrow> u32 \<Rightarrow> (egraph_error, u32 \<times> lifted) outcome" where
  "lg_canon lg c = obind (eg_canon (lg_g lg) c) (\<lambda>(r, g'). Ok (r, lg\<lparr>lg_g := g'\<rparr>))"

primrec snap_children :: "u32 list \<Rightarrow> lifted \<Rightarrow> (egraph_error, (u32 \<times> const_val option) list \<times> lifted) outcome" where
  "snap_children [] lg = Ok ([], lg)"
| "snap_children (c # cs) lg =
     obind (lg_canon lg c) (\<lambda>(r, lg1).
     obind (snap_children cs lg1) (\<lambda>(rs, lg2). Ok ((r, class_const_get lg1 r) # rs, lg2)))"

definition snap_rec :: "lift_record \<Rightarrow> lifted \<Rightarrow> (egraph_error, rule_snap \<times> lifted) outcome" where
  "snap_rec r lg =
     obind (snap_children (take (unat (lr_n_children r)) (lr_children r)) lg) (\<lambda>(cs, lg').
       Ok (\<lparr>rs_op = lr_op r, rs_children = map fst cs @ replicate (4 - length cs) 0,
            rs_consts = map snd cs @ replicate (4 - length cs) None, rs_elem = lr_elem r\<rparr>, lg'))"

primrec snap_recs :: "lift_record list \<Rightarrow> lifted \<Rightarrow> (egraph_error, rule_snap list \<times> lifted) outcome" where
  "snap_recs [] lg = Ok ([], lg)"
| "snap_recs (r # rs) lg =
     obind (snap_rec r lg) (\<lambda>(s, lg1). obind (snap_recs rs lg1) (\<lambda>(ss, lg2). Ok (s # ss, lg2)))"

definition rule_results :: "fp \<Rightarrow> nat \<Rightarrow> bool \<Rightarrow> nat \<Rightarrow> rule_snap list \<Rightarrow> rewrite option list" where
  "rule_results F pool in_region workers snaps =
     (let f = (\<lambda>s. local_rules F (rs_op s) (rs_children s) (rs_consts s) (rs_elem s)) in
      case run_partitioned_pooled pool in_region snaps (replicate (length snaps) None) (max workers 1) f of
        (Inr _, results) \<Rightarrow> results
      | (Inl _, _) \<Rightarrow> map f snaps)"

definition own_class :: "lifted \<Rightarrow> node_id \<Rightarrow> (egraph_error, u32 \<times> lifted) outcome" where
  "own_class lg x = obind (ok_or (slot_get (lg_node_class lg) x) BadClass) (lg_canon lg)"

definition lg_merge :: "lifted \<Rightarrow> u32 \<Rightarrow> u32 \<Rightarrow> (egraph_error, u32 \<times> lifted) outcome" where
  "lg_merge lg x y = obind (eg_merge (lg_g lg) x y) (\<lambda>(w, g'). Ok (w, lg\<lparr>lg_g := g'\<rparr>))"

definition apply_rewrite :: "lift_record \<Rightarrow> rewrite option \<Rightarrow> lifted \<times> u32 \<Rightarrow> (egraph_error, lifted \<times> u32) outcome" where
  "apply_rewrite r rw = (\<lambda>(lg, fired).
     case rw of
       None \<Rightarrow> Ok (lg, fired)
     | Some w \<Rightarrow>
         obind (own_class lg (lr_node r)) (\<lambda>(own, lg1).
           if rw_n_children w = 0 then
             obind (lg_add lg1 (rw_op w) [] None) (\<lambda>(nc, lg2).
             obind (lg_merge lg2 own nc) (\<lambda>(winner, lg3).
               Ok (note_const (const_of_op (rw_op w)) winner lg3, fired + 1)))
           else if rw_n_children w = 1 \<and> op_eq (rw_op w) PASS_THROUGH then
             (let child = rw_children w ! 0 in
              obind (lg_merge lg1 own child) (\<lambda>(winner, lg2).
                Ok (propagate_const winner (if winner = own then child else own) lg2, fired + 1)))
           else Ok (lg1, fired)))"

primrec apply_rewrites :: "(lift_record \<times> rewrite option) list \<Rightarrow> lifted \<times> u32 \<Rightarrow> (egraph_error, lifted \<times> u32) outcome" where
  "apply_rewrites [] st = Ok st"
| "apply_rewrites (x # xs) st = obind (apply_rewrite (fst x) (snd x) st) (apply_rewrites xs)"

text \<open>The second half of the commutation loop: the swapped form joins the class of its node.\<close>

definition add_swapped :: "lift_record \<Rightarrow> u32 \<Rightarrow> u32 \<Rightarrow> lifted \<times> u32 \<Rightarrow> (egraph_error, lifted \<times> u32) outcome" where
  "add_swapped r c0 c1 = (\<lambda>(lg, fired).
     obind (own_class lg (lr_node r)) (\<lambda>(own, lg1).
     obind (lg_add lg1 (lr_op r) [c1, c0] None) (\<lambda>(swapped, lg2).
     obind (lg_canon lg2 swapped) (\<lambda>(swapped_c, lg3).
       if own \<noteq> swapped_c then
         obind (lg_merge lg3 own swapped_c) (\<lambda>(winner, lg4).
           Ok (propagate_const winner swapped_c (propagate_const winner own lg4), fired + 1))
       else Ok (lg3, fired)))))"

definition commute_rec :: "lift_record \<Rightarrow> lifted \<times> u32 \<Rightarrow> (egraph_error, lifted \<times> u32) outcome" where
  "commute_rec r = (\<lambda>(lg, fired).
     if lr_n_children r \<noteq> 2 \<or> \<not> commutative (lr_op r) (lr_elem r) then Ok (lg, fired)
     else
       obind (lg_canon lg (lr_children r ! 0)) (\<lambda>(c0, lg1).
       obind (lg_canon lg1 (lr_children r ! 1)) (\<lambda>(c1, lg2).
         if c0 = c1 then Ok (lg2, fired) else add_swapped r c0 c1 (lg2, fired))))"

primrec commute_recs :: "lift_record list \<Rightarrow> lifted \<times> u32 \<Rightarrow> (egraph_error, lifted \<times> u32) outcome" where
  "commute_recs [] st = Ok st"
| "commute_recs (r # rs) st = obind (commute_rec r st) (commute_recs rs)"

primrec spread_consts :: "nat list \<Rightarrow> lifted \<Rightarrow> (egraph_error, lifted) outcome" where
  "spread_consts [] lg = Ok lg"
| "spread_consts (i # is) lg =
     (if lg_class_const lg ! i = None then spread_consts is lg
      else obind (lg_canon lg (word_of_nat i)) (\<lambda>(c, lg'). spread_consts is (propagate_const c (word_of_nat i) lg')))"

text \<open>One round: the numbers of rules and of commutations that fired, of merges of the rebuild, and the graph.\<close>

definition run_round :: "fp \<Rightarrow> nat \<Rightarrow> bool \<Rightarrow> nat \<Rightarrow> lifted \<Rightarrow> (egraph_error, (u32 \<times> u32 \<times> u32) \<times> lifted) outcome" where
  "run_round F pool in_region workers lg =
     (let recs = lg_recs lg in
      obind (snap_recs recs lg) (\<lambda>(snaps, lg1).
      obind (apply_rewrites (zip recs (rule_results F pool in_region workers snaps)) (lg1, 0)) (\<lambda>(lg2, round_fired).
      obind (commute_recs recs (lg2, 0)) (\<lambda>(lg3, commute_fired).
      obind (eg_rebuild (lg_g lg3)) (\<lambda>(merged, g').
      obind (spread_consts [0 ..< length (lg_class_const lg3)] (lg3\<lparr>lg_g := g'\<rparr>)) (\<lambda>lg4.
        Ok ((round_fired, commute_fired, merged), lg4)))))))"

primrec rounds :: "fp \<Rightarrow> nat \<Rightarrow> bool \<Rightarrow> nat \<Rightarrow> nat \<Rightarrow> lifted \<Rightarrow> u32 \<Rightarrow> (egraph_error, u32 \<times> lifted) outcome" where
  "rounds F pool in_region workers 0 lg applied = Ok (applied, lg)"
| "rounds F pool in_region workers (Suc k) lg applied =
     obind (run_round F pool in_region workers lg) (\<lambda>((rf, cf, merged), lg').
       if rf = 0 \<and> cf = 0 \<and> merged = 0 then Ok (applied + (rf + cf), lg')
       else rounds F pool in_region workers k lg' (applied + (rf + cf)))"

definition run_rounds :: "fp \<Rightarrow> nat \<Rightarrow> bool \<Rightarrow> nat \<Rightarrow> lifted \<Rightarrow> (egraph_error, u32 \<times> lifted) outcome" where
  "run_rounds F pool in_region workers lg = rounds F pool in_region workers MAX_ROUNDS lg 0"

definition saturate :: "fp \<Rightarrow> nat \<Rightarrow> bool \<Rightarrow> nat \<Rightarrow> arena \<Rightarrow> nat \<Rightarrow> (egraph_error, u32 \<times> egraph) outcome" where
  "saturate F pool in_region workers a node_budget =
     obind (lift a node_budget) (\<lambda>lg.
     obind (run_rounds F pool in_region workers lg) (\<lambda>(applied, lg'). Ok (applied, lg_g lg')))"

end
