(* ===== verification/Saturate_Sound.thy ===== *)
theory Saturate_Sound
  imports Saturate Canonical
begin

text \<open>
  Equality saturation is sound. A valuation of the classes explains the e-graph when every e-node has the value its operation
  computes from its operand classes and nodes of one class have one value; adding, merging equal classes, rebuilding, and
  every step of the lifting and of the rounds keep an e-graph explained by the values the arena denotes.
\<close>

section \<open>Explained e-graphs\<close>

definition node_value :: "(xop \<Rightarrow> rvalue list \<Rightarrow> rvalue) \<Rightarrow> (nat \<Rightarrow> rvalue) \<Rightarrow> enode \<Rightarrow> rvalue" where
  "node_value I V x = I (en_op x) (map (\<lambda>c. V (unat c)) (take (unat (en_n_children x)) (en_children x)))"

definition explains :: "(xop \<Rightarrow> rvalue list \<Rightarrow> rvalue) \<Rightarrow> (nat \<Rightarrow> rvalue) \<Rightarrow> egraph \<Rightarrow> bool" where
  "explains I V g \<longleftrightarrow> eg_inv g \<and>
     (\<forall>i < length (eg_nodes g). V i = node_value I V (eg_nodes g ! i) \<and> en_seq (eg_nodes g ! i) = word_of_nat i) \<and>
     (\<forall>i < length (eg_nodes g). \<forall>j < length (eg_nodes g). uf_canon (eg_uf g) i = uf_canon (eg_uf g) j \<longrightarrow> V i = V j)"

lemma explainsD:
  assumes "explains I V g"
  shows "eg_inv g" "i < length (eg_nodes g) \<Longrightarrow> V i = node_value I V (eg_nodes g ! i)"
    "i < length (eg_nodes g) \<Longrightarrow> en_seq (eg_nodes g ! i) = word_of_nat i"
    "i < length (eg_nodes g) \<Longrightarrow> j < length (eg_nodes g) \<Longrightarrow> uf_canon (eg_uf g) i = uf_canon (eg_uf g) j \<Longrightarrow> V i = V j"
  using assms unfolding explains_def by blast+

lemma explainsI:
  assumes "eg_inv g" "\<And>i. i < length (eg_nodes g) \<Longrightarrow> V i = node_value I V (eg_nodes g ! i)"
    "\<And>i. i < length (eg_nodes g) \<Longrightarrow> en_seq (eg_nodes g ! i) = word_of_nat i"
    "\<And>i j. i < length (eg_nodes g) \<Longrightarrow> j < length (eg_nodes g) \<Longrightarrow> uf_canon (eg_uf g) i = uf_canon (eg_uf g) j \<Longrightarrow> V i = V j"
  shows "explains I V g"
  using assms unfolding explains_def by blast

lemma node_value_cong:
  assumes "enode_wf n x" "\<And>i. i < n \<Longrightarrow> V i = W i"
  shows "node_value I V x = node_value I W x"
proof -
  have "unat (en_children x ! j) < n" if "j < unat (en_n_children x)" for j using assms(1) that by (simp add: enode_wf_def)
  then have "map (\<lambda>c. V (unat c)) (take (unat (en_n_children x)) (en_children x)) = map (\<lambda>c. W (unat c)) (take (unat (en_n_children x)) (en_children x))"
    using assms(2) by (intro nth_equalityI) auto
  then show ?thesis unfolding node_value_def by (rule arg_cong)
qed

lemma canon_value:
  assumes "explains I V g" "i < length (eg_nodes g)"
  shows "V (uf_canon (eg_uf g) i) = V i" "uf_canon (eg_uf g) i < length (eg_nodes g)"
    "unat (word_of_nat (uf_canon (eg_uf g) i) :: u32) = uf_canon (eg_uf g) i"
proof -
  have uf: "uf_inv (eg_uf g)" using explainsD(1) [OF assms(1)] by (simp add: eg_inv_def)
  show lt: "uf_canon (eg_uf g) i < length (eg_nodes g)" using uf.canon_le [OF uf, of i] assms(2) by simp
  show "V (uf_canon (eg_uf g) i) = V i" using explainsD(4) [OF assms(1) lt assms(2)] uf.canon_idem [OF uf] by simp
  show "unat (word_of_nat (uf_canon (eg_uf g) i) :: u32) = uf_canon (eg_uf g) i"
    using lt eg_inv_bound [OF explainsD(1) [OF assms(1)]] by (intro unat_of_nat_small) simp
qed

lemma explains_new: "n \<le> 2 ^ 31 \<Longrightarrow> explains I V (egraph_new n)"
  using eg_new_inv [of n] by (simp add: explains_def egraph_new_def)

lemma node_congruent_value:
  assumes wf: "enode_wf n x" and c: "node_congruent x op children (length children)"
  shows "node_value I V x = I op (map (\<lambda>c. V (unat c)) children)"
proof -
  have "en_op x = op" using c by (auto simp: node_congruent_def op_congruent_def op_eq_iff split: xop.splits prod.splits)
  moreover have "take (unat (en_n_children x)) (en_children x) = children"
    using c wf by (intro nth_equalityI) (auto simp: node_congruent_def enode_wf_def list_all_iff)
  ultimately show ?thesis by (simp add: node_value_def)
qed

text \<open>Adding a node.\<close>

lemma add_explains:
  assumes ex: "explains I V g" and ch: "\<forall>c \<in> set children. unat c < length (eg_nodes g)" "length children \<le> 4"
  shows "eg_add g op children = Err EgFull \<or>
    (\<exists>c g' W. eg_add g op children = Ok (c, g') \<and> explains I W g' \<and> eg_capacity g' = eg_capacity g \<and>
       (\<forall>i < length (eg_nodes g). W i = V i) \<and> unat c < length (eg_nodes g') \<and>
       W (unat c) = I op (map (\<lambda>c. V (unat c)) children) \<and>
       (g' = g \<or> length (eg_nodes g') = length (eg_nodes g) + 1 \<and> unat c = length (eg_nodes g)))"
proof (cases "length (eg_nodes g) < eg_capacity g")
  case False
  then show ?thesis by (simp add: eg_add_def)
next
  case True
  note inv = explainsD(1) [OF ex]
  let ?n = "length (eg_nodes g)" and ?val = "I op (map (\<lambda>c. V (unat c)) children)"
  show ?thesis using eg_add_cases [OF inv True ch(2,1), of op]
  proof (elim disjE exE conjE)
    fix i assume i: "i < ?n" "node_congruent (eg_nodes g ! i) op children (length children)"
      "eg_add g op children = Ok (word_of_nat (uf_canon (eg_uf g) i), g)"
    have "V (uf_canon (eg_uf g) i) = ?val"
      using canon_value(1) [OF ex i(1)] explainsD(2) [OF ex i(1)] node_congruent_value [OF eg_inv_node [OF inv i(1)] i(2), of I V] by simp
    then show ?thesis using ex i(3) canon_value(2,3) [OF ex i(1)]
      by (intro disjI2 exI [of _ "word_of_nat (uf_canon (eg_uf g) i)"] exI [of _ g] exI [of _ V]) simp
  next
    let ?a = "eg_append g op children (node_key op children)"
    assume eq: "eg_add g op children = Ok ?a"
    note app = eg_append_inv [OF inv True ch(2,1), of op "node_key op children"]
    define W where "W = V(?n := ?val)"
    have un: "unat (fst ?a) = ?n" unfolding app(2) using eg_inv_bound [OF inv] by (intro unat_of_nat_small) simp
    have W: "W i = V i" if "i < ?n" for i using that by (simp add: W_def)
    obtain x where x: "eg_nodes (snd ?a) = eg_nodes g @ [x]" "en_op x = op" "take (length children) (en_children x) = children"
        "unat (en_n_children x) = length children" "en_seq x = word_of_nat ?n"
      using ch(2) unat_of_nat_small [of "length children", where 'a = 8] by (simp add: eg_append_def Let_def)
    have uf: "eg_uf (snd ?a) = eg_uf g" "eg_capacity (snd ?a) = eg_capacity g" by (simp_all add: eg_append_def Let_def)
    have new: "node_value I W x = ?val"
    proof -
      have "map (\<lambda>c. W (unat c)) children = map (\<lambda>c. V (unat c)) children" using ch(1) W by (intro map_cong) auto
      then show ?thesis unfolding node_value_def x(2,4) x(3) by (rule arg_cong)
    qed
    have old: "node_value I W (eg_nodes g ! i) = V i" if "i < ?n" for i
      using node_value_cong [OF eg_inv_node [OF inv that], of W V I] W explainsD(2) [OF ex that] by simp
    have root: "uf_canon (eg_uf g) ?n = ?n" using inv True by (simp add: eg_inv_def)
    have below: "uf_canon (eg_uf g) i < ?n" if "i < ?n" for i using canon_value(2) [OF ex that] .
    have "explains I W (snd ?a)" unfolding explains_def
    proof (intro conjI allI impI)
      show "eg_inv (snd ?a)" by (rule app(1))
    next
      fix i assume "i < length (eg_nodes (snd ?a))"
      then have "i < ?n \<or> i = ?n" using x(1) by auto
      then show "W i = node_value I W (eg_nodes (snd ?a) ! i)" "en_seq (eg_nodes (snd ?a) ! i) = word_of_nat i"
        using W old new x(1,5) explainsD(3) [OF ex] by (auto simp: nth_append) (simp add: W_def)
    next
      fix i j assume "i < length (eg_nodes (snd ?a))" "j < length (eg_nodes (snd ?a))" and c: "uf_canon (eg_uf (snd ?a)) i = uf_canon (eg_uf (snd ?a)) j"
      then have ij: "i < ?n \<or> i = ?n" "j < ?n \<or> j = ?n" using x(1) by auto
      have c': "uf_canon (eg_uf g) i = uf_canon (eg_uf g) j" using c uf(1) by simp
      show "W i = W j"
      proof (cases "i = j")
        case False
        then have "i < ?n" "j < ?n" using ij c' root below [of i] below [of j] by auto
        then show ?thesis using W explainsD(4) [OF ex _ _ c'] by simp
      qed simp
    qed
    then show ?thesis using eq un x(1) uf(2) W
      by (intro disjI2 exI [of _ "fst ?a"] exI [of _ "snd ?a"] exI [of _ W]) (auto simp: W_def)
  qed
qed

text \<open>Looking up a representative.\<close>

lemma canon_explains:
  assumes "explains I V g" "unat c < 2 * eg_capacity g"
  shows "\<exists>g'. eg_canon g c = Ok (word_of_nat (uf_canon (eg_uf g) (unat c)), g') \<and> explains I V g' \<and>
    eg_capacity g' = eg_capacity g \<and> eg_nodes g' = eg_nodes g \<and> (\<forall>i < 2 * eg_capacity g. uf_canon (eg_uf g') i = uf_canon (eg_uf g) i)"
proof -
  note inv = explainsD(1) [OF assms(1)]
  have uf: "uf_inv (eg_uf g)" "uf_len (eg_uf g) = 2 * eg_capacity g" using inv by (simp_all add: eg_inv_def)
  obtain u where u: "uf_find (eg_uf g) c = Ok (word_of_nat (uf_canon (eg_uf g) (unat c)), u)" "uf_inv u" "uf_len u = uf_len (eg_uf g)"
    "\<forall>i < uf_len (eg_uf g). uf_canon u i = uf_canon (eg_uf g) i" using uf.find_ok [OF uf(1), of c] assms(2) uf(2) by auto
  have "length (eg_nodes g) \<le> uf_len (eg_uf g)" using inv by (simp add: eg_inv_def)
  then have same: "uf_canon u i = uf_canon (eg_uf g) i" if "i < length (eg_nodes g)" for i using that u(4) by simp
  have "explains I V (g\<lparr>eg_uf := u\<rparr>)"
  proof (rule explainsI)
    show "eg_inv (g\<lparr>eg_uf := u\<rparr>)" by (rule eg_inv_uf [OF inv u(2,3,4)])
    fix i assume i: "i < length (eg_nodes (g\<lparr>eg_uf := u\<rparr>))"
    then show "V i = node_value I V (eg_nodes (g\<lparr>eg_uf := u\<rparr>) ! i)" using explainsD(2) [OF assms(1), of i] by simp
    show "en_seq (eg_nodes (g\<lparr>eg_uf := u\<rparr>) ! i) = word_of_nat i" using explainsD(3) [OF assms(1), of i] i by simp
    fix j assume "j < length (eg_nodes (g\<lparr>eg_uf := u\<rparr>))" "uf_canon (eg_uf (g\<lparr>eg_uf := u\<rparr>)) i = uf_canon (eg_uf (g\<lparr>eg_uf := u\<rparr>)) j"
    then show "V i = V j" using explainsD(4) [OF assms(1), of i j] i same by simp
  qed
  then show ?thesis using u uf(2) by (simp add: eg_canon_def)
qed

text \<open>Merging classes of one value.\<close>

lemma merge_explains:
  assumes ex: "explains I V g" and x: "unat x < length (eg_nodes g)" and y: "unat y < length (eg_nodes g)" and eq: "V (unat x) = V (unat y)"
  shows "\<exists>w g'. eg_merge g x y = Ok (w, g') \<and> explains I V g' \<and> eg_capacity g' = eg_capacity g \<and> eg_nodes g' = eg_nodes g \<and>
    unat w < length (eg_nodes g) \<and> V (unat w) = V (unat x)"
proof -
  note inv = explainsD(1) [OF ex]
  let ?f = "uf_canon (eg_uf g)" and ?n = "length (eg_nodes g)"
  let ?w = "min (?f (unat x)) (?f (unat y))"
  obtain g' where g': "eg_merge g x y = Ok (word_of_nat ?w, g')" "eg_inv g'" "eg_nodes g' = eg_nodes g" "eg_capacity g' = eg_capacity g"
    "\<forall>i < 2 * eg_capacity g. uf_canon (eg_uf g') i = merge_canon ?f (unat x) (unat y) i"
    using eg_merge_ok [OF inv x y] by blast
  have cap: "?n \<le> eg_capacity g" using inv by (simp add: eg_inv_def)
  have V: "V (?f i) = V i" if "i < ?n" for i using canon_value(1) [OF ex that] .
  have m: "V (merge_canon ?f (unat x) (unat y) i) = V i" if "i < ?n" for i
  proof -
    have "V ?w = V (unat x)" using V [OF x] V [OF y] eq by (simp add: min_def)
    moreover have "V i = V (unat x)" if "?f i = ?f (unat x) \<or> ?f i = ?f (unat y)"
      using that V [OF \<open>i < ?n\<close>] V [OF x] V [OF y] eq by auto
    ultimately show ?thesis using V [OF that] by (simp add: merge_canon_def)
  qed
  have "V i = V j" if "i < ?n" "j < ?n" "uf_canon (eg_uf g') i = uf_canon (eg_uf g') j" for i j
  proof -
    have "merge_canon ?f (unat x) (unat y) i = merge_canon ?f (unat x) (unat y) j" using that g'(5) cap by simp
    then show ?thesis using m [OF that(1)] m [OF that(2)] by simp
  qed
  note same = this
  have "explains I V g'"
  proof (rule explainsI)
    show "eg_inv g'" by (rule g'(2))
    fix i assume "i < length (eg_nodes g')"
    then have i: "i < ?n" by (simp add: g'(3))
    show "V i = node_value I V (eg_nodes g' ! i)" unfolding g'(3) by (rule explainsD(2) [OF ex i])
    show "en_seq (eg_nodes g' ! i) = word_of_nat i" unfolding g'(3) by (rule explainsD(3) [OF ex i])
    fix j assume "j < length (eg_nodes g')" "uf_canon (eg_uf g') i = uf_canon (eg_uf g') j"
    then show "V i = V j" using same [OF i] by (simp add: g'(3))
  qed
  moreover have "?w < ?n" "V ?w = V (unat x)" using canon_value(2) [OF ex x] V [OF x] V [OF y] eq by (auto simp: min_def)
  moreover have "unat (word_of_nat ?w :: u32) = ?w" using canon_value(3) [OF ex x] canon_value(3) [OF ex y] by (simp add: min_def)
  ultimately show ?thesis using g'(1,3,4) by auto
qed

text \<open>The rebuild.\<close>

lemma rebuild_explains:
  assumes ex: "explains I V g"
  shows "\<exists>m g'. eg_rebuild g = Ok (m, g') \<and> explains I V g' \<and> eg_capacity g' = eg_capacity g \<and> length (eg_nodes g') = length (eg_nodes g)"
proof -
  note inv = explainsD(1) [OF ex]
  let ?n = "length (eg_nodes g)"
  obtain m g' h where r: "eg_rebuild g = Ok (m, g')" "eg_inv g'" "same_terms g h" "eg_nodes g' = eg_nodes h" "eg_capacity g' = eg_capacity g"
    "\<forall>i < ?n. \<forall>j < ?n. (uf_canon (eg_uf g) i = uf_canon (eg_uf g) j \<longrightarrow> uf_canon (eg_uf g') i = uf_canon (eg_uf g') j) \<and>
       (uf_canon (eg_uf g') i = uf_canon (eg_uf g') j \<longrightarrow> (\<forall>R. congruence_on g R \<longrightarrow> R i j))"
    using rebuild_ok [OF inv] by blast
  note st = same_termsD [OF r(3)]
  have val: "node_value I V (eg_nodes h ! i) = node_value I V (eg_nodes g ! i)" if i: "i < ?n" for i
  proof -
    have wf: "enode_wf ?n (eg_nodes g ! i)" "enode_wf ?n (eg_nodes h ! i)"
      using eg_inv_node [OF inv i] eg_inv_node [OF st(1)] i st(3) by simp_all
    let ?k = "unat (en_n_children (eg_nodes g ! i))"
    have "V (unat (en_children (eg_nodes h ! i) ! j)) = V (unat (en_children (eg_nodes g ! i) ! j))" if "j < ?k" for j
      using explainsD(4) [OF ex _ _ st(7) [OF i that]] wf that st(6) [OF i] by (simp add: enode_wf_def)
    then have "map (\<lambda>c. V (unat c)) (take ?k (en_children (eg_nodes h ! i))) = map (\<lambda>c. V (unat c)) (take ?k (en_children (eg_nodes g ! i)))"
      using wf by (intro nth_equalityI) (simp_all add: enode_wf_def)
    then show ?thesis unfolding node_value_def st(5) [OF i] st(6) [OF i] by simp
  qed
  let ?R = "\<lambda>i j. V i = V j"
  have cong: "V i = V j" if ij: "i < ?n" "j < ?n" and o: "op_congruent (en_op (eg_nodes g ! i)) (en_op (eg_nodes g ! j))"
      "en_n_children (eg_nodes g ! i) = en_n_children (eg_nodes g ! j)"
      "\<forall>k < unat (en_n_children (eg_nodes g ! i)). V (unat (en_children (eg_nodes g ! i) ! k)) = V (unat (en_children (eg_nodes g ! j) ! k))" for i j
  proof -
    have "en_op (eg_nodes g ! i) = en_op (eg_nodes g ! j)" using o(1) by (auto simp: op_congruent_def op_eq_iff split: xop.splits prod.splits)
    moreover have "map (\<lambda>c. V (unat c)) (take (unat (en_n_children (eg_nodes g ! i))) (en_children (eg_nodes g ! i))) =
        map (\<lambda>c. V (unat c)) (take (unat (en_n_children (eg_nodes g ! j))) (en_children (eg_nodes g ! j)))"
      using eg_inv_node [OF inv ij(1)] eg_inv_node [OF inv ij(2)] o(2,3) by (intro nth_equalityI) (simp_all add: enode_wf_def)
    ultimately show ?thesis unfolding explainsD(2) [OF ex ij(1)] explainsD(2) [OF ex ij(2)] node_value_def by simp
  qed
  have "equivp ?R" by (auto intro!: equivpI reflpI sympI transpI)
  moreover have "\<forall>i < ?n. \<forall>j < ?n. uf_canon (eg_uf g) i = uf_canon (eg_uf g) j \<longrightarrow> V i = V j" using explainsD(4) [OF ex] by blast
  ultimately have "congruence_on g ?R" unfolding congruence_on_def Let_def using cong by blast
  then have part: "V i = V j" if "i < ?n" "j < ?n" "uf_canon (eg_uf g') i = uf_canon (eg_uf g') j" for i j using r(6) that by blast
  have "explains I V g'"
  proof (rule explainsI)
    show "eg_inv g'" by (rule r(2))
    fix i assume "i < length (eg_nodes g')"
    then have i: "i < ?n" using r(4) st(3) by simp
    show "V i = node_value I V (eg_nodes g' ! i)" unfolding r(4) val [OF i] by (rule explainsD(2) [OF ex i])
    show "en_seq (eg_nodes g' ! i) = word_of_nat i" unfolding r(4) st(8) [OF i] by (rule explainsD(3) [OF ex i])
    fix j assume "j < length (eg_nodes g')" "uf_canon (eg_uf g') i = uf_canon (eg_uf g') j"
    then show "V i = V j" using part [OF i] r(4) st(3) by simp
  qed
  then show ?thesis using r(1,4,5) st(3) by auto
qed

section \<open>Results that are safe\<close>

text \<open>A result is safe when it is good or the e-graph ran out of its node budget.\<close>

fun safe :: "('a \<Rightarrow> bool) \<Rightarrow> (egraph_error, 'a) outcome \<Rightarrow> bool" where
  "safe P (Ok x) = P x"
| "safe P (Err e) = (e = EgFull)"
| "safe P Diverges = False"

lemma safe_bind: "safe P r \<Longrightarrow> (\<And>x. P x \<Longrightarrow> safe Q (f x)) \<Longrightarrow> safe Q (obind r f)"
  by (cases r) auto

lemma safe_mono: "safe P r \<Longrightarrow> (\<And>x. P x \<Longrightarrow> Q x) \<Longrightarrow> safe Q r"
  by (cases r) auto

lemma safe_iff: "safe P r \<longleftrightarrow> r = Err EgFull \<or> (\<exists>x. r = Ok x \<and> P x)"
  by (cases r) auto

section \<open>The lifted graph and the values of the arena\<close>

text \<open>
  What the arena has to satisfy: its values are those an interpretation with exact integer arithmetic gives, and operations
  that the rules treat as integer arithmetic have integer operands.
\<close>

definition int_typed :: "arena \<Rightarrow> (node_id \<Rightarrow> rvalue) \<Rightarrow> bool" where
  "int_typed a val \<longleftrightarrow> (\<forall>(x, n) \<in> set (live_nodes a).
     (\<forall>b. nd_op n = Binary b \<longrightarrow> int_elem (lift_elem_of (nd_ty n)) \<longrightarrow> (\<forall>v \<in> set (node_uses n). is_i64 (val (vid_node v)))) \<and>
     (\<forall>k. nd_op n = ConstI64 k \<longrightarrow> in_i64 k))"

definition sat_input :: "fp \<Rightarrow> (xop \<Rightarrow> rvalue list \<Rightarrow> rvalue) \<Rightarrow> arena \<Rightarrow> (node_id \<Rightarrow> rvalue) \<Rightarrow> bool" where
  "sat_input F I a val \<longleftrightarrow> arena_inv a \<and> uses_live a \<and> arities_ok a \<and> consistent a I val \<and> arithmetic F I \<and> int_typed a val"

definition const_ok :: "const_val \<Rightarrow> bool" where
  "const_ok k \<longleftrightarrow> (\<forall>m. k = CI m \<longrightarrow> in_i64 m)"

definition rec_ok :: "arena \<Rightarrow> (node_id \<Rightarrow> rvalue) \<Rightarrow> (nat \<Rightarrow> rvalue) \<Rightarrow> nat \<Rightarrow> u32 option list \<Rightarrow> lift_record \<Rightarrow> bool" where
  "rec_ok a val V n node_class r \<longleftrightarrow> (\<exists>m. (lr_node r, m) \<in> set (live_nodes a) \<and> is_pure (nd_op m) \<and> lr_op r = nd_op m \<and>
     lr_elem r = lift_elem_of (nd_ty m) \<and> slot_get node_class (lr_node r) \<noteq> None \<and> length (lr_children r) = 4 \<and>
     unat (lr_n_children r) = length (node_uses m) \<and> length (node_uses m) \<le> 4 \<and>
     (\<forall>j < length (node_uses m). unat (lr_children r ! j) < n \<and> V (unat (lr_children r ! j)) = val (vid_node (node_uses m ! j))))"

abbreviation lg_size :: "lifted \<Rightarrow> nat" where
  "lg_size lg \<equiv> length (eg_nodes (lg_g lg))"

definition lg_ok :: "(xop \<Rightarrow> rvalue list \<Rightarrow> rvalue) \<Rightarrow> arena \<Rightarrow> (node_id \<Rightarrow> rvalue) \<Rightarrow> (nat \<Rightarrow> rvalue) \<Rightarrow> lifted \<Rightarrow> bool" where
  "lg_ok I a val V lg \<longleftrightarrow> explains I V (lg_g lg) \<and> length (lg_node_class lg) = slot_count a \<and>
     (\<forall>x \<in> set (live_ids a). \<forall>c. slot_get (lg_node_class lg) x = Some c \<longrightarrow> unat c < lg_size lg \<and> V (unat c) = val x) \<and>
     (\<forall>r \<in> set (lg_recs lg). rec_ok a val V (lg_size lg) (lg_node_class lg) r) \<and>
     length (lg_class_const lg) = eg_capacity (lg_g lg) + 1 \<and>
     (\<forall>c < length (lg_class_const lg). \<forall>k. lg_class_const lg ! c = Some k \<longrightarrow> c < lg_size lg \<and> V c = const_value k \<and> const_ok k) \<and>
     length (lg_xir_of lg) = lg_size lg \<and>
     (\<forall>i < lg_size lg. \<forall>y. lg_xir_of lg ! i = Some y \<longrightarrow> y \<in> set (live_ids a) \<and> V i = val y)"

lemma lg_okD:
  assumes "lg_ok I a val V lg"
  shows "explains I V (lg_g lg)" "length (lg_node_class lg) = slot_count a"
    "x \<in> set (live_ids a) \<Longrightarrow> slot_get (lg_node_class lg) x = Some c \<Longrightarrow> unat c < lg_size lg \<and> V (unat c) = val x"
    "r \<in> set (lg_recs lg) \<Longrightarrow> rec_ok a val V (lg_size lg) (lg_node_class lg) r"
    "length (lg_class_const lg) = eg_capacity (lg_g lg) + 1"
    "i < length (lg_class_const lg) \<Longrightarrow> lg_class_const lg ! i = Some k \<Longrightarrow> i < lg_size lg \<and> V i = const_value k \<and> const_ok k"
    "length (lg_xir_of lg) = lg_size lg"
    "i < lg_size lg \<Longrightarrow> lg_xir_of lg ! i = Some y \<Longrightarrow> y \<in> set (live_ids a) \<and> V i = val y"
  using assms unfolding lg_ok_def by blast+

text \<open>A step extends the graph and its valuation.\<close>

definition step :: "(xop \<Rightarrow> rvalue list \<Rightarrow> rvalue) \<Rightarrow> arena \<Rightarrow> (node_id \<Rightarrow> rvalue) \<Rightarrow> (nat \<Rightarrow> rvalue) \<Rightarrow> lifted \<Rightarrow> (nat \<Rightarrow> rvalue) \<Rightarrow> lifted \<Rightarrow> bool" where
  "step I a val V lg V' lg' \<longleftrightarrow> lg_ok I a val V' lg' \<and> lg_size lg \<le> lg_size lg' \<and> (\<forall>i < lg_size lg. V' i = V i) \<and>
     lg_recs lg' = lg_recs lg \<and> lg_node_class lg' = lg_node_class lg \<and>
     length (lg_class_const lg') = length (lg_class_const lg)"

lemma step_refl: "lg_ok I a val V lg \<Longrightarrow> step I a val V lg V lg"
  by (simp add: step_def)

lemma step_trans: "step I a val V lg V1 lg1 \<Longrightarrow> step I a val V1 lg1 V2 lg2 \<Longrightarrow> step I a val V lg V2 lg2"
  by (auto simp: step_def)

lemma stepD:
  assumes "step I a val V lg V' lg'"
  shows "lg_ok I a val V' lg'" "unat c < lg_size lg \<Longrightarrow> unat c < lg_size lg' \<and> V' (unat c) = V (unat c)"
    "lg_recs lg' = lg_recs lg" "lg_node_class lg' = lg_node_class lg" "length (lg_class_const lg') = length (lg_class_const lg)"
  using assms by (auto simp: step_def lg_ok_def)

lemma rec_ok_mono:
  assumes "rec_ok a val V n nc r" "n \<le> n'" "\<And>i. i < n \<Longrightarrow> V' i = V i"
  shows "rec_ok a val V' n' nc r"
  using assms(1,2) unfolding rec_ok_def by (elim ex_forward) (auto simp: assms(3))

lemma canon_step:
  assumes ok: "lg_ok I a val V lg" and c: "unat c < lg_size lg"
  shows "safe (\<lambda>(r, lg'). step I a val V lg V lg' \<and> lg_size lg' = lg_size lg \<and> unat r < lg_size lg \<and> V (unat r) = V (unat c)) (lg_canon lg c)"
proof -
  note ex = lg_okD(1) [OF ok]
  have "lg_size lg \<le> eg_capacity (lg_g lg)" using explainsD(1) [OF ex] by (simp add: eg_inv_def)
  then obtain g' where g': "eg_canon (lg_g lg) c = Ok (word_of_nat (uf_canon (eg_uf (lg_g lg)) (unat c)), g')" "explains I V g'"
    "eg_capacity g' = eg_capacity (lg_g lg)" "eg_nodes g' = eg_nodes (lg_g lg)" using canon_explains [OF ex, of c] c by auto
  have "lg_ok I a val V (lg\<lparr>lg_g := g'\<rparr>)" using ok g'(2-4) by (simp add: lg_ok_def)
  then show ?thesis using g' canon_value [OF ex c] by (simp add: lg_canon_def step_def)
qed

lemma merge_step:
  assumes ok: "lg_ok I a val V lg" and x: "unat x < lg_size lg" and y: "unat y < lg_size lg" and eq: "V (unat x) = V (unat y)"
  shows "safe (\<lambda>(w, lg'). step I a val V lg V lg' \<and> lg_size lg' = lg_size lg \<and> unat w < lg_size lg \<and> V (unat w) = V (unat x)) (lg_merge lg x y)"
proof -
  note ex = lg_okD(1) [OF ok]
  obtain w g' where g': "eg_merge (lg_g lg) x y = Ok (w, g')" "explains I V g'" "eg_capacity g' = eg_capacity (lg_g lg)"
    "eg_nodes g' = eg_nodes (lg_g lg)" "unat w < lg_size lg" "V (unat w) = V (unat x)" using merge_explains [OF ex x y eq] by blast
  have "lg_ok I a val V (lg\<lparr>lg_g := g'\<rparr>)" using ok g'(2-4) by (simp add: lg_ok_def)
  then show ?thesis using g' by (simp add: lg_merge_def step_def)
qed

lemma add_step:
  assumes ok: "lg_ok I a val V lg" and ch: "\<forall>c \<in> set children. unat c < lg_size lg" "length children \<le> 4"
    and origin: "\<And>y. origin = Some y \<Longrightarrow> y \<in> set (live_ids a) \<and> val y = I op (map (\<lambda>c. V (unat c)) children)"
  shows "safe (\<lambda>(c, lg'). \<exists>V'. step I a val V lg V' lg' \<and> unat c < lg_size lg' \<and> V' (unat c) = I op (map (\<lambda>c. V (unat c)) children) \<and>
    lg_class_const lg' = lg_class_const lg) (lg_add lg op children origin)"
proof (cases "eg_add (lg_g lg) op children = Err EgFull")
  case False
  let ?v = "I op (map (\<lambda>c. V (unat c)) children)" and ?n = "lg_size lg"
  obtain c g' V' where g': "eg_add (lg_g lg) op children = Ok (c, g')" "explains I V' g'" "eg_capacity g' = eg_capacity (lg_g lg)"
    "\<forall>i < ?n. V' i = V i" "unat c < length (eg_nodes g')" "V' (unat c) = ?v"
    and cases: "g' = lg_g lg \<or> length (eg_nodes g') = ?n + 1 \<and> unat c = ?n"
    using add_explains [OF lg_okD(1) [OF ok] ch, of op] False by blast
  let ?lg = "lg\<lparr>lg_g := g', lg_xir_of := (if length (eg_nodes g') > ?n then lg_xir_of lg @ [origin] else lg_xir_of lg)\<rparr>"
  have n: "?n \<le> length (eg_nodes g')" using cases by auto
  have xl: "length (lg_xir_of lg) = ?n" by (rule lg_okD(7) [OF ok])
  have "lg_ok I a val V' ?lg" unfolding lg_ok_def
  proof (intro conjI ballI allI impI)
    fix r assume "r \<in> set (lg_recs ?lg)"
    then show "rec_ok a val V' (lg_size ?lg) (lg_node_class ?lg) r" using rec_ok_mono [OF lg_okD(4) [OF ok]] n g'(4) by simp
  next
    fix i y assume i: "i < lg_size ?lg" "lg_xir_of ?lg ! i = Some y"
    have "i < ?n \<or> i = ?n \<and> length (eg_nodes g') = ?n + 1" using i(1) cases by auto
    then show "y \<in> set (live_ids a)" "V' i = val y"
      using i lg_okD(8) [OF ok, of i y] xl g'(4,6) cases origin by (auto simp: nth_append split: if_splits)
  next
    fix x d assume "x \<in> set (live_ids a)" "slot_get (lg_node_class ?lg) x = Some d"
    then have "unat d < ?n \<and> V (unat d) = val x" using lg_okD(3) [OF ok, of x d] by simp
    then show "unat d < lg_size ?lg" "V' (unat d) = val x" using n g'(4) by auto
  next
    fix i k assume "i < length (lg_class_const ?lg)" "lg_class_const ?lg ! i = Some k"
    then have "i < ?n \<and> V i = const_value k \<and> const_ok k" using lg_okD(6) [OF ok, of i k] by simp
    then show "i < lg_size ?lg" "V' i = const_value k" "const_ok k" using n g'(4) by auto
  qed (use g'(2,3) lg_okD(2,5) [OF ok] xl cases in auto)
  then show ?thesis using g' n by (auto simp: lg_add_def step_def eg_node_count_def)
qed (simp add: lg_add_def)

lemma update_cases: "xs[i := y] ! j = z \<Longrightarrow> j < length xs \<Longrightarrow> j = i \<and> z = y \<or> xs ! j = z"
  by (cases "j = i") auto

lemma note_const_step:
  assumes "lg_ok I a val V lg" "\<And>v. k = Some v \<Longrightarrow> unat c < lg_size lg \<and> V (unat c) = const_value v \<and> const_ok v"
  shows "step I a val V lg V (note_const k c lg)" "lg_size (note_const k c lg) = lg_size lg"
proof -
  show "lg_size (note_const k c lg) = lg_size lg" by (simp add: note_const_def split: option.split)
  show "step I a val V lg V (note_const k c lg)"
  proof (cases k)
    case None
    then show ?thesis using assms(1) by (simp add: note_const_def step_refl)
  next
    case (Some v)
    note d = lg_okD [OF assms(1)] and c = assms(2) [OF Some]
    have "lg_ok I a val V (note_const k c lg)" unfolding lg_ok_def Some
    proof (intro conjI ballI allI impI)
      fix i w assume "i < length (lg_class_const (note_const (Some v) c lg))" "lg_class_const (note_const (Some v) c lg) ! i = Some w"
      then have "i < length (lg_class_const lg)" "i = unat c \<and> w = v \<or> lg_class_const lg ! i = Some w"
        using update_cases [of "lg_class_const lg" "unat c" "Some v" i "Some w"] by (auto simp: note_const_def)
      then have "i < lg_size lg \<and> V i = const_value w \<and> const_ok w" using d(6) [of i w] c by auto
      then show "i < lg_size (note_const (Some v) c lg)" "V i = const_value w" "const_ok w" by (simp_all add: note_const_def)
    qed (use d(1-5,7,8) in \<open>auto simp: note_const_def\<close>)
    then show ?thesis using Some by (simp add: step_def note_const_def)
  qed
qed

lemma class_const_get_ok:
  assumes "lg_ok I a val V lg" "class_const_get lg c = Some k"
  shows "unat c < lg_size lg" "V (unat c) = const_value k" "const_ok k"
  using lg_okD(6) [OF assms(1), of "unat c" k] assms(2) by (auto simp: class_const_get_def nth_opt_def split: option.splits if_splits)

lemma propagate_step:
  assumes "lg_ok I a val V lg" "unat w < lg_size lg" "V (unat w) = V (unat l)"
  shows "step I a val V lg V (propagate_const w l lg)" "lg_size (propagate_const w l lg) = lg_size lg"
proof -
  have "unat w < lg_size lg \<and> V (unat w) = const_value v \<and> const_ok v" if "class_const_get lg l = Some v" for v
    using class_const_get_ok [OF assms(1) that] assms(2,3) by simp
  note n = note_const_step [OF assms(1) this]
  show "step I a val V lg V (propagate_const w l lg)" "lg_size (propagate_const w l lg) = lg_size lg"
    using n step_refl [OF assms(1)] by (auto simp: propagate_const_def)
qed

lemma own_class_step:
  assumes ok: "lg_ok I a val V lg" and r: "r \<in> set (lg_recs lg)"
  shows "safe (\<lambda>(c, lg'). step I a val V lg V lg' \<and> lg_size lg' = lg_size lg \<and> unat c < lg_size lg \<and> V (unat c) = val (lr_node r)) (own_class lg (lr_node r))"
proof -
  obtain m c where m: "(lr_node r, m) \<in> set (live_nodes a)" "slot_get (lg_node_class lg) (lr_node r) = Some c"
    using lg_okD(4) [OF ok r] by (auto simp: rec_ok_def)
  have "lr_node r \<in> set (live_ids a)" using m(1) by (force simp: live_ids_def)
  with lg_okD(3) [OF ok this m(2)] canon_step [OF ok, of c] show ?thesis
    by (auto simp: own_class_def m(2) ok_or_def elim!: safe_mono)
qed

section \<open>Rules\<close>

definition snap_ok :: "(nat \<Rightarrow> rvalue) \<Rightarrow> nat \<Rightarrow> lift_record \<Rightarrow> rule_snap \<Rightarrow> bool" where
  "snap_ok V n r s \<longleftrightarrow> rs_op s = lr_op r \<and> rs_elem s = lr_elem r \<and>
     (\<forall>j < unat (lr_n_children r). unat (rs_children s ! j) < n \<and> V (unat (rs_children s ! j)) = V (unat (lr_children r ! j)) \<and>
        (\<forall>k. rs_consts s ! j = Some k \<longrightarrow> V (unat (lr_children r ! j)) = const_value k \<and> const_ok k))"

definition pair_ok :: "(nat \<Rightarrow> rvalue) \<Rightarrow> nat \<Rightarrow> u32 \<Rightarrow> u32 \<times> const_val option \<Rightarrow> bool" where
  "pair_ok V n c p \<longleftrightarrow> unat (fst p) < n \<and> V (unat (fst p)) = V (unat c) \<and> (\<forall>k. snd p = Some k \<longrightarrow> V (unat c) = const_value k \<and> const_ok k)"

lemma snap_children_step:
  assumes "lg_ok I a val V lg" "\<forall>c \<in> set cs. unat c < lg_size lg"
  shows "safe (\<lambda>(ps, lg'). step I a val V lg V lg' \<and> lg_size lg' = lg_size lg \<and> list_all2 (pair_ok V (lg_size lg)) cs ps) (snap_children cs lg)"
  using assms
proof (induction cs arbitrary: lg)
  case (Cons c cs)
  show ?case unfolding snap_children.simps
  proof (rule safe_bind [OF canon_step [OF Cons.prems(1)]])
    show "unat c < lg_size lg" using Cons.prems(2) by simp
    fix p :: "u32 \<times> lifted"
    assume "case p of (r, lg') \<Rightarrow> step I a val V lg V lg' \<and> lg_size lg' = lg_size lg \<and> unat r < lg_size lg \<and> V (unat r) = V (unat c)"
    then obtain r lg1 where p: "p = (r, lg1)" "step I a val V lg V lg1" "lg_size lg1 = lg_size lg" "unat r < lg_size lg" "V (unat r) = V (unat c)" by auto
    note ok1 = stepD(1) [OF p(2)]
    have r: "pair_ok V (lg_size lg) c (r, class_const_get lg1 r)"
      using p(4,5) class_const_get_ok [OF ok1, of r] by (auto simp: pair_ok_def)
    have "safe (\<lambda>(ps, lg'). step I a val V lg1 V lg' \<and> lg_size lg' = lg_size lg1 \<and> list_all2 (pair_ok V (lg_size lg1)) cs ps) (snap_children cs lg1)"
      by (rule Cons.IH [OF ok1]) (use Cons.prems(2) p(3) in simp)
    then show "safe (\<lambda>(ps, lg'). step I a val V lg V lg' \<and> lg_size lg' = lg_size lg \<and> list_all2 (pair_ok V (lg_size lg)) (c # cs) ps)
        (case p of (r, lg1) \<Rightarrow> obind (snap_children cs lg1) (\<lambda>(rs, lg2). Ok ((r, class_const_get lg1 r) # rs, lg2)))"
      unfolding p(1) prod.case
      by (rule safe_bind) (use r p(3) step_trans [OF p(2)] in auto)
  qed
qed (simp add: step_refl)

lemma snap_rec_step:
  assumes ok: "lg_ok I a val V lg" and r: "r \<in> set (lg_recs lg)"
  shows "safe (\<lambda>(s, lg'). step I a val V lg V lg' \<and> lg_size lg' = lg_size lg \<and> snap_ok V (lg_size lg) r s) (snap_rec r lg)"
proof -
  let ?k = "unat (lr_n_children r)"
  have r': "length (lr_children r) = 4" "?k \<le> 4" "\<forall>j < ?k. unat (lr_children r ! j) < lg_size lg"
    using lg_okD(4) [OF ok r] by (auto simp: rec_ok_def)
  then have "\<forall>c \<in> set (take ?k (lr_children r)). unat c < lg_size lg" by (auto simp: in_set_conv_nth)
  note s = snap_children_step [OF ok this]
  show ?thesis unfolding snap_rec_def
  proof (rule safe_bind [OF s])
    fix p assume "case p of (ps, lg') \<Rightarrow> step I a val V lg V lg' \<and> lg_size lg' = lg_size lg \<and> list_all2 (pair_ok V (lg_size lg)) (take ?k (lr_children r)) ps"
    then obtain ps lg' where p: "p = (ps, lg')" "step I a val V lg V lg'" "lg_size lg' = lg_size lg"
      "list_all2 (pair_ok V (lg_size lg)) (take ?k (lr_children r)) ps" by auto
    have l: "length ps = ?k" using list_all2_lengthD [OF p(4)] r'(1,2) by simp
    have pair: "pair_ok V (lg_size lg) (lr_children r ! j) (ps ! j)" if "j < ?k" for j
      using list_all2_nthD2 [OF p(4), of j] that l r'(1,2) by simp
    let ?s = "\<lparr>rs_op = lr_op r, rs_children = map fst ps @ replicate (4 - length ps) 0,
            rs_consts = map snd ps @ replicate (4 - length ps) None, rs_elem = lr_elem r\<rparr>"
    have "rs_children ?s ! j = fst (ps ! j)" "rs_consts ?s ! j = snd (ps ! j)" if "j < ?k" for j using that l by (simp_all add: nth_append)
    then have "snap_ok V (lg_size lg) r ?s" using pair unfolding snap_ok_def pair_ok_def by simp
    then show "safe (\<lambda>(s, lg'). step I a val V lg V lg' \<and> lg_size lg' = lg_size lg \<and> snap_ok V (lg_size lg) r s)
        (case p of (cs, lg') \<Rightarrow> Ok (\<lparr>rs_op = lr_op r, rs_children = map fst cs @ replicate (4 - length cs) 0,
            rs_consts = map snd cs @ replicate (4 - length cs) None, rs_elem = lr_elem r\<rparr>, lg'))"
      unfolding p(1) using p(2,3) by simp
  qed
qed

lemma snap_recs_step:
  assumes "lg_ok I a val V lg" "set rs \<subseteq> set (lg_recs lg)"
  shows "safe (\<lambda>(ss, lg'). step I a val V lg V lg' \<and> lg_size lg' = lg_size lg \<and> list_all2 (snap_ok V (lg_size lg)) rs ss) (snap_recs rs lg)"
  using assms
proof (induction rs arbitrary: lg)
  case (Cons r rs)
  show ?case unfolding snap_recs.simps
  proof (rule safe_bind [OF snap_rec_step [OF Cons.prems(1)]])
    show "r \<in> set (lg_recs lg)" using Cons.prems(2) by simp
    fix p assume "case p of (s, lg') \<Rightarrow> step I a val V lg V lg' \<and> lg_size lg' = lg_size lg \<and> snap_ok V (lg_size lg) r s"
    then obtain s lg1 where p: "p = (s, lg1)" "step I a val V lg V lg1" "lg_size lg1 = lg_size lg" "snap_ok V (lg_size lg) r s" by auto
    have "safe (\<lambda>(ss, lg'). step I a val V lg1 V lg' \<and> lg_size lg' = lg_size lg1 \<and> list_all2 (snap_ok V (lg_size lg1)) rs ss) (snap_recs rs lg1)"
      by (rule Cons.IH [OF stepD(1) [OF p(2)]]) (use Cons.prems(2) stepD(3) [OF p(2)] in simp)
    then show "safe (\<lambda>(ss, lg'). step I a val V lg V lg' \<and> lg_size lg' = lg_size lg \<and> list_all2 (snap_ok V (lg_size lg)) (r # rs) ss)
        (case p of (s, lg1) \<Rightarrow> obind (snap_recs rs lg1) (\<lambda>(ss, lg2). Ok (s # ss, lg2)))"
      unfolding p(1) prod.case
      by (rule safe_bind) (use p(3,4) step_trans [OF p(2)] in auto)
  qed
qed (simp add: step_refl)

lemma rule_results_eq:
  assumes "0 < pool"
  shows "rule_results F pool in_region workers snaps = map (\<lambda>s. local_rules F (rs_op s) (rs_children s) (rs_consts s) (rs_elem s)) snaps"
proof -
  let ?f = "\<lambda>s. local_rules F (rs_op s) (rs_children s) (rs_consts s) (rs_elem s)"
  obtain res out where r: "run_partitioned_pooled pool in_region snaps (replicate (length snaps) None) (max workers 1) ?f = (res, out)" by fastforce
  show ?thesis using run_partitioned_ok [OF assms r] unfolding rule_results_def Let_def r by (cases res) simp_all
qed

lemma safe_bind2: "safe (\<lambda>(x, y). P x y) r \<Longrightarrow> (\<And>x y. P x y \<Longrightarrow> safe Q (f x y)) \<Longrightarrow> safe Q (obind r (\<lambda>(x, y). f x y))"
  by (cases r) auto

definition rw_ok :: "(xop \<Rightarrow> rvalue list \<Rightarrow> rvalue) \<Rightarrow> (node_id \<Rightarrow> rvalue) \<Rightarrow> (nat \<Rightarrow> rvalue) \<Rightarrow> nat \<Rightarrow> lift_record \<times> rewrite option \<Rightarrow> bool" where
  "rw_ok I val V n x \<longleftrightarrow> (\<forall>w. snd x = Some w \<longrightarrow>
     const_rewrite w \<and> val (lr_node (fst x)) = I (rw_op w) [] \<or>
     rw_n_children w = 1 \<and> unat (rw_children w ! 0) < n \<and> V (unat (rw_children w ! 0)) = val (lr_node (fst x)))"

lemma rec_value:
  assumes inp: "sat_input F I a val" and ok: "lg_ok I a val V lg" and r: "r \<in> set (lg_recs lg)"
  obtains m where "(lr_node r, m) \<in> set (live_nodes a)" "lr_op r = nd_op m" "lr_elem r = lift_elem_of (nd_ty m)"
    "unat (lr_n_children r) = length (node_uses m)" "length (node_uses m) = unat (expected_arity (nd_op m))"
    "val (lr_node r) = I (nd_op m) (map (val \<circ> vid_node) (node_uses m))" "length (lr_children r) = 4" "length (node_uses m) \<le> 4"
    "\<forall>j < length (node_uses m). unat (lr_children r ! j) < lg_size lg \<and> V (unat (lr_children r ! j)) = val (vid_node (node_uses m ! j))"
proof -
  obtain m where m: "(lr_node r, m) \<in> set (live_nodes a)" "is_pure (nd_op m)" "lr_op r = nd_op m" "lr_elem r = lift_elem_of (nd_ty m)"
    "unat (lr_n_children r) = length (node_uses m)" "length (lr_children r) = 4" "length (node_uses m) \<le> 4"
    "\<forall>j < length (node_uses m). unat (lr_children r ! j) < lg_size lg \<and> V (unat (lr_children r ! j)) = val (vid_node (node_uses m ! j))"
    using lg_okD(4) [OF ok r] unfolding rec_ok_def by blast
  have a: "arena_inv a" "arities_ok a" "consistent a I val" using inp by (simp_all add: sat_input_def)
  have "node_wf m" using m(1) arena_inv_wf [OF a(1)] by (auto simp: live_nodes_def arena_wf_def)
  then have "length (node_uses m) = unat (nd_n_inputs m)" by (simp add: node_wf_def node_uses_def)
  moreover have "nd_n_inputs m = expected_arity (nd_op m)" using a(2) m(1) by (auto simp: arities_ok_def)
  ultimately show thesis using that [OF m(1,3,4,5) _ consistentD [OF a(3) m(1,2)] m(6,7,8)] by simp
qed

lemma int_typedD:
  assumes "sat_input F I a val" "(x, m) \<in> set (live_nodes a)" "nd_op m = Binary b" "int_elem (lift_elem_of (nd_ty m))" "v \<in> set (node_uses m)"
  shows "is_i64 (val (vid_node v))"
  using assms unfolding sat_input_def int_typed_def by fast

lemma two_uses: "length xs = 2 \<Longrightarrow> map f xs = [f (xs ! 0), f (xs ! 1)]"
  by (auto simp: length_Suc_conv eval_nat_numeral)

lemma rule_ok:
  assumes inp: "sat_input F I a val" and ok: "lg_ok I a val V lg" and r: "r \<in> set (lg_recs lg)" and s: "snap_ok V (lg_size lg) r s"
  shows "rw_ok I val V (lg_size lg) (r, local_rules F (rs_op s) (rs_children s) (rs_consts s) (rs_elem s))"
proof (cases "local_rules F (rs_op s) (rs_children s) (rs_consts s) (rs_elem s)")
  case (Some w)
  obtain m where m: "(lr_node r, m) \<in> set (live_nodes a)" "lr_op r = nd_op m" "lr_elem r = lift_elem_of (nd_ty m)"
    "unat (lr_n_children r) = length (node_uses m)" "length (node_uses m) = unat (expected_arity (nd_op m))"
    "val (lr_node r) = I (nd_op m) (map (val \<circ> vid_node) (node_uses m))"
    "\<forall>j < length (node_uses m). unat (lr_children r ! j) < lg_size lg \<and> V (unat (lr_children r ! j)) = val (vid_node (node_uses m ! j))"
    by (rule rec_value [OF inp ok r])
  have sn: "rs_op s = nd_op m" "rs_elem s = lift_elem_of (nd_ty m)" using s m(2,3) by (simp_all add: snap_ok_def)
  obtain b where b: "nd_op m = Binary b" using Some sn(1) by (cases "nd_op m") (simp_all add: local_rules_def)
  have two: "length (node_uses m) = 2" using m(5) b by simp
  have ch: "unat (rs_children s ! j) < lg_size lg" "V (unat (rs_children s ! j)) = val (vid_node (node_uses m ! j))"
    "\<And>k. rs_consts s ! j = Some k \<Longrightarrow> V (unat (rs_children s ! j)) = const_value k \<and> (\<forall>i. k = CI i \<longrightarrow> in_i64 i)" if "j < 2" for j
    using s m(4,7) two that by (auto simp: snap_ok_def const_ok_def)
  have u: "node_uses m ! 0 \<in> set (node_uses m)" "node_uses m ! 1 \<in> set (node_uses m)" using two by simp_all
  have "is_i64 (V (unat (rs_children s ! 0))) \<and> is_i64 (V (unat (rs_children s ! 1)))" if "int_elem (rs_elem s)"
    using int_typedD [OF inp m(1) b that [unfolded sn(2)]] u ch(2) [of 0] ch(2) [of 1] by simp
  then have "const_rewrite w \<and> I (rs_op s) [V (unat (rs_children s ! 0)), V (unat (rs_children s ! 1))] = I (rw_op w) [] \<or>
      pass_rewrite (rs_children s) w \<and> I (rs_op s) [V (unat (rs_children s ! 0)), V (unat (rs_children s ! 1))] = V (unat (rw_children w ! 0))"
    using local_rules_sound [of F I "rs_op s" "rs_children s" "rs_consts s" "rs_elem s" w "\<lambda>c. V (unat c)"] inp Some ch(3)
    by (simp add: sat_input_def)
  moreover have "I (rs_op s) [V (unat (rs_children s ! 0)), V (unat (rs_children s ! 1))] = val (lr_node r)"
    using m(6) sn(1) two_uses [OF two, of "val \<circ> vid_node"] ch(2) [of 0] ch(2) [of 1] by simp
  moreover have "unat (rw_children w ! 0) < lg_size lg" if "pass_rewrite (rs_children s) w"
    using that ch(1) [of 0] ch(1) [of 1] by (auto simp: pass_rewrite_def)
  ultimately show ?thesis using Some by (auto simp: rw_ok_def pass_rewrite_def)
qed (simp add: rw_ok_def)

lemma rw_ok_step: "rw_ok I val V (lg_size lg) x \<Longrightarrow> step I a val V lg V' lg' \<Longrightarrow> rw_ok I val V' (lg_size lg') x"
  by (force simp: rw_ok_def step_def)

lemma const_rewrite_value:
  assumes "arithmetic F I" "const_rewrite w" "const_of_op (rw_op w) = Some k"
  shows "I (rw_op w) [] = const_value k" "const_ok k"
  using assms(2,3) arithmeticD(1,2) [OF assms(1)] by (auto simp: const_rewrite_def const_ok_def)

lemma apply_rewrite_step:
  assumes inp: "sat_input F I a val" and ok: "lg_ok I a val V lg" and r: "r \<in> set (lg_recs lg)" and w: "rw_ok I val V (lg_size lg) (r, rw)"
  shows "safe (\<lambda>(lg', k). \<exists>V'. step I a val V lg V' lg') (apply_rewrite r rw (lg, fired))"
proof (cases rw)
  case None
  then show ?thesis using step_refl [OF ok] by (auto simp: apply_rewrite_def)
next
  case (Some w)
  have w: "const_rewrite w \<and> val (lr_node r) = I (rw_op w) [] \<or>
     rw_n_children w = 1 \<and> unat (rw_children w ! 0) < lg_size lg \<and> V (unat (rw_children w ! 0)) = val (lr_node r)"
    using \<open>rw_ok I val V (lg_size lg) (r, rw)\<close> Some by (simp add: rw_ok_def)
  show ?thesis unfolding apply_rewrite_def Some prod.case option.case
  proof (rule safe_bind2 [OF own_class_step [OF ok r]])
    fix own :: u32 and lg1
    assume o: "step I a val V lg V lg1 \<and> lg_size lg1 = lg_size lg \<and> unat own < lg_size lg \<and> V (unat own) = val (lr_node r)"
    then have st1: "step I a val V lg V lg1" and ok1: "lg_ok I a val V lg1" using stepD(1) by auto
    show "safe (\<lambda>(lg', k). \<exists>V'. step I a val V lg V' lg')
      (if rw_n_children w = 0 then obind (lg_add lg1 (rw_op w) [] None) (\<lambda>(nc, lg2).
             obind (lg_merge lg2 own nc) (\<lambda>(winner, lg3). Ok (note_const (const_of_op (rw_op w)) winner lg3, fired + 1)))
       else if rw_n_children w = 1 \<and> op_eq (rw_op w) PASS_THROUGH then
             (let child = rw_children w ! 0 in
              obind (lg_merge lg1 own child) (\<lambda>(winner, lg2).
                Ok (propagate_const winner (if winner = own then child else own) lg2, fired + 1)))
       else Ok (lg1, fired))" (is "safe ?P (if ?zero then ?A else if ?one then ?B else ?C)")
    proof -
      have A: "safe ?P ?A" if c: "const_rewrite w" "val (lr_node r) = I (rw_op w) []"
      proof (rule safe_bind2 [OF add_step [OF ok1]])
        fix nc :: u32 and lg2
        assume "\<exists>V'. step I a val V lg1 V' lg2 \<and> unat nc < lg_size lg2 \<and> V' (unat nc) = I (rw_op w) (map (\<lambda>c. V (unat c)) []) \<and> lg_class_const lg2 = lg_class_const lg1"
        then obtain V' where V': "step I a val V lg1 V' lg2" "unat nc < lg_size lg2" "V' (unat nc) = I (rw_op w) []" by auto
        have own: "unat own < lg_size lg2" "V' (unat own) = val (lr_node r)" using stepD(2) [OF V'(1), of own] o by auto
        show "safe ?P (obind (lg_merge lg2 own nc) (\<lambda>(winner, lg3). Ok (note_const (const_of_op (rw_op w)) winner lg3, fired + 1)))"
        proof (rule safe_bind2 [OF merge_step [OF stepD(1) [OF V'(1)] own(1) V'(2)]])
          show "V' (unat own) = V' (unat nc)" using own(2) V'(3) c(2) by simp
          fix winner :: u32 and lg3
          assume m: "step I a val V' lg2 V' lg3 \<and> lg_size lg3 = lg_size lg2 \<and> unat winner < lg_size lg2 \<and> V' (unat winner) = V' (unat own)"
          have k: "unat winner < lg_size lg3 \<and> V' (unat winner) = const_value k \<and> const_ok k" if "const_of_op (rw_op w) = Some k" for k
            using const_rewrite_value [OF _ c(1) that, of F I] inp m own(2) c(2) by (simp add: sat_input_def)
          have "step I a val V' lg3 V' (note_const (const_of_op (rw_op w)) winner lg3)"
            using note_const_step(1) [of I a val V' lg3 "const_of_op (rw_op w)" winner] k m by (auto simp: step_def)
          then have "step I a val V lg V' (note_const (const_of_op (rw_op w)) winner lg3)"
            using st1 V'(1) m step_trans by blast
          then show "safe ?P (Ok (note_const (const_of_op (rw_op w)) winner lg3, fired + 1))" by auto
        qed
      qed simp_all
      have B: "safe ?P ?B" if c: "unat (rw_children w ! 0) < lg_size lg" "V (unat (rw_children w ! 0)) = val (lr_node r)"
      proof -
        have lt: "unat own < lg_size lg1" "unat (rw_children w ! 0) < lg_size lg1" "V (unat own) = V (unat (rw_children w ! 0))" using o c by auto
        show ?thesis unfolding Let_def
        proof (rule safe_bind2 [OF merge_step [OF ok1 lt]])
          fix winner :: u32 and lg2
          assume m: "step I a val V lg1 V lg2 \<and> lg_size lg2 = lg_size lg1 \<and> unat winner < lg_size lg1 \<and> V (unat winner) = V (unat own)"
          let ?l = "if winner = own then rw_children w ! 0 else own"
          have "V (unat winner) = V (unat ?l)" using m lt(3) by simp
          then have "step I a val V lg2 V (propagate_const winner ?l lg2)" using propagate_step(1) [OF stepD(1)] m by auto
          then have "step I a val V lg V (propagate_const winner ?l lg2)" using st1 m step_trans by blast
          then show "safe ?P (Ok (propagate_const winner ?l lg2, fired + 1))" by auto
        qed
      qed
      have C: "safe ?P ?C" using st1 by auto
      show ?thesis using w A B C by (auto simp: const_rewrite_def split del: if_split split: if_split)
    qed
  qed
qed

section \<open>Rounds\<close>

lemma apply_rewrites_step:
  assumes "sat_input F I a val" "lg_ok I a val V lg" "\<forall>x \<in> set xs. fst x \<in> set (lg_recs lg) \<and> rw_ok I val V (lg_size lg) x"
  shows "safe (\<lambda>(lg', k). \<exists>V'. step I a val V lg V' lg') (apply_rewrites xs (lg, fired))"
  using assms(2,3)
proof (induction xs arbitrary: V lg fired)
  case (Cons x xs)
  show ?case unfolding apply_rewrites.simps
  proof (rule safe_bind [OF apply_rewrite_step [OF assms(1) Cons.prems(1)]])
    show "fst x \<in> set (lg_recs lg)" "rw_ok I val V (lg_size lg) (fst x, snd x)" using Cons.prems(2) by simp_all
    fix p :: "lifted \<times> u32" assume "case p of (lg', k) \<Rightarrow> \<exists>V'. step I a val V lg V' lg'"
    then obtain lg1 k V1 where p: "p = (lg1, k)" "step I a val V lg V1 lg1" by auto
    have "\<forall>x \<in> set xs. fst x \<in> set (lg_recs lg1) \<and> rw_ok I val V1 (lg_size lg1) x"
      using Cons.prems(2) rw_ok_step p(2) stepD(3) [OF p(2)] by simp blast
    from Cons.IH [OF stepD(1) [OF p(2)] this, of k] show "safe (\<lambda>(lg', k). \<exists>V'. step I a val V lg V' lg') (apply_rewrites xs p)"
      unfolding p(1) by (rule safe_mono) (use step_trans [OF p(2)] in blast)
  qed
qed (auto intro: step_refl)

lemma add_swapped_step:
  assumes ok: "lg_ok I a val V lg" and r: "r \<in> set (lg_recs lg)" and c: "unat c0 < lg_size lg" "unat c1 < lg_size lg"
    and val: "val (lr_node r) = I (lr_op r) [V (unat c1), V (unat c0)]"
  shows "safe (\<lambda>(lg', k). \<exists>V'. step I a val V lg V' lg') (add_swapped r c0 c1 (lg, fired))"
  unfolding add_swapped_def prod.case
proof (rule safe_bind2 [OF own_class_step [OF ok r]])
  let ?P = "\<lambda>(lg', k :: u32). \<exists>V'. step I a val V lg V' lg'"
  fix own :: u32 and lg1 assume "step I a val V lg V lg1 \<and> lg_size lg1 = lg_size lg \<and> unat own < lg_size lg \<and> V (unat own) = val (lr_node r)"
  then have s1: "step I a val V lg V lg1" "lg_ok I a val V lg1" "lg_size lg1 = lg_size lg" and own: "unat own < lg_size lg" "V (unat own) = val (lr_node r)"
    by (simp_all add: step_def)
  let ?tail = "\<lambda>swapped lg2. obind (lg_canon lg2 swapped) (\<lambda>(swapped_c, lg3).
       if own \<noteq> swapped_c then
         obind (lg_merge lg3 own swapped_c) (\<lambda>(winner, lg4).
           Ok (propagate_const winner swapped_c (propagate_const winner own lg4), fired + 1))
       else Ok (lg3, fired))"
  show "safe ?P (obind (lg_add lg1 (lr_op r) [c1, c0] None) (\<lambda>(swapped, lg2). ?tail swapped lg2))"
  proof (rule safe_bind2 [OF add_step [OF s1(2)]])
    show "\<forall>c \<in> set [c1, c0]. unat c < lg_size lg1" using c s1(3) by simp
    fix swapped :: u32 and lg2
    assume "\<exists>V'. step I a val V lg1 V' lg2 \<and> unat swapped < lg_size lg2 \<and>
      V' (unat swapped) = I (lr_op r) (map (\<lambda>c. V (unat c)) [c1, c0]) \<and> lg_class_const lg2 = lg_class_const lg1"
    then obtain V' where V': "step I a val V lg1 V' lg2" "unat swapped < lg_size lg2" "V' (unat swapped) = val (lr_node r)" using val by auto
    have own2: "unat own < lg_size lg2" "V' (unat own) = val (lr_node r)" using stepD(2) [OF V'(1), of own] own s1(3) by auto
    show "safe ?P (?tail swapped lg2)"
    proof (rule safe_bind2 [OF canon_step [OF stepD(1) [OF V'(1)] V'(2)]])
      fix sc :: u32 and lg3
      assume "step I a val V' lg2 V' lg3 \<and> lg_size lg3 = lg_size lg2 \<and> unat sc < lg_size lg2 \<and> V' (unat sc) = V' (unat swapped)"
      then have s3: "step I a val V' lg2 V' lg3" "lg_size lg3 = lg_size lg2" "unat sc < lg_size lg2" "V' (unat sc) = val (lr_node r)" using V'(3) by simp_all
      have st: "step I a val V lg V' lg3" using s1(1) V'(1) s3(1) step_trans by blast
      have lt: "unat own < lg_size lg3" "unat sc < lg_size lg3" "V' (unat own) = V' (unat sc)" using own2 s3 by simp_all
      have "safe ?P (obind (lg_merge lg3 own sc) (\<lambda>(winner, lg4). Ok (propagate_const winner sc (propagate_const winner own lg4), fired + 1)))"
      proof (rule safe_bind2 [OF merge_step [OF stepD(1) [OF s3(1)] lt]])
        fix winner :: u32 and lg4
        assume "step I a val V' lg3 V' lg4 \<and> lg_size lg4 = lg_size lg3 \<and> unat winner < lg_size lg3 \<and> V' (unat winner) = V' (unat own)"
        then have m: "step I a val V' lg3 V' lg4" "unat winner < lg_size lg4" "V' (unat winner) = V' (unat own)" "V' (unat winner) = V' (unat sc)"
          using lt(3) by simp_all
        note p1 = propagate_step [OF stepD(1) [OF m(1)] m(2,3)]
        have p2: "step I a val V' (propagate_const winner own lg4) V' (propagate_const winner sc (propagate_const winner own lg4))"
          by (rule propagate_step(1) [OF stepD(1) [OF p1(1)]]) (use m(2,4) p1(2) in simp_all)
        have "step I a val V lg V' (propagate_const winner sc (propagate_const winner own lg4))"
          using st m(1) p1(1) p2 step_trans by blast
        then show "safe ?P (Ok (propagate_const winner sc (propagate_const winner own lg4), fired + 1))" by auto
      qed
      then show "safe ?P (if own \<noteq> sc then obind (lg_merge lg3 own sc) (\<lambda>(winner, lg4). Ok (propagate_const winner sc (propagate_const winner own lg4), fired + 1))
        else Ok (lg3, fired))" using st by auto
    qed
  qed simp_all
qed

lemma swapped_value:
  assumes inp: "sat_input F I a val" and ok: "lg_ok I a val V lg" and r: "r \<in> set (lg_recs lg)"
    and two: "lr_n_children r = 2" and co: "commutative (lr_op r) (lr_elem r)"
  shows "unat (lr_children r ! 0) < lg_size lg" "unat (lr_children r ! 1) < lg_size lg"
    "val (lr_node r) = I (lr_op r) [V (unat (lr_children r ! 1)), V (unat (lr_children r ! 0))]"
proof -
  obtain m where m: "(lr_node r, m) \<in> set (live_nodes a)" "lr_op r = nd_op m" "lr_elem r = lift_elem_of (nd_ty m)"
    "unat (lr_n_children r) = length (node_uses m)" "length (node_uses m) = unat (expected_arity (nd_op m))"
    "val (lr_node r) = I (nd_op m) (map (val \<circ> vid_node) (node_uses m))"
    "\<forall>j < length (node_uses m). unat (lr_children r ! j) < lg_size lg \<and> V (unat (lr_children r ! j)) = val (vid_node (node_uses m ! j))"
    by (rule rec_value [OF inp ok r])
  have len: "length (node_uses m) = 2" using m(4) two by simp
  have u: "node_uses m ! 0 \<in> set (node_uses m)" "node_uses m ! 1 \<in> set (node_uses m)" using len by simp_all
  have nr: "\<forall>k md. nd_op m \<noteq> Reduce k md" using m(5) len by auto
  let ?v = "val (vid_node (node_uses m ! 0))" and ?w = "val (vid_node (node_uses m ! 1))"
  have i: "is_i64 ?v \<and> is_i64 ?w" if "nd_op m = Binary b" "int_elem (lr_elem r)" for b
    using int_typedD [OF inp m(1) that(1) _ u(1)] int_typedD [OF inp m(1) that(1) _ u(2)] that(2) m(3) by simp
  have "I (nd_op m) [?v, ?w] = I (nd_op m) [?w, ?v]"
    by (rule commutative_sound [where F = F and elem = "lr_elem r"]) (use inp co m(2) nr i in \<open>auto simp: sat_input_def\<close>)
  then show "unat (lr_children r ! 0) < lg_size lg" "unat (lr_children r ! 1) < lg_size lg"
    "val (lr_node r) = I (lr_op r) [V (unat (lr_children r ! 1)), V (unat (lr_children r ! 0))]"
    using m(2,6,7) len two_uses [OF len, of "val \<circ> vid_node"] by simp_all
qed

lemma commute_rec_step:
  assumes inp: "sat_input F I a val" and ok: "lg_ok I a val V lg" and r: "r \<in> set (lg_recs lg)"
  shows "safe (\<lambda>(lg', k). \<exists>V'. step I a val V lg V' lg') (commute_rec r (lg, fired))"
proof (cases "lr_n_children r \<noteq> 2 \<or> \<not> commutative (lr_op r) (lr_elem r)")
  case True
  then show ?thesis using step_refl [OF ok] by (auto simp: commute_rec_def)
next
  case False
  then have two: "lr_n_children r = 2" and co: "commutative (lr_op r) (lr_elem r)" by simp_all
  note c = swapped_value [OF inp ok r two co]
  let ?P = "\<lambda>(lg', k :: u32). \<exists>V'. step I a val V lg V' lg'"
  have "safe ?P (obind (lg_canon lg (lr_children r ! 0)) (\<lambda>(c0, lg1).
       obind (lg_canon lg1 (lr_children r ! 1)) (\<lambda>(c1, lg2). if c0 = c1 then Ok (lg2, fired) else add_swapped r c0 c1 (lg2, fired))))"
  proof (rule safe_bind2 [OF canon_step [OF ok c(1)]])
    fix c0 :: u32 and lg1
    assume s1: "step I a val V lg V lg1 \<and> lg_size lg1 = lg_size lg \<and> unat c0 < lg_size lg \<and> V (unat c0) = V (unat (lr_children r ! 0))"
    then have ok1: "lg_ok I a val V lg1" "unat (lr_children r ! 1) < lg_size lg1" using c(2) by (simp_all add: step_def)
    show "safe ?P (obind (lg_canon lg1 (lr_children r ! 1)) (\<lambda>(c1, lg2). if c0 = c1 then Ok (lg2, fired) else add_swapped r c0 c1 (lg2, fired)))"
    proof (rule safe_bind2 [OF canon_step [OF ok1]])
      fix c1 :: u32 and lg2
      assume s2: "step I a val V lg1 V lg2 \<and> lg_size lg2 = lg_size lg1 \<and> unat c1 < lg_size lg1 \<and> V (unat c1) = V (unat (lr_children r ! 1))"
      have st: "step I a val V lg V lg2" using s1 s2 step_trans by blast
      have "safe (\<lambda>(lg', k). \<exists>V'. step I a val V lg2 V' lg') (add_swapped r c0 c1 (lg2, fired))"
        by (rule add_swapped_step [OF stepD(1) [OF st]]) (use s1 s2 r c(3) stepD(3) [OF st] in simp_all)
      then have "safe ?P (add_swapped r c0 c1 (lg2, fired))" by (rule safe_mono) (use step_trans [OF st] in blast)
      then show "safe ?P (if c0 = c1 then Ok (lg2, fired) else add_swapped r c0 c1 (lg2, fired))" using st by auto
    qed
  qed
  then show ?thesis using two co by (simp add: commute_rec_def)
qed

lemma commute_recs_step:
  assumes "sat_input F I a val" "lg_ok I a val V lg" "set rs \<subseteq> set (lg_recs lg)"
  shows "safe (\<lambda>(lg', k). \<exists>V'. step I a val V lg V' lg') (commute_recs rs (lg, fired))"
  using assms(2,3)
proof (induction rs arbitrary: V lg fired)
  case (Cons r rs)
  show ?case unfolding commute_recs.simps
  proof (rule safe_bind [OF commute_rec_step [OF assms(1) Cons.prems(1)]])
    show "r \<in> set (lg_recs lg)" using Cons.prems(2) by simp
    fix p :: "lifted \<times> u32" assume "case p of (lg', k) \<Rightarrow> \<exists>V'. step I a val V lg V' lg'"
    then obtain lg1 k V1 where p: "p = (lg1, k)" "step I a val V lg V1 lg1" by auto
    have "set rs \<subseteq> set (lg_recs lg1)" using Cons.prems(2) stepD(3) [OF p(2)] by simp
    from Cons.IH [OF stepD(1) [OF p(2)] this, of k] show "safe (\<lambda>(lg', k). \<exists>V'. step I a val V lg V' lg') (commute_recs rs p)"
      unfolding p(1) by (rule safe_mono) (use step_trans [OF p(2)] in blast)
  qed
qed (auto intro: step_refl)

lemma spread_consts_step:
  assumes "lg_ok I a val V lg" "set is \<subseteq> {..< length (lg_class_const lg)}"
  shows "safe (\<lambda>lg'. step I a val V lg V lg') (spread_consts is lg)"
  using assms
proof (induction "is" arbitrary: lg)
  case (Cons i "is")
  note ok = Cons.prems(1)
  show ?case
  proof (cases "lg_class_const lg ! i")
    case None
    then show ?thesis using Cons.IH [OF ok] Cons.prems(2) by simp
  next
    case (Some k)
    then have i: "i < lg_size lg" using lg_okD(6) [OF ok, of i k] Cons.prems(2) by simp
    have w: "unat (word_of_nat i :: u32) = i" using eg_inv_class(2) [OF explainsD(1) [OF lg_okD(1) [OF ok]] i] .
    have "safe (\<lambda>lg'. step I a val V lg V lg') (obind (lg_canon lg (word_of_nat i)) (\<lambda>(c, lg'). spread_consts is (propagate_const c (word_of_nat i) lg')))"
    proof (rule safe_bind2 [OF canon_step [OF ok]])
      show "unat (word_of_nat i :: u32) < lg_size lg" using i w by simp
      fix c :: u32 and lg1
      assume s: "step I a val V lg V lg1 \<and> lg_size lg1 = lg_size lg \<and> unat c < lg_size lg \<and> V (unat c) = V (unat (word_of_nat i :: u32))"
      then have p: "step I a val V lg1 V (propagate_const c (word_of_nat i) lg1)" using propagate_step(1) [of I a val V lg1 c "word_of_nat i"] by (simp add: step_def)
      have st: "step I a val V lg V (propagate_const c (word_of_nat i) lg1)" using s p step_trans by blast
      note stepD(5) [OF st]
      then have "safe (\<lambda>lg'. step I a val V (propagate_const c (word_of_nat i) lg1) V lg') (spread_consts is (propagate_const c (word_of_nat i) lg1))"
        using Cons.IH [OF stepD(1) [OF st]] Cons.prems(2) by simp
      then show "safe (\<lambda>lg'. step I a val V lg V lg') (spread_consts is (propagate_const c (word_of_nat i) lg1))"
        by (rule safe_mono) (use step_trans [OF st] in blast)
    qed
    then show ?thesis using Some by simp
  qed
qed (simp add: step_refl)

lemma rebuild_step:
  assumes ok: "lg_ok I a val V lg"
  shows "safe (\<lambda>(m, g'). step I a val V lg V (lg\<lparr>lg_g := g'\<rparr>)) (eg_rebuild (lg_g lg))"
proof -
  obtain m g' where g': "eg_rebuild (lg_g lg) = Ok (m, g')" "explains I V g'" "eg_capacity g' = eg_capacity (lg_g lg)" "length (eg_nodes g') = lg_size lg"
    using rebuild_explains [OF lg_okD(1) [OF ok]] by blast
  have "lg_ok I a val V (lg\<lparr>lg_g := g'\<rparr>)" using ok g'(2-4) by (simp add: lg_ok_def)
  then show ?thesis using g' by (simp add: step_def)
qed

lemma run_round_step:
  assumes inp: "sat_input F I a val" and pool: "0 < pool" and ok: "lg_ok I a val V lg"
  shows "safe (\<lambda>(c, lg'). \<exists>V'. step I a val V lg V' lg') (run_round F pool in_region workers lg)"
  unfolding run_round_def Let_def
proof (rule safe_bind2 [OF snap_recs_step [OF ok order_refl]])
  let ?f = "\<lambda>s. local_rules F (rs_op s) (rs_children s) (rs_consts s) (rs_elem s)"
  fix snaps lg1
  assume "step I a val V lg V lg1 \<and> lg_size lg1 = lg_size lg \<and> list_all2 (snap_ok V (lg_size lg)) (lg_recs lg) snaps"
  then have s1: "step I a val V lg V lg1" "lg_size lg1 = lg_size lg" and sn: "list_all2 (snap_ok V (lg_size lg)) (lg_recs lg) snaps" by simp_all
  have rs: "lg_recs lg1 = lg_recs lg" by (rule stepD(3) [OF s1(1)])
  have rw: "\<forall>x \<in> set (zip (lg_recs lg) (map ?f snaps)). fst x \<in> set (lg_recs lg1) \<and> rw_ok I val V (lg_size lg1) x"
  proof
    fix x assume "x \<in> set (zip (lg_recs lg) (map ?f snaps))"
    then obtain j where j: "j < length (lg_recs lg)" "j < length snaps" "x = (lg_recs lg ! j, ?f (snaps ! j))" by (auto simp: in_set_zip)
    have "snap_ok V (lg_size lg) (lg_recs lg ! j) (snaps ! j)" using list_all2_nthD [OF sn j(1)] .
    then show "fst x \<in> set (lg_recs lg1) \<and> rw_ok I val V (lg_size lg1) x"
      using rule_ok [OF inp ok nth_mem [OF j(1)]] j rs s1(2) by simp
  qed
  let ?P = "\<lambda>(c :: u32 \<times> u32 \<times> u32, lg'). \<exists>V'. step I a val V lg V' lg'"
  let ?tl = "\<lambda>rf cf lg3. obind (eg_rebuild (lg_g lg3)) (\<lambda>(merged, g').
      obind (spread_consts [0 ..< length (lg_class_const lg3)] (lg3\<lparr>lg_g := g'\<rparr>)) (\<lambda>lg4. Ok ((rf, cf, merged), lg4)))"
  have fin: "safe ?P (?tl rf cf lg3)" if st: "step I a val V lg V3 lg3" for rf cf lg3 V3
  proof (rule safe_bind2 [OF rebuild_step [OF stepD(1) [OF st]]])
    fix m :: u32 and g' assume g': "step I a val V3 lg3 V3 (lg3\<lparr>lg_g := g'\<rparr>)"
    have "set [0 ..< length (lg_class_const lg3)] \<subseteq> {..< length (lg_class_const (lg3\<lparr>lg_g := g'\<rparr>))}" by auto
    from spread_consts_step [OF stepD(1) [OF g'] this]
    show "safe ?P (obind (spread_consts [0 ..< length (lg_class_const lg3)] (lg3\<lparr>lg_g := g'\<rparr>)) (\<lambda>lg4. Ok ((rf, cf, m), lg4)))"
    proof (rule safe_bind)
      fix lg4 assume "step I a val V3 (lg3\<lparr>lg_g := g'\<rparr>) V3 lg4"
      then have "step I a val V lg V3 lg4" using st g' step_trans by blast
      then show "safe ?P (Ok ((rf, cf, m), lg4))" by auto
    qed
  qed
  show "safe ?P (obind (apply_rewrites (zip (lg_recs lg) (rule_results F pool in_region workers snaps)) (lg1, 0)) (\<lambda>(lg2, rf).
      obind (commute_recs (lg_recs lg) (lg2, 0)) (\<lambda>(lg3, cf). ?tl rf cf lg3)))"
    unfolding rule_results_eq [OF pool]
  proof (rule safe_bind2 [OF apply_rewrites_step [OF inp stepD(1) [OF s1(1)] rw]])
    fix lg2 and rf :: u32 assume "\<exists>V'. step I a val V lg1 V' lg2"
    then obtain V2 where s2: "step I a val V lg V2 lg2" using step_trans [OF s1(1)] by blast
    have "set (lg_recs lg) \<subseteq> set (lg_recs lg2)" using stepD(3) [OF s2] by simp
    from commute_recs_step [OF inp stepD(1) [OF s2] this]
    show "safe ?P (obind (commute_recs (lg_recs lg) (lg2, 0)) (\<lambda>(lg3, cf). ?tl rf cf lg3))"
    proof (rule safe_bind2)
      fix lg3 and cf :: u32 assume "\<exists>V'. step I a val V2 lg2 V' lg3"
      then obtain V3 where "step I a val V lg V3 lg3" using step_trans [OF s2] by blast
      then show "safe ?P (?tl rf cf lg3)" by (rule fin)
    qed
  qed
qed

lemma rounds_step:
  assumes inp: "sat_input F I a val" and pool: "0 < pool"
  shows "lg_ok I a val V lg \<Longrightarrow> safe (\<lambda>(n, lg'). \<exists>V'. step I a val V lg V' lg') (rounds F pool in_region workers k lg applied)"
proof (induction k arbitrary: V lg applied)
  case (Suc k)
  let ?P = "\<lambda>(n :: u32, lg'). \<exists>V'. step I a val V lg V' lg'"
  show ?case unfolding rounds.simps
  proof (rule safe_bind [OF run_round_step [OF inp pool Suc.prems]])
    fix p :: "(u32 \<times> u32 \<times> u32) \<times> lifted" assume p: "case p of (c, lg') \<Rightarrow> \<exists>V'. step I a val V lg V' lg'"
    obtain rf cf m lg1 where eq: "p = ((rf, cf, m), lg1)" by (cases p) auto
    then obtain V1 where s: "step I a val V lg V1 lg1" using p by auto
    have "safe ?P (rounds F pool in_region workers k lg1 (applied + (rf + cf)))"
      by (rule safe_mono [OF Suc.IH [OF stepD(1) [OF s]]]) (use step_trans [OF s] in blast)
    then show "safe ?P ((\<lambda>((rf, cf, m), lg'). if rf = 0 \<and> cf = 0 \<and> m = 0 then Ok (applied + (rf + cf), lg')
       else rounds F pool in_region workers k lg' (applied + (rf + cf))) p)" using s unfolding eq by auto
  qed
qed (auto intro: step_refl)

section \<open>Lifting\<close>

lemma lift_new_ok: "budget \<le> 2 ^ 31 \<Longrightarrow> lg_ok I a val V (lift_new a budget)"
  using explains_new [of budget I V] by (auto simp: lg_ok_def lift_new_def slot_get_def nth_opt_def egraph_new_def simp del: replicate.simps split: if_splits)

lemma lift_children_ok:
  assumes "lift_children nc vs acc = Some cs" "\<forall>v \<in> set vs. \<not> nid_is_none (vid_node v)" "length acc \<le> 4"
  shows "\<exists>ds. cs = acc @ ds \<and> length ds = length vs \<and> length cs \<le> 4 \<and> (\<forall>j < length vs. slot_get nc (vid_node (vs ! j)) = Some (ds ! j))"
  using assms
proof (induction vs arbitrary: acc)
  case (Cons v vs)
  obtain c where c: "slot_get nc (vid_node v) = Some c" "length acc < 4" "lift_children nc vs (acc @ [c]) = Some cs"
    using Cons.prems(1,2) by (auto split: option.splits if_splits)
  then obtain ds where ds: "cs = (acc @ [c]) @ ds" "length ds = length vs" "length cs \<le> 4" "\<forall>j < length vs. slot_get nc (vid_node (vs ! j)) = Some (ds ! j)"
    using Cons.IH [OF c(3)] Cons.prems(2) by auto
  then show ?case using c(1) by (intro exI [of _ "c # ds"]) (auto simp: nth_Cons split: nat.split)
qed simp

lemma live_use:
  assumes "uses_live a" "(x, m) \<in> set (live_nodes a)" "v \<in> set (node_uses m)"
  shows "vid_node v \<in> set (live_ids a)" "\<not> nid_is_none (vid_node v)"
proof -
  obtain y where y: "y \<in> set (live_ids a)" "v = vid_from_node y 0" using uses_liveE [OF assms] by metis
  then show "vid_node v \<in> set (live_ids a)" by (simp add: live_handle_value)
  show "\<not> nid_is_none (vid_node v)" using y live_handle_value by (auto elim!: live_idsE)
qed

lemma rec_ok_class: "rec_ok a val V n nc r \<Longrightarrow> (\<And>y. slot_get nc y \<noteq> None \<Longrightarrow> slot_get nc' y \<noteq> None) \<Longrightarrow> rec_ok a val V n nc' r"
  unfolding rec_ok_def by blast

text \<open>Recording a node whose class is known.\<close>

lemma record_ok:
  assumes inp: "sat_input F I a val" and ok: "lg_ok I a val V lg" and m: "(x, m) \<in> set (live_nodes a)"
    and c: "unat c < lg_size lg" "V (unat c) = val x"
    and r: "\<And>nc. slot_get nc x \<noteq> None \<Longrightarrow> rec_ok a val V (lg_size lg) nc r"
  shows "lg_ok I a val V (lg\<lparr>lg_node_class := (lg_node_class lg)[unat (nid_index x) := Some c], lg_recs := lg_recs lg @ [r]\<rparr>)"
proof -
  have inv: "arena_inv a" using inp by (simp add: sat_input_def)
  note wf = arena_inv_wf [OF inv]
  have x: "x \<in> set (live_ids a)" by (rule live_node_id [OF m])
  let ?nc = "(lg_node_class lg)[unat (nid_index x) := Some c]"
  have lt: "unat (nid_index x) < length (lg_node_class lg)"
    using live_node_lookup [OF inv m] lg_okD(2) [OF ok] by (auto simp: arena_node_def slot_count_def Let_def split: if_splits)
  have self: "slot_get ?nc x = Some c" using lt by (simp add: slot_get_def nth_opt_def)
  have other: "slot_get ?nc y = slot_get (lg_node_class lg) y" if "y \<noteq> x" "y \<in> set (live_ids a)" for y
    using live_index_inj [OF wf that(2) x] that(1) by (intro slot_get_other) blast
  have some: "slot_get ?nc y \<noteq> None" if "slot_get (lg_node_class lg) y \<noteq> None" for y
    using that lt by (cases "unat (nid_index y) = unat (nid_index x)") (auto simp: slot_get_def nth_opt_def split: if_splits)
  have get: "unat d < lg_size lg \<and> V (unat d) = val y" if y: "y \<in> set (live_ids a)" "slot_get ?nc y = Some d" for y d
    using lg_okD(3) [OF ok y(1), of d] y self other [OF _ y(1)] c by (cases "y = x") auto
  have "rec_ok a val V (lg_size lg) ?nc q" if "q \<in> set (lg_recs lg @ [r])" for q
    using that rec_ok_class [OF lg_okD(4) [OF ok] some] r [of ?nc] self by auto
  then show ?thesis using ok get unfolding lg_ok_def by simp
qed

lemma lift_node_ok:
  assumes inp: "sat_input F I a val" and ok: "lg_ok I a val V lg" and m: "(x, m) \<in> set (live_nodes a)" "is_pure (nd_op m)"
  shows "safe (\<lambda>(lg', later', p). (\<exists>V'. lg_ok I a val V' lg') \<and> set later' \<subseteq> insert x (set later)) (lift_node a x (lg, later, progressed))"
proof -
  have a: "arena_inv a" "uses_live a" "consistent a I val" "arithmetic F I" "int_typed a val" using inp by (simp_all add: sat_input_def)
  have n: "arena_node a x = Inr m" by (rule live_node_lookup [OF a(1) m(1)])
  show ?thesis
  proof (cases "lift_children (lg_node_class lg) (node_uses m) []")
    case None
    then show ?thesis using ok n by (auto simp: lift_node_def)
  next
    case (Some cs)
    have "\<forall>v \<in> set (node_uses m). \<not> nid_is_none (vid_node v)" using live_use(2) [OF a(2) m(1)] by blast
    from lift_children_ok [OF Some this] have cs: "length cs = length (node_uses m)" "length cs \<le> 4"
      "\<forall>j < length (node_uses m). slot_get (lg_node_class lg) (vid_node (node_uses m ! j)) = Some (cs ! j)" by auto
    have child: "unat (cs ! j) < lg_size lg" "V (unat (cs ! j)) = val (vid_node (node_uses m ! j))" if "j < length (node_uses m)" for j
      using lg_okD(3) [OF ok live_use(1) [OF a(2) m(1) nth_mem [OF that]]] cs(3) that by auto
    have "map (\<lambda>c. V (unat c)) cs = map (val \<circ> vid_node) (node_uses m)" using cs(1) child(2) by (intro nth_equalityI) auto
    then have val: "I (nd_op m) (map (\<lambda>c. V (unat c)) cs) = val x" using consistentD [OF a(3) m] by simp
    let ?r = "\<lparr>lr_node = x, lr_op = nd_op m, lr_children = cs @ replicate (4 - length cs) 0,
      lr_n_children = word_of_nat (length cs), lr_elem = lift_elem_of (nd_ty m)\<rparr>"
    have run: "lift_node a x (lg, later, progressed) = obind (lg_add lg (nd_op m) cs (Some x)) (\<lambda>(c, lg1).
        Ok (note_const (const_of_op (nd_op m)) c (lg1\<lparr>lg_node_class := (lg_node_class lg1)[unat (nid_index x) := Some c],
          lg_recs := lg_recs lg1 @ [?r]\<rparr>), later, True))"
      by (simp add: lift_node_def n Some)
    show ?thesis unfolding run
    proof (rule safe_bind2 [OF add_step [OF ok]])
      show "\<forall>c \<in> set cs. unat c < lg_size lg" using child(1) cs(1) by (auto simp: in_set_conv_nth)
      show "length cs \<le> 4" by (rule cs(2))
      show "y \<in> set (live_ids a) \<and> val y = I (nd_op m) (map (\<lambda>c. V (unat c)) cs)" if "Some x = Some y" for y
        using that val live_node_id [OF m(1)] by simp
      fix c :: u32 and lg1
      assume "\<exists>V'. step I a val V lg V' lg1 \<and> unat c < lg_size lg1 \<and> V' (unat c) = I (nd_op m) (map (\<lambda>c. V (unat c)) cs) \<and> lg_class_const lg1 = lg_class_const lg"
      then obtain V' where V': "step I a val V lg V' lg1" "unat c < lg_size lg1" "V' (unat c) = val x" using val by auto
      have k: "unat (word_of_nat (length cs) :: u8) = length cs" using cs(2) by (intro unat_of_nat_small) simp
      have "unat (cs ! j) < lg_size lg1 \<and> V' (unat (cs ! j)) = val (vid_node (node_uses m ! j))" if "j < length (node_uses m)" for j
        using child [OF that] stepD(2) [OF V'(1), of "cs ! j"] by simp
      then have r: "rec_ok a val V' (lg_size lg1) nc ?r" if "slot_get nc x \<noteq> None" for nc
        using m cs(1,2) k that unfolding rec_ok_def by (intro exI [of _ m]) (simp add: nth_append)
      let ?lg = "lg1\<lparr>lg_node_class := (lg_node_class lg1)[unat (nid_index x) := Some c], lg_recs := lg_recs lg1 @ [?r]\<rparr>"
      have ok2: "lg_ok I a val V' ?lg" by (rule record_ok [OF inp stepD(1) [OF V'(1)] m(1) V'(2,3) r])
      have "V' (unat c) = const_value v \<and> const_ok v" if "const_of_op (nd_op m) = Some v" for v
      proof -
        have "in_i64 k" if "nd_op m = ConstI64 k" for k using a(5) m(1) that unfolding int_typed_def by fast
        then show ?thesis using that V'(3) val arithmeticD(1,2) [OF a(4)] by (cases "nd_op m") (auto simp: const_ok_def)
      qed
      then have "step I a val V' ?lg V' (note_const (const_of_op (nd_op m)) c ?lg)"
        using note_const_step(1) [OF ok2, of "const_of_op (nd_op m)" c] V'(2) by simp
      then show "safe (\<lambda>(lg', later', p). (\<exists>V'. lg_ok I a val V' lg') \<and> set later' \<subseteq> insert x (set later))
          (Ok (note_const (const_of_op (nd_op m)) c ?lg, later, True))" using stepD(1) by fastforce
    qed
  qed
qed

definition pure_live :: "arena \<Rightarrow> node_id \<Rightarrow> bool" where
  "pure_live a x \<longleftrightarrow> (\<exists>m. (x, m) \<in> set (live_nodes a) \<and> is_pure (nd_op m))"

lemma lift_pass_ok:
  assumes "sat_input F I a val" "lg_ok I a val V lg" "\<forall>x \<in> set xs \<union> set later. pure_live a x"
  shows "safe (\<lambda>(lg', later', p). (\<exists>V'. lg_ok I a val V' lg') \<and> (\<forall>x \<in> set later'. pure_live a x)) (lift_pass a xs (lg, later, progressed))"
  using assms(2,3)
proof (induction xs arbitrary: V lg later progressed)
  case (Cons x xs)
  obtain m where m: "(x, m) \<in> set (live_nodes a)" "is_pure (nd_op m)" using Cons.prems(2) by (auto simp: pure_live_def)
  show ?case unfolding lift_pass.simps
  proof (rule safe_bind [OF lift_node_ok [OF assms(1) Cons.prems(1) m]])
    fix st :: "lifted \<times> node_id list \<times> bool"
    assume st: "case st of (lg', later', p) \<Rightarrow> (\<exists>V'. lg_ok I a val V' lg') \<and> set later' \<subseteq> insert x (set later)"
    obtain lg1 later1 p1 where eq: "st = (lg1, later1, p1)" by (cases st)
    obtain V1 where "lg_ok I a val V1 lg1" "set later1 \<subseteq> insert x (set later)" using st eq by auto
    then show "safe (\<lambda>(lg', later', p). (\<exists>V'. lg_ok I a val V' lg') \<and> (\<forall>x \<in> set later'. pure_live a x)) (lift_pass a xs st)"
      unfolding eq using Cons.IH [of V1 lg1 later1] Cons.prems(2) by auto
  qed
qed auto

lemma lift_passes_ok:
  assumes "sat_input F I a val" "lg_ok I a val V lg" "\<forall>x \<in> set xs. pure_live a x"
  shows "safe (\<lambda>lg'. \<exists>V'. lg_ok I a val V' lg') (lift_passes k a xs lg)"
  using assms(2,3)
proof (induction k arbitrary: V lg xs)
  case (Suc k)
  have "safe (\<lambda>lg'. \<exists>V'. lg_ok I a val V' lg') (obind (lift_pass a xs (lg, [], False)) (\<lambda>(lg', later, progressed).
        if progressed then lift_passes k a later lg' else Ok lg'))"
  proof (rule safe_bind [OF lift_pass_ok [OF assms(1) Suc.prems(1)]])
    show "\<forall>x \<in> set xs \<union> set []. pure_live a x" using Suc.prems(2) by simp
    fix st :: "lifted \<times> node_id list \<times> bool"
    assume st: "case st of (lg', later', p) \<Rightarrow> (\<exists>V'. lg_ok I a val V' lg') \<and> (\<forall>x \<in> set later'. pure_live a x)"
    obtain lg1 later1 p1 where eq: "st = (lg1, later1, p1)" by (cases st)
    obtain V1 where "lg_ok I a val V1 lg1" "\<forall>x \<in> set later1. pure_live a x" using st eq by auto
    then show "safe (\<lambda>lg'. \<exists>V'. lg_ok I a val V' lg') (case st of (lg', later, progressed) \<Rightarrow> if progressed then lift_passes k a later lg' else Ok lg')"
      unfolding eq using Suc.IH [of V1 lg1 later1] by auto
  qed
  then show ?case using Suc.prems(1) by auto
qed auto

lemma lift_ok:
  assumes "sat_input F I a val" "budget \<le> 2 ^ 31"
  shows "safe (\<lambda>lg. \<exists>V. lg_ok I a val V lg) (lift a budget)"
proof -
  have "\<forall>x \<in> set (liftable a). pure_live a x" by (force simp: liftable_def pure_live_def)
  then show ?thesis unfolding lift_def by (rule lift_passes_ok [OF assms(1) lift_new_ok [OF assms(2)]])
qed

section \<open>Saturation is sound\<close>

definition class_of :: "lifted \<Rightarrow> node_id \<Rightarrow> nat option" where
  "class_of lg x = map_option (\<lambda>c. uf_canon (eg_uf (lg_g lg)) (unat c)) (slot_get (lg_node_class lg) x)"

lemma class_value:
  assumes ok: "lg_ok I a val V lg" and x: "x \<in> set (live_ids a)" "class_of lg x = Some c"
  shows "V c = val x" "c < lg_size lg"
proof -
  obtain d where d: "slot_get (lg_node_class lg) x = Some d" "c = uf_canon (eg_uf (lg_g lg)) (unat d)" using x(2) by (auto simp: class_of_def)
  note e = lg_okD(3) [OF ok x(1) d(1)]
  show "V c = val x" "c < lg_size lg" using canon_value(1,2) [OF lg_okD(1) [OF ok], of "unat d"] e d(2) by simp_all
qed

lemma run_rounds_ok:
  assumes "sat_input F I a val" "0 < pool" "lg_ok I a val V lg"
  shows "safe (\<lambda>(n, lg'). (\<exists>V'. lg_ok I a val V' lg') \<and> lg_node_class lg' = lg_node_class lg \<and> lg_recs lg' = lg_recs lg) (run_rounds F pool in_region workers lg)"
  unfolding run_rounds_def using rounds_step [OF assms, of in_region workers MAX_ROUNDS 0]
  by (rule safe_mono) (auto simp: step_def)


text \<open>The function \<open>x - 0\<close>: after saturation the difference is in the class of \<open>x\<close>.\<close>

definition demo_minus :: arena where
  "demo_minus = (let a = with_capacity 4 2; g = root_region a;
     b = snd (insert_node a g (node_new (Param 0) g [] (Scalar I64))); c = snd (const_i64 b g 0)
   in snd (insert_node c g (node_new (Binary BSub) g [vid_from_node (nid_pack 0 0 Graph) 0, vid_from_node (nid_pack 1 0 Graph) 0] (Scalar I64))))"

definition demo_meaning :: "xop \<Rightarrow> rvalue list \<Rightarrow> rvalue" where
  "demo_meaning op vs = (case (op, vs) of
     (ConstI64 k, _) \<Rightarrow> VI64 k | (ConstF64 c, _) \<Rightarrow> VF64 c | (Param _, _) \<Rightarrow> VI64 7
   | (Binary b, [VI64 x, VI64 y]) \<Rightarrow> (case exact_i64 b x y of Some z \<Rightarrow> VI64 z | None \<Rightarrow> VI64 0)
   | (Binary b, [VF64 x, VF64 y]) \<Rightarrow> VF64 (exact_f64 demo_fp b x y)
   | _ \<Rightarrow> VI64 0)"

lemma demo_meaning_arithmetic: "arithmetic demo_fp demo_meaning"
proof -
  have "exact_i64 b x y = exact_i64 b y x" if "b \<in> {BAdd, BMul, BMax, BMin}" for b x y using that by auto
  then show ?thesis by (simp add: arithmetic_def demo_meaning_def)
qed

definition demo_minus_val :: "node_id \<Rightarrow> rvalue" where
  "demo_minus_val x = (if nid_index x = 1 then VI64 0 else VI64 7)"

lemma demo_minus_inv: "arena_inv demo_minus"
  unfolding demo_minus_def Let_def const_i64_def
  by (intro arena_inv_insert arena_inv_with_capacity node_wf_new) (simp, simp, code_simp+)

lemma demo_minus_live: "map (\<lambda>(x, n). (x, nd_op n, node_uses n, nd_n_inputs n, nd_ty n)) (live_nodes demo_minus) =
    [(nid_pack 0 0 Graph, Param 0, [], 0, Scalar I64), (nid_pack 1 0 Graph, ConstI64 0, [], 0, Scalar I64),
     (nid_pack 2 0 Graph, Binary BSub, [vid_from_node (nid_pack 0 0 Graph) 0, vid_from_node (nid_pack 1 0 Graph) 0], 2, Scalar I64)]"
  by code_simp

lemma demo_minus_nodes:
  assumes "(x, n) \<in> set (live_nodes demo_minus)"
  shows "x = nid_pack 0 0 Graph \<and> nd_op n = Param 0 \<and> node_uses n = [] \<and> nd_n_inputs n = 0 \<or>
    x = nid_pack 1 0 Graph \<and> nd_op n = ConstI64 0 \<and> node_uses n = [] \<and> nd_n_inputs n = 0 \<or>
    x = nid_pack 2 0 Graph \<and> nd_op n = Binary BSub \<and>
      node_uses n = [vid_from_node (nid_pack 0 0 Graph) 0, vid_from_node (nid_pack 1 0 Graph) 0] \<and> nd_n_inputs n = 2"
proof -
  have "(x, nd_op n, node_uses n, nd_n_inputs n, nd_ty n) \<in> set (map (\<lambda>(x, n). (x, nd_op n, node_uses n, nd_n_inputs n, nd_ty n)) (live_nodes demo_minus))"
    using assms by (auto intro: rev_image_eqI)
  then show ?thesis unfolding demo_minus_live by auto
qed

lemma demo_minus_ids: "live_ids demo_minus = [nid_pack 0 0 Graph, nid_pack 1 0 Graph, nid_pack 2 0 Graph]"
  unfolding live_ids_def using arg_cong [OF demo_minus_live, of "map fst"] by (simp add: comp_def case_prod_beta)

lemma demo_minus_lift:
  obtains lg where "lift demo_minus 4 = Ok lg" "length (lg_recs lg) = 3"
proof -
  have "(case lift demo_minus 4 of Ok lg \<Rightarrow> length (lg_recs lg) | _ \<Rightarrow> 0) = 3" by code_simp
  then show thesis using that by (cases "lift demo_minus 4") auto
qed

lemma demo_minus_input: "sat_input demo_fp demo_meaning demo_minus demo_minus_val"
proof -
  note ids = demo_minus_ids
  have v: "demo_minus_val (nid_pack 0 0 Graph) = VI64 7" "demo_minus_val (nid_pack 1 0 Graph) = VI64 0" "demo_minus_val (nid_pack 2 0 Graph) = VI64 7"
    by (simp_all add: demo_minus_val_def)
  have w: "vid_node (vid_from_node (nid_pack 0 0 Graph) 0) = nid_pack 0 0 Graph" "vid_node (vid_from_node (nid_pack 1 0 Graph) 0) = nid_pack 1 0 Graph"
    using live_handle_value [of _ demo_minus] ids by simp_all
  have i: "is_i64 (VI64 7)" "is_i64 (VI64 0)" "in_i64 0" by (simp_all add: is_i64_def in_i64_def i64_min_def i64_max_def)
  have "uses_live demo_minus" using demo_minus_nodes ids by (fastforce simp: uses_live_def)
  moreover have "arities_ok demo_minus" using demo_minus_nodes by (fastforce simp: arities_ok_def)
  moreover have "consistent demo_minus demo_meaning demo_minus_val"
    using demo_minus_nodes v w by (fastforce simp: consistent_def demo_meaning_def)
  moreover have "int_typed demo_minus demo_minus_val"
    using demo_minus_nodes v w i by (fastforce simp: int_typed_def)
  ultimately show ?thesis using demo_minus_inv demo_meaning_arithmetic by (simp add: sat_input_def)
qed


end
