(* ===== verification/EGraph_Apply.thy ===== *)
theory EGraph_Apply
  imports Saturate_Sound Snapshot
begin

text \<open>
  Extraction and its application to the arena, \<^verbatim>\<open>crates/egraph/src/extract.rs\<close> and \<^verbatim>\<open>apply.rs\<close>: a cheapest node per class by
  cost relaxation, and the rewriting of the arena's nodes by what extraction chose, followed by dead code elimination.
\<close>

section \<open>Extraction\<close>

definition FUSION_LOCALITY_PENALTY :: u32 where "FUSION_LOCALITY_PENALTY = 64"

fun base_cost :: "xop \<Rightarrow> u32" where
  "base_cost (ConstI64 _) = 1"
| "base_cost (ConstF64 _) = 1"
| "base_cost (Param _) = 1"
| "base_cost (Binary _) = 2"
| "base_cost (Unary _) = 2"
| "base_cost Dot = 8"
| "base_cost (Reduce _ _) = 4"
| "base_cost (Transpose _ _) = FUSION_LOCALITY_PENALTY"
| "base_cost (Broadcast _) = FUSION_LOCALITY_PENALTY"
| "base_cost (Matmul _ _) = 16"
| "base_cost (Conv _ _) = 24"
| "base_cost (Rng _ _) = 4"
| "base_cost OpIf = 8"
| "base_cost (Custom _) = 32"
| "base_cost FusionCluster = 1"
| "base_cost FusionBarrier = 1"
| "base_cost FusionMaterialize = 1"
| "base_cost (LoopParallel _) = 1"
| "base_cost (LoopAlloc _ _) = 1"
| "base_cost LoopAsyncCopy = 1"
| "base_cost (LoopPipelineStage _) = 1"
| "base_cost TargetMma = 12"
| "base_cost TargetWarpShuffle = 2"
| "base_cost TargetBarrier = 2"

record extraction =
  ex_choices :: "(u32 \<times> u32 \<times> u32) list"
  ex_total_cost :: u32

text \<open>The best entry of a class so far: its cost and its node.\<close>

type_synonym class_best = "(u32 \<times> u32) option list"

definition best_get :: "class_best \<Rightarrow> u32 \<Rightarrow> (u32 \<times> u32) option" where
  "best_get cb c = (case nth_opt cb (unat c) of Some e \<Rightarrow> e | None \<Rightarrow> None)"

fun children_cost :: "class_best \<Rightarrow> u32 list \<Rightarrow> u32 \<Rightarrow> u32 option" where
  "children_cost cb [] cost = Some cost"
| "children_cost cb (c # cs) cost =
     (case best_get cb c of Some (cc, _) \<Rightarrow> children_cost cb cs (saturating_add cost cc) | None \<Rightarrow> None)"

text \<open>One node of a round: costs and choices of the nodes, and whether anything changed.\<close>

definition relax_node :: "egraph \<Rightarrow> class_best \<Rightarrow> nat \<Rightarrow> u32 list \<times> u32 option list \<times> bool \<Rightarrow> u32 list \<times> u32 option list \<times> bool" where
  "relax_node g cb i = (\<lambda>(best_cost, best_node, changed).
     let node = eg_nodes g ! i in
     case children_cost cb (take (unat (en_n_children node)) (en_children node)) (base_cost (en_op node)) of
       None \<Rightarrow> (best_cost, best_node, changed)
     | Some cost \<Rightarrow>
         if cost < best_cost ! i then (best_cost[i := cost], best_node[i := Some (word_of_nat i)], True)
         else (best_cost, best_node, changed))"

definition offer_member :: "u32 list \<Rightarrow> u32 option list \<Rightarrow> u32 \<Rightarrow> (u32 \<times> u32) option \<Rightarrow> (u32 \<times> u32) option" where
  "offer_member best_cost best_node m cbest =
     (case (case nth_opt best_node (unat m) of Some b \<Rightarrow> b | None \<Rightarrow> None) of
        None \<Rightarrow> cbest
      | Some chosen \<Rightarrow>
          let c = best_cost ! unat chosen;
              better = (case cbest of None \<Rightarrow> True | Some (bc, bn) \<Rightarrow> c < bc \<or> c = bc \<and> chosen < bn)
          in if better then Some (c, chosen) else cbest)"

definition pick_best :: "u32 list \<Rightarrow> u32 option list \<Rightarrow> u32 list \<Rightarrow> (u32 \<times> u32) option" where
  "pick_best best_cost best_node members = fold (offer_member best_cost best_node) members None"

text \<open>The class loop of a round; every class of the table has members.\<close>

primrec best_classes :: "egraph \<Rightarrow> u32 list \<Rightarrow> u32 option list \<Rightarrow> u32 list \<Rightarrow> class_best \<Rightarrow> (egraph_error, class_best) outcome" where
  "best_classes g bc bn [] cb = Ok cb"
| "best_classes g bc bn (c # cs) cb =
     (case eg_members g c of
        Inl e \<Rightarrow> Err e
      | Inr members \<Rightarrow> best_classes g bc bn cs (cb[unat c := pick_best bc bn members]))"

primrec extract_rounds :: "nat \<Rightarrow> egraph \<Rightarrow> u32 list \<Rightarrow> u32 option list \<Rightarrow> class_best \<Rightarrow> (egraph_error, class_best) outcome" where
  "extract_rounds 0 g bc bn cb = Ok cb"
| "extract_rounds (Suc k) g bc bn cb =
     (case fold (relax_node g cb) [0 ..< eg_node_count g] (bc, bn, False) of
        (bc', bn', changed) \<Rightarrow>
          obind (best_classes g bc' bn' (eg_class_ids g) cb) (\<lambda>cb'.
            if changed then extract_rounds k g bc' bn' cb' else Ok cb'))"

text \<open>The sum of the costs panics when it leaves 32 bits.\<close>

definition checked_sum :: "u32 list \<Rightarrow> u32 option" where
  "checked_sum cs = (if sum_list (map unat cs) < 2 ^ 32 then Some (sum_list cs) else None)"

definition eg_extract :: "egraph \<Rightarrow> (egraph_error, extraction) outcome" where
  "eg_extract g =
     (let n = eg_node_count g in
      obind (extract_rounds (n + 1) g (replicate n (- 1)) (replicate n None) (replicate (max n 1) None)) (\<lambda>cb.
        let choices = concat (map (\<lambda>class. case best_get cb class of Some (c, node) \<Rightarrow> [(class, node, c)] | None \<Rightarrow> []) (eg_class_ids g))
        in returned (checked_sum (map (snd \<circ> snd) choices)) (\<lambda>total. Ok \<lparr>ex_choices = choices, ex_total_cost = total\<rparr>)))"

section \<open>Application\<close>

record apply_outcome =
  ao_folds_applied :: u32
  ao_identities_applied :: u32
  ao_nodes_removed_by_dce :: u32
  ao_extraction_cost :: u32
  ao_rewrites_applied :: u32

definition replace_value_uses :: "arena \<Rightarrow> value_id \<Rightarrow> value_id \<Rightarrow> arena" where
  "replace_value_uses a from to = edit_nodes (replace_in from to) (live_ids a) a"

definition rewrite_uses_if_direct_input :: "arena \<Rightarrow> node_id \<Rightarrow> node_id \<Rightarrow> bool \<times> arena" where
  "rewrite_uses_if_direct_input a x y =
     (case (arena_node a x, arena_node a y) of
        (Inr xn, Inr yn) \<Rightarrow>
          if \<not> is_pure (nd_op yn) \<or> nd_ty xn \<noteq> nd_ty yn then (False, a)
          else if \<not> list_ex (\<lambda>v. vid_node v = y) (node_uses xn) then (False, a)
          else (True, replace_value_uses a (vid_from_node x 0) (vid_from_node y 0))
      | _ \<Rightarrow> (False, a))"

definition fold_in_place :: "arena \<Rightarrow> node_id \<Rightarrow> xop \<Rightarrow> bool \<times> arena" where
  "fold_in_place a x const_op =
     (case arena_node a x of
        Inl _ \<Rightarrow> (False, a)
      | Inr n \<Rightarrow>
          if \<not> (case nd_op n of Binary _ \<Rightarrow> True | _ \<Rightarrow> False) then (False, a)
          else
            (case (case const_op of ConstI64 _ \<Rightarrow> Some (Scalar I64) | ConstF64 _ \<Rightarrow> Some (Scalar F64) | _ \<Rightarrow> None) of
               None \<Rightarrow> (False, a)
             | Some new_ty \<Rightarrow>
                 if nd_ty n \<noteq> new_ty then (False, a)
                 else
                   (case node_mut a x (\<lambda>n. n\<lparr>nd_op := const_op, nd_ty := new_ty, nd_n_inputs := 0,
                            nd_inputs := replicate MAX_INPUTS ValueId_NONE\<rparr>) of
                      Inr a' \<Rightarrow> (True, a')
                    | Inl _ \<Rightarrow> (False, a))))"

text \<open>One record of the loop: the arena, the lifted graph (whose paths a look-up compresses) and the two counters.\<close>

definition apply_rec ::
  "(u32, u32) btree_map \<Rightarrow> lift_record \<Rightarrow> arena \<times> lifted \<times> u32 \<times> u32 \<Rightarrow> (egraph_error, arena \<times> lifted \<times> u32 \<times> u32) outcome" where
  "apply_rec choice_of r = (\<lambda>(a, lg, folds, identities).
     obind (own_class lg (lr_node r)) (\<lambda>(own, lg1).
       case bt_get choice_of own of
         None \<Rightarrow> Ok (a, lg1, folds, identities)
       | Some chosen \<Rightarrow>
           (case eg_node (lg_g lg1) chosen of
              Inl e \<Rightarrow> Err e
            | Inr chosen_node \<Rightarrow>
                let fold_here = (case fold_in_place a (lr_node r) (en_op chosen_node) of
                      (folded, a') \<Rightarrow> Ok (a', lg1, if folded then folds + 1 else folds, identities))
                in case (case nth_opt (lg_xir_of lg1) (unat (en_seq chosen_node)) of Some y \<Rightarrow> y | None \<Rightarrow> None) of
                     Some y \<Rightarrow>
                       if y = lr_node r then Ok (a, lg1, folds, identities)
                       else if (case en_op chosen_node of ConstI64 _ \<Rightarrow> True | ConstF64 _ \<Rightarrow> True | _ \<Rightarrow> False) then fold_here
                       else (case rewrite_uses_if_direct_input a (lr_node r) y of
                               (applied, a') \<Rightarrow> Ok (a', lg1, folds, if applied then identities + 1 else identities))
                   | None \<Rightarrow> fold_here)))"

primrec apply_recs ::
  "(u32, u32) btree_map \<Rightarrow> lift_record list \<Rightarrow> arena \<times> lifted \<times> u32 \<times> u32 \<Rightarrow> (egraph_error, arena \<times> lifted \<times> u32 \<times> u32) outcome" where
  "apply_recs choice_of [] st = Ok st"
| "apply_recs choice_of (r # rs) st = obind (apply_rec choice_of r st) (apply_recs choice_of rs)"

definition eg_apply :: "fp \<Rightarrow> nat \<Rightarrow> bool \<Rightarrow> nat \<Rightarrow> arena \<Rightarrow> node_id list \<Rightarrow> nat \<Rightarrow> (egraph_error, apply_outcome \<times> arena) outcome" where
  "eg_apply F pool in_region workers a roots budget =
     obind (lift a budget) (\<lambda>lg.
     obind (run_rounds F pool in_region workers lg) (\<lambda>(_, lg1).
     obind (eg_extract (lg_g lg1)) (\<lambda>ext.
       let choice_of = fold (\<lambda>(class, node, _) m. bt_insert m class node) (ex_choices ext) [] in
       obind (apply_recs choice_of (sort_key (\<lambda>r. nid_index (lr_node r)) (lg_recs lg1)) (a, lg1, 0, 0)) (\<lambda>(b, _, folds, identities).
         returned (dce_run b roots) (\<lambda>(r, c).
           case r of
             Inl _ \<Rightarrow> Err EgDce
           | Inr removed \<Rightarrow>
               Ok (\<lparr>ao_folds_applied = folds, ao_identities_applied = identities, ao_nodes_removed_by_dce = removed,
                    ao_extraction_cost = ex_total_cost ext, ao_rewrites_applied = folds + identities\<rparr>, c))))))"

section \<open>Extraction chooses members\<close>

definition nodes_ok :: "nat \<Rightarrow> u32 option list \<Rightarrow> bool" where
  "nodes_ok n bn \<longleftrightarrow> length bn = n \<and> (\<forall>i < n. \<forall>b. bn ! i = Some b \<longrightarrow> b = word_of_nat i)"

definition classes_best_ok :: "egraph \<Rightarrow> class_best \<Rightarrow> bool" where
  "classes_best_ok g cb \<longleftrightarrow> (\<forall>c k node. best_get cb c = Some (k, node) \<longrightarrow> (\<exists>ms. eg_members g c = Inr ms \<and> node \<in> set ms))"

lemma relax_nodes_ok:
  "nodes_ok n bn \<Longrightarrow> fold (relax_node g cb) is (bc, bn, ch) = (bc', bn', ch') \<Longrightarrow> nodes_ok n bn'"
proof (induction "is" arbitrary: bc bn ch)
  case (Cons i "is")
  obtain bc1 bn1 ch1 where s: "relax_node g cb i (bc, bn, ch) = (bc1, bn1, ch1)" by (metis prod_cases3)
  have "bn1 = bn \<or> bn1 = bn[i := Some (word_of_nat i)]" using s by (auto simp: relax_node_def Let_def split: option.splits if_splits)
  moreover have "nodes_ok n (bn[i := Some (word_of_nat i)])"
    using Cons.prems(1) update_cases [of bn i "Some (word_of_nat i)"] by (fastforce simp: nodes_ok_def)
  ultimately have "nodes_ok n bn1" using Cons.prems(1) by auto
  then show ?case using Cons.IH [of bn1 bc1 ch1] Cons.prems(2) s by simp
qed simp

lemma offer_member_cases:
  assumes "nodes_ok n bn"
  shows "offer_member bc bn m acc = acc \<or> (\<exists>k. offer_member bc bn m acc = Some (k, m))"
proof (cases "case nth_opt bn (unat m) of Some b \<Rightarrow> b | None \<Rightarrow> None")
  case None
  then show ?thesis by (simp add: offer_member_def)
next
  case (Some b)
  then have "b = m" using assms by (auto simp: nodes_ok_def nth_opt_def split: if_splits option.splits)
  then show ?thesis using Some by (simp add: offer_member_def Let_def)
qed

lemma pick_best_member:
  assumes "nodes_ok n bn" "pick_best bc bn ms = Some (c, node)"
  shows "node \<in> set ms"
proof -
  have "fold (offer_member bc bn) ms acc = Some (c, node) \<Longrightarrow> acc = Some (c, node) \<or> node \<in> set ms" for acc
  proof (induction ms arbitrary: acc)
    case (Cons m ms)
    have "offer_member bc bn m acc = Some (c, node) \<or> node \<in> set ms" using Cons.IH [of "offer_member bc bn m acc"] Cons.prems by simp
    then show ?case using offer_member_cases [OF assms(1), of bc m acc] by auto
  qed simp
  from this [of None] show ?thesis using assms(2) by (simp add: pick_best_def)
qed

lemma best_classes_ok:
  assumes "nodes_ok n bn"
  shows "classes_best_ok g cb \<Longrightarrow> best_classes g bc bn cs cb = Ok cb' \<Longrightarrow> classes_best_ok g cb'"
proof (induction cs arbitrary: cb)
  case (Cons c cs)
  obtain ms where ms: "eg_members g c = Inr ms" "best_classes g bc bn cs (cb[unat c := pick_best bc bn ms]) = Ok cb'"
    using Cons.prems(2) by (auto split: sum.splits)
  have "classes_best_ok g (cb[unat c := pick_best bc bn ms])" unfolding classes_best_ok_def
  proof (intro allI impI)
    fix d k node assume b: "best_get (cb[unat c := pick_best bc bn ms]) d = Some (k, node)"
    show "\<exists>ms. eg_members g d = Inr ms \<and> node \<in> set ms"
    proof (cases "unat d = unat c")
      case True
      then have "pick_best bc bn ms = Some (k, node)" using b by (auto simp: best_get_def nth_opt_def split: if_splits)
      then have "node \<in> set ms" by (rule pick_best_member [OF assms])
      moreover have "d = c" using True by (simp add: word_unat_eq_iff)
      ultimately show ?thesis using ms(1) by simp
    next
      case False
      then have "best_get cb d = Some (k, node)" using b by (auto simp: best_get_def nth_opt_def split: if_splits)
      then show ?thesis using Cons.prems(1) by (auto simp: classes_best_ok_def)
    qed
  qed
  then show ?case using Cons.IH ms(2) by blast
qed simp

lemma best_classes_total: "set cs \<subseteq> set (eg_class_ids g) \<Longrightarrow> \<exists>cb'. best_classes g bc bn cs cb = Ok cb'"
proof (induction cs arbitrary: cb)
  case (Cons c cs)
  then have "bt_get (eg_classes g) c \<noteq> None" by (simp add: eg_class_ids_def set_bt_keys)
  then show ?case using Cons by (auto simp: eg_members_def)
qed simp

lemma extract_rounds_ok:
  "nodes_ok n bn \<Longrightarrow> classes_best_ok g cb \<Longrightarrow> \<exists>cb'. extract_rounds k g bc bn cb = Ok cb' \<and> classes_best_ok g cb'"
proof (induction k arbitrary: bc bn cb)
  case (Suc k)
  obtain bc1 bn1 ch where f: "fold (relax_node g cb) [0 ..< eg_node_count g] (bc, bn, False) = (bc1, bn1, ch)" by (metis prod_cases3)
  have n1: "nodes_ok n bn1" by (rule relax_nodes_ok [OF Suc.prems(1) f])
  obtain cb1 where cb1: "best_classes g bc1 bn1 (eg_class_ids g) cb = Ok cb1" using best_classes_total [OF order_refl] by blast
  note c1 = best_classes_ok [OF n1 Suc.prems(2) cb1]
  show ?case using f cb1 c1 Suc.IH [OF n1 c1, of bc1] by auto
qed simp

lemma extract_ok:
  shows "eg_extract g = Diverges \<or> (\<exists>ext. eg_extract g = Ok ext \<and>
    (\<forall>(c, node, k) \<in> set (ex_choices ext). \<exists>ms. eg_members g c = Inr ms \<and> node \<in> set ms))"
proof -
  let ?n = "eg_node_count g"
  have "nodes_ok ?n (replicate ?n None)" by (simp add: nodes_ok_def)
  moreover have "classes_best_ok g (replicate (max ?n 1) None)" by (auto simp: classes_best_ok_def best_get_def nth_opt_def split: if_splits)
  ultimately obtain cb where cb: "extract_rounds (?n + 1) g (replicate ?n (- 1)) (replicate ?n None) (replicate (max ?n 1) None) = Ok cb" "classes_best_ok g cb"
    using extract_rounds_ok by blast
  let ?ch = "concat (map (\<lambda>c. case best_get cb c of Some (k, node) \<Rightarrow> [(c, node, k)] | None \<Rightarrow> []) (eg_class_ids g))"
  have "\<exists>ms. eg_members g c = Inr ms \<and> node \<in> set ms" if "(c, node, k) \<in> set ?ch" for c node k
  proof -
    have "best_get cb c = Some (k, node)" using that by (auto split: option.splits)
    then show ?thesis using cb(2) unfolding classes_best_ok_def by blast
  qed
  moreover have "eg_extract g = returned (checked_sum (map (snd \<circ> snd) ?ch)) (\<lambda>total. Ok \<lparr>ex_choices = ?ch, ex_total_cost = total\<rparr>)"
    using cb(1) by (simp add: eg_extract_def Let_def)
  ultimately show ?thesis by (cases "checked_sum (map (snd \<circ> snd) ?ch)") (auto simp: returned_def)
qed

lemma members_value:
  assumes "explains I V g" "eg_members g c = Inr ms" "node \<in> set ms"
  shows "unat node < length (eg_nodes g)" "V (unat node) = V (unat c)"
proof -
  note inv = explainsD(1) [OF assms(1)]
  have cls: "unat c < length (eg_nodes g)" "uf_canon (eg_uf g) (unat c) = unat c" "ms = class_members (eg_uf g) (length (eg_nodes g)) (unat c)"
    using inv assms(2) by (auto simp: eg_inv_def classes_ok_def eg_members_def split: if_splits option.splits)
  have n: "length (eg_nodes g) \<le> 2 ^ 32" using eg_inv_bound [OF inv] by simp
  obtain i where i: "node = word_of_nat i" "i < length (eg_nodes g)" "uf_canon (eg_uf g) i = unat c"
    using assms(3) class_members_props(3) [OF n] unfolding cls(3) by auto
  have w: "unat node = i" using i(1) eg_inv_class(2) [OF inv i(2)] by simp
  show "unat node < length (eg_nodes g)" using w i(2) by simp
  show "V (unat node) = V (unat c)" using explainsD(4) [OF assms(1) i(2) cls(1)] i(3) cls(2) w by simp
qed

section \<open>Application keeps values\<close>

definition keeps :: "arena \<Rightarrow> (xop \<Rightarrow> rvalue list \<Rightarrow> rvalue) \<Rightarrow> (node_id \<Rightarrow> rvalue) \<Rightarrow> arena \<Rightarrow> bool" where
  "keeps a I val b \<longleftrightarrow> arena_inv b \<and> live_ids b = live_ids a \<and> consistent b I val"

text \<open>An edit of all nodes after which every pure node still computes its value.\<close>

lemma keepsI:
  assumes "keeps a I val b" "arena_inv c" "live_ids c = live_ids b"
    and node: "\<And>y n m. y \<in> set (live_ids b) \<Longrightarrow> (y, n) \<in> set (live_nodes b) \<Longrightarrow> arena_node c y = Inr m \<Longrightarrow> is_pure (nd_op m) \<Longrightarrow>
      val y = I (nd_op m) (map (val \<circ> vid_node) (node_uses m))"
  shows "keeps a I val c"
proof -
  have "val y = I (nd_op m) (map (val \<circ> vid_node) (node_uses m))" if ym: "(y, m) \<in> set (live_nodes c)" "is_pure (nd_op m)" for y m
  proof -
    have y: "y \<in> set (live_ids b)" using live_node_id [OF ym(1)] assms(3) by simp
    obtain n where "(y, n) \<in> set (live_nodes b)" using live_lookup [of b y] assms(1) y by (auto simp: keeps_def)
    then show ?thesis using node [OF y _ live_node_lookup [OF assms(2) ym(1)] ym(2)] by blast
  qed
  then show ?thesis using assms(1-3) by (auto simp: keeps_def consistent_def)
qed

lemma fold_in_place_keeps:
  assumes k: "keeps a I val b" and x: "x \<in> set (live_ids a)" and v: "\<And>vs. (\<exists>k. op = ConstI64 k) \<or> (\<exists>c. op = ConstF64 c) \<Longrightarrow> I op vs = val x"
    and f: "fold_in_place b x op = (folded, c)"
  shows "keeps a I val c"
proof -
  have b: "arena_inv b" "x \<in> set (live_ids b)" "consistent b I val" using k x by (simp_all add: keeps_def)
  obtain n where n: "arena_node b x = Inr n" "(x, n) \<in> set (live_nodes b)" using live_lookup [OF b(1,2)] by blast
  show ?thesis
  proof (cases "c = b")
    case False
    let ?f = "\<lambda>t n. n\<lparr>nd_op := op, nd_ty := t, nd_n_inputs := 0, nd_inputs := replicate MAX_INPUTS ValueId_NONE\<rparr> :: node"
    obtain bo t where t: "nd_op n = Binary bo" "(\<exists>k. op = ConstI64 k) \<or> (\<exists>c. op = ConstF64 c)" "node_mut b x (?f t) = Inr c"
      using f False n(1) by (auto simp: fold_in_place_def Let_def split: xop.splits if_splits sum.splits)
    define P where "P y m m' \<longleftrightarrow> m' = m \<or> y = x \<and> nd_op m' = op \<and> node_uses m' = []" for y and m m' :: node
    have lv: "op_level (nd_op (?f t n)) = op_level (nd_op n)" using t(1,2) by auto
    have "\<exists>c. node_mut b x (?f t) = Inr c \<and> edited P b c"
      by (rule edited_node_mut_at [OF b(1,2) n(1)]) (use lv in \<open>auto simp: P_def node_uses_def node_wf_def\<close>)
    then have e: "edited P b c" using t(3) by simp
    show ?thesis
    proof (rule keepsI [OF k])
      show "arena_inv c" "live_ids c = live_ids b" using edited_inv [OF e] by simp_all
      fix y m m' assume y: "y \<in> set (live_ids b)" "(y, m) \<in> set (live_nodes b)" "arena_node c y = Inr m'" "is_pure (nd_op m')"
      have "P y m m'" using e y(1,3) live_node_lookup [OF b(1) y(2)] by (auto simp: edited_def)
      then show "val y = I (nd_op m') (map (val \<circ> vid_node) (node_uses m'))"
        using consistentD [OF b(3) y(2)] y(4) v [OF t(2), of "[]"] by (auto simp: P_def)
    qed
  qed (use k in simp)
qed

lemma node_uses_replace_in: "node_uses (replace_in f t n) = map (\<lambda>v. if v = f then t else v) (node_uses n)" "nd_op (replace_in f t n) = nd_op n"
  by (simp_all add: node_uses_def replace_in_def Let_def take_map)

lemma rewrite_uses_keeps:
  assumes k: "keeps a I val b" and xy: "x \<in> set (live_ids a)" "y \<in> set (live_ids a)" "val x = val y"
    and r: "rewrite_uses_if_direct_input b x y = (applied, c)"
  shows "keeps a I val c"
proof (cases "c = b")
  case False
  have b: "arena_inv b" "x \<in> set (live_ids b)" "y \<in> set (live_ids b)" "consistent b I val" using k xy by (simp_all add: keeps_def)
  let ?f = "vid_from_node x 0" and ?t = "vid_from_node y 0"
  have c: "c = replace_uses b ?f ?t"
    using r False by (auto simp: rewrite_uses_if_direct_input_def replace_value_uses_def replace_uses_def split: sum.splits if_splits)
  note facts = replace_uses_facts(1,2) [OF b(1), of ?f ?t] and at = replace_uses_facts(3) [OF b(1), of _ ?f ?t]
  have v: "val (vid_node (if v = ?f then ?t else v)) = val (vid_node v)" for v
    using live_handle_value [OF b(2)] live_handle_value [OF b(3)] xy(3) by simp
  show ?thesis
  proof (rule keepsI [OF k])
    show "arena_inv c" "live_ids c = live_ids b" using facts(1,2) c by simp_all
    fix z n m assume z: "z \<in> set (live_ids b)" "(z, n) \<in> set (live_nodes b)" "arena_node c z = Inr m" "is_pure (nd_op m)"
    have m: "m = replace_in ?f ?t n" using at [OF z(1)] live_node_lookup [OF b(1) z(2)] z(3) c by simp
    have eq: "map (val \<circ> vid_node) (node_uses m) = map (val \<circ> vid_node) (node_uses n)" using v by (simp add: m node_uses_replace_in)
    have op: "nd_op m = nd_op n" by (simp add: m node_uses_replace_in)
    show "val z = I (nd_op m) (map (val \<circ> vid_node) (node_uses m))"
      unfolding eq op using consistentD [OF b(4) z(2)] z(4) op by simp
  qed
qed (use k in simp)

definition choice_ok :: "(nat \<Rightarrow> rvalue) \<Rightarrow> nat \<Rightarrow> (u32, u32) btree_map \<Rightarrow> bool" where
  "choice_ok V n m \<longleftrightarrow> (\<forall>c node. bt_get m c = Some node \<longrightarrow> unat node < n \<and> V (unat node) = V (unat c))"

lemma apply_rec_keeps:
  assumes inp: "sat_input F I a val" and ok: "lg_ok I a val V lg" and r: "r \<in> set (lg_recs lg)" and ch: "choice_ok V (lg_size lg) choice_of"
    and k: "keeps a I val b"
  shows "safe (\<lambda>(b', lg', fs, ids). keeps a I val b' \<and> step I a val V lg V lg' \<and> lg_size lg' = lg_size lg) (apply_rec choice_of r (b, lg, fs, ids))"
  unfolding apply_rec_def prod.case
proof (rule safe_bind2 [OF own_class_step [OF ok r]])
  let ?x = "lr_node r"
  let ?P = "\<lambda>(b', lg', fs :: u32, ids :: u32). keeps a I val b' \<and> step I a val V lg V lg' \<and> lg_size lg' = lg_size lg"
  have x: "?x \<in> set (live_ids a)" using lg_okD(4) [OF ok r] live_node_id by (auto simp: rec_ok_def)
  fix own :: u32 and lg1 assume "step I a val V lg V lg1 \<and> lg_size lg1 = lg_size lg \<and> unat own < lg_size lg \<and> V (unat own) = val ?x"
  then have s: "step I a val V lg V lg1" "lg_size lg1 = lg_size lg" "V (unat own) = val ?x" by simp_all
  note ok1 = stepD(1) [OF s(1)]
  note ex1 = lg_okD(1) [OF ok1]
  have arith: "arithmetic F I" using inp by (simp add: sat_input_def)
  show "safe ?P (case bt_get choice_of own of
         None \<Rightarrow> Ok (b, lg1, fs, ids)
       | Some chosen \<Rightarrow>
           (case eg_node (lg_g lg1) chosen of
              Inl e \<Rightarrow> Err e
            | Inr chosen_node \<Rightarrow>
                let fold_here = (case fold_in_place b ?x (en_op chosen_node) of
                      (folded, a') \<Rightarrow> Ok (a', lg1, if folded then fs + 1 else fs, ids))
                in case (case nth_opt (lg_xir_of lg1) (unat (en_seq chosen_node)) of Some y \<Rightarrow> y | None \<Rightarrow> None) of
                     Some y \<Rightarrow>
                       if y = ?x then Ok (b, lg1, fs, ids)
                       else if (case en_op chosen_node of ConstI64 _ \<Rightarrow> True | ConstF64 _ \<Rightarrow> True | _ \<Rightarrow> False) then fold_here
                       else (case rewrite_uses_if_direct_input b ?x y of
                               (applied, a') \<Rightarrow> Ok (a', lg1, fs, if applied then ids + 1 else ids))
                   | None \<Rightarrow> fold_here))"
  proof (cases "bt_get choice_of own")
    case None
    then show ?thesis using k s(1,2) by simp
  next
    case (Some chosen)
    then have c: "unat chosen < lg_size lg1" "V (unat chosen) = val ?x" using ch s(2,3) by (auto simp: choice_ok_def)
    let ?n = "eg_nodes (lg_g lg1) ! unat chosen"
    have n: "eg_node (lg_g lg1) chosen = Inr ?n" using c(1) by (simp add: eg_node_def nth_opt_def)
    have seq: "unat (en_seq ?n) = unat chosen" using explainsD(3) [OF ex1 c(1)] eg_inv_class(2) [OF explainsD(1) [OF ex1] c(1)] by simp
    have const: "I (en_op ?n) vs = val ?x" if "(\<exists>k. en_op ?n = ConstI64 k) \<or> (\<exists>c. en_op ?n = ConstF64 c)" for vs
      using explainsD(2) [OF ex1 c(1)] c(2) that arithmeticD(1,2) [OF arith] by (auto simp: node_value_def)
    have fold_here: "safe ?P (case fold_in_place b ?x (en_op ?n) of (folded, a') \<Rightarrow> Ok (a', lg1, if folded then fs + 1 else fs, ids))"
    proof -
      obtain fd b' where f: "fold_in_place b ?x (en_op ?n) = (fd, b')" by fastforce
      show ?thesis using fold_in_place_keeps [OF k x const f] s(1,2) f by simp
    qed
    have rew: "safe ?P (case rewrite_uses_if_direct_input b ?x y of (applied, a') \<Rightarrow> Ok (a', lg1, fs, if applied then ids + 1 else ids))"
      if y: "lg_xir_of lg1 ! unat chosen = Some y" for y
    proof -
      obtain ap b' where f: "rewrite_uses_if_direct_input b ?x y = (ap, b')" by fastforce
      have "y \<in> set (live_ids a)" "val ?x = val y" using lg_okD(8) [OF ok1 c(1) y] c(2) by simp_all
      from rewrite_uses_keeps [OF k x this f] show ?thesis using s(1,2) f by simp
    qed
    show ?thesis using fold_here rew k s(1,2) c(1) lg_okD(7) [OF ok1]
      by (simp add: Some n seq nth_opt_def Let_def split: option.split xop.split)
  qed
qed

lemma apply_recs_keeps:
  assumes inp: "sat_input F I a val" and ok: "lg_ok I a val V lg" and rs: "set rs \<subseteq> set (lg_recs lg)" and ch: "choice_ok V (lg_size lg) choice_of"
    and k: "keeps a I val b"
  shows "safe (\<lambda>(b', lg', fs, ids). keeps a I val b') (apply_recs choice_of rs (b, lg, fs, ids))"
  using ok rs ch k
proof (induction rs arbitrary: b lg fs ids)
  case (Cons r rs)
  show ?case unfolding apply_recs.simps
  proof (rule safe_bind [OF apply_rec_keeps [OF inp Cons.prems(1) _ Cons.prems(3,4)]])
    show "r \<in> set (lg_recs lg)" using Cons.prems(2) by simp
    fix st :: "arena \<times> lifted \<times> u32 \<times> u32"
    assume st: "case st of (b', lg', fs, ids) \<Rightarrow> keeps a I val b' \<and> step I a val V lg V lg' \<and> lg_size lg' = lg_size lg"
    obtain b1 lg1 f1 i1 where eq: "st = (b1, lg1, f1, i1)" by (cases st)
    then have s: "keeps a I val b1" "step I a val V lg V lg1" "lg_size lg1 = lg_size lg" using st by simp_all
    show "safe (\<lambda>(b', lg', fs, ids). keeps a I val b') (apply_recs choice_of rs st)" unfolding eq
      by (rule Cons.IH [OF stepD(1) [OF s(2)] _ _ s(1)]) (use Cons.prems(2,3) stepD(3) [OF s(2)] s(3) in simp_all)
  qed
qed simp

lemma choice_fold:
  "bt_wf m \<Longrightarrow> bt_get (fold (\<lambda>(class, node, _) m. bt_insert m class node) cs m) c = Some node \<Longrightarrow>
     bt_get m c = Some node \<or> (\<exists>k. (c, node, k) \<in> set cs)"
proof (induction cs arbitrary: m)
  case (Cons x cs)
  obtain d nd k where x: "x = (d, nd, k)" by (cases x)
  show ?case using Cons.IH [of "bt_insert m d nd"] Cons.prems x bt_get_insert [of m d nd c] bt_wf_insert [of m d nd] by (cases "c = d") auto
qed simp

lemma dce_consistent:
  assumes inv: "arena_inv b" and con: "consistent b I val" and res: "dce_sound b roots c"
  shows "consistent c I val"
proof -
  have c: "arena_inv c" "set (live_ids c) \<subseteq> set (live_ids b)" "\<forall>x \<in> set (live_ids c). node_get c x = node_get b x"
    using res unfolding dce_sound_def by blast+
  have "val x = I (nd_op m) (map (val \<circ> vid_node) (node_uses m))" if xm: "(x, m) \<in> set (live_nodes c)" "is_pure (nd_op m)" for x m
  proof -
    from survivors_sub [OF inv c xm(1)] obtain n where n: "(x, n) \<in> set (live_nodes b)" "payload n = payload m" .
    have "nd_op (payload m) = nd_op (payload n)" "node_uses (payload m) = node_uses (payload n)" using n(2) by simp_all
    then have same: "nd_op m = nd_op n" "node_uses m = node_uses n" by (simp_all add: node_uses_def)
    show ?thesis using consistentD [OF con n(1)] xm(2) unfolding same by simp
  qed
  then show ?thesis by (auto simp: consistent_def)
qed

lemma dce_roots_stay:
  assumes inv: "arena_inv b" and res: "dce_sound b roots c" and r: "r \<in> set roots" "r \<in> set (live_ids b)"
  shows "r \<in> set (live_ids c)"
proof (rule ccontr)
  assume "r \<notin> set (live_ids c)"
  moreover obtain n where "arena_node b r = Inr n" using live_lookup [OF inv r(2)] by blast
  then have "node_get b r = Some (payload n)" by (simp add: node_get_def)
  ultimately have "unat (nid_index r) \<notin> (\<lambda>r. unat (nid_index r)) ` set roots" using res r(2) unfolding dce_sound_def by blast
  then show False using r(1) by blast
qed



end
