(* ===== verification/Spec2Isabelle.thy ===== *)
theory Spec2Isabelle
  imports Schedule_Spec Spsc_Conc Telemetry EGraph_Rebuild Codegen Canonical Runtime Mss_Search Text_Round Text_Total
    Ebr_Conc Jit_Cache EGraph_Apply
begin

text \<open>
  \<^bold>\<open>A verification library for SXLA\<close>, a compiler and runtime for tensor programs written in Rust. Paths below are
  relative to \<^verbatim>\<open>src/crates/\<close>.

  \<^bold>\<open>The program.\<close> A program is a graph of nodes in a bounded arena (\<^verbatim>\<open>xir-core\<close>), read from and printed to a text form.
  Passes over the graph (\<^verbatim>\<open>xir-graph\<close>) verify it, fold constants, number values, remove dead code and schedule it; a
  pass manager (\<^verbatim>\<open>xir-levels\<close>) runs them on immutable snapshots and accepts a result only if it verifies. The scheduled
  graph is projected to loop form, lowered to target instructions and executed by a reference interpreter (\<^verbatim>\<open>runtime\<close>);
  \<^verbatim>\<open>codegen\<close> plans tiles and buffers. Beside this pipeline stand an e-graph (\<^verbatim>\<open>egraph\<close>), a superoptimiser (\<^verbatim>\<open>mss\<close>) and the
  concurrency layer \<^verbatim>\<open>anvil\<close> (single-producer rings, telemetry, partitioned execution, epoch-based reclamation, a
  sharded hash map). The JIT exchanges requests with its callers over the rings and keeps its kernels in the map.

  \<^bold>\<open>Conventions.\<close> Structs are records, enums are datatypes, machine integers keep their width (\<^verbatim>\<open>u8\<close> to \<^verbatim>\<open>u64\<close> are words;
  \<^verbatim>\<open>i64\<close> is an integer with its range checked, since the build has overflow checks on). A method on \<^verbatim>\<open>&mut self\<close> returns the
  new state; \<^verbatim>\<open>Result\<close> is a sum with the error on the left; a function that may panic or not return has the type
  \<open>outcome\<close> of \<^theory_text>\<open>SXLA_Prelude\<close> or an option. Floating-point numbers are their bit patterns: what the source decides by
  comparison or classification is defined on the bits (\<^theory_text>\<open>F64\<close>), and arithmetic is a parameter record \<open>fp\<close> of the
  definitions that use it, as is the conversion between floats and decimals (\<open>float_text\<close>). Hash maps that only serve
  look-ups are maps, \<^verbatim>\<open>BTreeMap\<close> is a sorted association list (\<^theory_text>\<open>BTree_Map\<close>).

  \<^bold>\<open>Theories.\<close>
  \<^item> \<^theory_text>\<open>SXLA_Prelude\<close>, \<^theory_text>\<open>BTree_Map\<close>, \<^theory_text>\<open>F64\<close>: result types, saturating and checked arithmetic, lists, ordered maps, floats.
  \<^item> \<^theory_text>\<open>Ids\<close> (\<^verbatim>\<open>xir-core/src/id.rs\<close>), \<^theory_text>\<open>Ty\<close> (\<^verbatim>\<open>ty.rs\<close>), \<^theory_text>\<open>Fnv\<close> (\<^verbatim>\<open>hash.rs\<close>), \<^theory_text>\<open>Op_Node\<close> (\<^verbatim>\<open>op.rs\<close>, \<^verbatim>\<open>node.rs\<close>): packed
    handles and their bit-level round trips, shapes, hashing, operations and nodes.
  \<^item> \<^theory_text>\<open>Arena\<close> (\<^verbatim>\<open>arena.rs\<close>) with \<^theory_text>\<open>Arena_Inv\<close>, \<^theory_text>\<open>Arena_Props\<close> (the locale of handle stores and its interpretation) and
    \<^theory_text>\<open>Arena_Spec\<close>: every reachable arena satisfies the invariant (region lists are acyclic and partition the live
    slots, generations tell live from freed ones), and the contracts of insertion and removal (C1, C2, C3, C5) and enumeration.
  \<^item> \<^theory_text>\<open>Snapshot\<close> (\<^verbatim>\<open>snapshot.rs\<close>): edit logs and commits (C6, C7, C8), and an edit that breaks a region list.
  \<^item> \<^theory_text>\<open>Text\<close> (\<^verbatim>\<open>text.rs\<close>): printer, lexer, parser. \<^theory_text>\<open>Text_Lex\<close> and \<^theory_text>\<open>Text_Ops\<close> compose round trips of numbers, operations
    and types; \<^theory_text>\<open>Text_Round\<close> proves that straight-line programs parse back to the same arena (C39) and what does not read
    back; \<^theory_text>\<open>Text_Total\<close> that the parser ends on every input (C40).
  \<^item> \<^theory_text>\<open>Dominance\<close>, \<^theory_text>\<open>Dce\<close>, \<^theory_text>\<open>Gvn\<close> with \<^theory_text>\<open>Gvn_Correct\<close>, \<^theory_text>\<open>Schedule\<close> with \<^theory_text>\<open>Schedule_Correct\<close> and \<^theory_text>\<open>Schedule_Spec\<close>,
    \<^theory_text>\<open>Verifier\<close> with \<^theory_text>\<open>Verifier_Spec\<close>, \<^theory_text>\<open>Fold\<close> with \<^theory_text>\<open>Reshape\<close> (\<^verbatim>\<open>xir-graph/src/\<close>, \<^verbatim>\<open>xir-levels/src/level1.rs\<close>): the passes.
    Domination is ancestry in the region tree (C10); dead code elimination ends in a fixpoint that removes exactly the
    unneeded pure nodes (C11); both schedulers meet one specification of topological orders (C12, C13); the verifier
    decides a declarative notion of well-formed program and its errors are justified (C24, C25); value numbering and
    folding keep values (C26, C32).
  \<^item> \<^theory_text>\<open>Passman\<close>, \<^theory_text>\<open>Canonical_Wf\<close>, \<^theory_text>\<open>Canonical\<close> (\<^verbatim>\<open>xir-levels/src/passman.rs\<close>, \<^verbatim>\<open>convert.rs\<close>): the pipeline publishes only
    verified snapshots (C31); canonicalization returns on verified programs and keeps the values of what remains
    (C33, C34), but may drop a root (\<open>canonicalize_drops_root\<close>).
  \<^item> \<^theory_text>\<open>Levels\<close> (\<^verbatim>\<open>xir-levels/src/level2.rs\<close> to \<^verbatim>\<open>level4.rs\<close>), \<^theory_text>\<open>Target\<close>, \<^theory_text>\<open>Interp\<close>, \<^theory_text>\<open>Runtime\<close> (\<^verbatim>\<open>runtime/src/\<close>): loop form, target
    code and interpreter. \<^theory_text>\<open>Compile_Correct\<close> composes scheduler, projection, lowering and interpreter: the compiled program
    computes the values the graph denotes (C27) when parameters are scheduled in index order, and not otherwise (\<open>parameters_misbound\<close>);
    execution keeps values well-typed (C38).
  \<^item> \<^theory_text>\<open>Codegen\<close> (\<^verbatim>\<open>codegen/src/\<close>): exactly when the tile search returns (C29), buffer placement (C30).
  \<^item> \<^theory_text>\<open>Union_Find\<close>, \<^theory_text>\<open>EGraph\<close>, \<^theory_text>\<open>EGraph_Rebuild\<close> (\<^verbatim>\<open>egraph/src/\<close>): union-find as a partition with least representatives
    (C18, C19), hash-consing, merging and rebuilding as a sound congruence closure (C20, C21, C22).
  \<^item> \<^theory_text>\<open>Rules\<close> (\<^verbatim>\<open>rules.rs\<close>), \<^theory_text>\<open>Saturate\<close> (\<^verbatim>\<open>lift.rs\<close>, \<^verbatim>\<open>saturate.rs\<close>), \<^theory_text>\<open>Saturate_Sound\<close>, \<^theory_text>\<open>EGraph_Apply\<close> (\<^verbatim>\<open>extract.rs\<close>, \<^verbatim>\<open>apply.rs\<close>):
    lifting an arena, rewriting in rounds, extraction and write-back. Saturation leaves one value for every class (C35),
    and the rewritten arena satisfies the equations of the program (C4).
  \<^item> \<^theory_text>\<open>Spsc\<close>, \<^theory_text>\<open>Spsc_Conc\<close>, \<^theory_text>\<open>Telemetry\<close>, \<^theory_text>\<open>Executor\<close> (\<^verbatim>\<open>anvil/src/\<close>, \<^verbatim>\<open>jit/src/boundary.rs\<close>): the ring refines a bounded queue
    across wrap-around of its counters (C14) and under every interleaving of producer and consumer (C15); telemetry
    accounts for every event (C16), fuel is exact (C17); partitioned runs compute a map.
  \<^item> \<^theory_text>\<open>Ebr\<close>, \<^theory_text>\<open>Ebr_Conc\<close> (\<^verbatim>\<open>anvil/src/ebr.rs\<close>), \<^theory_text>\<open>Sharded\<close> (\<^verbatim>\<open>sharded.rs\<close>), \<^theory_text>\<open>Jit_Cache\<close> (\<^verbatim>\<open>jit/src/cache.rs\<close>): under every interleaving of
    readers, retiring and collecting threads nothing a reader holds is freed (C23); the open-addressing map, with
    tombstones and resizing, refines a finite map (C28), and the cache over both a map of bounded size (C9).
  \<^item> \<^theory_text>\<open>Mss\<close>, \<^theory_text>\<open>Mss_Correct\<close>, \<^theory_text>\<open>Mss_Materialize\<close>, \<^theory_text>\<open>Mss_Search\<close> (\<^verbatim>\<open>mss/src/\<close>): every mutation keeps the meaning of the root
    (C36) and the search returns an equivalent program of no worse rank (C37).

  \<^bold>\<open>Bounds and fuel.\<close> Loops that the source bounds itself (alias walks, scheduling, propagation, lifting and saturation
  rounds) keep that bound. Loops with a decreasing quantity are functions with a termination proof. Three loops need more:
  the statement loop of the parser has as much fuel as there are tokens, which C40 shows to be enough; the tile search is a
  partial function, which C29 shows to return except in the stated case; so is the insertion into the sharded map, which
  retries after a resize and of which C28 shows that it returns.

  \<^bold>\<open>Not modelled.\<close> \<^verbatim>\<open>fusion\<close>, \<^verbatim>\<open>supertensor\<close> and the \<^verbatim>\<open>jit\<close> driver on top of them; of \<^verbatim>\<open>anvil\<close> the bump allocator, padding
  and typed buffers (raw memory), the work-stealing deque, the fork-join executor and the hand-off between the pool and
  its helpers, whose correctness rests on the memory orderings of the hardware; the command line tools, benches and tests.
\<close>

end
